(* ===== verification/Mbox_Prelude.thy ===== *)
theory Mbox_Prelude
  imports Main "HOL-Library.Code_Target_Nat"
begin

text \<open>
  What the components share: the outcomes of C code that has no defined result, the
  sequencing of steps that may have one, \<open>size_t\<close> and \<open>int\<close> arithmetic at
  their widths, blocks of memory with their bounds and uninitialised bytes, and the
  functions of the C library the sources call on bytes and on strings.
\<close>

section \<open>Outcomes\<close>

text \<open>
  A step of the C code either yields a value (\<open>Inr\<close>) or does something the language
  gives no result for (\<open>Inl\<close>): an access outside its object, a read of a byte that
  was never written, a null or dangling pointer, a lock taken twice by its owner, a loop
  that never ends, an \<open>int\<close> operation whose result is no \<open>int\<close>, a shift by the width
  of its operand or more, a division by zero, a formatting with variable arguments that an earlier one
  has used up.
\<close>

datatype c_error =
    OutOfBounds
  | UninitRead
  | NullDeref
  | UseAfterFree
  | Deadlock
  | Diverges
  | IntOverflow
  | BadShift
  | DivByZero
  | UsedArgs

fun bindE :: "'e + 'a \<Rightarrow> ('a \<Rightarrow> 'e + 'b) \<Rightarrow> 'e + 'b" where
  "bindE (Inl e) f = Inl e"
| "bindE (Inr x) f = f x"

named_theorems outcome_simps \<open>inversion of sequenced steps\<close>

lemma bindE_Inr_iff [outcome_simps]:
  "bindE m f = Inr y \<longleftrightarrow> (\<exists>x. m = Inr x \<and> f x = Inr y)"
  by (cases m) auto

lemma bindE_Inl_iff:
  "bindE m f = Inl e \<longleftrightarrow> m = Inl e \<or> (\<exists>x. m = Inr x \<and> f x = Inl e)"
  by (cases m) auto

lemma bindE_assoc: "bindE (bindE m f) g = bindE m (\<lambda>x. bindE (f x) g)"
  by (cases m) auto

lemma bindE_cong [fundef_cong]:
  "m = m' \<Longrightarrow> (\<And>x. m' = Inr x \<Longrightarrow> f x = g x) \<Longrightarrow> bindE m f = bindE m' g"
  by (cases m') auto

lemma bindE_if [simp]:
  "bindE (if c then a else b) f = (if c then bindE a f else bindE b f)"
  by simp

section \<open>Integers at their widths\<close>

abbreviation SIZE_MOD :: nat where "SIZE_MOD \<equiv> 2 ^ 64"

definition size_add :: "nat \<Rightarrow> nat \<Rightarrow> nat" where
  "size_add a b = (a + b) mod SIZE_MOD"

definition size_sub :: "nat \<Rightarrow> nat \<Rightarrow> nat" where
  "size_sub a b = (a + (SIZE_MOD - b mod SIZE_MOD)) mod SIZE_MOD"

lemma size_add_small [simp]: "a + b < SIZE_MOD \<Longrightarrow> size_add a b = a + b"
  by (simp add: size_add_def)

lemma size_sub_le [simp]:
  assumes "b \<le> a" and "a < SIZE_MOD"
  shows "size_sub a b = a - b"
proof -
  from assms(1) obtain d where d: "a = d + b" by (metis le_add_diff_inverse2)
  then have "(a + (SIZE_MOD - b mod SIZE_MOD)) mod SIZE_MOD = (d + SIZE_MOD) mod SIZE_MOD"
    using assms(2) by simp
  also have "\<dots> = d" using d assms(2) by (simp del: numeral_power_eq_of_nat_cancel_iff)
  finally show ?thesis using d by (simp add: size_sub_def)
qed

lemma size_sub_wraps:
  assumes "a < b" and "b < SIZE_MOD"
  shows "size_sub a b = SIZE_MOD - (b - a)"
  using assms by (simp add: size_sub_def)

lemma size_add_bound [simp]: "size_add a b < SIZE_MOD"
  by (simp add: size_add_def)

lemma size_sub_bound [simp]: "size_sub a b < SIZE_MOD"
  by (simp add: size_sub_def)

text \<open>A \<open>size_t\<close> converted to \<open>unsigned int\<close>, and one converted to \<open>int\<close>.\<close>

definition to_uint :: "nat \<Rightarrow> nat" where
  "to_uint n = n mod 2 ^ 32"

definition to_int :: "nat \<Rightarrow> int" where
  "to_int n = (let m = n mod 2 ^ 32 in if m < 2 ^ 31 then int m else int m - 2 ^ 32)"

text \<open>A \<open>long\<close> converted to \<open>int\<close>, and an \<open>int\<close> operation, which must not overflow.\<close>

definition int_of_long :: "int \<Rightarrow> int" where
  "int_of_long x = (x + 2 ^ 31) mod 2 ^ 32 - 2 ^ 31"

definition int_op :: "int \<Rightarrow> c_error + int" where
  "int_op x = (if - (2 ^ 31) \<le> x \<and> x < 2 ^ 31 then Inr x else Inl IntOverflow)"

lemma int_of_long_small [simp]: "- (2 ^ 31) \<le> x \<Longrightarrow> x < 2 ^ 31 \<Longrightarrow> int_of_long x = x"
  by (simp add: int_of_long_def)

lemma int_op_small [simp]: "- (2 ^ 31) \<le> x \<Longrightarrow> x < 2 ^ 31 \<Longrightarrow> int_op x = Inr x"
  by (simp add: int_op_def)

lemma to_uint_small [simp]: "n < 2 ^ 32 \<Longrightarrow> to_uint n = n"
  by (simp add: to_uint_def)

lemma to_int_small [simp]: "n < 2 ^ 31 \<Longrightarrow> to_int n = int n"
  by (simp add: to_int_def)

section \<open>Counting loops\<close>

text \<open>\<open>for (i = lo; i < hi; ++i) body\<close>, over a state that the body updates.\<close>

function for_range :: "nat \<Rightarrow> nat \<Rightarrow> (nat \<Rightarrow> 's \<Rightarrow> 'e + 's) \<Rightarrow> 's \<Rightarrow> 'e + 's" where
  "for_range lo hi body s =
     (if lo < hi then bindE (body lo s) (for_range (Suc lo) hi body) else Inr s)"
  by pat_completeness auto
termination
  by (relation "measure (\<lambda>(lo, hi, body, s). hi - lo)") auto

declare for_range.simps [simp del]

lemma for_range_done [simp]: "hi \<le> lo \<Longrightarrow> for_range lo hi body s = Inr s"
  by (simp add: for_range.simps)

lemma for_range_step [simp]:
  "lo < hi \<Longrightarrow> for_range lo hi body s = bindE (body lo s) (for_range (Suc lo) hi body)"
  by (simp add: for_range.simps)

text \<open>The loop rule: an invariant indexed by the counter, kept by every round.\<close>

lemma for_range_total:
  assumes "lo \<le> hi" and "P lo s"
    and "\<And>i s. lo \<le> i \<Longrightarrow> i < hi \<Longrightarrow> P i s \<Longrightarrow> \<exists>s'. body i s = Inr s' \<and> P (Suc i) s'"
  shows "\<exists>s'. for_range lo hi body s = Inr s' \<and> P hi s'"
  using assms
proof (induction "hi - lo" arbitrary: lo s)
  case 0
  then show ?case by simp
next
  case (Suc d)
  then have "lo < hi" by simp
  with Suc.prems obtain s' where s': "body lo s = Inr s'" "P (Suc lo) s'" by blast
  have "\<exists>t. for_range (Suc lo) hi body s' = Inr t \<and> P hi t"
    using Suc.hyps(2) \<open>lo < hi\<close> s' Suc.prems(3) by (intro Suc.hyps(1)) auto
  with s' \<open>lo < hi\<close> show ?case by simp
qed

section \<open>Bytes\<close>

type_synonym mboxChar = char

abbreviation NUL :: mboxChar where "NUL \<equiv> CHR 0x00"
abbreviation TAB :: mboxChar where "TAB \<equiv> CHR 0x09"
abbreviation LF :: mboxChar where "LF \<equiv> CHR 0x0A"
abbreviation CR :: mboxChar where "CR \<equiv> CHR 0x0D"

definition byte :: "mboxChar \<Rightarrow> nat" where
  "byte c = of_char c"

definition chr_of :: "nat \<Rightarrow> mboxChar" where
  "chr_of n = char_of n"

lemma byte_bound [simp]: "byte c < 256"
proof -
  have "(of_char c :: nat) mod 256 = of_char c"
    by (rule of_char_mod_256)
  moreover have "(of_char c :: nat) mod 256 < 256"
    by simp
  ultimately show ?thesis by (simp add: byte_def)
qed

lemma byte_inj [simp]: "byte a = byte b \<longleftrightarrow> a = b"
  by (simp add: byte_def)

lemma chr_of_byte [simp]: "chr_of (byte c) = c"
  by (simp add: chr_of_def byte_def)

lemma byte_chr_of: "byte (chr_of n) = n mod 256"
  by (simp add: chr_of_def byte_def)

text \<open>\<open>tolower\<close>, \<open>toupper\<close> and \<open>isspace\<close> in the C locale.\<close>

definition c_tolower :: "mboxChar \<Rightarrow> mboxChar" where
  "c_tolower c = (if 65 \<le> byte c \<and> byte c \<le> 90 then chr_of (byte c + 32) else c)"

definition c_toupper :: "mboxChar \<Rightarrow> mboxChar" where
  "c_toupper c = (if 97 \<le> byte c \<and> byte c \<le> 122 then chr_of (byte c - 32) else c)"

definition c_isspace :: "mboxChar \<Rightarrow> bool" where
  "c_isspace c \<longleftrightarrow> byte c = 32 \<or> (9 \<le> byte c \<and> byte c \<le> 13)"

lemma byte_tolower:
  "byte (c_tolower c) = (if 65 \<le> byte c \<and> byte c \<le> 90 then byte c + 32 else byte c)"
  by (auto simp: c_tolower_def byte_chr_of)

lemma tolower_idem [simp]: "c_tolower (c_tolower c) = c_tolower c"
  unfolding byte_inj [symmetric] by (simp add: byte_tolower)

lemma tolower_NUL_iff [simp]: "c_tolower c = NUL \<longleftrightarrow> c = NUL"
proof -
  have "byte NUL = 0" by (simp add: byte_def)
  then show ?thesis unfolding byte_inj [symmetric] by (simp add: byte_tolower)
qed

section \<open>Blocks of memory\<close>

text \<open>
  A block is what one call of \<open>malloc\<close> returns: as many bytes as were asked for, each
  \<open>None\<close> until it is written. An allocation of more than \<open>PTRDIFF_MAX\<close> bytes
  fails; the null pointer it then returns is the empty block, which has no byte to access.
\<close>

type_synonym block = "mboxChar option list"

abbreviation PTRDIFF_MAX :: nat where "PTRDIFF_MAX \<equiv> 2 ^ 63 - 1"

definition blk_malloc :: "nat \<Rightarrow> block" where
  "blk_malloc n = (if n \<le> PTRDIFF_MAX then replicate n None else [])"

definition blk_realloc :: "block \<Rightarrow> nat \<Rightarrow> block" where
  "blk_realloc m n = take n m @ replicate (n - length m) None"

definition blk_read :: "block \<Rightarrow> nat \<Rightarrow> c_error + mboxChar" where
  "blk_read m i =
     (if i < length m then (case m ! i of None \<Rightarrow> Inl UninitRead | Some c \<Rightarrow> Inr c)
      else Inl OutOfBounds)"

definition blk_write :: "block \<Rightarrow> nat \<Rightarrow> mboxChar \<Rightarrow> c_error + block" where
  "blk_write m i c = (if i < length m then Inr (m[i := Some c]) else Inl OutOfBounds)"

text \<open>\<open>memcpy\<close> and \<open>memmove\<close>: \<open>n\<close> bytes of \<open>src\<close> from \<open>from\<close> on, to
  \<open>dst\<close> from \<open>to\<close> on.\<close>

definition blk_copy :: "block \<Rightarrow> nat \<Rightarrow> block \<Rightarrow> nat \<Rightarrow> nat \<Rightarrow> c_error + block" where
  "blk_copy dst to src from n =
     (if to + n \<le> length dst \<and> from + n \<le> length src
      then Inr (take to dst @ take n (drop from src) @ drop (to + n) dst)
      else Inl OutOfBounds)"

text \<open>A string literal of the source, with the zero byte that ends it.\<close>

definition c_lit :: "string \<Rightarrow> block" where
  "c_lit s = map Some s @ [Some NUL]"

lemma length_malloc [simp]: "n \<le> PTRDIFF_MAX \<Longrightarrow> length (blk_malloc n) = n"
  by (simp add: blk_malloc_def)

lemma length_realloc [simp]: "length (blk_realloc m n) = n"
  by (simp add: blk_realloc_def)

lemma nth_realloc:
  "i < n \<Longrightarrow> blk_realloc m n ! i = (if i < length m then m ! i else None)"
  by (simp add: blk_realloc_def nth_append)

lemma take_realloc: "k \<le> n \<Longrightarrow> k \<le> length m \<Longrightarrow> take k (blk_realloc m n) = take k m"
  by (simp add: blk_realloc_def min_def)

lemma blk_read_Inr_iff [outcome_simps]:
  "blk_read m i = Inr c \<longleftrightarrow> i < length m \<and> m ! i = Some c"
  by (auto simp: blk_read_def split: option.splits)

lemma blk_read_SomeI: "i < length m \<Longrightarrow> m ! i = Some c \<Longrightarrow> blk_read m i = Inr c"
  by (simp add: blk_read_def)

lemma blk_write_Inr_iff [outcome_simps]:
  "blk_write m i c = Inr m' \<longleftrightarrow> i < length m \<and> m' = m[i := Some c]"
  by (auto simp: blk_write_def)

lemma blk_copy_Inr_iff [outcome_simps]:
  "blk_copy dst to src from n = Inr m \<longleftrightarrow>
     to + n \<le> length dst \<and> from + n \<le> length src \<and>
     m = take to dst @ take n (drop from src) @ drop (to + n) dst"
  by (auto simp: blk_copy_def)

lemma length_lit [simp]: "length (c_lit s) = Suc (length s)"
  by (simp add: c_lit_def)

lemma nth_lit: "i < length s \<Longrightarrow> c_lit s ! i = Some (s ! i)"
  by (simp add: c_lit_def nth_append)

text \<open>Reading an array of known contents.\<close>

definition list_at :: "'a list \<Rightarrow> nat \<Rightarrow> c_error + 'a" where
  "list_at xs i = (if i < length xs then Inr (xs ! i) else Inl OutOfBounds)"

lemma list_at_Inr [simp]: "i < length xs \<Longrightarrow> list_at xs i = Inr (xs ! i)"
  by (simp add: list_at_def)

section \<open>Pointers\<close>

text \<open>
  A pointer to a node is an address or null; a \<open>void *\<close> is null (\<open>None\<close>) or what it
  points to.
\<close>

type_synonym ptr = "nat option"
type_synonym 'v void_ptr = "'v option"

text \<open>What a pointer points to.\<close>

definition deref :: "'a option \<Rightarrow> c_error + 'a" where
  "deref p = (case p of None \<Rightarrow> Inl NullDeref | Some m \<Rightarrow> Inr m)"

lemma deref_Some [simp]: "deref (Some m) = Inr m"
  by (simp add: deref_def)

section \<open>Strings of the C library\<close>

text \<open>
  \<open>strncmp\<close> (\<open>f = id\<close>) and \<open>strncasecmp\<close> (\<open>f = c_tolower\<close>): at most \<open>n\<close>
  bytes of two blocks are compared, up to the first difference or the first zero byte.
  The result has the sign of the difference of the first bytes that differ.
\<close>

fun c_strncmp ::
  "(mboxChar \<Rightarrow> mboxChar) \<Rightarrow> block \<Rightarrow> nat \<Rightarrow> block \<Rightarrow> nat \<Rightarrow> nat \<Rightarrow> c_error + int" where
  "c_strncmp f m i m' j n =
     (if n = 0 then Inr 0
      else bindE (blk_read m i) (\<lambda>a.
           bindE (blk_read m' j) (\<lambda>b.
           if f a \<noteq> f b then Inr (int (byte (f a)) - int (byte (f b)))
           else if a = NUL then Inr 0
           else c_strncmp f m (Suc i) m' (Suc j) (n - 1))))"

declare c_strncmp.simps [simp del]

lemma c_strncmp_0 [simp]: "c_strncmp f m i m' j 0 = Inr 0"
  by (simp add: c_strncmp.simps)

lemma c_strncmp_step:
  "0 < n \<Longrightarrow> blk_read m i = Inr a \<Longrightarrow> blk_read m' j = Inr b \<Longrightarrow>
   c_strncmp f m i m' j n =
     (if f a \<noteq> f b then Inr (int (byte (f a)) - int (byte (f b)))
      else if a = NUL then Inr 0 else c_strncmp f m (Suc i) m' (Suc j) (n - 1))"
  by (subst c_strncmp.simps) simp

text \<open>\<open>memcmp\<close> has both operands' \<open>n\<close> bytes in bounds.\<close>

fun bytes_cmp :: "mboxChar list \<Rightarrow> mboxChar list \<Rightarrow> int" where
  "bytes_cmp (a # as) (b # bs) =
     (if a = b then bytes_cmp as bs else int (byte a) - int (byte b))"
| "bytes_cmp _ _ = 0"

definition blk_bytes :: "block \<Rightarrow> nat \<Rightarrow> nat \<Rightarrow> c_error + mboxChar list" where
  "blk_bytes m i n =
     (if length m < i + n then Inl OutOfBounds
      else if None \<in> set (take n (drop i m)) then Inl UninitRead
      else Inr (map the (take n (drop i m))))"

definition c_memcmp :: "block \<Rightarrow> block \<Rightarrow> nat \<Rightarrow> c_error + int" where
  "c_memcmp m m' n =
     bindE (blk_bytes m 0 n) (\<lambda>as. bindE (blk_bytes m' 0 n) (\<lambda>bs. Inr (bytes_cmp as bs)))"

end
