(* ===== verification/Mbox_Buf.thy ===== *)
theory Mbox_Buf
  imports Mbox_Prelude
begin

text \<open>
  The growable byte buffer of \<open>src/src/mbox-buf.c\<close>: its record, its allocation and
  growth, reading relative to its offset, appending, comparing, slicing and duplicating.
  The invariant \<open>buf_rep\<close> ties the recorded length and capacity to the block that was
  really allocated; the lemmas give the content of the buffer after each operation and say
  where an operation leaves its block.
\<close>

section \<open>The buffer and its operations\<close>

record mboxBuf =
  buf_data :: block
  buf_offset :: nat
  buf_len :: nat
  buf_capacity :: nat

definition mboxBufAlloc :: "nat \<Rightarrow> mboxBuf" where
  "mboxBufAlloc capacity =
     (let cap = size_add capacity 10
      in \<lparr>buf_data = blk_malloc cap, buf_offset = 0, buf_len = 0, buf_capacity = cap\<rparr>)"

definition mboxBufGetOffset :: "mboxBuf \<Rightarrow> nat" where
  "mboxBufGetOffset buf = buf_offset buf"

definition mboxBufSetOffset :: "mboxBuf \<Rightarrow> nat \<Rightarrow> mboxBuf" where
  "mboxBufSetOffset buf offset = buf\<lparr>buf_offset := offset\<rparr>"

definition mboxBufSetLen :: "mboxBuf \<Rightarrow> nat \<Rightarrow> c_error + mboxBuf" where
  "mboxBufSetLen buf len =
     bindE (blk_write (buf_data buf) len NUL) (\<lambda>d.
     Inr (buf\<lparr>buf_len := len, buf_data := d\<rparr>))"

definition mboxBufLen :: "mboxBuf \<Rightarrow> nat" where
  "mboxBufLen buf = buf_len buf"

definition mboxBufSetCapacity :: "mboxBuf \<Rightarrow> nat \<Rightarrow> mboxBuf" where
  "mboxBufSetCapacity buf capacity = buf\<lparr>buf_capacity := capacity\<rparr>"

definition mboxBufCapacity :: "mboxBuf \<Rightarrow> nat" where
  "mboxBufCapacity buf = buf_capacity buf"

definition mboxBufGetCharAt :: "mboxBuf \<Rightarrow> nat \<Rightarrow> c_error + mboxChar" where
  "mboxBufGetCharAt buf at =
     (if size_add (buf_offset buf) at > buf_len buf then Inr NUL
      else blk_read (buf_data buf) (size_add (buf_offset buf) at))"

definition mboxBufGetChar :: "mboxBuf \<Rightarrow> c_error + mboxChar" where
  "mboxBufGetChar buf =
     (if buf_offset buf > buf_len buf then Inr NUL
      else blk_read (buf_data buf) (buf_offset buf))"

definition mboxBufMatchCharAt :: "mboxBuf \<Rightarrow> mboxChar \<Rightarrow> nat \<Rightarrow> c_error + bool" where
  "mboxBufMatchCharAt buf ch at =
     (if size_add at (buf_offset buf) > buf_len buf then Inr False
      else bindE (blk_read (buf_data buf) (size_add (buf_offset buf) at)) (\<lambda>c. Inr (c = ch)))"

text \<open>No bound is checked here.\<close>

definition mboxBufMatchChar :: "mboxBuf \<Rightarrow> mboxChar \<Rightarrow> c_error + bool" where
  "mboxBufMatchChar buf ch =
     bindE (blk_read (buf_data buf) (buf_offset buf)) (\<lambda>c. Inr (c = ch))"

definition mboxBufAdvance :: "mboxBuf \<Rightarrow> mboxBuf" where
  "mboxBufAdvance buf = buf\<lparr>buf_offset := size_add (buf_offset buf) 1\<rparr>"

definition mboxBufAdvanceBy :: "mboxBuf \<Rightarrow> nat \<Rightarrow> mboxBuf" where
  "mboxBufAdvanceBy buf by' = buf\<lparr>buf_offset := size_add (buf_offset buf) by'\<rparr>"

definition mboxBufRewindBy :: "mboxBuf \<Rightarrow> nat \<Rightarrow> mboxBuf" where
  "mboxBufRewindBy buf by' = buf\<lparr>buf_offset := size_sub (buf_offset buf) by'\<rparr>"

definition mboxBufWouldOverflow :: "mboxBuf \<Rightarrow> nat \<Rightarrow> bool" where
  "mboxBufWouldOverflow buf additional \<longleftrightarrow> size_add (buf_offset buf) additional > buf_len buf"

text \<open>
  The parameter \<open>additional\<close> is an \<open>unsigned int\<close>: a caller's \<open>size_t\<close> loses its
  upper half on the way in.
\<close>

definition mboxBufExtendBuffer :: "mboxBuf \<Rightarrow> nat \<Rightarrow> int \<times> mboxBuf" where
  "mboxBufExtendBuffer buf additional =
     (let new_capacity = size_add (buf_capacity buf) (to_uint additional)
      in if new_capacity \<le> buf_capacity buf then (-1, buf)
         else if new_capacity > PTRDIFF_MAX then (0, buf)
         else (1, mboxBufSetCapacity
                    (buf\<lparr>buf_data := blk_realloc (buf_data buf) new_capacity\<rparr>) new_capacity))"

definition mboxBufExtendBufferIfNeeded :: "mboxBuf \<Rightarrow> nat \<Rightarrow> int \<times> mboxBuf" where
  "mboxBufExtendBufferIfNeeded buf additional =
     (if size_add (size_add (buf_len buf) 1) additional \<ge> buf_capacity buf
      then mboxBufExtendBuffer buf (if additional > 256 then additional else 256)
      else (0, buf))"

definition mboxBufToLowerCase :: "mboxBuf \<Rightarrow> c_error + mboxBuf" where
  "mboxBufToLowerCase buf =
     for_range 0 (buf_len buf) (\<lambda>i b.
       bindE (blk_read (buf_data b) i) (\<lambda>c.
       bindE (blk_write (buf_data b) i (c_tolower c)) (\<lambda>d.
       Inr (b\<lparr>buf_data := d\<rparr>)))) buf"

definition mboxBufToUpperCase :: "mboxBuf \<Rightarrow> c_error + mboxBuf" where
  "mboxBufToUpperCase buf =
     for_range 0 (buf_len buf) (\<lambda>i b.
       bindE (blk_read (buf_data b) i) (\<lambda>c.
       bindE (blk_write (buf_data b) i (c_toupper c)) (\<lambda>d.
       Inr (b\<lparr>buf_data := d\<rparr>)))) buf"

definition mboxBufPutChar :: "mboxBuf \<Rightarrow> mboxChar \<Rightarrow> c_error + mboxBuf" where
  "mboxBufPutChar buf ch =
     (let b = snd (mboxBufExtendBufferIfNeeded buf 100)
      in bindE (blk_write (buf_data b) (buf_len b) ch) (\<lambda>d.
         bindE (blk_write d (size_add (buf_len b) 1) NUL) (\<lambda>d.
         Inr (b\<lparr>buf_data := d, buf_len := size_add (buf_len b) 1\<rparr>))))"

definition mboxBufUnPutChar :: "mboxBuf \<Rightarrow> c_error + (mboxChar \<times> mboxBuf)" where
  "mboxBufUnPutChar buf =
     (if buf_len buf = 0 then Inr (NUL, buf)
      else bindE (blk_read (buf_data buf) (size_sub (buf_len buf) 2)) (\<lambda>ch.
           bindE (blk_write (buf_data buf) (buf_len buf - 1) NUL) (\<lambda>d.
           Inr (ch, buf\<lparr>buf_len := buf_len buf - 1, buf_data := d\<rparr>))))"

subsection \<open>Comparison\<close>

text \<open>\<open>strcmp\<close> has no limit; a string that is not ended within its block is read past it.\<close>

definition mboxStrCmp :: "mboxBuf \<Rightarrow> block \<Rightarrow> c_error + int" where
  "mboxStrCmp b1 s = c_strncmp id (buf_data b1) 0 s 0 (Suc (length (buf_data b1)))"

definition mboxBufNCmp :: "mboxBuf \<Rightarrow> mboxBuf \<Rightarrow> nat \<Rightarrow> c_error + int" where
  "mboxBufNCmp b1 b2 sz = c_memcmp (buf_data b1) (buf_data b2) sz"

definition mboxBufNCaseCmp :: "mboxBuf \<Rightarrow> mboxBuf \<Rightarrow> nat \<Rightarrow> c_error + int" where
  "mboxBufNCaseCmp b1 b2 sz = c_strncmp c_tolower (buf_data b1) 0 (buf_data b2) 0 sz"

definition mboxBufStrNCmp :: "mboxBuf \<Rightarrow> block \<Rightarrow> nat \<Rightarrow> c_error + int" where
  "mboxBufStrNCmp b1 s len = c_strncmp id (buf_data b1) 0 s 0 len"

definition mboxBufStrNCaseCmp :: "mboxBuf \<Rightarrow> block \<Rightarrow> nat \<Rightarrow> c_error + int" where
  "mboxBufStrNCaseCmp b1 s len = c_strncmp c_tolower (buf_data b1) 0 s 0 len"

definition mboxBufCmp :: "mboxBuf \<Rightarrow> mboxBuf \<Rightarrow> c_error + int" where
  "mboxBufCmp b1 b2 =
     (let l1 = buf_len b1; l2 = buf_len b2
      in c_memcmp (buf_data b1) (buf_data b2) (if l1 < l2 then l1 else l2))"

definition mboxBufCaseCmp :: "mboxBuf \<Rightarrow> mboxBuf \<Rightarrow> c_error + int" where
  "mboxBufCaseCmp b1 b2 =
     (let l1 = buf_len b1; l2 = buf_len b2
      in c_strncmp c_tolower (buf_data b1) 0 (buf_data b2) 0 (if l1 < l2 then l1 else l2))"

subsection \<open>Slicing, duplicating, appending\<close>

definition mboxBufSlice :: "mboxBuf \<Rightarrow> nat \<Rightarrow> nat \<Rightarrow> nat \<Rightarrow> c_error + mboxBuf" where
  "mboxBufSlice buf from to sz =
     bindE (blk_copy (buf_data buf) to (buf_data buf) from sz) (\<lambda>d.
     bindE (blk_write d sz NUL) (\<lambda>d.
     Inr (buf\<lparr>buf_data := d, buf_len := sz\<rparr>)))"

text \<open>The source of a duplicate is a pointer into a block: the block and an index.\<close>

definition mboxBufDupRaw :: "block \<Rightarrow> nat \<Rightarrow> nat \<Rightarrow> nat \<Rightarrow> c_error + mboxBuf" where
  "mboxBufDupRaw s at len capacity =
     (let dupe = mboxBufAlloc capacity
      in bindE (blk_copy (buf_data dupe) 0 s at len) (\<lambda>d.
         bindE (mboxBufSetLen (dupe\<lparr>buf_data := d\<rparr>) len) (\<lambda>dupe.
         Inr (mboxBufSetCapacity dupe capacity))))"

definition mboxBufDup :: "mboxBuf \<Rightarrow> c_error + mboxBuf" where
  "mboxBufDup buf =
     (let dupe = mboxBufAlloc (buf_len buf)
      in bindE (blk_copy (buf_data dupe) 0 (buf_data buf) 0 (buf_len buf)) (\<lambda>d.
         bindE (mboxBufSetLen (dupe\<lparr>buf_data := d\<rparr>) (buf_len buf)) (\<lambda>dupe.
         Inr (mboxBufSetCapacity dupe (buf_len buf)))))"

definition mboxBufMaybeDup :: "mboxBuf option \<Rightarrow> c_error + mboxBuf option" where
  "mboxBufMaybeDup buf =
     (case buf of Some b \<Rightarrow> bindE (mboxBufDup b) (\<lambda>d. Inr (Some d)) | None \<Rightarrow> Inr None)"

definition mboxBufWrite :: "mboxBuf \<Rightarrow> block \<Rightarrow> nat \<Rightarrow> c_error + (nat \<times> mboxBuf)" where
  "mboxBufWrite buf s len =
     (let b = snd (mboxBufExtendBufferIfNeeded buf len)
      in bindE (blk_copy (buf_data b) 0 s 0 len) (\<lambda>d.
         bindE (blk_write d len NUL) (\<lambda>d.
         Inr (len, b\<lparr>buf_data := d, buf_len := len\<rparr>))))"

definition mboxBufCatLen :: "mboxBuf \<Rightarrow> block \<Rightarrow> nat \<Rightarrow> c_error + mboxBuf" where
  "mboxBufCatLen buf d len =
     (let b = snd (mboxBufExtendBufferIfNeeded buf len)
      in bindE (blk_copy (buf_data b) (buf_len b) d 0 len) (\<lambda>m.
         bindE (blk_write m (size_add (buf_len b) len) NUL) (\<lambda>m.
         Inr (b\<lparr>buf_data := m, buf_len := size_add (buf_len b) len\<rparr>))))"

section \<open>The invariant\<close>

text \<open>
  \<open>buf_rep b s\<close>: the buffer holds the bytes \<open>s\<close>, has a byte left for the zero that
  ends them, and its recorded capacity is at most ten below what was allocated (ten is what
  \<open>mboxBufAlloc\<close> adds, and what \<open>mboxBufDup\<close> and \<open>mboxBufDupRaw\<close> hide again).
  \<open>buf_term b\<close>: the zero is there.
\<close>

definition buf_rep :: "mboxBuf \<Rightarrow> mboxChar list \<Rightarrow> bool" where
  "buf_rep b s \<longleftrightarrow>
     buf_len b = length s \<and> length s < length (buf_data b) \<and>
     take (length s) (buf_data b) = map Some s \<and>
     buf_capacity b \<le> length (buf_data b) \<and>
     length (buf_data b) \<le> buf_capacity b + 10 \<and>
     length (buf_data b) \<le> PTRDIFF_MAX"

definition buf_term :: "mboxBuf \<Rightarrow> bool" where
  "buf_term b \<longleftrightarrow> buf_len b < length (buf_data b) \<and> buf_data b ! buf_len b = Some NUL"

lemma buf_repD:
  assumes "buf_rep b s"
  shows "buf_len b = length s" "length s < length (buf_data b)"
    "take (length s) (buf_data b) = map Some s"
    "buf_capacity b \<le> length (buf_data b)" "length (buf_data b) \<le> buf_capacity b + 10"
    "length (buf_data b) \<le> PTRDIFF_MAX"
  using assms by (simp_all add: buf_rep_def)

lemma buf_rep_unique: "buf_rep b s \<Longrightarrow> buf_rep b t \<Longrightarrow> s = t"
  unfolding buf_rep_def by (metis inj_map_eq_map inj_Some)

lemma take_map_nth: "take n m = map Some s \<Longrightarrow> length s = n \<Longrightarrow> i < n \<Longrightarrow> m ! i = Some (s ! i)"
  by (metis nth_map nth_take)

lemma buf_rep_nth: "buf_rep b s \<Longrightarrow> i < length s \<Longrightarrow> buf_data b ! i = Some (s ! i)"
  by (auto simp: buf_rep_def intro: take_map_nth)

lemma buf_rep_read [simp]: "buf_rep b s \<Longrightarrow> i < length s \<Longrightarrow> blk_read (buf_data b) i = Inr (s ! i)"
  by (auto simp: buf_rep_nth blk_read_Inr_iff dest: buf_repD(2))

lemma buf_rep_cong:
  "buf_rep b s \<Longrightarrow> buf_data b' = buf_data b \<Longrightarrow> buf_len b' = buf_len b \<Longrightarrow>
   buf_capacity b' = buf_capacity b \<Longrightarrow> buf_rep b' s"
  by (simp add: buf_rep_def)

lemma buf_rep_advance [simp]: "buf_rep (mboxBufAdvance b) s \<longleftrightarrow> buf_rep b s"
  by (simp add: buf_rep_def mboxBufAdvance_def)

lemma buf_rep_set_offset [simp]: "buf_rep (b\<lparr>buf_offset := n\<rparr>) s \<longleftrightarrow> buf_rep b s"
  by (simp add: buf_rep_def)

lemma buf_term_set_offset [simp]: "buf_term (b\<lparr>buf_offset := n\<rparr>) \<longleftrightarrow> buf_term b"
  by (simp add: buf_term_def)

lemma mboxBufAlloc_rep: "n + 10 \<le> PTRDIFF_MAX \<Longrightarrow> buf_rep (mboxBufAlloc n) []"
  by (simp add: mboxBufAlloc_def buf_rep_def Let_def)

lemma mboxBufAlloc_simps [simp]:
  "buf_offset (mboxBufAlloc n) = 0" "buf_len (mboxBufAlloc n) = 0"
  "n + 10 \<le> PTRDIFF_MAX \<Longrightarrow> buf_capacity (mboxBufAlloc n) = n + 10"
  "n + 10 \<le> PTRDIFF_MAX \<Longrightarrow> length (buf_data (mboxBufAlloc n)) = n + 10"
  by (simp_all add: mboxBufAlloc_def Let_def)

section \<open>Growth\<close>

text \<open>
  What growing leaves: the same bytes, and either the old block because it had room, or one
  with \<open>max 256 additional\<close> bytes more than the recorded capacity.
\<close>

definition grown :: "mboxBuf \<Rightarrow> nat \<Rightarrow> mboxBuf \<Rightarrow> bool" where
  "grown b add b' \<longleftrightarrow>
     (b' = b \<and> buf_len b + 1 + add < buf_capacity b) \<or>
     (buf_capacity b' = buf_capacity b + max 256 add \<and>
      buf_data b' = blk_realloc (buf_data b) (buf_capacity b') \<and>
      buf_len b' = buf_len b \<and> buf_offset b' = buf_offset b \<and>
      buf_capacity b \<le> buf_len b + 1 + add)"

lemma mboxBufExtendBufferIfNeeded_grown:
  assumes "buf_rep b s" and "add < 2 ^ 32" and "buf_capacity b + max 256 add \<le> PTRDIFF_MAX"
  shows "grown b add (snd (mboxBufExtendBufferIfNeeded b add))"
proof -
  have len: "length s + 1 + add < SIZE_MOD"
    using buf_repD(2,6) [OF assms(1)] assms(2) by simp
  show ?thesis
    using assms len buf_repD(1) [OF assms(1)]
    by (auto simp: grown_def mboxBufExtendBufferIfNeeded_def mboxBufExtendBuffer_def
        mboxBufSetCapacity_def max_def Let_def split: if_splits)
qed

lemma grown_rep:
  assumes "grown b add b'" and "buf_rep b s" and "buf_capacity b + max 256 add \<le> PTRDIFF_MAX"
  shows "buf_rep b' s"
proof (cases "b' = b")
  case False
  then have new: "buf_capacity b' = buf_capacity b + max 256 add"
    "buf_data b' = blk_realloc (buf_data b) (buf_capacity b')" "buf_len b' = buf_len b"
    using assms(1) by (auto simp: grown_def)
  moreover have "length s < buf_capacity b'"
    using buf_repD(2,5) [OF assms(2)] new(1) by simp
  ultimately show ?thesis
    using assms(2,3) by (simp add: buf_rep_def take_realloc)
qed (use assms in simp)

lemma grown_offset: "grown b add b' \<Longrightarrow> buf_offset b' = buf_offset b"
  by (auto simp: grown_def)

section \<open>What each operation does to the content\<close>

lemma write_terminates:
  assumes "buf_rep b s" and "n + 1 < length (buf_data b)"
  shows "length (buf_data b) < SIZE_MOD" "size_add n 1 = n + 1"
  using buf_repD(6) [OF assms(1)] assms(2) by simp_all

lemma rep_snoc:
  assumes "buf_rep b s" and "length s + 1 < length (buf_data b)"
    and "b' = b\<lparr>buf_data := (buf_data b)[length s := Some c, length s + 1 := Some NUL],
                buf_len := length s + 1\<rparr>"
  shows "buf_rep b' (s @ [c])" "buf_term b'"
proof -
  let ?d = "(buf_data b)[length s := Some c, length s + 1 := Some NUL]"
  have "take (length s + 1) ?d = take (length s) ?d @ [?d ! length s]"
    using assms(2) by (simp add: take_Suc_conv_app_nth)
  then show "buf_rep b' (s @ [c])"
    using assms by (simp add: buf_rep_def)
  show "buf_term b'" using assms by (simp add: buf_term_def)
qed

lemma mboxBufPutChar_rep:
  assumes rep: "buf_rep b s" and room: "buf_capacity b + 256 \<le> PTRDIFF_MAX"
  shows "\<exists>b'. mboxBufPutChar b c = Inr b' \<and> buf_rep b' (s @ [c]) \<and> buf_term b' \<and>
     buf_offset b' = buf_offset b \<and> buf_capacity b' \<le> buf_capacity b + 256"
proof -
  define g where "g = snd (mboxBufExtendBufferIfNeeded b 100)"
  have gr: "grown b 100 g"
    unfolding g_def using mboxBufExtendBufferIfNeeded_grown [OF rep, of 100] room by simp
  have g: "buf_rep g s" using grown_rep [OF gr rep] room by simp
  have len: "length s + 1 < length (buf_data g)" "buf_capacity g \<le> buf_capacity b + 256"
    using gr buf_repD(1,2,4,5) [OF rep] by (auto simp: grown_def)
  note wr = write_terminates [OF g len(1)]
  define b' where "b' = g\<lparr>buf_data := (buf_data g)[length s := Some c, length s + 1 := Some NUL],
                buf_len := length s + 1\<rparr>"
  have "mboxBufPutChar b c = Inr b'"
    using len buf_repD(1) [OF g] wr
    by (simp add: mboxBufPutChar_def Let_def g_def [symmetric] blk_write_def b'_def)
  moreover note rep_snoc [OF g len(1) b'_def]
  ultimately show ?thesis
    using grown_offset [OF gr] len(2) by (auto simp: b'_def)
qed

text \<open>Writing \<open>t\<close> over the bytes from \<open>k\<close> on and ending it with a zero.\<close>

lemma rep_overwrite:
  assumes rep: "buf_rep b s" and k: "k \<le> length s"
    and fits: "k + length t < length (buf_data b)"
    and src: "n = length t" "take n (drop at m) = map Some t"
    and b': "b' = b\<lparr>buf_data := (take k (buf_data b) @ take n (drop at m) @
                 drop (k + n) (buf_data b))[k + n := Some NUL], buf_len := k + n\<rparr>"
  shows "buf_rep b' (take k s @ t)" "buf_term b'"
proof -
  have tk: "take k (buf_data b) = map Some (take k s)"
    using buf_repD(3) [OF rep] k by (metis min.absorb1 take_map take_take)
  have "length (map Some t) = n" using src(1) by simp
  then have "take (k + n) (take k (buf_data b) @ take n (drop at m) @ drop (k + n) (buf_data b))
      = map Some (take k s @ t)"
    using src tk k by simp
  then show "buf_rep b' (take k s @ t)"
    using assms by (simp add: buf_rep_def)
  show "buf_term b'" using assms by (simp add: buf_term_def nth_append)
qed

lemma mboxBufCatLen_rep:
  assumes rep: "buf_rep b s" and room: "buf_capacity b + max 256 (length t) \<le> PTRDIFF_MAX"
    and cap: "length s < buf_capacity b \<or> length t < 246"
    and n: "length t < 2 ^ 32" and src: "take (length t) d = map Some t"
  shows "\<exists>b'. mboxBufCatLen b d (length t) = Inr b' \<and> buf_rep b' (s @ t) \<and> buf_term b' \<and>
     buf_offset b' = buf_offset b \<and> buf_capacity b' \<le> buf_capacity b + max 256 (length t)"
proof -
  define g where "g = snd (mboxBufExtendBufferIfNeeded b (length t))"
  have gr: "grown b (length t) g"
    unfolding g_def by (rule mboxBufExtendBufferIfNeeded_grown [OF rep n room])
  have g: "buf_rep g s" by (rule grown_rep [OF gr rep room])
  have len: "length s + length t < length (buf_data g)"
    using gr cap buf_repD(1,2,4,5) [OF rep] by (auto simp: grown_def)
  have sm: "length s + length t < SIZE_MOD" using len buf_repD(6) [OF g] by simp
  have ld: "length t \<le> length d"
    using arg_cong [OF src, of length] by simp
  define b' where "b' = g\<lparr>buf_data := (take (length s) (buf_data g) @ take (length t) (drop 0 d) @
                 drop (length s + length t) (buf_data g))[length s + length t := Some NUL],
                 buf_len := length s + length t\<rparr>"
  have "buf_capacity g \<le> buf_capacity b + max 256 (length t)"
    using gr by (auto simp: grown_def)
  moreover have "mboxBufCatLen b d (length t) = Inr b'"
    using len ld sm buf_repD(1) [OF g]
    by (simp add: mboxBufCatLen_def Let_def g_def [symmetric] blk_write_def blk_copy_def b'_def)
  moreover have "buf_rep b' (take (length s) s @ t)" "buf_term b'"
    using rep_overwrite [OF g _ len refl _ b'_def] src by simp_all
  ultimately show ?thesis
    using grown_offset [OF gr] by (auto simp: b'_def)
qed

text \<open>
  A duplicate records a capacity equal to its length. Appending 256 bytes or more to it then
  grows the block to exactly the new length and puts the ending zero one byte past it.
\<close>

lemma mboxBufCatLen_overrun:
  assumes rep: "buf_rep b s" and room: "buf_capacity b + length t \<le> PTRDIFF_MAX"
    and cap: "buf_capacity b = length s" and n: "256 \<le> length t" "length t < 2 ^ 32"
    and src: "length t \<le> length d"
  shows "mboxBufCatLen b d (length t) = Inl OutOfBounds"
proof -
  define g where "g = snd (mboxBufExtendBufferIfNeeded b (length t))"
  have mx: "max 256 (length t) = length t" using n(1) by simp
  then have gr: "grown b (length t) g"
    unfolding g_def using mboxBufExtendBufferIfNeeded_grown [OF rep n(2)] room by simp
  then have g: "length (buf_data g) = length s + length t" "buf_len g = length s"
    using cap mx buf_repD(1) [OF rep] by (auto simp: grown_def)
  moreover have "length s + length t < SIZE_MOD" using room cap by simp
  ultimately show ?thesis
    using src by (simp add: mboxBufCatLen_def Let_def g_def [symmetric] blk_write_def blk_copy_def)
qed

lemma mboxBufWrite_rep:
  assumes rep: "buf_rep b s" and room: "buf_capacity b + max 256 (length t) \<le> PTRDIFF_MAX"
    and cap: "0 < buf_capacity b" and n: "length t < 2 ^ 32"
    and src: "take (length t) d = map Some t"
  shows "\<exists>b'. mboxBufWrite b d (length t) = Inr (length t, b') \<and> buf_rep b' t \<and> buf_term b'"
proof -
  define g where "g = snd (mboxBufExtendBufferIfNeeded b (length t))"
  have gr: "grown b (length t) g"
    unfolding g_def by (rule mboxBufExtendBufferIfNeeded_grown [OF rep n room])
  have g: "buf_rep g s" by (rule grown_rep [OF gr rep room])
  have len: "0 + length t < length (buf_data g)"
    using gr cap buf_repD(4) [OF rep] by (auto simp: grown_def)
  have ld: "length t \<le> length d"
    using arg_cong [OF src, of length] by simp
  define b' where "b' = g\<lparr>buf_data := (take 0 (buf_data g) @ take (length t) (drop 0 d) @
                 drop (0 + length t) (buf_data g))[0 + length t := Some NUL],
                 buf_len := 0 + length t\<rparr>"
  have "mboxBufWrite b d (length t) = Inr (length t, b')"
    using len ld
    by (simp add: mboxBufWrite_def Let_def g_def [symmetric] blk_write_def blk_copy_def b'_def)
  moreover have "buf_rep b' (take 0 s @ t)" "buf_term b'"
    using rep_overwrite [OF g _ len refl _ b'_def] src by simp_all
  ultimately show ?thesis by auto
qed

lemma mboxBufDupRaw_rep:
  assumes src: "at + length t \<le> length m" "take (length t) (drop at m) = map Some t"
    and fits: "length t \<le> cap" and room: "cap + 10 \<le> PTRDIFF_MAX"
  shows "\<exists>b. mboxBufDupRaw m at (length t) cap = Inr b \<and> buf_rep b t \<and> buf_term b \<and>
     buf_offset b = 0 \<and> buf_capacity b = cap"
  using assms
  by (simp add: mboxBufDupRaw_def mboxBufAlloc_def Let_def blk_copy_def mboxBufSetLen_def
      blk_write_def mboxBufSetCapacity_def buf_rep_def buf_term_def nth_append)

lemma mboxBufDup_is_DupRaw:
  "mboxBufDup b = mboxBufDupRaw (buf_data b) 0 (buf_len b) (buf_len b)"
  by (simp add: mboxBufDup_def mboxBufDupRaw_def)

lemma mboxBufDup_rep:
  assumes "buf_rep b s" and "length s + 10 \<le> PTRDIFF_MAX"
  shows "\<exists>d. mboxBufDup b = Inr d \<and> buf_rep d s \<and> buf_term d \<and>
     buf_offset d = 0 \<and> buf_capacity d = length s"
  using mboxBufDupRaw_rep [of 0 s "buf_data b" "length s"] assms buf_repD [OF assms(1)]
  by (simp add: mboxBufDup_is_DupRaw)

lemma mboxBufSlice_rep:
  assumes rep: "buf_rep b s" and "from + n \<le> length s"
  shows "\<exists>b'. mboxBufSlice b from 0 n = Inr b' \<and> buf_rep b' (take n (drop from s)) \<and>
     buf_term b' \<and> buf_offset b' = buf_offset b \<and>
     drop (Suc n) (buf_data b') = drop (Suc n) (buf_data b)"
proof -
  have "take n (drop from (buf_data b)) = take n (drop from (take (length s) (buf_data b)))"
    using assms(2) by (simp add: take_drop min_def)
  then have "take n (drop from (buf_data b)) = map Some (take n (drop from s))"
    using buf_repD(3) [OF rep] by (simp add: take_map drop_map)
  then show ?thesis
    using assms buf_repD [OF rep]
    by (simp add: mboxBufSlice_def blk_copy_def blk_write_def buf_rep_def buf_term_def nth_append)
qed

text \<open>Mapping every byte in place.\<close>

lemma map_bytes_rep:
  assumes rep: "buf_rep b s"
  shows "\<exists>b'. for_range 0 (buf_len b) (\<lambda>i (b :: mboxBuf).
       bindE (blk_read (buf_data b) i) (\<lambda>c.
       bindE (blk_write (buf_data b) i (f c)) (\<lambda>d.
       Inr (b\<lparr>buf_data := d\<rparr>)))) b = Inr b' \<and> buf_rep b' (map f s) \<and>
       (buf_term b \<longrightarrow> buf_term b')"
proof -
  define body where "body = (\<lambda>i (b :: mboxBuf). bindE (blk_read (buf_data b) i) (\<lambda>c.
       bindE (blk_write (buf_data b) i (f c)) (\<lambda>d. Inr (b\<lparr>buf_data := d\<rparr>))))"
  define P where "P i b' \<longleftrightarrow> buf_rep b' (map f (take i s) @ drop i s) \<and>
      (buf_term b \<longrightarrow> buf_term b')" for i b'
  have "\<exists>b'. for_range 0 (length s) body b = Inr b' \<and> P (length s) b'"
  proof (rule for_range_total)
    show "P 0 b" using rep by (simp add: P_def)
  next
    fix i b' assume i: "i < length s" and P: "P i b'"
    let ?t = "map f (take i s) @ drop i s"
    have r: "buf_rep b' ?t" using P by (simp add: P_def)
    have ln: "length ?t = length s" using i by simp
    have nth: "?t ! i = s ! i" using i by (simp add: nth_append)
    have up: "?t[i := f (s ! i)] = map f (take (Suc i) s) @ drop (Suc i) s"
      using i by (simp add: list_update_append take_Suc_conv_app_nth Cons_nth_drop_Suc [symmetric])
    have "body i b' = Inr (b'\<lparr>buf_data := (buf_data b')[i := Some (f (s ! i))]\<rparr>)"
      using buf_rep_read [OF r, of i] i ln nth buf_repD(2) [OF r]
      by (simp add: body_def blk_write_def)
    moreover have "P (Suc i) (b'\<lparr>buf_data := (buf_data b')[i := Some (f (s ! i))]\<rparr>)"
      using P r i ln unfolding P_def up [symmetric]
      by (auto simp: buf_rep_def buf_term_def take_update_swap map_update)
    ultimately show "\<exists>b''. body i b' = Inr b'' \<and> P (Suc i) b''" by blast
  qed simp
  then show ?thesis using buf_repD(1) [OF rep] by (simp add: P_def body_def)
qed

lemma mboxBufToLowerCase_rep:
  "buf_rep b s \<Longrightarrow> \<exists>b'. mboxBufToLowerCase b = Inr b' \<and> buf_rep b' (map c_tolower s) \<and>
     (buf_term b \<longrightarrow> buf_term b')"
  unfolding mboxBufToLowerCase_def by (rule map_bytes_rep)

lemma mboxBufToUpperCase_rep:
  "buf_rep b s \<Longrightarrow> \<exists>b'. mboxBufToUpperCase b = Inr b' \<and> buf_rep b' (map c_toupper s) \<and>
     (buf_term b \<longrightarrow> buf_term b')"
  unfolding mboxBufToUpperCase_def by (rule map_bytes_rep)

section \<open>Comparing\<close>

text \<open>\<open>strncmp\<close> on the bytes themselves, both operands long enough or ended by a zero.\<close>

fun list_ncmp :: "(mboxChar \<Rightarrow> mboxChar) \<Rightarrow> nat \<Rightarrow> mboxChar list \<Rightarrow> mboxChar list \<Rightarrow> int" where
  "list_ncmp f (Suc n) (a # as) (b # bs) =
     (if f a \<noteq> f b then int (byte (f a)) - int (byte (f b))
      else if a = NUL then 0 else list_ncmp f n as bs)"
| "list_ncmp f _ _ _ = 0"

lemma c_strncmp_bytes:
  assumes "n \<le> length as" and "n \<le> length bs"
    and "\<And>k. k < n \<Longrightarrow> blk_read m (i + k) = Inr (as ! k)"
    and "\<And>k. k < n \<Longrightarrow> blk_read m' (j + k) = Inr (bs ! k)"
  shows "c_strncmp f m i m' j n = Inr (list_ncmp f n as bs)"
  using assms
proof (induction n arbitrary: i j as bs)
  case 0
  then show ?case by (simp add: c_strncmp.simps)
next
  case (Suc n)
  then obtain a as' b bs' where l: "as = a # as'" "bs = b # bs'"
    by (metis Suc_le_length_iff)
  have "c_strncmp f m (Suc i) m' (Suc j) n = Inr (list_ncmp f n as' bs')"
    using Suc.prems(1,2) Suc.prems(3,4) [of "Suc _"] l by (intro Suc.IH) auto
  then show ?case
    using Suc.prems(3,4) [of 0] l by (subst c_strncmp.simps) simp
qed

lemma list_ncmp_self: "list_ncmp f n as as = 0"
proof (induction n arbitrary: as)
  case (Suc n)
  then show ?case by (cases as) auto
qed simp

lemma list_ncmp_eq_0:
  "n \<le> length as \<Longrightarrow> n \<le> length bs \<Longrightarrow> NUL \<notin> set (take n as) \<Longrightarrow>
   list_ncmp f n as bs = 0 \<longleftrightarrow> map f (take n as) = map f (take n bs)"
  by (induction f n as bs rule: list_ncmp.induct) auto

lemma tolower_eq_NUL: "c_tolower a = c_tolower b \<Longrightarrow> (a = NUL) = (b = NUL)"
  by (metis tolower_NUL_iff)

lemma list_ncmp_tolower_swap: "list_ncmp c_tolower n bs as = - list_ncmp c_tolower n as bs"
proof (induction n arbitrary: as bs)
  case (Suc n)
  show ?case
  proof (cases "as = [] \<or> bs = []")
    case True
    then show ?thesis by (cases as; cases bs; simp)
  next
    case False
    then obtain a as' b bs' where l: "as = a # as'" "bs = b # bs'"
      by (cases as; cases bs) auto
    show ?thesis
    proof (cases "c_tolower a = c_tolower b")
      case True
      then show ?thesis
        using Suc [of bs' as'] tolower_eq_NUL [OF True] by (simp add: l)
    next
      case False
      then show ?thesis by (simp add: l)
    qed
  qed
qed simp

text \<open>
  \<open>mboxBufCaseCmp\<close> looks at the shorter length only: it is zero exactly when one content
  is, up to case, a prefix of the other.
\<close>

lemma mboxBufCaseCmp_rep:
  assumes "buf_rep b1 s1" and "buf_rep b2 s2"
  shows "mboxBufCaseCmp b1 b2 =
     Inr (list_ncmp c_tolower (min (length s1) (length s2)) s1 s2)"
  using assms
  by (auto simp: mboxBufCaseCmp_def Let_def min_def buf_repD(1) intro!: c_strncmp_bytes)

text \<open>Comparing over the shorter length without case, as a function of the bytes.\<close>

fun ci :: "mboxChar list \<Rightarrow> mboxChar list \<Rightarrow> int" where
  "ci (a # as) (b # bs) =
     (if c_tolower a \<noteq> c_tolower b then int (byte (c_tolower a)) - int (byte (c_tolower b))
      else if a = NUL then 0 else ci as bs)"
| "ci _ _ = 0"

lemma list_ncmp_ci: "list_ncmp c_tolower (min (length s) (length t)) s t = ci s t"
  by (induction s t rule: ci.induct) auto

lemma ci_cross: "ci x p \<le> 0 \<Longrightarrow> 0 < ci y p \<Longrightarrow> ci x y \<le> 0"
proof (induction p arbitrary: x y)
  case (Cons c p)
  then obtain b y' where y: "y = b # y'" by (cases y) auto
  show ?case
  proof (cases x)
    case (Cons a x')
    then show ?thesis
      using Cons.IH [of x' y'] Cons.prems tolower_eq_NUL [of a c] tolower_eq_NUL [of b c]
      by (auto simp: y split: if_splits)
  qed simp
qed (auto elim: ci.elims)

lemma ci_swap: "ci t s = - ci s t"
  using list_ncmp_tolower_swap [of "min (length s) (length t)" t s] list_ncmp_ci [of s t]
    list_ncmp_ci [of t s] by (simp add: min.commute)

section \<open>Properties\<close>

text \<open>
  C40. Appending one byte: on every buffer that satisfies the invariant and can still grow,
  \<open>mboxBufPutChar\<close> returns, writes inside its block, puts the byte after the content, ends it
  with a zero and keeps the invariant and the read offset.
\<close>

theorem mboxBufPutChar_appends:
  assumes "buf_rep b s" and "buf_capacity b + 256 \<le> PTRDIFF_MAX"
  shows "\<exists>b'. mboxBufPutChar b c = Inr b' \<and> buf_rep b' (s @ [c]) \<and> buf_term b' \<and>
     mboxBufGetOffset b' = mboxBufGetOffset b"
  using mboxBufPutChar_rep [OF assms, of c] by (auto simp: mboxBufGetOffset_def)

theorem mboxBufPutChar_appends_witness:
  "\<exists>b'. mboxBufPutChar (mboxBufAlloc 3) CHR ''x'' = Inr b' \<and> buf_rep b' ''x''"
  using mboxBufPutChar_appends [of "mboxBufAlloc 3" "[]" "CHR ''x''"] mboxBufAlloc_rep [of 3] by auto

text \<open>
  Appending a run of bytes: \<open>mboxBufCatLen\<close> is safe and appends exactly the bytes it is
  given, as long as the recorded capacity is larger than the content (or the run is short),
  the buffer can still grow and the run's length fits an \<open>unsigned int\<close>.
\<close>

theorem mboxBufCatLen_appends:
  assumes "buf_rep b s" and "buf_capacity b + max 256 (length t) \<le> PTRDIFF_MAX"
    and "length s < buf_capacity b \<or> length t < 246" and "length t < 2 ^ 32"
  shows "\<exists>b'. mboxBufCatLen b (c_lit t) (length t) = Inr b' \<and> buf_rep b' (s @ t) \<and> buf_term b'"
  using mboxBufCatLen_rep [OF assms, of "c_lit t"] by (auto simp: c_lit_def)

theorem mboxBufCatLen_appends_witness:
  "\<exists>b'. mboxBufCatLen (mboxBufAlloc 2) (c_lit ''ab'') (length ''ab'') = Inr b' \<and> buf_rep b' ''ab''"
  using mboxBufCatLen_appends [of "mboxBufAlloc 2" "[]" "''ab''"] mboxBufAlloc_rep [of 2] by auto

text \<open>
  A duplicate has the content of the original, but appending 256 bytes or more to it
  writes one byte past the end of its block: \<open>mboxBufDup\<close> records a capacity that leaves
  no room for the ending zero, and \<open>mboxBufCatLen\<close> grows the block to that capacity plus
  the length of the run.
\<close>

theorem mboxBufDup_CatLen_overruns:
  assumes "buf_rep b s" and "length s + length t \<le> PTRDIFF_MAX"
    and "256 \<le> length t" and "length t < 2 ^ 32"
  shows "\<exists>d. mboxBufDup b = Inr d \<and> buf_rep d s \<and>
     mboxBufCatLen d (c_lit t) (length t) = Inl OutOfBounds"
proof -
  obtain d where d: "mboxBufDup b = Inr d" "buf_rep d s" "buf_capacity d = length s"
    using mboxBufDup_rep [OF assms(1)] assms(2,3) by auto
  then show ?thesis
    using mboxBufCatLen_overrun [OF d(2) _ d(3), of t "c_lit t"] assms by auto
qed

theorem mboxBufDup_CatLen_overruns_witness:
  "\<exists>d. mboxBufDup (mboxBufAlloc 1) = Inr d \<and>
     mboxBufCatLen d (c_lit (replicate 256 CHR ''x'')) 256 = Inl OutOfBounds"
  using mboxBufDup_CatLen_overruns [of "mboxBufAlloc 1" "[]" "replicate 256 CHR ''x''"]
    mboxBufAlloc_rep [of 1] by auto

text \<open>
  \<open>mboxBufUnPutChar\<close> takes the last byte off but does not return it: after
  \<open>mboxBufPutChar b c\<close> it returns the byte before \<open>c\<close>, and when \<open>c\<close> is the only byte it
  reads before the start of the block.
\<close>

theorem mboxBufUnPutChar_returns_previous:
  assumes "buf_rep b s" and "buf_capacity b + 256 \<le> PTRDIFF_MAX"
  shows "\<exists>b1. mboxBufPutChar b c = Inr b1 \<and>
     (if s = [] then mboxBufUnPutChar b1 = Inl OutOfBounds
      else \<exists>b2. mboxBufUnPutChar b1 = Inr (last s, b2) \<and> buf_rep b2 s)"
proof -
  obtain b1 where b1: "mboxBufPutChar b c = Inr b1" "buf_rep b1 (s @ [c])"
    using mboxBufPutChar_rep [OF assms, of c] by auto
  note r = buf_repD [OF b1(2)]
  show ?thesis
  proof (cases "s = []")
    case True
    then have "mboxBufUnPutChar b1 = Inl OutOfBounds"
      using r(1,6) by (simp add: mboxBufUnPutChar_def size_sub_def blk_read_def)
    with b1 True show ?thesis by simp
  next
    case False
    then have "size_sub (length s + 1) 2 = length s - 1"
      using r(2,6) by (cases s) auto
    moreover have "blk_read (buf_data b1) (length s - 1) = Inr (last s)"
      using False buf_rep_read [OF b1(2), of "length s - 1"]
      by (simp add: nth_append last_conv_nth)
    ultimately have "mboxBufUnPutChar b1 =
        Inr (last s, b1\<lparr>buf_len := length s, buf_data := (buf_data b1)[length s := Some NUL]\<rparr>)"
      using r(1,2) by (simp add: mboxBufUnPutChar_def blk_write_def)
    moreover have "take (length s) (buf_data b1) = map Some s"
      using arg_cong [OF r(3), of "take (length s)"] by (simp add: min_def)
    ultimately show ?thesis
      using b1 False r by (auto simp: buf_rep_def)
  qed
qed

theorem mboxBufUnPutChar_returns_previous_witness:
  "\<exists>b1. mboxBufPutChar (mboxBufAlloc 1) CHR ''x'' = Inr b1 \<and> mboxBufUnPutChar b1 = Inl OutOfBounds"
  using mboxBufUnPutChar_returns_previous [of "mboxBufAlloc 1" "[]" "CHR ''x''"]
    mboxBufAlloc_rep [of 1] by auto

text \<open>
  The comparison the header tree is ordered by, \<open>mboxBufCaseCmp\<close>, returns on any two
  buffers; it is zero exactly when one content is a prefix of the other up to letter case,
  so \<open>Received\<close> equals \<open>Received-SPF\<close>; and swapping the operands negates it.
\<close>

theorem mboxBufCaseCmp_prefix:
  assumes "buf_rep b1 s1" and "buf_rep b2 s2" and "NUL \<notin> set s1"
  shows "\<exists>r. mboxBufCaseCmp b1 b2 = Inr r \<and> mboxBufCaseCmp b2 b1 = Inr (- r) \<and>
     (r = 0 \<longleftrightarrow> (\<exists>k. map c_tolower s1 = take k (map c_tolower s2) \<or>
                     map c_tolower s2 = take k (map c_tolower s1)))"
proof -
  let ?n = "min (length s1) (length s2)"
  let ?r = "list_ncmp c_tolower ?n s1 s2"
  have "?r = 0 \<longleftrightarrow> map c_tolower (take ?n s1) = map c_tolower (take ?n s2)"
    using assms(3) by (intro list_ncmp_eq_0) (auto dest: in_set_takeD)
  also have "\<dots> \<longleftrightarrow> (\<exists>k. map c_tolower s1 = take k (map c_tolower s2) \<or>
                     map c_tolower s2 = take k (map c_tolower s1))" (is "?L = ?R")
  proof
    assume ?L
    then show ?R by (cases "length s1 \<le> length s2") (auto simp: take_map min_def intro: exI [of _ ?n])
  next
    assume ?R
    then obtain k where "map c_tolower s1 = take k (map c_tolower s2) \<or>
        map c_tolower s2 = take k (map c_tolower s1)" by blast
    then show ?L
    proof
      assume k: "map c_tolower s1 = take k (map c_tolower s2)"
      then have "length s1 = min (length s2) k" by (metis length_map length_take)
      then show ?L using k by (auto simp: take_map min_def split: if_splits)
    next
      assume k: "map c_tolower s2 = take k (map c_tolower s1)"
      then have "length s2 = min (length s1) k" by (metis length_map length_take)
      then show ?L using k by (auto simp: take_map min_def split: if_splits)
    qed
  qed
  finally show ?thesis
    using mboxBufCaseCmp_rep [OF assms(1,2)] mboxBufCaseCmp_rep [OF assms(2,1)]
      list_ncmp_tolower_swap [of ?n s2 s1]
    by (simp add: min.commute)
qed

theorem mboxBufCaseCmp_prefix_witness:
  "\<exists>b1 b2. buf_rep b1 ''Received'' \<and> buf_rep b2 ''received-SPF'' \<and> mboxBufCaseCmp b1 b2 = Inr 0"
proof -
  let ?b = "\<lambda>s. \<lparr>buf_data = map Some s @ [Some NUL], buf_offset = 0, buf_len = length s,
     buf_capacity = length s + 1\<rparr>"
  have r: "buf_rep (?b ''Received'') ''Received''" "buf_rep (?b ''received-SPF'') ''received-SPF''"
    by (simp_all add: buf_rep_def)
  have nz: "NUL \<notin> set ''Received''" by simp
  have "map c_tolower ''Received'' = take 8 (map c_tolower ''received-SPF'')" by code_simp
  then have "mboxBufCaseCmp (?b ''Received'') (?b ''received-SPF'') = Inr 0"
    using mboxBufCaseCmp_prefix [OF r nz] by metis
  with r show ?thesis by blast
qed

end
