(* ===== verification/Mbox_Search.thy ===== *)
theory Mbox_Search
  imports Mbox_Buf
begin

text \<open>
  The pattern search of \<open>src/src/mbox-buf.c\<close>: the prefix table of Knuth, Morris and
  Pratt, and the two scans over a buffer that use it, one byte for byte and one up to case.
  The case-insensitive scan is given a table that was computed byte for byte. Table and counter of
  the code are of type \<open>int\<close>, so the theorems are for patterns below \<open>2 ^ 31\<close> bytes.
\<close>

section \<open>The code\<close>

text \<open>
  The table is an array of \<open>int\<close>. The inner loop of the two scans,
  \<open>while (q > 0 && pattern[q] != c) q = table[q - 1];\<close>, has a \<open>size_t\<close> for \<open>q\<close>, to which an
  entry is converted; \<open>f\<close> is the function applied to both bytes before they are compared (\<open>id\<close> or
  \<open>tolower\<close>). The fuel starts at the length of the table: a run that takes more rounds has read
  the same entry twice and never ends.
\<close>

fun fall_back ::
  "(mboxChar \<Rightarrow> mboxChar) \<Rightarrow> mboxChar list \<Rightarrow> int list \<Rightarrow> mboxChar \<Rightarrow> nat \<Rightarrow> nat \<Rightarrow> c_error + nat"
where
  "fall_back f p t c fuel k =
     (if k = 0 then Inr 0
      else bindE (list_at p k) (\<lambda>pk.
        if f pk = f c then Inr k
        else (case fuel of
            0 \<Rightarrow> Inl Diverges
          | Suc fuel' \<Rightarrow> bindE (list_at t (k - 1)) (\<lambda>e.
              fall_back f p t c fuel' (nat (e mod 2 ^ 64))))))"

declare fall_back.simps [simp del]

text \<open>
  The same loop of the computation of the table has an \<open>int\<close> for \<open>k\<close>. The block of the table has as many bytes
  as \<open>malloc(sizeof(int) * patternlen)\<close> returns, none when it fails, which is not looked at.
\<close>

fun table_back :: "mboxChar list \<Rightarrow> int list \<Rightarrow> mboxChar \<Rightarrow> nat \<Rightarrow> int \<Rightarrow> c_error + int" where
  "table_back p t c fuel k =
     (if k \<le> 0 then Inr k
      else bindE (list_at p (nat k)) (\<lambda>pk.
        if pk = c then Inr k
        else (case fuel of
            0 \<Rightarrow> Inl Diverges
          | Suc fuel' \<Rightarrow> bindE (list_at t (nat (k - 1))) (table_back p t c fuel'))))"

declare table_back.simps [simp del]

definition int_at :: "'a list \<Rightarrow> int \<Rightarrow> c_error + 'a" where
  "int_at xs k = (if k < 0 then Inl OutOfBounds else list_at xs (nat k))"

definition mboxBufComputePrefixTable :: "mboxChar list \<Rightarrow> nat \<Rightarrow> c_error + int list" where
  "mboxBufComputePrefixTable pattern patternlen =
     (let entries = length (blk_malloc (4 * patternlen mod SIZE_MOD)) div 4
      in if entries = 0 then Inl OutOfBounds \<comment> \<open>\<open>table[0] = 0\<close> into no bytes\<close>
         else bindE (for_range 1 patternlen (\<lambda>i (k, table).
             bindE (list_at pattern i) (\<lambda>c.
             bindE (table_back pattern table c (length table) k) (\<lambda>k.
             bindE (int_at pattern k) (\<lambda>pk.
             bindE (if pk = c then int_op (k + 1) else Inr k) (\<lambda>k.
             if i < entries then Inr (k, table @ [k]) else Inl OutOfBounds)))))
             (0, [0]))
           (\<lambda>(k, table). Inr table))"

function kmp_scan ::
  "(mboxChar \<Rightarrow> mboxChar) \<Rightarrow> mboxChar list \<Rightarrow> nat \<Rightarrow> int list \<Rightarrow> block \<Rightarrow> nat \<Rightarrow> nat \<Rightarrow> nat \<Rightarrow> c_error + int"
where
  "kmp_scan f p m t d n i q =
     (if i < n then
        bindE (blk_read d i) (\<lambda>c.
          if c = NUL then Inr (-1)
          else bindE (fall_back f p t c (length t) q) (\<lambda>q.
               bindE (list_at p q) (\<lambda>pq.
               let q = (if f pq = f c then q + 1 else q)
               in if q = m then Inr (to_int (size_add (size_sub i m) 1))
                  else kmp_scan f p m t d n (Suc i) q)))
      else Inr (-1))"
  by pat_completeness auto
termination
  by (relation "measure (\<lambda>(f, p, m, t, d, n, i, q). n - i)") auto

declare kmp_scan.simps [simp del]

definition mboxBufContainsPatternWithTable ::
  "mboxBuf \<Rightarrow> int list \<Rightarrow> mboxChar list \<Rightarrow> nat \<Rightarrow> c_error + int" where
  "mboxBufContainsPatternWithTable buf table pattern patternlen =
     (if patternlen = 0 then Inr (-1)
      else kmp_scan id pattern patternlen table (buf_data buf) (buf_len buf) 0 0)"

definition mboxBufContainsPattern :: "mboxBuf \<Rightarrow> mboxChar list \<Rightarrow> nat \<Rightarrow> c_error + int" where
  "mboxBufContainsPattern buf pattern patternlen =
     bindE (mboxBufComputePrefixTable pattern patternlen) (\<lambda>table.
     mboxBufContainsPatternWithTable buf table pattern patternlen)"

definition mboxBufContainsCasePatternWithTable ::
  "mboxBuf \<Rightarrow> int list \<Rightarrow> mboxChar list \<Rightarrow> nat \<Rightarrow> c_error + int" where
  "mboxBufContainsCasePatternWithTable buf table pattern patternlen =
     (if patternlen = 0 then Inr (-1)
      else kmp_scan c_tolower pattern patternlen table (buf_data buf) (buf_len buf) 0 0)"

definition mboxBufContainsCasePattern :: "mboxBuf \<Rightarrow> mboxChar list \<Rightarrow> nat \<Rightarrow> c_error + int" where
  "mboxBufContainsCasePattern buf pattern patternlen =
     bindE (mboxBufComputePrefixTable pattern patternlen) (\<lambda>table.
     mboxBufContainsCasePatternWithTable buf table pattern patternlen)"

section \<open>Prefixes that end a text\<close>

text \<open>\<open>msuf P T k\<close>: the first \<open>k\<close> elements of \<open>P\<close> are the last \<open>k\<close> of \<open>T\<close>.\<close>

definition msuf :: "'a list \<Rightarrow> 'a list \<Rightarrow> nat \<Rightarrow> bool" where
  "msuf P T k \<longleftrightarrow> k \<le> length P \<and> k \<le> length T \<and> take k P = drop (length T - k) T"

lemma msuf_0 [simp]: "msuf P T 0"
  by (simp add: msuf_def)

lemma msuf_snoc: "msuf P (T @ [c]) (Suc k) \<longleftrightarrow> k < length P \<and> msuf P T k \<and> P ! k = c"
  by (auto simp: msuf_def take_Suc_conv_app_nth Suc_le_eq)

text \<open>Two such prefixes: the shorter one ends the longer one, less its first element.\<close>

lemma msuf_chain:
  assumes "msuf P T q" and "0 < q" and "k < q"
  shows "msuf P T k \<longleftrightarrow> msuf P (tl (take q P)) k"
proof -
  have q: "q \<le> length P" "q \<le> length T" "take q P = drop (length T - q) T"
    using assms(1) by (simp_all add: msuf_def)
  have "tl (take q P) = drop (Suc (length T - q)) T"
    using q(3) by (simp add: tl_drop drop_Suc)
  moreover have "length T - Suc (length T - q) - k + Suc (length T - q) = length T - k"
    using q(2) assms(2,3) by simp
  ultimately show ?thesis
    using q(1,2) assms(2,3) by (auto simp: msuf_def)
qed

lemma msuf_tl_bound: "msuf P (tl (take q P)) k \<Longrightarrow> 0 < q \<Longrightarrow> k < q"
  by (auto simp: msuf_def)

text \<open>A table that is right up to index \<open>n\<close>; \<open>best\<close> adds that its borders are longest.\<close>

definition borders :: "'a list \<Rightarrow> nat list \<Rightarrow> nat \<Rightarrow> bool" where
  "borders P t n \<longleftrightarrow> n \<le> length t \<and> (\<forall>j < n. msuf P (tl (take (Suc j) P)) (t ! j))"

definition best :: "'a list \<Rightarrow> nat list \<Rightarrow> nat \<Rightarrow> bool" where
  "best P t n \<longleftrightarrow> (\<forall>j < n. \<forall>k. msuf P (tl (take (Suc j) P)) k \<longrightarrow> k \<le> t ! j)"

lemma bordersD: "borders P t n \<Longrightarrow> 0 < i \<Longrightarrow> i \<le> n \<Longrightarrow> msuf P (tl (take i P)) (t ! (i - 1))"
  unfolding borders_def by (cases i) auto

lemma bestD:
  "best P t n \<Longrightarrow> 0 < i \<Longrightarrow> i \<le> n \<Longrightarrow> msuf P (tl (take i P)) k \<Longrightarrow> k \<le> t ! (i - 1)"
  unfolding best_def by (cases i) auto

lemma fall_back_spec:
  assumes "P = map f p" and "borders P t n" and "q \<le> n" and "q \<le> fuel"
    and "q < length P" and "msuf P T q" and "length P < 2 ^ 63"
  shows "\<exists>k. fall_back f p (map int t) c fuel q = Inr k \<and> k \<le> q \<and> msuf P T k \<and>
     (k = 0 \<or> P ! k = f c) \<and>
     (best P t n \<longrightarrow> (\<forall>j. msuf P T j \<longrightarrow> j \<le> q \<longrightarrow> j < length P \<longrightarrow> P ! j = f c \<longrightarrow> j \<le> k))"
  using assms(3-)
proof (induction fuel arbitrary: q)
  case 0
  then show ?case by (simp add: fall_back.simps)
next
  case (Suc fuel)
  show ?case
  proof (cases "q = 0 \<or> P ! q = f c")
    case True
    then show ?thesis
      using Suc.prems assms(1) by (auto simp: fall_back.simps [of f p "map int t" c "Suc fuel" q])
  next
    case False
    then have q: "0 < q" "f (p ! q) \<noteq> f c" using assms(1) Suc.prems(3) by auto
    define r where "r = t ! (q - 1)"
    have b: "msuf P (tl (take q P)) r"
      unfolding r_def by (rule bordersD [OF assms(2) q(1) Suc.prems(1)])
    then have r: "r < q" using q(1) by (rule msuf_tl_bound)
    then have m: "msuf P T r" using b msuf_chain [OF Suc.prems(4) q(1) r] by simp
    obtain k where k: "fall_back f p (map int t) c fuel r = Inr k" "k \<le> r" "msuf P T k"
      "k = 0 \<or> P ! k = f c"
      "best P t n \<longrightarrow> (\<forall>j. msuf P T j \<longrightarrow> j \<le> r \<longrightarrow> j < length P \<longrightarrow> P ! j = f c \<longrightarrow> j \<le> k)"
      using Suc.IH [of r] r m Suc.prems by auto
    have "nat (int r mod 2 ^ 64) = r" using r Suc.prems(3,5) by simp
    moreover have "q - 1 < length t" using assms(2) q(1) Suc.prems(1) by (auto simp: borders_def)
    ultimately have "fall_back f p (map int t) c (Suc fuel) q = Inr k"
      using k(1) q Suc.prems(3) assms(1)
      by (simp add: fall_back.simps [of f p "map int t" c "Suc fuel" q] r_def)
    moreover have "j \<le> r" if "best P t n" "msuf P T j" "j \<le> q" "P ! j = f c" for j
    proof -
      have "j < q" using that(3,4) False by (cases "j = q") auto
      then have "msuf P (tl (take q P)) j"
        using msuf_chain [OF Suc.prems(4) q(1)] that(2) by simp
      then show ?thesis
        unfolding r_def by (rule bestD [OF that(1) q(1) Suc.prems(1)])
    qed
    ultimately show ?thesis using k r by (intro exI [of _ k]) auto
  qed
qed

text \<open>One round of either loop: fall back, then extend if the next element agrees.\<close>

lemma kmp_step:
  assumes "P = map f p" and "borders P t n" and "q \<le> n" and "q \<le> fuel"
    and "q < length P" and "msuf P T q" and "length P < 2 ^ 63"
  shows "\<exists>k. fall_back f p (map int t) c fuel q = Inr k \<and> k \<le> q \<and>
     msuf P (T @ [f c]) (if P ! k = f c then k + 1 else k) \<and>
     (best P t n \<and> (\<forall>j < length P. msuf P T j \<longrightarrow> j \<le> q) \<longrightarrow>
      (\<forall>j. msuf P (T @ [f c]) j \<longrightarrow> j \<le> (if P ! k = f c then k + 1 else k)))"
proof -
  obtain k where k: "fall_back f p (map int t) c fuel q = Inr k" "k \<le> q" "msuf P T k"
    "k = 0 \<or> P ! k = f c"
    "best P t n \<longrightarrow> (\<forall>j. msuf P T j \<longrightarrow> j \<le> q \<longrightarrow> j < length P \<longrightarrow> P ! j = f c \<longrightarrow> j \<le> k)"
    using fall_back_spec [OF assms] by blast
  have "msuf P (T @ [f c]) (if P ! k = f c then k + 1 else k)"
    using k(2-4) assms(5) by (auto simp: msuf_snoc)
  moreover have "j \<le> (if P ! k = f c then k + 1 else k)"
    if b: "best P t n" and mx: "\<forall>j < length P. msuf P T j \<longrightarrow> j \<le> q"
      and j: "msuf P (T @ [f c]) j" for j
  proof (cases j)
    case (Suc i)
    then have i: "i < length P" "msuf P T i" "P ! i = f c" using j by (simp_all add: msuf_snoc)
    then have "i \<le> k" using k(5) b mx by blast
    moreover have "P ! k = f c" using k(4) i(3) \<open>i \<le> k\<close> by auto
    ultimately show ?thesis using Suc by simp
  qed simp
  ultimately show ?thesis using k(1,2) by blast
qed

lemma table_back_spec:
  "borders p t n \<Longrightarrow> q \<le> n \<Longrightarrow> q < length p \<Longrightarrow> length p < 2 ^ 63 \<Longrightarrow>
   table_back p (map int t) c fuel (int q) = map_sum id int (fall_back id p (map int t) c fuel q)"
proof (induction fuel arbitrary: q)
  case 0
  then show ?case by (simp add: fall_back.simps table_back.simps)
next
  case (Suc fuel)
  show ?case
  proof (cases "q = 0 \<or> p ! q = c")
    case True
    then show ?thesis using Suc.prems
      by (cases "q = 0") (simp_all add: fall_back.simps [of _ p _ c "Suc fuel"] table_back.simps [of p _ c "Suc fuel"])
  next
    case False
    define r where "r = t ! (q - Suc 0)"
    have r: "r < q"
      using msuf_tl_bound [OF bordersD [OF Suc.prems(1), of q]] Suc.prems(2) False by (simp add: r_def)
    have e: "list_at (map int t) (q - Suc 0) = Inr (int r)" "nat (int q - 1) = q - Suc 0" "nat (int r mod 2 ^ 64) = r"
      using Suc.prems(1,2,3,4) False r by (auto simp: borders_def r_def)
    then have "table_back p (map int t) c (Suc fuel) (int q) = table_back p (map int t) c fuel (int r)"
      using False Suc.prems(3) by (simp add: table_back.simps [of p _ c "Suc fuel"])
    moreover have "fall_back id p (map int t) c (Suc fuel) q = fall_back id p (map int t) c fuel r"
      using False Suc.prems(3) e by (simp add: fall_back.simps [of _ p _ c "Suc fuel"])
    moreover have "r \<le> n" "r < length p" using r Suc.prems(2,3) by simp_all
    ultimately show ?thesis using Suc.IH [OF Suc.prems(1) _ _ Suc.prems(4), of r] by metis
  qed
qed

lemma tl_take_Suc: "0 < i \<Longrightarrow> i < length p \<Longrightarrow> tl (take (Suc i) p) = tl (take i p) @ [p ! i]"
  by (cases p) (auto simp: take_Suc_conv_app_nth gr0_conv_Suc)

section \<open>The prefix table\<close>

lemma borders_snoc:
  "length t = i \<Longrightarrow> borders P t i \<Longrightarrow> msuf P (tl (take (Suc i) P)) k \<Longrightarrow> borders P (t @ [k]) (Suc i)"
  by (auto simp: borders_def nth_append less_Suc_eq)

lemma best_snoc:
  "length t = i \<Longrightarrow> best P t i \<Longrightarrow> (\<And>j. msuf P (tl (take (Suc i) P)) j \<Longrightarrow> j \<le> k) \<Longrightarrow>
   best P (t @ [k]) (Suc i)"
  by (auto simp: best_def nth_append less_Suc_eq)

lemma mboxBufComputePrefixTable_spec:
  assumes "p \<noteq> []" and "length p < 2 ^ 31"
  shows "\<exists>t. mboxBufComputePrefixTable p (length p) = Inr (map int t) \<and> length t = length p \<and>
     borders p t (length p) \<and> best p t (length p)"
proof -
  define body where "body = (\<lambda>i (k, table).
     bindE (list_at p i) (\<lambda>c. bindE (table_back p table c (length table) k) (\<lambda>k.
     bindE (int_at p k) (\<lambda>pk. bindE (if pk = c then int_op (k + 1) else Inr k) (\<lambda>k.
     if i < length p then Inr (k, table @ [k]) else Inl OutOfBounds)))))"
  define Q where "Q i s \<longleftrightarrow> (\<exists>k t. s = (int k, map int t) \<and> length t = i \<and> borders p t i \<and> best p t i \<and>
     t ! (i - 1) = k)" for i and s :: "int \<times> int list"
  have "\<exists>s. for_range 1 (length p) body (0, [0]) = Inr s \<and> Q (length p) s"
  proof (rule for_range_total)
    show "1 \<le> length p" using assms by (cases p) auto
    have "\<not> msuf p (tl (take (Suc 0) p)) (Suc k)" for k
      by (cases p) (auto simp: msuf_def)
    then have "msuf p (tl (take (Suc 0) p)) k \<Longrightarrow> k = 0" for k by (cases k) auto
    then have "borders p [0] 1 \<and> best p [0] 1" by (simp add: borders_def best_def)
    then show "Q 1 (0, [0])" unfolding Q_def by (intro exI [of _ 0] exI [of _ "[0]"]) simp
  next
    fix i s assume i: "1 \<le> i" "i < length p" and "Q i s"
    then obtain k t where s: "s = (int k, map int t)" "length t = i" "borders p t i" "best p t i"
      "t ! (i - 1) = k" by (auto simp: Q_def)
    let ?T = "tl (take i p)"
    have T: "tl (take (Suc i) p) = ?T @ [p ! i]" using i by (intro tl_take_Suc) auto
    have m: "msuf p ?T k"
      using bordersD [OF s(3), of i] s(5) i(1) by simp
    have mx: "j \<le> k" if "msuf p ?T j" for j
      using bestD [OF s(4) _ _ that] s(5) i(1) by simp
    have ki: "k < i" using msuf_tl_bound [OF m] i(1) by simp
    obtain r where r: "fall_back id p (map int t) (p ! i) (length t) k = Inr r" "r \<le> k"
      "msuf p (?T @ [p ! i]) (if p ! r = p ! i then r + 1 else r)"
      "\<forall>j. msuf p (?T @ [p ! i]) j \<longrightarrow> j \<le> (if p ! r = p ! i then r + 1 else r)"
      using kmp_step [of p id p t i k "length t" ?T "p ! i"] s m mx ki i assms(2) by auto
    have tb: "table_back p (map int t) (p ! i) (length t) (int k) = Inr (int r)"
      using table_back_spec [of p t i k "p ! i" "length t"] r(1) s(3) ki i assms(2) by simp
    define k' where "k' = (if p ! r = p ! i then r + 1 else r)"
    have "int_op (int r + 1) = Inr (int r + 1)" using r(2) ki i(2) assms(2) by (simp add: int_op_def)
    then have "body i s = Inr (int k', map int (t @ [k']))"
      using s(1,2) tb r(2) ki i(2) by (simp add: body_def k'_def int_at_def)
    moreover have "Q (Suc i) (int k', map int (t @ [k']))"
      using borders_snoc [OF s(2,3), of k'] best_snoc [OF s(2,4), of k'] r(3,4) T s(2)
      unfolding Q_def by (intro exI [of _ k'] exI [of _ "t @ [k']"]) (simp add: k'_def [symmetric] nth_append)
    ultimately show "\<exists>s'. body i s = Inr s' \<and> Q (Suc i) s'" by blast
  qed
  then obtain k t where "for_range 1 (length p) body (0, [0]) = Inr (int k, map int t)" "length t = length p"
      "borders p t (length p)" "best p t (length p)"
    by (auto simp: Q_def)
  moreover have "length (blk_malloc (4 * length p mod SIZE_MOD)) div 4 = length p" using assms(2) by simp
  ultimately show ?thesis
    using assms(1) unfolding mboxBufComputePrefixTable_def Let_def
    by (intro exI [of _ t]) (simp add: body_def)
qed

text \<open>
  The table as a function of the pattern: entry \<open>j\<close> is the length of the longest proper prefix of its first
  \<open>j + 1\<close> bytes that ends them too.
\<close>

definition prefix_table_of :: "mboxChar list \<Rightarrow> nat list" where
  "prefix_table_of p = map (\<lambda>j. Max {k. k \<le> j \<and> take k p = drop (Suc j - k) (take (Suc j) p)}) [0..<length p]"

lemma msuf_border:
  assumes "j < length p"
  shows "msuf p (tl (take (Suc j) p)) k \<longleftrightarrow> k \<le> j \<and> take k p = drop (Suc j - k) (take (Suc j) p)"
proof -
  have "drop (j - k) (tl (take (Suc j) p)) = drop (Suc j - k) (take (Suc j) p)" if "k \<le> j"
    using that by (simp add: Suc_diff_le drop_Suc)
  then show ?thesis using assms by (auto simp: msuf_def)
qed

lemma prefix_table_of_spec:
  "length (prefix_table_of p) = length p"
  "borders p (prefix_table_of p) (length p)" "best p (prefix_table_of p) (length p)"
proof -
  show len: "length (prefix_table_of p) = length p" by (simp add: prefix_table_of_def)
  let ?K = "\<lambda>j. {k. msuf p (tl (take (Suc j) p)) k}"
  have e: "prefix_table_of p ! j = Max (?K j)" if "j < length p" for j
    using that by (simp add: prefix_table_of_def msuf_border)
  have K: "finite (?K j)" "0 \<in> ?K j" if "j < length p" for j
    using finite_subset [of "?K j" "{..j}"] msuf_border [OF that] by auto
  have "Max (?K j) \<in> ?K j" if "j < length p" for j using K [OF that] by (intro Max_in) blast+
  then show "borders p (prefix_table_of p) (length p)" using e len by (simp add: borders_def)
  have "k \<le> Max (?K j)" if "j < length p" "k \<in> ?K j" for j k using K(1) that by (intro Max_ge)
  then show "best p (prefix_table_of p) (length p)" using e by (simp add: best_def)
qed

lemma table_unique:
  assumes "length t = length p" and "borders p t (length p)" and "best p t (length p)"
  shows "t = prefix_table_of p"
proof (rule nth_equalityI)
  show "length t = length (prefix_table_of p)" using assms(1) prefix_table_of_spec(1) by simp
next
  fix j assume "j < length t"
  then have "j < length p" using assms(1) by simp
  then show "t ! j = prefix_table_of p ! j"
    using assms(2,3) prefix_table_of_spec(2,3) [of p] unfolding borders_def best_def by (meson antisym)
qed

lemma prefix_table_of:
  assumes "p \<noteq> []" and "length p < 2 ^ 31"
  shows "mboxBufComputePrefixTable p (length p) = Inr (map int (prefix_table_of p))"
  using mboxBufComputePrefixTable_spec [OF assms] table_unique by blast

lemma msuf_map: "msuf P T k \<Longrightarrow> msuf (map f P) (map f T) k"
  by (auto simp: msuf_def take_map drop_map)

section \<open>The scan\<close>

text \<open>\<open>occurs_at f p s i\<close>: the pattern stands at \<open>i\<close> in \<open>s\<close>, bytes compared under \<open>f\<close>.\<close>

definition occurs_at :: "(mboxChar \<Rightarrow> mboxChar) \<Rightarrow> mboxChar list \<Rightarrow> mboxChar list \<Rightarrow> nat \<Rightarrow> bool" where
  "occurs_at f p s i \<longleftrightarrow>
     i + length p \<le> length s \<and> map f (take (length p) (drop i s)) = map f p"

lemma occurs_msuf:
  assumes "length p \<le> e" and "e \<le> length s"
  shows "occurs_at f p s (e - length p) \<longleftrightarrow> msuf (map f p) (map f (take e s)) (length p)"
proof -
  have "drop (e - length p) (take e s) = take (length p) (drop (e - length p) s)"
    using assms by (simp add: drop_take)
  then show ?thesis
    using assms by (auto simp: occurs_at_def msuf_def drop_map)
qed

text \<open>
  The contract between a table and the scan: the entries are lengths of borders of the
  pattern under \<open>f\<close>. That is enough for what the scan reports to be there. When they are
  the longest borders the scan also reports the first occurrence, if there is one.
\<close>

locale border_table =
  fixes f :: "mboxChar \<Rightarrow> mboxChar" and p :: "mboxChar list" and t :: "nat list"
  assumes table_length: "length t = length p"
    and table_borders: "borders (map f p) t (length p)"
begin

lemma scan_spec:
  assumes "p \<noteq> []" and "buf_rep b s" and "NUL \<notin> set s" and "i \<le> length s"
    and "length s < 2 ^ 31" and "length p < 2 ^ 63"
    and "q < length p" and "msuf (map f p) (map f (take i s)) q"
    and "best (map f p) t (length p) \<longrightarrow>
           (\<forall>j \<le> length p. msuf (map f p) (map f (take i s)) j \<longrightarrow> j \<le> q)"
  shows "\<exists>r. kmp_scan f p (length p) (map int t) (buf_data b) (length s) i q = Inr r \<and>
     (r = -1 \<and> (best (map f p) t (length p) \<longrightarrow>
                  (\<forall>e. i < e \<longrightarrow> e \<le> length s \<longrightarrow> \<not> msuf (map f p) (map f (take e s)) (length p))) \<or>
      (\<exists>e. i < e \<and> e \<le> length s \<and> msuf (map f p) (map f (take e s)) (length p) \<and>
           r = int (e - length p) \<and>
           (best (map f p) t (length p) \<longrightarrow>
              (\<forall>e'. i < e' \<longrightarrow> e' < e \<longrightarrow> \<not> msuf (map f p) (map f (take e' s)) (length p)))))"
  using assms(4,7-)
proof (induction "length s - i" arbitrary: i q)
  case 0
  then have "i = length s" by simp
  then show ?case by (simp add: kmp_scan.simps)
next
  case (Suc d)
  then have i: "i < length s" by simp
  have c: "blk_read (buf_data b) i = Inr (s ! i)" "s ! i \<noteq> NUL"
    using assms(2,3) i by (auto dest: nth_mem)
  let ?P = "map f p" and ?T = "map f (take i s)"
  have T: "map f (take (Suc i) s) = ?T @ [f (s ! i)]" using i by (simp add: take_Suc_conv_app_nth)
  have h: "q \<le> length p" "q \<le> length t" "q < length ?P"
    using Suc.prems(2) table_length by simp_all
  have small: "length ?P < 2 ^ 63" using assms(6) by simp
  from kmp_step [OF refl table_borders h Suc.prems(3) small, of "s ! i"]
  obtain k where k: "fall_back f p (map int t) (s ! i) (length t) q = Inr k" "k \<le> q"
    "msuf ?P (?T @ [f (s ! i)]) (if ?P ! k = f (s ! i) then k + 1 else k)"
    "best ?P t (length p) \<and> (\<forall>j < length ?P. msuf ?P ?T j \<longrightarrow> j \<le> q) \<longrightarrow>
      (\<forall>j. msuf ?P (?T @ [f (s ! i)]) j \<longrightarrow> j \<le> (if ?P ! k = f (s ! i) then k + 1 else k))"
    by blast
  define q' where "q' = (if ?P ! k = f (s ! i) then k + 1 else k)"
  have kl: "k < length p" using k(2) Suc.prems(2) by simp
  have q': "msuf ?P (map f (take (Suc i) s)) q'" using k(3) T by (simp add: q'_def)
  have mx: "best ?P t (length p) \<longrightarrow> (\<forall>j. msuf ?P (map f (take (Suc i) s)) j \<longrightarrow> j \<le> q')"
    using k(4) Suc.prems(4) T by (auto simp: q'_def)
  have unf: "kmp_scan f p (length p) (map int t) (buf_data b) (length s) i q =
     (if q' = length p then Inr (to_int (size_add (size_sub i (length p)) 1))
      else kmp_scan f p (length p) (map int t) (buf_data b) (length s) (Suc i) q')"
    using i c k(1) kl by (subst kmp_scan.simps) (simp add: q'_def Let_def)
  show ?case
  proof (cases "q' = length p")
    case True
    then have "length p \<le> Suc i" using q' by (simp add: msuf_def)
    moreover have "size_add (size_sub i (length p)) 1 = Suc i - length p"
    proof (cases "length p \<le> i")
      case True
      then show ?thesis using i assms(5) by simp
    next
      case False
      then have "length p = Suc i" using \<open>length p \<le> Suc i\<close> by simp
      then show ?thesis using assms(6) by (simp add: size_sub_def size_add_def)
    qed
    ultimately show ?thesis
      using True unf i assms(5) q' by (auto intro!: exI [of _ "Suc i"])
  next
    case False
    then have lt: "q' < length p" using q' by (simp add: msuf_def)
    have no: "best ?P t (length p) \<longrightarrow> \<not> msuf ?P (map f (take (Suc i) s)) (length p)"
      using mx lt by auto
    have "\<exists>r. kmp_scan f p (length p) (map int t) (buf_data b) (length s) (Suc i) q' = Inr r \<and>
     (r = -1 \<and> (best ?P t (length p) \<longrightarrow>
                  (\<forall>e. Suc i < e \<longrightarrow> e \<le> length s \<longrightarrow> \<not> msuf ?P (map f (take e s)) (length p))) \<or>
      (\<exists>e. Suc i < e \<and> e \<le> length s \<and> msuf ?P (map f (take e s)) (length p) \<and>
           r = int (e - length p) \<and>
           (best ?P t (length p) \<longrightarrow>
              (\<forall>e'. Suc i < e' \<longrightarrow> e' < e \<longrightarrow> \<not> msuf ?P (map f (take e' s)) (length p)))))"
      using Suc.hyps(2) i lt q' mx by (intro Suc.hyps(1)) auto
    then show ?thesis
      unfolding unf using False no by (auto intro: less_SucI) (metis Suc_lessI Suc_lessD)+
  qed
qed

lemma find_spec:
  assumes "p \<noteq> []" and "buf_rep b s" and "NUL \<notin> set s"
    and "length s < 2 ^ 31" and "length p < 2 ^ 63"
  shows "\<exists>r. kmp_scan f p (length p) (map int t) (buf_data b) (buf_len b) 0 0 = Inr r \<and>
     (r = -1 \<and> (best (map f p) t (length p) \<longrightarrow> (\<forall>i. \<not> occurs_at f p s i)) \<or>
      (\<exists>i. r = int i \<and> occurs_at f p s i \<and>
           (best (map f p) t (length p) \<longrightarrow> (\<forall>j < i. \<not> occurs_at f p s j))))"
proof -
  let ?m = "length p"
  let ?at = "\<lambda>e. msuf (map f p) (map f (take e s)) ?m"
  have start: "best (map f p) t ?m \<longrightarrow>
      (\<forall>j \<le> ?m. msuf (map f p) (map f (take 0 s)) j \<longrightarrow> j \<le> 0)"
    by (auto simp: msuf_def)
  have occ: "?at (i + ?m) \<longleftrightarrow> occurs_at f p s i" if "i + ?m \<le> length s" for i
    using occurs_msuf [of p "i + ?m" s f] that by simp
  have occ_end: "i + ?m \<le> length s" if "occurs_at f p s i" for i
    using that by (simp add: occurs_at_def)
  have pos: "0 < ?m" using assms(1) by simp
  from scan_spec [OF assms(1-3) le0 assms(4,5) pos msuf_0 start]
  obtain r where r: "kmp_scan f p ?m (map int t) (buf_data b) (length s) 0 0 = Inr r"
    and cases: "r = -1 \<and> (best (map f p) t ?m \<longrightarrow> (\<forall>e. 0 < e \<longrightarrow> e \<le> length s \<longrightarrow> \<not> ?at e)) \<or>
      (\<exists>e. 0 < e \<and> e \<le> length s \<and> ?at e \<and> r = int (e - ?m) \<and>
           (best (map f p) t ?m \<longrightarrow> (\<forall>e'. 0 < e' \<longrightarrow> e' < e \<longrightarrow> \<not> ?at e')))"
    by blast
  from cases have "r = -1 \<and> (best (map f p) t ?m \<longrightarrow> (\<forall>i. \<not> occurs_at f p s i)) \<or>
      (\<exists>i. r = int i \<and> occurs_at f p s i \<and>
           (best (map f p) t ?m \<longrightarrow> (\<forall>j < i. \<not> occurs_at f p s j)))"
  proof
    assume "r = -1 \<and> (best (map f p) t ?m \<longrightarrow> (\<forall>e. 0 < e \<longrightarrow> e \<le> length s \<longrightarrow> \<not> ?at e))"
    then show ?thesis using occ occ_end pos by (metis add_gr_0)
  next
    assume "\<exists>e. 0 < e \<and> e \<le> length s \<and> ?at e \<and> r = int (e - ?m) \<and>
           (best (map f p) t ?m \<longrightarrow> (\<forall>e'. 0 < e' \<longrightarrow> e' < e \<longrightarrow> \<not> ?at e'))"
    then obtain e where e: "e \<le> length s" "?at e" "r = int (e - ?m)"
      "best (map f p) t ?m \<longrightarrow> (\<forall>e'. 0 < e' \<longrightarrow> e' < e \<longrightarrow> \<not> ?at e')" by blast
    have "?m \<le> e" using e(2) by (simp add: msuf_def)
    then have i: "e = (e - ?m) + ?m" by simp
    have "\<not> occurs_at f p s j" if "best (map f p) t ?m" "j < e - ?m" for j
      using e(1,4) that occ [of j] pos i by (auto simp: less_diff_conv)
    moreover have "occurs_at f p s (e - ?m)" using e(1,2) i occ [of "e - ?m"] by simp
    ultimately show ?thesis using e(3) by blast
  qed
  then show ?thesis using r buf_repD(1) [OF assms(2)] by auto
qed

end

text \<open>
  The table the code computes meets the contract for either comparison, since bytes that
  agree also agree up to case.
\<close>

lemma borders_map: "borders p t n \<Longrightarrow> borders (map f p) t n"
  unfolding borders_def by (metis (no_types, lifting) map_tl msuf_map take_map)

interpretation exact: border_table id p "prefix_table_of p" for p
  by unfold_locales (simp_all add: prefix_table_of_spec)

interpretation caseless: border_table c_tolower p "prefix_table_of p" for p
  by unfold_locales (simp_all add: prefix_table_of_spec borders_map)

section \<open>Properties\<close>

text \<open>
  C20. \<open>mboxBufContainsPattern\<close> is a correct substring search: for a pattern that is not empty,
  on a buffer without zero bytes, both of a length that fits an \<open>int\<close>, it returns, and what it returns is the index of
  the first occurrence of the pattern, or -1 exactly when there is none.
\<close>

theorem mboxBufContainsPattern_correct:
  assumes "p \<noteq> []" and "buf_rep b s" and "NUL \<notin> set s"
    and "length s < 2 ^ 31" and "length p < 2 ^ 31"
  shows "\<exists>r. mboxBufContainsPattern b p (length p) = Inr r \<and>
     (r = -1 \<longleftrightarrow> (\<forall>i. \<not> occurs_at id p s i)) \<and>
     (r \<noteq> -1 \<longrightarrow> 0 \<le> r \<and> occurs_at id p s (nat r) \<and> (\<forall>j < nat r. \<not> occurs_at id p s j))"
  using exact.find_spec [OF assms(1-4)] prefix_table_of [OF assms(1,5)] prefix_table_of_spec [of p] assms(1,5)
  by (auto simp: mboxBufContainsPattern_def mboxBufContainsPatternWithTable_def)

theorem mboxBufContainsPattern_correct_witness:
  "\<exists>r. mboxBufContainsPattern
        \<lparr>buf_data = map Some ''abab'' @ [Some NUL], buf_offset = 0, buf_len = 4, buf_capacity = 5\<rparr>
        ''ba'' (length ''ba'') = Inr r \<and> r \<noteq> -1"
proof -
  let ?b = "\<lparr>buf_data = map Some ''abab'' @ [Some NUL], buf_offset = 0, buf_len = 4, buf_capacity = 5\<rparr>"
  have "buf_rep ?b ''abab''" by (simp add: buf_rep_def)
  moreover have "occurs_at id ''ba'' ''abab'' 1" by (simp add: occurs_at_def)
  ultimately show ?thesis
    using mboxBufContainsPattern_correct [of "''ba''" ?b "''abab''"] by auto
qed

text \<open>
  The prefix table is right: for every non-empty pattern of fewer than \<open>2\<^sup>3\<^sup>1\<close> bytes the computation
  returns, and entry \<open>j\<close> is the length of the longest proper prefix of the pattern's first \<open>j + 1\<close>
  bytes that is also their suffix.
\<close>

theorem mboxBufComputePrefixTable_correct:
  assumes "p \<noteq> []" and "length p < 2 ^ 31"
  shows "\<exists>t. mboxBufComputePrefixTable p (length p) = Inr (map int t) \<and> length t = length p \<and>
     (\<forall>j < length p. t ! j \<le> j \<and>
        take (t ! j) p = drop (Suc j - t ! j) (take (Suc j) p) \<and>
        (\<forall>k. t ! j < k \<longrightarrow> k \<le> j \<longrightarrow> take k p \<noteq> drop (Suc j - k) (take (Suc j) p)))"
proof -
  obtain t where t: "mboxBufComputePrefixTable p (length p) = Inr (map int t)" "length t = length p"
    "borders p t (length p)" "best p t (length p)"
    using mboxBufComputePrefixTable_spec [OF assms] by blast
  have "t ! j \<le> j \<and> take (t ! j) p = drop (Suc j - t ! j) (take (Suc j) p) \<and>
        (\<forall>k. t ! j < k \<longrightarrow> k \<le> j \<longrightarrow> take k p \<noteq> drop (Suc j - k) (take (Suc j) p))"
    if j: "j < length p" for j
    using bordersD [OF t(3), of "Suc j"] bestD [OF t(4), of "Suc j"] j
    by (auto simp: msuf_border [OF j]) (meson leD)
  then show ?thesis using t(1,2) by blast
qed

theorem mboxBufComputePrefixTable_correct_witness:
  "\<exists>t. mboxBufComputePrefixTable ''abab'' (length ''abab'') = Inr (map int t) \<and> t ! 3 \<le> 3"
proof -
  obtain t where t: "mboxBufComputePrefixTable ''abab'' (length ''abab'') = Inr (map int t)"
    and all: "\<forall>j < length ''abab''. t ! j \<le> j"
    using mboxBufComputePrefixTable_correct [of "''abab''"] by fastforce
  from all have "t ! 3 \<le> 3" by simp
  with t show ?thesis by blast
qed

text \<open>
  An empty pattern is not safe to search for: the table it is given has no entry, and
  the code writes its first entry all the same. \<open>mboxMsgListFilterBySender\<close> passes the
  caller's string through unchecked.
\<close>

theorem mboxBufContainsPattern_empty_overruns:
  "mboxBufComputePrefixTable p 0 = Inl OutOfBounds \<and>
   mboxBufContainsPattern b p 0 = Inl OutOfBounds \<and>
   mboxBufContainsCasePattern b p 0 = Inl OutOfBounds"
  by (simp add: mboxBufComputePrefixTable_def mboxBufContainsPattern_def
      mboxBufContainsCasePattern_def)

text \<open>
  Nor is a very long one: the size of the table is then more than \<open>malloc\<close> gives, or wraps around to nothing,
  and its first entry is written without a look at what \<open>malloc\<close> returned.
\<close>

theorem mboxBufComputePrefixTable_no_table:
  assumes "2 ^ 61 \<le> n" and "n \<le> 2 ^ 62"
  shows "mboxBufComputePrefixTable p n = Inl OutOfBounds"
proof -
  have "4 * n mod SIZE_MOD = 0 \<or> PTRDIFF_MAX < 4 * n mod SIZE_MOD"
    using assms by (cases "n = 2 ^ 62") auto
  then have "length (blk_malloc (4 * n mod SIZE_MOD)) = 0" by (auto simp: blk_malloc_def)
  then show ?thesis by (simp add: mboxBufComputePrefixTable_def)
qed

text \<open>
  The search up to case never reports a match that is not there: whatever the pattern, it
  returns, and an index it returns is one where the pattern stands when letter case is
  ignored.
\<close>

theorem mboxBufContainsCasePattern_sound:
  assumes "p \<noteq> []" and "buf_rep b s" and "NUL \<notin> set s"
    and "length s < 2 ^ 31" and "length p < 2 ^ 31"
  shows "\<exists>r. mboxBufContainsCasePattern b p (length p) = Inr r \<and>
     (r = -1 \<or> 0 \<le> r \<and> occurs_at c_tolower p s (nat r))"
  using caseless.find_spec [OF assms(1-4)] prefix_table_of [OF assms(1,5)] assms(1,5)
  by (auto simp: mboxBufContainsCasePattern_def mboxBufContainsCasePatternWithTable_def)

theorem mboxBufContainsCasePattern_sound_witness:
  "\<exists>r. mboxBufContainsCasePattern
        \<lparr>buf_data = map Some ''xAb'' @ [Some NUL], buf_offset = 0, buf_len = 3, buf_capacity = 4\<rparr>
        ''aB'' (length ''aB'') = Inr r \<and> (r = -1 \<or> 0 \<le> r)"
proof -
  let ?b = "\<lparr>buf_data = map Some ''xAb'' @ [Some NUL], buf_offset = 0, buf_len = 3, buf_capacity = 4\<rparr>"
  have "buf_rep ?b ''xAb''" by (simp add: buf_rep_def)
  then show ?thesis
    using mboxBufContainsCasePattern_sound [of "''aB''" ?b "''xAb''"] by auto
qed

text \<open>
  For a pattern in lower case the search up to case is complete as well: it returns the
  first occurrence, and -1 exactly when there is none.
\<close>

theorem mboxBufContainsCasePattern_lower_correct:
  assumes "map c_tolower p = p" and "p \<noteq> []" and "buf_rep b s" and "NUL \<notin> set s"
    and "length s < 2 ^ 31" and "length p < 2 ^ 31"
  shows "\<exists>r. mboxBufContainsCasePattern b p (length p) = Inr r \<and>
     (r = -1 \<longleftrightarrow> (\<forall>i. \<not> occurs_at c_tolower p s i)) \<and>
     (r \<noteq> -1 \<longrightarrow> 0 \<le> r \<and> occurs_at c_tolower p s (nat r) \<and>
                 (\<forall>j < nat r. \<not> occurs_at c_tolower p s j))"
  using caseless.find_spec [OF assms(2-5)] prefix_table_of [OF assms(2,6)]
    prefix_table_of_spec(3) [of p] assms(1,2,6)
  by (auto simp: mboxBufContainsCasePattern_def mboxBufContainsCasePatternWithTable_def)

theorem mboxBufContainsCasePattern_lower_correct_witness:
  "\<exists>r. mboxBufContainsCasePattern
        \<lparr>buf_data = map Some ''xAb'' @ [Some NUL], buf_offset = 0, buf_len = 3, buf_capacity = 4\<rparr>
        ''ab'' (length ''ab'') = Inr r \<and> r \<noteq> -1"
proof -
  let ?b = "\<lparr>buf_data = map Some ''xAb'' @ [Some NUL], buf_offset = 0, buf_len = 3, buf_capacity = 4\<rparr>"
  have "buf_rep ?b ''xAb''" by (simp add: buf_rep_def)
  moreover have "occurs_at c_tolower ''ab'' ''xAb'' 1"
    by (simp add: occurs_at_def c_tolower_def byte_def chr_of_def) code_simp
  moreover have "map c_tolower ''ab'' = ''ab''"
    by (simp add: c_tolower_def byte_def)
  ultimately show ?thesis
    using mboxBufContainsCasePattern_lower_correct [of "''ab''" ?b "''xAb''"] by auto
qed

text \<open>
  For other patterns it can miss a match: the table is computed with letter case, the
  scan ignores it. \<open>aAb\<close> stands in \<open>aaab\<close> from index 1 on when case is ignored, and the
  code returns -1.
\<close>

theorem mboxBufContainsCasePattern_misses:
  "occurs_at c_tolower ''aAb'' ''aaab'' 1 \<and>
   mboxBufContainsCasePattern
     \<lparr>buf_data = map Some ''aaab'' @ [Some NUL], buf_offset = 0, buf_len = 4, buf_capacity = 5\<rparr>
     ''aAb'' 3 = Inr (-1)"
  by code_simp

end
