(* ===== verification/Mbox_Encode.thy ===== *)
theory Mbox_Encode
  imports Mbox_Buf
begin

text \<open>
  The text transformations of \<open>src/src/mbox-buf.c\<close>: formatted appending, escaping for
  display, splitting at a delimiter, and the decoding of \<open>=?utf-8?Q?...?=\<close> words. Each is
  compared with a definition on plain byte strings.
\<close>

unbundle bit_operations_syntax

section \<open>Formatted appending\<close>

text \<open>
  \<open>mboxBufCatPrintf\<close> formats into a temporary block of 512 bytes or three times the format. \<open>out\<close> is
  what the format and its arguments expand to (the C library's work); \<open>vsnprintf\<close> stores at most
  \<open>bufferlen - 1\<close> bytes of it, so the byte at \<open>bufferlen - 2\<close>, which was set to zero, stays zero exactly when \<open>out\<close> has fewer than
  \<open>bufferlen - 1\<close> bytes. Otherwise the code doubles the block and formats again, from the argument list \<open>ap\<close> that
  the first call has used, not from the copy it made: that has no defined result.
\<close>

definition mboxBufCatPrintf :: "mboxBuf \<Rightarrow> string \<Rightarrow> string \<Rightarrow> c_error + mboxBuf" where
  "mboxBufCatPrintf b fmt out =
     (let min_len = 512;
          bufferlen = length fmt * 3;
          bufferlen = (if bufferlen > min_len then bufferlen else min_len)
      in if bufferlen - 1 \<le> length out then Inl UsedArgs
         else mboxBufCatLen b (c_lit out) (length out))"

lemma mboxBufCatPrintf_is_CatLen:
  "length out < 511 \<Longrightarrow> mboxBufCatPrintf b fmt out = mboxBufCatLen b (c_lit out) (length out)"
  by (auto simp: mboxBufCatPrintf_def Let_def)

lemma take_lit [simp]: "take (length s) (c_lit s) = map Some s"
  by (simp add: c_lit_def)

section \<open>Escaping\<close>

text \<open>The digits of \<open>%04x\<close> for a byte.\<close>

definition hex_digit :: "nat \<Rightarrow> mboxChar" where
  "hex_digit n = (if n < 10 then chr_of (48 + n) else chr_of (87 + n))"

definition fmt_04x :: "nat \<Rightarrow> string" where
  "fmt_04x n = [hex_digit (n div 4096 mod 16), hex_digit (n div 256 mod 16),
                hex_digit (n div 16 mod 16), hex_digit (n mod 16)]"

definition escape_char :: "mboxBuf \<Rightarrow> mboxChar \<Rightarrow> c_error + mboxBuf" where
  "escape_char outstr c =
     (if byte c > 31 \<and> c \<noteq> CHR 0x22 \<and> c \<noteq> CHR 0x5C then mboxBufPutChar outstr c
      else bindE (mboxBufPutChar outstr CHR 0x5C) (\<lambda>outstr.
        if c = CHR 0x5C then mboxBufPutChar outstr CHR 0x5C
        else if c = CHR 0x22 then mboxBufPutChar outstr CHR 0x22
        else if c = CHR 0x08 then mboxBufPutChar outstr CHR ''b''
        else if c = LF then mboxBufPutChar outstr CHR ''n''
        else if c = TAB then mboxBufPutChar outstr CHR ''t''
        else if c = CHR 0x0B then mboxBufPutChar outstr CHR ''v''
        else if c = CHR 0x0C then mboxBufPutChar outstr CHR ''f''
        else if c = CR then mboxBufPutChar outstr CHR ''r''
        else mboxBufCatPrintf outstr ''u%04x'' (CHR ''u'' # fmt_04x (byte c))))"

function escape_loop :: "block \<Rightarrow> nat \<Rightarrow> mboxBuf \<Rightarrow> c_error + mboxBuf" where
  "escape_loop m i outstr =
     bindE (blk_read m i) (\<lambda>c.
       if c = NUL then Inr outstr
       else bindE (escape_char outstr c) (escape_loop m (Suc i)))"
  by pat_completeness auto
termination
  by (relation "measure (\<lambda>(m, i, outstr). length m - i)") (auto simp: outcome_simps)

declare escape_loop.simps [simp del]

text \<open>The capacity is read before the pointer is compared with \<open>NULL\<close>.\<close>

definition mboxBufEscapeString :: "mboxBuf option \<Rightarrow> c_error + mboxBuf" where
  "mboxBufEscapeString buf =
     (case buf of
        None \<Rightarrow> Inl NullDeref
      | Some buf \<Rightarrow> escape_loop (buf_data buf) 0 (mboxBufAlloc (buf_capacity buf)))"

text \<open>Escaping on strings.\<close>

definition esc :: "mboxChar \<Rightarrow> string" where
  "esc c =
     (if byte c > 31 \<and> c \<noteq> CHR 0x22 \<and> c \<noteq> CHR 0x5C then [c]
      else CHR 0x5C #
        (if c = CHR 0x5C then [CHR 0x5C] else if c = CHR 0x22 then [CHR 0x22]
         else if c = CHR 0x08 then ''b'' else if c = LF then ''n'' else if c = TAB then ''t''
         else if c = CHR 0x0B then ''v'' else if c = CHR 0x0C then ''f''
         else if c = CR then ''r'' else CHR ''u'' # fmt_04x (byte c)))"

lemma escape_char_rep:
  assumes rep: "buf_rep b s" and room: "buf_capacity b + 512 \<le> PTRDIFF_MAX"
  shows "\<exists>b'. escape_char b c = Inr b' \<and> buf_rep b' (s @ esc c) \<and>
     buf_capacity b' \<le> buf_capacity b + 512 \<and> buf_term b'"
proof -
  from mboxBufPutChar_rep [OF rep, of "CHR 0x5C"] room
  obtain b1 where b1: "mboxBufPutChar b CHR 0x5C = Inr b1" "buf_rep b1 (s @ [CHR 0x5C])"
    "buf_capacity b1 \<le> buf_capacity b + 256" by auto
  define Q where "Q r t \<longleftrightarrow> (\<exists>b'. r = Inr b' \<and> buf_rep b' (s @ CHR 0x5C # t) \<and>
     buf_capacity b' \<le> buf_capacity b + 512 \<and> buf_term b')"
    for r :: "c_error + mboxBuf" and t
  have put: "Q (mboxBufPutChar b1 x) [x]" for x
    using mboxBufPutChar_rep [OF b1(2), of x] b1(3) room by (fastforce simp: Q_def)
  have hex: "Q (mboxBufCatPrintf b1 ''u%04x'' (CHR ''u'' # fmt_04x n)) (CHR ''u'' # fmt_04x n)" for n
    using mboxBufCatLen_rep [OF b1(2), of "CHR ''u'' # fmt_04x n" "c_lit (CHR ''u'' # fmt_04x n)"]
      b1(3) room take_lit [of "CHR ''u'' # fmt_04x n"]
    by (fastforce simp: mboxBufCatPrintf_is_CatLen fmt_04x_def Q_def)
  have if_Q: "Q (if d then r1 else r2) (if d then t1 else t2)" if "Q r1 t1" "Q r2 t2" for d r1 r2 t1 t2
    using that by simp
  show ?thesis
  proof (cases "byte c > 31 \<and> c \<noteq> CHR 0x22 \<and> c \<noteq> CHR 0x5C")
    case True
    then show ?thesis
      using mboxBufPutChar_rep [OF rep, of c] room by (fastforce simp: escape_char_def esc_def)
  next
    case False
    then have e: "escape_char b c =
       (if c = CHR 0x5C then mboxBufPutChar b1 CHR 0x5C
        else if c = CHR 0x22 then mboxBufPutChar b1 CHR 0x22
        else if c = CHR 0x08 then mboxBufPutChar b1 CHR ''b''
        else if c = LF then mboxBufPutChar b1 CHR ''n''
        else if c = TAB then mboxBufPutChar b1 CHR ''t''
        else if c = CHR 0x0B then mboxBufPutChar b1 CHR ''v''
        else if c = CHR 0x0C then mboxBufPutChar b1 CHR ''f''
        else if c = CR then mboxBufPutChar b1 CHR ''r''
        else mboxBufCatPrintf b1 ''u%04x'' (CHR ''u'' # fmt_04x (byte c)))"
      using b1(1) by (simp only: escape_char_def if_False bindE.simps)
    have t: "esc c = CHR 0x5C #
        (if c = CHR 0x5C then [CHR 0x5C] else if c = CHR 0x22 then [CHR 0x22]
         else if c = CHR 0x08 then ''b'' else if c = LF then ''n'' else if c = TAB then ''t''
         else if c = CHR 0x0B then ''v'' else if c = CHR 0x0C then ''f''
         else if c = CR then ''r'' else CHR ''u'' # fmt_04x (byte c))"
      using False by (simp only: esc_def if_False)
    have "Q (escape_char b c) (tl (esc c))"
      unfolding e t list.sel by (intro if_Q put hex)
    then show ?thesis unfolding Q_def t by simp
  qed
qed

text \<open>The loop over a string that its zero byte ends.\<close>

lemma escape_loop_rep:
  assumes b: "buf_rep b s" "buf_term b" and nz: "NUL \<notin> set s"
    and out: "buf_rep o' t" and i: "i \<le> length s"
    and room: "buf_capacity o' + 512 * (length s - i) \<le> PTRDIFF_MAX"
  shows "\<exists>r. escape_loop (buf_data b) i o' = Inr r \<and>
     buf_rep r (t @ concat (map esc (drop i s)))"
  using out i room
proof (induction "length s - i" arbitrary: i o' t)
  case 0
  then have "i = length s" by simp
  moreover have "blk_read (buf_data b) (length s) = Inr NUL"
    using b by (simp add: buf_term_def blk_read_def buf_repD(1))
  ultimately show ?case using 0 by (subst escape_loop.simps) simp
next
  case (Suc d)
  then have i: "i < length s" by simp
  have c: "blk_read (buf_data b) i = Inr (s ! i)" "s ! i \<noteq> NUL"
    using b(1) nz i by (auto dest: nth_mem)
  have "512 * (length s - i) = 512 * (length s - Suc i) + 512" using i by simp
  with Suc.prems(3) obtain o2 where o2: "escape_char o' (s ! i) = Inr o2"
    "buf_rep o2 (t @ esc (s ! i))" "buf_capacity o2 \<le> buf_capacity o' + 512"
    using escape_char_rep [OF Suc.prems(1), of "s ! i"] by auto
  obtain r where "escape_loop (buf_data b) (Suc i) o2 = Inr r"
    "buf_rep r ((t @ esc (s ! i)) @ concat (map esc (drop (Suc i) s)))"
    using Suc.hyps(1) [of "Suc i" o2 "t @ esc (s ! i)"] Suc.hyps(2) Suc.prems(3) o2 i
      \<open>512 * (length s - i) = _\<close> by auto
  moreover have "drop i s = s ! i # drop (Suc i) s" using i by (simp add: Cons_nth_drop_Suc)
  ultimately show ?case
    using c o2(1) by (subst escape_loop.simps) simp
qed

text \<open>Reading an escaped string back.\<close>

definition hex_val :: "mboxChar \<Rightarrow> nat" where
  "hex_val c = (if byte c < 58 then byte c - 48 else byte c - 87)"

lemma hex_val_digit: "d < 16 \<Longrightarrow> hex_val (hex_digit d) = d"
  by (simp add: hex_val_def hex_digit_def byte_chr_of)

fun unesc :: "string \<Rightarrow> string" where
  "unesc (x # y # r) =
     (if x \<noteq> CHR 0x5C then x # unesc (y # r)
      else if y = CHR ''u'' then
        (case r of
           a # b # d # e # r' \<Rightarrow>
             chr_of (((hex_val a * 16 + hex_val b) * 16 + hex_val d) * 16 + hex_val e) # unesc r'
         | _ \<Rightarrow> [])
      else (if y = CHR ''b'' then CHR 0x08 else if y = CHR ''n'' then LF
            else if y = CHR ''t'' then TAB else if y = CHR ''v'' then CHR 0x0B
            else if y = CHR ''f'' then CHR 0x0C else if y = CHR ''r'' then CR else y) # unesc r)"
| "unesc xs = xs"

lemma fmt_04x_back: "unesc (CHR 0x5C # CHR ''u'' # fmt_04x (byte c) @ r) = c # unesc r"
proof -
  have lt: "byte c < 4096" using byte_bound [of c] by linarith
  have z: "byte c div 4096 = 0" "byte c div 256 = 0"
    by (rule div_less [OF lt], rule div_less [OF byte_bound])
  have "byte c div 16 < 16" using byte_bound [of c] by linarith
  then have "byte c div 16 mod 16 * 16 + byte c mod 16 = byte c" by simp
  then show ?thesis by (simp add: fmt_04x_def hex_val_digit z)
qed

lemma unesc_esc: "unesc (esc c @ r) = c # unesc r"
proof (cases "byte c > 31 \<and> c \<noteq> CHR 0x22 \<and> c \<noteq> CHR 0x5C")
  case True
  then show ?thesis by (cases r) (auto simp: esc_def)
next
  case False
  then have e: "esc c = CHR 0x5C #
        (if c = CHR 0x5C then [CHR 0x5C] else if c = CHR 0x22 then [CHR 0x22]
         else if c = CHR 0x08 then ''b'' else if c = LF then ''n'' else if c = TAB then ''t''
         else if c = CHR 0x0B then ''v'' else if c = CHR 0x0C then ''f''
         else if c = CR then ''r'' else CHR ''u'' # fmt_04x (byte c))"
    by (simp only: esc_def if_False)
  show ?thesis
    unfolding e using fmt_04x_back [of c r] by (simp del: unesc.simps split del: if_split) (simp split: if_splits)
qed

lemma unesc_escaped: "unesc (concat (map esc s)) = s"
  by (induction s) (simp_all add: unesc_esc)

text \<open>
  Escaping a string for display: on a buffer whose zero byte ends it the code returns,
  and the result is the escaped form of each byte in turn (quotes and backslashes behind a
  backslash, the named control characters as letters, the other bytes below 32 as \<open>\u00xx\<close>).
\<close>

theorem mboxBufEscapeString_correct:
  assumes "buf_rep b s" and "buf_term b" and "NUL \<notin> set s"
    and "buf_capacity b + 10 + 512 * length s \<le> PTRDIFF_MAX"
  shows "\<exists>r. mboxBufEscapeString (Some b) = Inr r \<and> buf_rep r (concat (map esc s))"
proof -
  have "buf_rep (mboxBufAlloc (buf_capacity b)) []"
    using assms(4) by (intro mboxBufAlloc_rep) simp
  then show ?thesis
    using escape_loop_rep [OF assms(1-3), of _ "[]" 0] assms(4)
    by (simp add: mboxBufEscapeString_def)
qed

theorem mboxBufEscapeString_correct_witness:
  "\<exists>r. mboxBufEscapeString (Some
        \<lparr>buf_data = map Some ''a\<newline>b'' @ [Some NUL], buf_offset = 0, buf_len = 3, buf_capacity = 4\<rparr>)
       = Inr r \<and> buf_rep r (CHR ''a'' # CHR 0x5C # ''nb'')"
proof -
  let ?b = "\<lparr>buf_data = map Some ''a\<newline>b'' @ [Some NUL], buf_offset = 0, buf_len = 3, buf_capacity = 4\<rparr>"
  have "buf_rep ?b ''a\<newline>b''" by (simp add: buf_rep_def)
  moreover have "buf_term ?b" by (simp add: buf_term_def)
  moreover have "concat (map esc ''a\<newline>b'') = CHR ''a'' # CHR 0x5C # ''nb''"
    by (simp add: esc_def byte_def)
  ultimately show ?thesis
    using mboxBufEscapeString_correct [of ?b "''a\<newline>b''"] by simp
qed

text \<open>
  Escaping loses nothing: two strings with the same escaped form are equal.
\<close>

theorem mboxBufEscapeString_injective:
  assumes "buf_rep b s" "buf_term b" "NUL \<notin> set s"
    and "buf_capacity b + 10 + 512 * length s \<le> PTRDIFF_MAX"
    and "buf_rep b' s'" "buf_term b'" "NUL \<notin> set s'"
    and "buf_capacity b' + 10 + 512 * length s' \<le> PTRDIFF_MAX"
    and "mboxBufEscapeString (Some b) = Inr r" "mboxBufEscapeString (Some b') = Inr r'"
    and "buf_rep r t" "buf_rep r' t"
  shows "s = s'"
proof -
  have "buf_rep r (concat (map esc s))" "buf_rep r' (concat (map esc s'))"
    using escape_loop_rep [OF assms(1-3), of "mboxBufAlloc (buf_capacity b)" "[]" 0]
      escape_loop_rep [OF assms(5-7), of "mboxBufAlloc (buf_capacity b')" "[]" 0]
      assms(4,8-10) mboxBufAlloc_rep
    by (auto simp: mboxBufEscapeString_def)
  then have "concat (map esc s) = concat (map esc s')"
    using assms(11,12) buf_rep_unique by metis
  then show ?thesis by (metis unesc_escaped)
qed

theorem mboxBufEscapeString_injective_witness:
  "\<exists>r t. mboxBufEscapeString (Some
        \<lparr>buf_data = [Some CHR ''a'', Some NUL], buf_offset = 0, buf_len = 1, buf_capacity = 2\<rparr>)
       = Inr r \<and> buf_rep r t \<and> ''a'' = ''a''"
proof -
  let ?b = "\<lparr>buf_data = [Some CHR ''a'', Some NUL], buf_offset = 0, buf_len = 1, buf_capacity = 2\<rparr>"
  have b: "buf_rep ?b ''a''" "buf_term ?b" by (simp_all add: buf_rep_def buf_term_def)
  have room: "buf_capacity ?b + 10 + 512 * length ''a'' \<le> PTRDIFF_MAX" by simp
  obtain r where r: "mboxBufEscapeString (Some ?b) = Inr r" "buf_rep r ''a''"
    using escape_loop_rep [OF b, of "mboxBufAlloc 2" "[]" 0] mboxBufAlloc_rep [of 2]
    by (auto simp: mboxBufEscapeString_def esc_def byte_def)
  have "''a'' = ''a''"
    by (rule mboxBufEscapeString_injective [OF b _ room b _ room r(1) r(1) r(2) r(2)]) simp_all
  with r show ?thesis by blast
qed

section \<open>Encoded words\<close>

definition MIME_PREFIX :: string where "MIME_PREFIX = ''=?utf-8?Q?''"
definition MIME_SUFFIX :: string where "MIME_SUFFIX = ''?=''"

definition mboxBufIsMimeEncoded :: "mboxBuf \<Rightarrow> c_error + bool" where
  "mboxBufIsMimeEncoded buf =
     bindE (c_strncmp id (c_lit MIME_PREFIX) 0 (buf_data buf) 0 10) (\<lambda>r.
     if r \<noteq> 0 then Inr False
     else bindE (c_strncmp id (buf_data buf) (size_sub (buf_len buf) 2) (c_lit MIME_SUFFIX) 0 2) (\<lambda>r.
          Inr (r = 0)))"

definition hexToInt :: "mboxChar \<Rightarrow> int" where
  "hexToInt c =
     (if byte CHR ''0'' \<le> byte c \<and> byte c \<le> byte CHR ''9''
        then int (byte c) - int (byte CHR ''0'')
      else if byte CHR ''A'' \<le> byte c \<and> byte c \<le> byte CHR ''F''
        then int (byte c) - int (byte CHR ''A'') + 10
      else if byte CHR ''a'' \<le> byte c \<and> byte c \<le> byte CHR ''f''
        then int (byte c) - int (byte CHR ''a'') + 10
      else -1)"

text \<open>
  \<open>decodeMimeEncoded\<close> reading from one block and writing to another, and with both
  pointers into the same block, as \<open>mboxBufDecodeMimeEncodedInplace\<close> calls it. Both
  digits are read before either is looked at.
\<close>

function decodeMimeEncoded :: "block \<Rightarrow> nat \<Rightarrow> block \<Rightarrow> nat \<Rightarrow> c_error + (block \<times> nat)" where
  "decodeMimeEncoded str i out len =
     bindE (blk_read str i) (\<lambda>c.
       if c = NUL then Inr (out, len)
       else if c = CHR ''='' then
         bindE (blk_read str (i + 1)) (\<lambda>h.
         bindE (blk_read str (i + 2)) (\<lambda>l.
           let hi = hexToInt h; lo = hexToInt l
           in if hi \<noteq> -1 \<and> lo \<noteq> -1 then
                bindE (blk_write out len (chr_of (nat (push_bit 4 hi OR lo)))) (\<lambda>out.
                decodeMimeEncoded str (i + 3) out (len + 1))
              else
                bindE (blk_write out len c) (\<lambda>out.
                decodeMimeEncoded str (i + 1) out (len + 1))))
       else
         bindE (blk_write out len c) (\<lambda>out.
         decodeMimeEncoded str (i + 1) out (len + 1)))"
  by pat_completeness auto
termination
  by (relation "measure (\<lambda>(str, i, out, len). length str - i)") (auto simp: outcome_simps)

function decodeMimeEncoded_inplace :: "block \<Rightarrow> nat \<Rightarrow> nat \<Rightarrow> c_error + (block \<times> nat)" where
  "decodeMimeEncoded_inplace m i len =
     bindE (blk_read m i) (\<lambda>c.
       if c = NUL then Inr (m, len)
       else if c = CHR ''='' then
         bindE (blk_read m (i + 1)) (\<lambda>h.
         bindE (blk_read m (i + 2)) (\<lambda>l.
           let hi = hexToInt h; lo = hexToInt l
           in if hi \<noteq> -1 \<and> lo \<noteq> -1 then
                bindE (blk_write m len (chr_of (nat (push_bit 4 hi OR lo)))) (\<lambda>m.
                decodeMimeEncoded_inplace m (i + 3) (len + 1))
              else
                bindE (blk_write m len c) (\<lambda>m.
                decodeMimeEncoded_inplace m (i + 1) (len + 1))))
       else
         bindE (blk_write m len c) (\<lambda>m.
         decodeMimeEncoded_inplace m (i + 1) (len + 1)))"
  by pat_completeness auto
termination
  by (relation "measure (\<lambda>(m, i, len). length m - i)") (auto simp: outcome_simps)

declare decodeMimeEncoded.simps [simp del] decodeMimeEncoded_inplace.simps [simp del]

definition mboxBufDecodeMimeEncodedInplace :: "mboxBuf \<Rightarrow> c_error + mboxBuf" where
  "mboxBufDecodeMimeEncodedInplace buf =
     bindE (mboxBufSlice buf 10 0 (size_sub (size_sub (buf_len buf) 10) 2)) (\<lambda>buf.
     bindE (decodeMimeEncoded_inplace (buf_data buf) 0 0) (\<lambda>(d, outlen).
     mboxBufSetLen (buf\<lparr>buf_data := d\<rparr>) outlen))"

text \<open>
  The block the code copies from is not the string: \<open>buf + 10\<close> is ten \<open>mboxBuf\<close>
  structures (of 32 bytes each) after the structure itself.
\<close>

definition SIZEOF_MBOXBUF :: nat where "SIZEOF_MBOXBUF = 32"

definition mboxBufDecodeMimeEncoded :: "mboxBuf \<Rightarrow> c_error + mboxBuf" where
  "mboxBufDecodeMimeEncoded buf =
     (let len = buf_len buf;
          out = mboxBufAlloc 512;
          tmp = (if len < 2048 then blk_malloc 2048 else blk_malloc len);
          n = size_sub (size_sub len 10) 2;
          struct_bytes = replicate SIZEOF_MBOXBUF None
      in bindE (blk_copy tmp 0 struct_bytes (10 * SIZEOF_MBOXBUF) n) (\<lambda>tmp.
         bindE (blk_write tmp n NUL) (\<lambda>tmp.
         bindE (decodeMimeEncoded tmp 0 (buf_data out) 0) (\<lambda>(d, outlen).
         mboxBufSetLen (out\<lparr>buf_data := d\<rparr>) outlen))))"

text \<open>Decoding on strings: what the two loops compute.\<close>

fun qp_decode :: "string \<Rightarrow> string" where
  "qp_decode (c # h # l # r) =
     (if c = CHR ''='' \<and> hexToInt h \<noteq> -1 \<and> hexToInt l \<noteq> -1
      then chr_of (nat (push_bit 4 (hexToInt h) OR hexToInt l)) # qp_decode r
      else c # qp_decode (h # l # r))"
| "qp_decode s = s"

lemma hexToInt_NUL [simp]: "hexToInt NUL = -1"
  by (simp add: hexToInt_def byte_def)

lemma qp_decode_length: "length (qp_decode s) \<le> length s"
  by (induction s rule: qp_decode.induct) auto

text \<open>
  The in-place loop: what is still to be read has not been overwritten, because the write
  position never passes the read position.
\<close>

definition ready :: "block \<Rightarrow> nat \<Rightarrow> nat \<Rightarrow> string \<Rightarrow> bool" where
  "ready m i len s \<longleftrightarrow>
     len \<le> i \<and> i + length s + 1 < length m \<and> (\<forall>k < length s. m ! (i + k) = Some (s ! k)) \<and>
     m ! (i + length s) = Some NUL \<and> m ! (i + length s + 1) \<noteq> None \<and> NUL \<notin> set s"

lemma ready_write:
  assumes "ready m i len (u @ t)" and "u \<noteq> []"
  shows "ready (m[len := Some x]) (i + length u) (len + 1) t"
proof -
  have "len < i + length u" using assms by (cases u) (auto simp: ready_def)
  moreover have "\<forall>k < length t. m ! (i + length u + k) = Some (t ! k)"
  proof (intro allI impI)
    fix k assume "k < length t"
    then have "m ! (i + (length u + k)) = Some ((u @ t) ! (length u + k))"
      using assms(1) unfolding ready_def by (metis add_less_cancel_left length_append)
    then show "m ! (i + length u + k) = Some (t ! k)" by (simp add: add.assoc)
  qed
  ultimately show ?thesis
    using assms(1) by (simp add: ready_def add.assoc)
qed

lemma ready_read:
  assumes "ready m i len (c # t)"
  shows "blk_read m i = Inr c" "c \<noteq> NUL" "len < length m"
    "\<exists>h. blk_read m (i + 1) = Inr h \<and> (t = [] \<longrightarrow> h = NUL) \<and> (\<forall>x r. t = x # r \<longrightarrow> h = x)"
    "\<exists>l. blk_read m (i + 2) = Inr l \<and>
       (\<forall>x. t = [x] \<longrightarrow> l = NUL) \<and> (\<forall>x y r. t = x # y # r \<longrightarrow> l = y)"
proof -
  have r: "len \<le> i" "i + length t + 2 < length m" "\<And>k. k < Suc (length t) \<Longrightarrow> m ! (i + k) = Some ((c # t) ! k)"
    "m ! (i + length t + 1) = Some NUL" "m ! (i + length t + 2) \<noteq> None" "c \<noteq> NUL"
    using assms by (auto simp: ready_def)
  show "blk_read m i = Inr c" using r(2) r(3) [of 0] by (simp add: blk_read_def)
  show "c \<noteq> NUL" "len < length m" using r by auto
  show "\<exists>h. blk_read m (i + 1) = Inr h \<and> (t = [] \<longrightarrow> h = NUL) \<and> (\<forall>x r. t = x # r \<longrightarrow> h = x)"
    using r(2,4) r(3) [of 1] by (cases t) (auto simp: blk_read_def)
  show "\<exists>l. blk_read m (i + 2) = Inr l \<and>
       (\<forall>x. t = [x] \<longrightarrow> l = NUL) \<and> (\<forall>x y r. t = x # y # r \<longrightarrow> l = y)"
  proof (cases t)
    case Nil
    then show ?thesis using r(2,5) by (auto simp: blk_read_def)
  next
    case (Cons x t')
    then show ?thesis using r(2,4) r(3) [of 2] by (cases t') (auto simp: blk_read_def numeral_2_eq_2)
  qed
qed

lemma inplace_literal:
  assumes "ready m i len (c # t)"
    and "c \<noteq> CHR ''='' \<or> (\<forall>h l r. t = h # l # r \<longrightarrow> hexToInt h = -1 \<or> hexToInt l = -1)"
  shows "decodeMimeEncoded_inplace m i len =
     decodeMimeEncoded_inplace (m[len := Some c]) (i + 1) (len + 1)"
proof -
  obtain h l where hl: "blk_read m (i + 1) = Inr h" "blk_read m (i + 2) = Inr l"
    and t: "t = [] \<longrightarrow> h = NUL" "\<forall>x r. t = x # r \<longrightarrow> h = x"
      "\<forall>x. t = [x] \<longrightarrow> l = NUL" "\<forall>x y r. t = x # y # r \<longrightarrow> l = y"
    using ready_read(4,5) [OF assms(1)] by blast
  have no: "c = CHR ''='' \<Longrightarrow> hexToInt h = -1 \<or> hexToInt l = -1"
    using assms(2) t by (cases t; cases "tl t") auto
  show ?thesis
    using ready_read(1,2,3) [OF assms(1)] hl no
    by (subst decodeMimeEncoded_inplace.simps) (auto simp: blk_write_def Let_def)
qed

lemma inplace_pair:
  assumes "ready m i len (CHR ''='' # h # l # r)" and "hexToInt h \<noteq> -1" "hexToInt l \<noteq> -1"
  shows "decodeMimeEncoded_inplace m i len =
     decodeMimeEncoded_inplace (m[len := Some (chr_of (nat (push_bit 4 (hexToInt h) OR hexToInt l)))])
       (i + 3) (len + 1)"
  using ready_read [OF assms(1)] assms(2,3)
  by (subst decodeMimeEncoded_inplace.simps) (auto simp: blk_write_def Let_def)

lemma decode_inplace_spec:
  assumes "ready m i len s"
  shows "\<exists>m'. decodeMimeEncoded_inplace m i len = Inr (m', len + length (qp_decode s)) \<and>
     length m' = length m \<and>
     take (len + length (qp_decode s)) m' = take len m @ map Some (qp_decode s) \<and>
     drop (i + length s) m' = drop (i + length s) m"
  using assms
proof (induction "length s" arbitrary: s m i len rule: less_induct)
  case less
  have wr: "take (Suc len) (m[len := Some x]) = take len m @ [Some x]" for x
    using less.prems by (simp add: ready_def take_Suc_conv_app_nth)
  have step: "\<exists>m'. decodeMimeEncoded_inplace m i len = Inr (m', len + length (x # qp_decode t)) \<and>
     length m' = length m \<and>
     take (len + length (x # qp_decode t)) m' = take len m @ map Some (x # qp_decode t) \<and>
     drop (i + length (u @ t)) m' = drop (i + length (u @ t)) m"
    if s: "s = u @ t" "u \<noteq> []" and st: "decodeMimeEncoded_inplace m i len =
       decodeMimeEncoded_inplace (m[len := Some x]) (i + length u) (len + 1)" for x u t
  proof -
    have lt: "length t < length s" using s by simp
    have rd: "ready (m[len := Some x]) (i + length u) (len + 1) t"
      using ready_write less.prems s by simp
    have "len < i + length u" using rd by (simp add: ready_def)
    then show ?thesis
      using less.hyps [OF lt rd] st wr by (auto simp: add.assoc)
  qed
  show ?case
  proof (cases "\<exists>h l r. s = CHR ''='' # h # l # r \<and> hexToInt h \<noteq> -1 \<and> hexToInt l \<noteq> -1")
    case True
    then obtain h l r where s: "s = CHR ''='' # h # l # r" "hexToInt h \<noteq> -1" "hexToInt l \<noteq> -1"
      by blast
    then show ?thesis
      using step [of "[CHR ''='', h, l]" r] inplace_pair [of m i len h l r] less.prems
      by (simp add: numeral_3_eq_3)
  next
    case False
    show ?thesis
    proof (cases s)
      case Nil
      then show ?thesis
        using less.prems by (subst decodeMimeEncoded_inplace.simps) (simp add: ready_def blk_read_def)
    next
      case (Cons c t)
      have "qp_decode s = c # qp_decode t"
        using False Cons by (cases t; cases "tl t") auto
      moreover have "decodeMimeEncoded_inplace m i len =
          decodeMimeEncoded_inplace (m[len := Some c]) (i + 1) (len + 1)"
        using less.prems Cons False by (intro inplace_literal) auto
      ultimately show ?thesis
        using step [of "[c]" t c] Cons by simp
    qed
  qed
qed

lemma lit_read: "k < length s \<Longrightarrow> blk_read (c_lit s) k = Inr (s ! k)"
  by (simp add: blk_read_def nth_lit)

lemma list_ncmp_prefix: "list_ncmp f (length as) as (as @ bs) = 0"
  by (induction as) auto

lemma mime_lengths [simp]: "length MIME_PREFIX = 10" "length MIME_SUFFIX = 2"
  by (simp_all add: MIME_PREFIX_def MIME_SUFFIX_def)

lemma mboxBufIsMimeEncoded_framed:
  assumes rep: "buf_rep b (MIME_PREFIX @ s @ MIME_SUFFIX)"
  shows "mboxBufIsMimeEncoded b = Inr True"
proof -
  let ?c = "MIME_PREFIX @ s @ MIME_SUFFIX"
  have l: "buf_len b = length s + 12" "length s + 12 < SIZE_MOD"
    using buf_repD(1,2,6) [OF rep] by auto
  have "c_strncmp id (c_lit MIME_PREFIX) 0 (buf_data b) 0 10 = Inr (list_ncmp id 10 MIME_PREFIX ?c)"
    using rep by (intro c_strncmp_bytes) (auto simp: lit_read)
  moreover have "list_ncmp id 10 MIME_PREFIX ?c = 0"
    using list_ncmp_prefix [of id MIME_PREFIX "s @ MIME_SUFFIX"] by simp
  moreover have "c_strncmp id (buf_data b) (10 + length s) (c_lit MIME_SUFFIX) 0 2 =
      Inr (list_ncmp id 2 MIME_SUFFIX MIME_SUFFIX)"
    using rep by (intro c_strncmp_bytes) (auto simp: lit_read nth_append)
  ultimately show ?thesis
    using l by (simp add: mboxBufIsMimeEncoded_def list_ncmp_self)
qed

lemma mboxBufDecodeMimeEncodedInplace_rep:
  assumes rep: "buf_rep b (MIME_PREFIX @ s @ MIME_SUFFIX)" and nz: "NUL \<notin> set s"
  shows "\<exists>b'. mboxBufDecodeMimeEncodedInplace b = Inr b' \<and> buf_rep b' (qp_decode s) \<and> buf_term b'"
proof -
  let ?c = "MIME_PREFIX @ s @ MIME_SUFFIX" and ?n = "length s" and ?q = "qp_decode s"
  have l: "buf_len b = ?n + 12" "?n + 12 < SIZE_MOD" "?n + 12 < length (buf_data b)"
    using buf_repD(1,2,6) [OF rep] by auto
  obtain b1 where b1: "mboxBufSlice b 10 0 ?n = Inr b1" "buf_rep b1 s" "buf_term b1"
    "drop (Suc ?n) (buf_data b1) = drop (Suc ?n) (buf_data b)"
    using mboxBufSlice_rep [OF rep, of 10 ?n] by auto
  have ld: "length (buf_data b1) = length (buf_data b)"
    using arg_cong [OF b1(4), of length] l(3) buf_repD(2) [OF b1(2)] by simp
  have "buf_data b1 ! (?n + 1) = buf_data b ! (?n + 1)"
    using arg_cong [OF b1(4), of "\<lambda>m. m ! 0"] l(3) ld by simp
  also have "\<dots> \<noteq> None" using buf_rep_nth [OF rep, of "?n + 1"] by simp
  finally have "ready (buf_data b1) 0 0 s"
    using b1(2,3) nz l(3) ld by (auto simp: ready_def buf_rep_nth buf_term_def buf_repD(1))
  from decode_inplace_spec [OF this] obtain d where
    d: "decodeMimeEncoded_inplace (buf_data b1) 0 0 = Inr (d, length ?q)"
      "length d = length (buf_data b1)" "take (length ?q) d = map Some ?q" by auto
  have "length ?q < length d" using qp_decode_length [of s] d(2) ld l(3) by simp
  then have "mboxBufSetLen (b1\<lparr>buf_data := d\<rparr>) (length ?q) =
      Inr (b1\<lparr>buf_data := d[length ?q := Some NUL], buf_len := length ?q\<rparr>)"
    by (simp add: mboxBufSetLen_def blk_write_def)
  moreover have "buf_rep (b1\<lparr>buf_data := d[length ?q := Some NUL], buf_len := length ?q\<rparr>) ?q"
    "buf_term (b1\<lparr>buf_data := d[length ?q := Some NUL], buf_len := length ?q\<rparr>)"
    using d \<open>length ?q < length d\<close> b1(2) by (auto simp: buf_rep_def buf_term_def)
  ultimately show ?thesis
    using b1(1) d(1) l(1,2) by (auto simp: mboxBufDecodeMimeEncodedInplace_def)
qed

text \<open>
  The in-place decoder: on a buffer holding \<open>=?utf-8?Q?\<close> \<open>s\<close> \<open>?=\<close>,
  which the code recognises, it returns, stays inside its block, and leaves \<open>s\<close> with every
  \<open>=XX\<close> of two hexadecimal digits replaced by the byte it stands for.
\<close>

theorem mboxBufDecodeMimeEncodedInplace_correct:
  assumes rep: "buf_rep b (MIME_PREFIX @ s @ MIME_SUFFIX)" and nz: "NUL \<notin> set s"
  shows "mboxBufIsMimeEncoded b = Inr True \<and>
     (\<exists>b'. mboxBufDecodeMimeEncodedInplace b = Inr b' \<and> buf_rep b' (qp_decode s) \<and> buf_term b')"
  using mboxBufIsMimeEncoded_framed [OF rep] mboxBufDecodeMimeEncodedInplace_rep [OF rep nz] by blast

theorem mboxBufDecodeMimeEncodedInplace_correct_witness:
  "\<exists>b b'. buf_rep b (MIME_PREFIX @ ''Hacker=20Noon'' @ MIME_SUFFIX) \<and>
     mboxBufDecodeMimeEncodedInplace b = Inr b' \<and> buf_rep b' ''Hacker Noon''"
proof -
  define b where "b = \<lparr>buf_data = map Some (MIME_PREFIX @ ''Hacker=20Noon'' @ MIME_SUFFIX) @ [Some NUL],
    buf_offset = 0, buf_len = 25, buf_capacity = 26\<rparr>"
  have "buf_rep b (MIME_PREFIX @ ''Hacker=20Noon'' @ MIME_SUFFIX)"
    by (simp add: buf_rep_def b_def)
  moreover have "NUL \<notin> set ''Hacker=20Noon''" by simp
  moreover have "qp_decode ''Hacker=20Noon'' = ''Hacker Noon''" by code_simp
  ultimately show ?thesis
    using mboxBufDecodeMimeEncodedInplace_correct [of b "''Hacker=20Noon''"] by auto
qed

text \<open>
  An encoder for comparison: a byte may be kept as it is unless it is \<open>=\<close>, any other is
  written as \<open>=XX\<close>.
\<close>

definition hex_upper :: "nat \<Rightarrow> mboxChar" where
  "hex_upper d = (if d < 10 then chr_of (48 + d) else chr_of (55 + d))"

definition qp_char :: "(mboxChar \<Rightarrow> bool) \<Rightarrow> mboxChar \<Rightarrow> string" where
  "qp_char keep c =
     (if keep c \<and> c \<noteq> CHR ''='' then [c]
      else [CHR ''='', hex_upper (byte c div 16), hex_upper (byte c mod 16)])"

lemma hex_upper_all: "list_all (\<lambda>d. hexToInt (hex_upper d) = int d \<and> hex_upper d \<noteq> NUL) [0..<16]"
  by code_simp

lemma hexToInt_upper: "d < 16 \<Longrightarrow> hexToInt (hex_upper d) = int d \<and> hex_upper d \<noteq> NUL"
  using hex_upper_all by (simp add: list_all_iff)

lemma nibbles_all:
  "list_all (\<lambda>a. list_all (\<lambda>b. nat (push_bit 4 (int a) OR int b) = a * 16 + b) [0..<16]) [0..<16]"
  by code_simp

lemma nibbles: "a < 16 \<Longrightarrow> b < 16 \<Longrightarrow> nat (push_bit 4 (int a) OR int b) = a * 16 + b"
  using nibbles_all by (simp add: list_all_iff)

lemma byte_nibbles: "byte c div 16 < 16" "byte c mod 16 < 16"
  using byte_bound [of c] by linarith+

lemma qp_decode_char: "qp_decode (qp_char keep c @ t) = c # qp_decode t"
proof (cases "keep c \<and> c \<noteq> CHR ''=''")
  case True
  then show ?thesis by (cases t; cases "tl t") (auto simp: qp_char_def)
next
  case False
  then have q: "qp_char keep c = [CHR ''='', hex_upper (byte c div 16), hex_upper (byte c mod 16)]"
    by (auto simp: qp_char_def)
  have v: "hexToInt (hex_upper (byte c div 16)) = int (byte c div 16)"
    "hexToInt (hex_upper (byte c mod 16)) = int (byte c mod 16)"
    using hexToInt_upper byte_nibbles by blast+
  have "chr_of (nat (push_bit 4 (int (byte c div 16)) OR int (byte c mod 16))) = c"
    unfolding nibbles [OF byte_nibbles] by simp
  then show ?thesis unfolding q by (simp add: v del: of_nat_mod of_nat_div) 
qed

lemma qp_decode_encoded: "qp_decode (concat (map (qp_char keep) s)) = s"
  by (induction s) (simp_all add: qp_decode_char)

lemma qp_char_NUL:
  assumes "\<not> keep NUL"
  shows "NUL \<notin> set (qp_char keep c)"
proof -
  have "hex_upper (byte c div 16) \<noteq> NUL" "hex_upper (byte c mod 16) \<noteq> NUL"
    using hexToInt_upper byte_nibbles by blast+
  then show ?thesis using assms unfolding qp_char_def by (cases "c = NUL") simp_all
qed

text \<open>
  C38. Round trip: whatever bytes a sender chooses to write as \<open>=XX\<close> (the zero byte
  among them), the decoder gives back the original text.
\<close>

theorem mboxBufDecodeMimeEncodedInplace_roundtrip:
  assumes "\<not> keep NUL"
    and "buf_rep b (MIME_PREFIX @ concat (map (qp_char keep) s) @ MIME_SUFFIX)"
  shows "\<exists>b'. mboxBufDecodeMimeEncodedInplace b = Inr b' \<and> buf_rep b' s"
  using mboxBufDecodeMimeEncodedInplace_rep [OF assms(2)] qp_char_NUL [of keep, OF assms(1)]
  by (auto simp: qp_decode_encoded)

theorem mboxBufDecodeMimeEncodedInplace_roundtrip_witness:
  "\<exists>b b'. mboxBufDecodeMimeEncodedInplace b = Inr b' \<and> buf_rep b' [CHR ''a'', NUL, CHR ''='']"
proof -
  let ?keep = "\<lambda>c. c = CHR ''a''" and ?s = "[CHR ''a'', NUL, CHR ''='']"
  have e: "concat (map (qp_char ?keep) ?s) = ''a=00=3D''"
    by code_simp
  define b where "b = \<lparr>buf_data = map Some (MIME_PREFIX @ ''a=00=3D'' @ MIME_SUFFIX) @ [Some NUL],
    buf_offset = 0, buf_len = 19, buf_capacity = 20\<rparr>"
  have "buf_rep b (MIME_PREFIX @ concat (map (qp_char ?keep) ?s) @ MIME_SUFFIX)"
    unfolding e by (simp add: buf_rep_def b_def)
  then show ?thesis
    using mboxBufDecodeMimeEncodedInplace_roundtrip [of ?keep b ?s] by auto
qed

text \<open>
  The allocating decoder has no defined outcome on any buffer: it copies from
  \<open>buf + 10\<close>, an address past the buffer's structure, where \<open>buf->data + 10\<close> was meant.
  \<open>mboxParseEmailHeaders\<close> calls it for every encoded header value.
\<close>

theorem mboxBufDecodeMimeEncoded_overreads:
  "mboxBufDecodeMimeEncoded buf = Inl OutOfBounds"
  by (simp add: mboxBufDecodeMimeEncoded_def Let_def blk_copy_def SIZEOF_MBOXBUF_def)

section \<open>Splitting\<close>

text \<open>
  The array that \<open>mboxBufSplit\<close> fills: its elements so far, and the bytes allocated for
  it. An element is a pointer of eight bytes. The first allocation is of
  \<open>sizeof(char) * memslot\<close>, the later ones of \<open>sizeof(mboxBuf) * memslot\<close> bytes.
\<close>

record split_state =
  sp_arr :: "mboxBuf list"
  sp_bytes :: nat
  sp_memslot :: nat
  sp_start :: nat
  sp_end :: nat

definition split_store :: "split_state \<Rightarrow> mboxBuf \<Rightarrow> c_error + split_state" where
  "split_store st x =
     (if (length (sp_arr st) + 1) * 8 \<le> sp_bytes st then Inr (st\<lparr>sp_arr := sp_arr st @ [x]\<rparr>)
      else Inl OutOfBounds)"

definition split_grow :: "split_state \<Rightarrow> split_state" where
  "split_grow st =
     (if sp_memslot st < length (sp_arr st) + 5
      then st\<lparr>sp_memslot := sp_memslot st * 5, sp_bytes := SIZEOF_MBOXBUF * (sp_memslot st * 5)\<rparr>
      else st)"

function split_loop :: "block \<Rightarrow> nat \<Rightarrow> mboxChar \<Rightarrow> nat \<Rightarrow> split_state \<Rightarrow> c_error + mboxBuf list" where
  "split_loop m base delimiter ptr st =
     bindE (blk_read m ptr) (\<lambda>c.
       if c = NUL then
         bindE (mboxBufDupRaw m (base + sp_start st) (sp_end st - sp_start st) (sp_end st - sp_start st)) (\<lambda>x.
         bindE (split_store st x) (\<lambda>st. Inr (sp_arr st)))
       else
         let st = split_grow st in
         if c = delimiter then
           bindE (mboxBufDupRaw m (base + sp_start st) (sp_end st - sp_start st) (sp_end st - sp_start st)) (\<lambda>x.
           bindE (split_store st x) (\<lambda>st.
           split_loop m base delimiter (ptr + 1) (st\<lparr>sp_start := sp_end st + 1, sp_end := sp_end st + 1\<rparr>)))
         else split_loop m base delimiter (ptr + 1) (st\<lparr>sp_end := sp_end st + 1\<rparr>))"
  by pat_completeness auto
termination
  by (relation "measure (\<lambda>(m, base, delimiter, ptr, st). length m - ptr)") (auto simp: outcome_simps)

declare split_loop.simps [simp del]

definition mboxBufSplit :: "block \<Rightarrow> mboxChar \<Rightarrow> c_error + mboxBuf list" where
  "mboxBufSplit to_split delimiter =
     bindE (blk_read to_split 0) (\<lambda>c.
       let base = (if c = delimiter then 1 else 0)
       in split_loop to_split base delimiter base
            \<lparr>sp_arr = [], sp_bytes = 5, sp_memslot = 5, sp_start = 0, sp_end = 0\<rparr>)"

lemma dup_of_lit:
  assumes "at + n \<le> length s" and "n + 10 \<le> PTRDIFF_MAX"
  shows "\<exists>x. mboxBufDupRaw (c_lit s) at n n = Inr x"
proof -
  have l: "length (take n (drop at s)) = n" using assms(1) by simp
  have "take n (drop at (c_lit s)) = map Some (take n (drop at s))"
    using assms(1) by (simp add: c_lit_def take_map drop_map)
  then show ?thesis
    using mboxBufDupRaw_rep [of at "take n (drop at s)" "c_lit s" n] assms unfolding l by auto
qed

text \<open>A store into the first five bytes never fits, and nothing grows the array before it.\<close>

lemma split_loop_overruns:
  assumes "sp_arr st = []" "sp_bytes st = 5" "sp_memslot st = 5"
    and "ptr = base + sp_end st" "sp_start st \<le> sp_end st"
    and "ptr \<le> length s" "length s + 10 \<le> PTRDIFF_MAX" "NUL \<notin> set s"
  shows "split_loop (c_lit s) base delimiter ptr st = Inl OutOfBounds"
  using assms
proof (induction "length s - ptr" arbitrary: ptr st)
  case 0
  then have p: "ptr = length s" by simp
  have "\<exists>x. mboxBufDupRaw (c_lit s) (base + sp_start st) (sp_end st - sp_start st)
      (sp_end st - sp_start st) = Inr x"
    using 0 p by (intro dup_of_lit) auto
  then obtain x where "mboxBufDupRaw (c_lit s) (base + sp_start st) (sp_end st - sp_start st)
      (sp_end st - sp_start st) = Inr x" by blast
  then show ?case
    using 0 p by (subst split_loop.simps) (simp add: blk_read_def c_lit_def nth_append split_store_def)
next
  case (Suc d)
  then have p: "ptr < length s" by simp
  have c: "blk_read (c_lit s) ptr = Inr (s ! ptr)" "s ! ptr \<noteq> NUL"
    using lit_read [OF p] Suc.prems(8) p by (auto dest: nth_mem)
  have g: "split_grow st = st" using Suc.prems by (simp add: split_grow_def)
  show ?case
  proof (cases "s ! ptr = delimiter")
    case True
    have "\<exists>x. mboxBufDupRaw (c_lit s) (base + sp_start st) (sp_end st - sp_start st)
        (sp_end st - sp_start st) = Inr x"
      using Suc.prems p by (intro dup_of_lit) auto
    then obtain x where "mboxBufDupRaw (c_lit s) (base + sp_start st) (sp_end st - sp_start st)
        (sp_end st - sp_start st) = Inr x" by blast
    then show ?thesis
      using c g True Suc.prems by (subst split_loop.simps) (simp add: split_store_def)
  next
    case False
    have "split_loop (c_lit s) base delimiter (ptr + 1) (st\<lparr>sp_end := sp_end st + 1\<rparr>) = Inl OutOfBounds"
      using Suc.prems Suc.hyps(2) p by (intro Suc.hyps(1)) auto
    then show ?thesis
      using c g False by (subst split_loop.simps) simp
  qed
qed

text \<open>
  \<open>mboxBufSplit\<close> writes outside its array on every string: the first
  allocation asks for five bytes (\<open>sizeof(char)\<close> where the size of a pointer was meant)
  and the first piece stores an eight-byte pointer there.
\<close>

theorem mboxBufSplit_overruns:
  assumes "NUL \<notin> set s" and "length s + 10 \<le> PTRDIFF_MAX" and "delimiter \<noteq> NUL"
  shows "mboxBufSplit (c_lit s) delimiter = Inl OutOfBounds"
proof (cases s)
  case Nil
  then show ?thesis
    using assms split_loop_overruns [of "\<lparr>sp_arr = [], sp_bytes = 5, sp_memslot = 5, sp_start = 0, sp_end = 0\<rparr>"
        0 0 "[]" delimiter]
    by (simp add: mboxBufSplit_def c_lit_def blk_read_def)
next
  case (Cons c t)
  have "split_loop (c_lit s) base delimiter base
      \<lparr>sp_arr = [], sp_bytes = 5, sp_memslot = 5, sp_start = 0, sp_end = 0\<rparr> = Inl OutOfBounds"
    if "base \<le> 1" for base
    using assms Cons that by (intro split_loop_overruns) auto
  then show ?thesis using lit_read [of 0 s] Cons by (simp add: mboxBufSplit_def Let_def)
qed

theorem mboxBufSplit_overruns_witness: "mboxBufSplit (c_lit ''a,b'') CHR '','' = Inl OutOfBounds"
  by (rule mboxBufSplit_overruns) simp_all

end
