(* ===== verification/Mbox_List.thy ===== *)
theory Mbox_List
  imports Mbox_Prelude
begin

text \<open>
  The doubly linked circular list of \<open>src/src/mbox-list.c\<close>: its nodes in a heap of
  cells with \<open>next\<close> and \<open>prev\<close> pointers, its header with the mutex, and every operation,
  the ones that take the mutex included. The lemmas relate the ring of cells to the sequence
  of data it holds; the operations are then shown to be those of a double-ended queue.
\<close>

section \<open>The heap of nodes\<close>

text \<open>
  In the header, \<open>l_locked\<close> is the state of the mutex and \<open>l_freedata\<close> says whether a
  function to release the data with was set. What a node holds is a \<open>void *\<close>. The allocator hands out
  the address \<open>lh_fresh\<close>, which no node has had.
\<close>

record 'v mboxLNode =
  ln_data :: "'v void_ptr"
  ln_next :: ptr
  ln_prev :: ptr

record 'v lheap =
  lh_cells :: "nat \<rightharpoonup> 'v mboxLNode"
  lh_fresh :: nat

record mboxList =
  l_len :: nat
  l_root :: ptr
  l_locked :: bool
  l_freedata :: bool

definition ln_get :: "'v lheap \<Rightarrow> ptr \<Rightarrow> c_error + 'v mboxLNode" where
  "ln_get h p =
     (case p of None \<Rightarrow> Inl NullDeref
      | Some a \<Rightarrow> (case lh_cells h a of None \<Rightarrow> Inl UseAfterFree | Some n \<Rightarrow> Inr n))"

definition ln_upd ::
  "'v lheap \<Rightarrow> ptr \<Rightarrow> ('v mboxLNode \<Rightarrow> 'v mboxLNode) \<Rightarrow> c_error + 'v lheap" where
  "ln_upd h p f =
     (case p of None \<Rightarrow> Inl NullDeref
      | Some a \<Rightarrow> (case lh_cells h a of None \<Rightarrow> Inl UseAfterFree
                  | Some n \<Rightarrow> Inr (h\<lparr>lh_cells := (lh_cells h)(a \<mapsto> f n)\<rparr>)))"

definition set_next :: "'v lheap \<Rightarrow> ptr \<Rightarrow> ptr \<Rightarrow> c_error + 'v lheap" where
  "set_next h p q = ln_upd h p (ln_next_update (\<lambda>_. q))"

definition set_prev :: "'v lheap \<Rightarrow> ptr \<Rightarrow> ptr \<Rightarrow> c_error + 'v lheap" where
  "set_prev h p q = ln_upd h p (ln_prev_update (\<lambda>_. q))"

definition set_data :: "'v lheap \<Rightarrow> ptr \<Rightarrow> 'v void_ptr \<Rightarrow> c_error + 'v lheap" where
  "set_data h p v = ln_upd h p (ln_data_update (\<lambda>_. v))"

definition ln_free :: "'v lheap \<Rightarrow> ptr \<Rightarrow> c_error + 'v lheap" where
  "ln_free h p =
     (case p of None \<Rightarrow> Inr h
      | Some a \<Rightarrow> (if lh_cells h a = None then Inl UseAfterFree
                  else Inr (h\<lparr>lh_cells := (lh_cells h)(a := None)\<rparr>)))"

section \<open>The operations\<close>

definition mboxLNodeNew :: "'v lheap \<Rightarrow> 'v void_ptr \<Rightarrow> ptr \<times> 'v lheap" where
  "mboxLNodeNew h data =
     (Some (lh_fresh h),
      h\<lparr>lh_cells := (lh_cells h)(lh_fresh h \<mapsto> \<lparr>ln_data = data, ln_next = None, ln_prev = None\<rparr>),
        lh_fresh := Suc (lh_fresh h)\<rparr>)"

definition mboxListNew :: mboxList where
  "mboxListNew = \<lparr>l_len = 0, l_root = None, l_locked = False, l_freedata = False\<rparr>"

definition mboxListSetFreedata :: "mboxList \<Rightarrow> bool \<Rightarrow> mboxList" where
  "mboxListSetFreedata l fn = l\<lparr>l_freedata := fn\<rparr>"

definition mboxListAddHead ::
  "'v lheap \<Rightarrow> mboxList \<Rightarrow> 'v void_ptr \<Rightarrow> c_error + ('v lheap \<times> mboxList)" where
  "mboxListAddHead h l data =
     (let (n, h) = mboxLNodeNew h data
      in if l_root l = None
         then bindE (set_prev h n n) (\<lambda>h. bindE (set_next h n n) (\<lambda>h.
              Inr (h, l\<lparr>l_root := n, l_len := size_add (l_len l) 1\<rparr>)))
         else bindE (ln_get h (l_root l)) (\<lambda>r.
              let tail = ln_prev r; head = l_root l
              in bindE (set_next h n head) (\<lambda>h. bindE (set_prev h n tail) (\<lambda>h.
                 bindE (set_next h tail n) (\<lambda>h. bindE (set_prev h head n) (\<lambda>h.
                 Inr (h, l\<lparr>l_root := n, l_len := size_add (l_len l) 1\<rparr>)))))))"

definition mboxListAddTail ::
  "'v lheap \<Rightarrow> mboxList \<Rightarrow> 'v void_ptr \<Rightarrow> c_error + ('v lheap \<times> mboxList)" where
  "mboxListAddTail h l data =
     (let (n, h) = mboxLNodeNew h data
      in if l_root l = None
         then bindE (set_prev h n n) (\<lambda>h. bindE (set_next h n n) (\<lambda>h.
              Inr (h, l\<lparr>l_root := n, l_len := size_add (l_len l) 1\<rparr>)))
         else bindE (ln_get h (l_root l)) (\<lambda>r.
              let tail = ln_prev r; head = l_root l
              in bindE (set_next h n head) (\<lambda>h. bindE (set_prev h n tail) (\<lambda>h.
                 bindE (set_next h tail n) (\<lambda>h. bindE (set_prev h head n) (\<lambda>h.
                 Inr (h, l\<lparr>l_len := size_add (l_len l) 1\<rparr>)))))))"

definition mboxListRemoveHead ::
  "'v lheap \<Rightarrow> mboxList \<Rightarrow> c_error + ('v void_ptr \<times> 'v lheap \<times> mboxList)" where
  "mboxListRemoveHead h l =
     (if l_len l = 0 \<or> l_root l = None then Inr (None, h, l)
      else let head = l_root l
        in bindE (ln_get h head) (\<lambda>hd.
           let val = ln_data hd
           in bindE (if l_len l = 1 then Inr (h, l\<lparr>l_root := None\<rparr>)
                     else let tail = ln_prev hd; root = ln_next hd
                       in bindE (set_next h tail root) (\<lambda>h. bindE (set_prev h root tail) (\<lambda>h.
                          Inr (h, l\<lparr>l_root := root\<rparr>))))
                (\<lambda>(h, l). bindE (ln_free h head) (\<lambda>h.
                  Inr (val, h, l\<lparr>l_len := size_sub (l_len l) 1\<rparr>)))))"

definition mboxListRemoveTail ::
  "'v lheap \<Rightarrow> mboxList \<Rightarrow> c_error + ('v void_ptr \<times> 'v lheap \<times> mboxList)" where
  "mboxListRemoveTail h l =
     (if l_len l = 0 then Inr (None, h, l)
      else bindE (ln_get h (l_root l)) (\<lambda>hd.
           let tail = ln_prev hd
           in bindE (ln_get h tail) (\<lambda>tl.
              let val = ln_data tl
              in bindE (if l_len l = 1 then Inr (h, l\<lparr>l_root := None\<rparr>)
                        else let new_tail = ln_prev tl
                          in bindE (set_prev h (l_root l) new_tail) (\<lambda>h.
                             bindE (set_next h new_tail (l_root l)) (\<lambda>h. Inr (h, l))))
                   (\<lambda>(h, l). bindE (ln_free h tail) (\<lambda>h.
                     Inr (val, h, l\<lparr>l_len := size_sub (l_len l) 1\<rparr>))))))"

text \<open>The loop of \<open>mboxListFind\<close> is bounded by the length it counts down.\<close>

fun find_loop ::
  "('v void_ptr \<Rightarrow> 'w \<Rightarrow> bool) \<Rightarrow> 'w \<Rightarrow> 'v lheap \<Rightarrow> ptr \<Rightarrow> nat \<Rightarrow> c_error + 'v void_ptr" where
  "find_loop compare search_data h current 0 = Inr None"
| "find_loop compare search_data h current (Suc count) =
     bindE (ln_get h current) (\<lambda>n.
       if compare (ln_data n) search_data then Inr (ln_data n)
       else find_loop compare search_data h (ln_next n) count)"

definition mboxListFind ::
  "'v lheap \<Rightarrow> mboxList \<Rightarrow> 'w \<Rightarrow> ('v void_ptr \<Rightarrow> 'w \<Rightarrow> bool) \<Rightarrow> c_error + 'v void_ptr" where
  "mboxListFind h l search_data compare =
     (if l_len l = 0 then Inr None else find_loop compare search_data h (l_root l) (l_len l))"

subsection \<open>Under the mutex\<close>

text \<open>The mutex is the default one: its owner locking it again never returns.\<close>

definition list_lock :: "mboxList \<Rightarrow> c_error + mboxList" where
  "list_lock l = (if l_locked l then Inl Deadlock else Inr (l\<lparr>l_locked := True\<rparr>))"

definition list_unlock :: "mboxList \<Rightarrow> mboxList" where
  "list_unlock l = l\<lparr>l_locked := False\<rparr>"

definition mboxListTSNew :: mboxList where
  "mboxListTSNew = mboxListNew\<lparr>l_locked := False\<rparr>"

definition mboxListTSFind ::
  "'v lheap \<Rightarrow> mboxList \<Rightarrow> 'w \<Rightarrow> ('v void_ptr \<Rightarrow> 'w \<Rightarrow> bool) \<Rightarrow>
     c_error + ('v void_ptr \<times> mboxList)" where
  "mboxListTSFind h l search_data compare =
     bindE (list_lock l) (\<lambda>l. bindE (mboxListFind h l search_data compare) (\<lambda>retval.
     Inr (retval, list_unlock l)))"

definition mboxListTSAddHead ::
  "'v lheap \<Rightarrow> mboxList \<Rightarrow> 'v void_ptr \<Rightarrow> c_error + ('v lheap \<times> mboxList)" where
  "mboxListTSAddHead h l val =
     bindE (list_lock l) (\<lambda>l. bindE (mboxListAddHead h l val) (\<lambda>(h, l).
     Inr (h, list_unlock l)))"

definition mboxListTSAddTail ::
  "'v lheap \<Rightarrow> mboxList \<Rightarrow> 'v void_ptr \<Rightarrow> c_error + ('v lheap \<times> mboxList)" where
  "mboxListTSAddTail h l val =
     bindE (list_lock l) (\<lambda>l. bindE (mboxListAddTail h l val) (\<lambda>(h, l).
     Inr (h, list_unlock l)))"

definition mboxListTSRemoveHead ::
  "'v lheap \<Rightarrow> mboxList \<Rightarrow> c_error + ('v void_ptr \<times> 'v lheap \<times> mboxList)" where
  "mboxListTSRemoveHead h l =
     bindE (list_lock l) (\<lambda>l. bindE (mboxListRemoveHead h l) (\<lambda>(retval, h, l).
     Inr (retval, h, list_unlock l)))"

definition mboxListTSRemoveTail ::
  "'v lheap \<Rightarrow> mboxList \<Rightarrow> c_error + ('v void_ptr \<times> 'v lheap \<times> mboxList)" where
  "mboxListTSRemoveTail h l =
     bindE (list_lock l) (\<lambda>l. bindE (mboxListRemoveTail h l) (\<lambda>(retval, h, l).
     Inr (retval, h, list_unlock l)))"

subsection \<open>Releasing and joining whole lists\<close>

text \<open>
  \<open>mboxListRelease\<close> hands each datum that is not null to \<open>freedata\<close>, when one is set;
  the model returns the heap and the data that were released so, in order.
\<close>

fun release_loop ::
  "'v lheap \<Rightarrow> mboxList \<Rightarrow> nat \<Rightarrow> 'v list \<Rightarrow> c_error + ('v lheap \<times> 'v list)" where
  "release_loop h l fuel freed =
     (if l_len l = 0 then Inr (h, freed)
      else case fuel of 0 \<Rightarrow> Inl Diverges
        | Suc fuel \<Rightarrow> bindE (mboxListRemoveHead h l) (\<lambda>(data, h, l).
            release_loop h l fuel
              (case data of Some d \<Rightarrow> (if l_freedata l then freed @ [d] else freed)
                          | None \<Rightarrow> freed)))"

declare release_loop.simps [simp del]

definition mboxListRelease ::
  "'v lheap \<Rightarrow> mboxList option \<Rightarrow> c_error + ('v lheap \<times> 'v list)" where
  "mboxListRelease h l =
     (case l of None \<Rightarrow> Inr (h, []) | Some l \<Rightarrow> release_loop h l (l_len l) [])"

text \<open>
  The second component of the result is the header of \<open>aux\<close> as the caller still holds it:
  \<open>None\<close> once it is freed.
\<close>

definition mboxListAppendListTail ::
  "'v lheap \<Rightarrow> mboxList \<Rightarrow> mboxList \<Rightarrow> c_error + ('v lheap \<times> mboxList \<times> mboxList option)" where
  "mboxListAppendListTail h main aux =
     (if l_len aux = 0 then Inr (h, main, Some aux)
      else let aux_head = l_root aux
        in bindE (if l_len main = 0 then Inr (h, main\<lparr>l_root := aux_head\<rparr>)
                  else bindE (ln_get h (l_root main)) (\<lambda>r.
                       let tail = ln_prev r; head = l_root main
                       in bindE (ln_get h aux_head) (\<lambda>ar.
                          let aux_tail = ln_prev ar
                          in bindE (set_prev h aux_head tail) (\<lambda>h.
                             bindE (set_next h tail aux_head) (\<lambda>h.
                             bindE (set_prev h head aux_tail) (\<lambda>h.
                             bindE (set_next h aux_tail head) (\<lambda>h.
                             Inr (h, main))))))))
             (\<lambda>(h, main). Inr (h, main\<lparr>l_len := size_add (l_len main) (l_len aux)\<rparr>, None)))"

section \<open>The ring\<close>

text \<open>
  \<open>dseg C p cs n\<close>: the cells \<open>cs\<close> (an address and a datum each) are linked in order in
  the memory \<open>C\<close>, the first one back to \<open>p\<close> and the last one on to \<open>n\<close>. A list is the
  segment that leads from its last cell round to its first.
\<close>

type_synonym 'v cells = "(nat \<times> 'v void_ptr) list"

definition first_of :: "'v cells \<Rightarrow> nat \<Rightarrow> nat" where
  "first_of cs n = (case cs of [] \<Rightarrow> n | c # _ \<Rightarrow> fst c)"

definition last_of :: "nat \<Rightarrow> 'v cells \<Rightarrow> nat" where
  "last_of p cs = (if cs = [] then p else fst (last cs))"

fun dseg :: "(nat \<rightharpoonup> 'v mboxLNode) \<Rightarrow> nat \<Rightarrow> 'v cells \<Rightarrow> nat \<Rightarrow> bool" where
  "dseg C p [] n \<longleftrightarrow> True"
| "dseg C p (c # cs) n \<longleftrightarrow>
     C (fst c) = Some \<lparr>ln_data = snd c, ln_next = Some (first_of cs n), ln_prev = Some p\<rparr> \<and>
     dseg C (fst c) cs n"

definition ring :: "(nat \<rightharpoonup> 'v mboxLNode) \<Rightarrow> 'v cells \<Rightarrow> bool" where
  "ring C cs \<longleftrightarrow> distinct (map fst cs) \<and> dseg C (last_of 0 cs) cs (first_of cs 0)"

text \<open>
  \<open>list_rep h l cs\<close>: the header \<open>l\<close> describes the ring of \<open>cs\<close>; \<open>holds h l vs\<close>: it
  holds the data \<open>vs\<close>. The addresses not handed out yet have no cell.
\<close>

definition list_rep :: "'v lheap \<Rightarrow> mboxList \<Rightarrow> 'v cells \<Rightarrow> bool" where
  "list_rep h l cs \<longleftrightarrow>
     l_len l = length cs \<and> l_root l = (if cs = [] then None else Some (fst (hd cs))) \<and>
     ring (lh_cells h) cs \<and> (\<forall>a \<ge> lh_fresh h. lh_cells h a = None)"

definition holds :: "'v lheap \<Rightarrow> mboxList \<Rightarrow> 'v void_ptr list \<Rightarrow> bool" where
  "holds h l vs \<longleftrightarrow> (\<exists>cs. list_rep h l cs \<and> map snd cs = vs)"

lemma first_of_simps [simp]:
  "first_of [] n = n" "first_of (c # cs) n = fst c"
  by (simp_all add: first_of_def)

lemma last_of_simps [simp]:
  "last_of p [] = p" "last_of p (cs @ [c]) = fst c" "last_of p (c # cs) = last_of (fst c) cs"
  by (simp_all add: last_of_def)

lemma first_of_append [simp]: "first_of (cs @ ds) n = first_of cs (first_of ds n)"
  by (cases cs) auto

lemma last_of_append [simp]: "last_of p (cs @ ds) = last_of (last_of p cs) ds"
  by (induction cs arbitrary: p) auto

lemma first_of_in: "cs \<noteq> [] \<Longrightarrow> first_of cs n \<in> fst ` set cs"
  by (cases cs) auto

lemma last_of_in: "cs \<noteq> [] \<Longrightarrow> last_of p cs \<in> fst ` set cs"
  by (simp add: last_of_def)

lemma first_of_hd: "cs \<noteq> [] \<Longrightarrow> first_of cs n = fst (hd cs)"
  by (cases cs) auto

lemma dseg_append [simp]:
  "dseg C p (cs @ ds) n \<longleftrightarrow> dseg C p cs (first_of ds n) \<and> dseg C (last_of p cs) ds n"
  by (induction cs arbitrary: p) auto

lemma dseg_frame [simp]: "a \<notin> fst ` set cs \<Longrightarrow> dseg (C(a := v)) p cs n \<longleftrightarrow> dseg C p cs n"
  by (induction cs arbitrary: p) auto

lemma dseg_cong: "(\<And>a. a \<in> fst ` set cs \<Longrightarrow> C a = C' a) \<Longrightarrow> dseg C p cs n \<longleftrightarrow> dseg C' p cs n"
  by (induction cs arbitrary: p) auto

lemma dseg_cell: "dseg C p cs n \<Longrightarrow> a \<in> fst ` set cs \<Longrightarrow> C a \<noteq> None"
  by (induction cs arbitrary: p) auto

text \<open>Redirecting the pointer out of either end.\<close>

lemma dseg_set_next:
  assumes "dseg C p cs n" and "distinct (map fst cs)" and "cs \<noteq> []"
    and "C (last_of p cs) = Some v"
  shows "dseg (C(last_of p cs \<mapsto> v\<lparr>ln_next := Some m\<rparr>)) p cs m"
proof -
  obtain ds d where "cs = ds @ [d]" using assms(3) by (metis rev_exhaust)
  then show ?thesis using assms by auto
qed

lemma dseg_set_prev:
  assumes "dseg C p cs n" and "distinct (map fst cs)" and "cs \<noteq> []"
    and "C (first_of cs k) = Some v"
  shows "dseg (C(first_of cs k \<mapsto> v\<lparr>ln_prev := Some q\<rparr>)) q cs n"
  using assms by (cases cs) auto

section \<open>Steps on the heap\<close>

lemma ln_get_Some [simp]: "lh_cells h a = Some n \<Longrightarrow> ln_get h (Some a) = Inr n"
  by (simp add: ln_get_def)

lemma ln_upd_Some [simp]:
  "lh_cells h a = Some n \<Longrightarrow>
   ln_upd h (Some a) f = Inr (h\<lparr>lh_cells := (lh_cells h)(a \<mapsto> f n)\<rparr>)"
  by (simp add: ln_upd_def)

lemma set_next_seg:
  assumes "dseg (lh_cells h) p cs n" and "distinct (map fst cs)" and "cs \<noteq> []"
  shows "\<exists>v. set_next h (Some (last_of p cs)) (Some m) =
       Inr (h\<lparr>lh_cells := (lh_cells h)(last_of p cs \<mapsto> v)\<rparr>) \<and>
     dseg ((lh_cells h)(last_of p cs \<mapsto> v)) p cs m"
proof -
  obtain v where "lh_cells h (last_of p cs) = Some v"
    using dseg_cell [OF assms(1) last_of_in [OF assms(3)]] by blast
  then show ?thesis using dseg_set_next [OF assms] by (auto simp: set_next_def)
qed

lemma set_prev_seg:
  assumes "dseg (lh_cells h) p cs n" and "distinct (map fst cs)" and "cs \<noteq> []"
  shows "\<exists>v. set_prev h (Some (first_of cs k)) (Some q) =
       Inr (h\<lparr>lh_cells := (lh_cells h)(first_of cs k \<mapsto> v)\<rparr>) \<and>
     dseg ((lh_cells h)(first_of cs k \<mapsto> v)) q cs n"
proof -
  obtain v where "lh_cells h (first_of cs k) = Some v"
    using dseg_cell [OF assms(1) first_of_in [OF assms(3)]] by blast
  then show ?thesis using dseg_set_prev [OF assms] by (auto simp: set_prev_def)
qed

section \<open>The representation lemmas\<close>

text \<open>
  What a step leaves alone: the cells in use that are not of the list it works on, so that
  another list of the same heap is not disturbed.
\<close>

definition frame :: "'v cells \<Rightarrow> 'v lheap \<Rightarrow> 'v lheap \<Rightarrow> bool" where
  "frame cs h h' \<longleftrightarrow> lh_fresh h \<le> lh_fresh h' \<and>
     (\<forall>a < lh_fresh h. a \<notin> fst ` set cs \<longrightarrow> lh_cells h' a = lh_cells h a)"

lemma list_repD:
  assumes "list_rep h l cs"
  shows "l_len l = length cs" "cs = [] \<Longrightarrow> l_root l = None"
    "cs \<noteq> [] \<Longrightarrow> l_root l = Some (first_of cs k)"
    "distinct (map fst cs)" "dseg (lh_cells h) (last_of 0 cs) cs (first_of cs 0)"
    "lh_fresh h \<le> a \<Longrightarrow> lh_cells h a = None"
  using assms by (auto simp: list_rep_def ring_def first_of_hd)

lemma list_rep_fresh: "list_rep h l cs \<Longrightarrow> a \<in> fst ` set cs \<Longrightarrow> a < lh_fresh h"
  by (metis dseg_cell list_repD(5,6) not_less)

lemma list_rep_other:
  assumes "frame cs h h'" and "list_rep h l ds" and "fst ` set cs \<inter> fst ` set ds = {}"
    and "\<forall>a \<ge> lh_fresh h'. lh_cells h' a = None"
  shows "list_rep h' l ds"
proof -
  have "lh_cells h a = lh_cells h' a" if "a \<in> fst ` set ds" for a
  proof -
    have "a \<notin> fst ` set cs" using that assms(3) by blast
    then show ?thesis using assms(1) list_rep_fresh [OF assms(2) that] by (simp add: frame_def)
  qed
  then show ?thesis
    using assms(2,4) dseg_cong [of ds "lh_cells h" "lh_cells h'"]
    by (simp add: list_rep_def ring_def)
qed

lemma ends_indep: "cs \<noteq> [] \<Longrightarrow> last_of p cs = last_of q cs \<and> first_of cs m = first_of cs n"
  by (simp add: last_of_def first_of_hd)

text \<open>Linking a new node between the tail and the head of a ring: what both additions do.\<close>

lemma link_node:
  fixes h :: "'v lheap"
  assumes "list_rep h l cs" and "cs \<noteq> []" and "mboxLNodeNew h v = (n, h1)"
  shows "\<exists>h5. (\<forall>K. bindE (ln_get h1 (l_root l)) (\<lambda>r.
       bindE (set_next h1 n (l_root l)) (\<lambda>h. bindE (set_prev h n (ln_prev r)) (\<lambda>h.
       bindE (set_next h (ln_prev r) n) (\<lambda>h. bindE (set_prev h (l_root l) n) K)))) =
       (K h5 :: c_error + ('v lheap \<times> mboxList))) \<and>
     lh_cells h5 (lh_fresh h) = Some \<lparr>ln_data = v, ln_next = Some (first_of cs 0),
       ln_prev = Some (last_of 0 cs)\<rparr> \<and>
     dseg (lh_cells h5) (lh_fresh h) cs (lh_fresh h) \<and> frame cs h h5 \<and>
     lh_fresh h5 = Suc (lh_fresh h) \<and> (\<forall>a \<ge> lh_fresh h5. lh_cells h5 a = None)"
proof -
  let ?a = "lh_fresh h" and ?C = "lh_cells h" and ?t = "last_of 0 cs" and ?f = "first_of cs 0"
  note L = list_repD(4,5) [OF assms(1)]
  have new: "?a \<notin> fst ` set cs" using list_rep_fresh [OF assms(1)] by blast
  have n: "n = Some ?a" "h1 = h\<lparr>lh_cells := ?C(?a \<mapsto> \<lparr>ln_data = v, ln_next = None,
      ln_prev = None\<rparr>), lh_fresh := Suc ?a\<rparr>"
    using assms(3) by (simp_all add: mboxLNodeNew_def)
  have root: "l_root l = Some ?f" using list_repD(3) [OF assms(1,2)] .
  have ends: "?t \<in> fst ` set cs" "?f \<in> fst ` set cs"
    using last_of_in first_of_in assms(2) by blast+
  define h3 where "h3 = h\<lparr>lh_fresh := Suc ?a, lh_cells := ?C(?a \<mapsto> \<lparr>ln_data = v,
      ln_next = Some ?f, ln_prev = Some ?t\<rparr>)\<rparr>"
  obtain nd where nd: "?C ?f = Some nd" "ln_prev nd = Some ?t"
    using L(2) assms(2) by (cases cs) auto
  have ne: "?t \<noteq> ?a" "?f \<noteq> ?a" using ends new by metis+
  have g: "ln_get h1 (l_root l) = Inr nd" using nd(1) ne by (simp add: n root ln_get_def)
  have s3: "bindE (set_next h1 n (l_root l)) (\<lambda>h. bindE (set_prev h n (Some ?t)) K) = K h3"
    for K :: "_ \<Rightarrow> c_error + ('v lheap \<times> mboxList)"
    by (simp add: set_next_def set_prev_def n root h3_def)
  have seg3: "dseg (lh_cells h3) ?t cs ?f" using L(2) new by (simp add: h3_def)
  obtain x where x: "set_next h3 (Some ?t) (Some ?a) =
        Inr (h3\<lparr>lh_cells := (lh_cells h3)(?t \<mapsto> x)\<rparr>)"
      "dseg ((lh_cells h3)(?t \<mapsto> x)) ?t cs ?a"
    using set_next_seg [OF seg3 L(1) assms(2)] ends_indep [OF assms(2)] by metis
  define h4 where "h4 = h3\<lparr>lh_cells := (lh_cells h3)(?t \<mapsto> x)\<rparr>"
  have seg4: "dseg (lh_cells h4) ?t cs ?a" using x(2) by (simp add: h4_def)
  obtain y where y: "set_prev h4 (Some ?f) (Some ?a) =
        Inr (h4\<lparr>lh_cells := (lh_cells h4)(?f \<mapsto> y)\<rparr>)"
      "dseg ((lh_cells h4)(?f \<mapsto> y)) ?a cs ?a"
    using set_prev_seg [OF seg4 L(1) assms(2)] by metis
  define h5 where "h5 = h4\<lparr>lh_cells := (lh_cells h4)(?f \<mapsto> y)\<rparr>"
  have K: "\<forall>K. bindE (ln_get h1 (l_root l)) (\<lambda>r.
       bindE (set_next h1 n (l_root l)) (\<lambda>h. bindE (set_prev h n (ln_prev r)) (\<lambda>h.
       bindE (set_next h (ln_prev r) n) (\<lambda>h. bindE (set_prev h (l_root l) n) K)))) =
       (K h5 :: c_error + ('v lheap \<times> mboxList))"
    using g nd(2) s3 x(1) y(1) by (simp add: n(1) root h5_def h4_def)
  have "frame cs h h5" using ends new by (auto simp: frame_def h5_def h4_def h3_def)
  moreover have "\<forall>b \<ge> lh_fresh h5. lh_cells h5 b = None"
    using list_repD(6) [OF assms(1)] list_rep_fresh [OF assms(1)] ends
    by (fastforce simp: h5_def h4_def h3_def)
  moreover have "lh_cells h5 ?a = lh_cells h3 ?a" "lh_fresh h5 = Suc ?a"
    using ne by (simp_all add: h5_def h4_def h3_def)
  ultimately show ?thesis using K y(2) by (intro exI [of _ h5]) (simp add: h5_def h3_def)
qed

lemma mboxListNew_rep: "\<forall>a \<ge> lh_fresh h. lh_cells h a = None \<Longrightarrow> list_rep h mboxListNew []"
  by (simp add: list_rep_def ring_def mboxListNew_def)

text \<open>The length and the locks of the header are the same after either addition.\<close>

lemma add_first_node:
  fixes h :: "'v lheap"
  assumes "list_rep h l []" and "mboxLNodeNew h v = (n, h1)"
  shows "\<exists>h2. (\<forall>K. bindE (set_prev h1 n n) (\<lambda>h. bindE (set_next h n n) K) =
       (K h2 :: c_error + ('v lheap \<times> mboxList))) \<and> n = Some (lh_fresh h) \<and>
     list_rep h2 (l\<lparr>l_root := n, l_len := Suc 0\<rparr>) [(lh_fresh h, v)] \<and> frame [] h h2 \<and>
     lh_fresh h2 = Suc (lh_fresh h)"
  using assms list_repD(6) [OF assms(1)]
  by (auto simp: mboxLNodeNew_def set_next_def set_prev_def list_rep_def ring_def frame_def)

lemma mboxListAddHead_rep:
  assumes "list_rep h l cs" and "Suc (length cs) < SIZE_MOD"
  shows "\<exists>h' l'. mboxListAddHead h l v = Inr (h', l') \<and>
     list_rep h' l' ((lh_fresh h, v) # cs) \<and> frame cs h h' \<and>
     l_locked l' = l_locked l \<and> l_freedata l' = l_freedata l"
proof (cases "cs = []")
  case True
  then have e: "l_root l = None" "l_len l = 0" using assms(1) by (auto simp: list_rep_def)
  obtain n h1 where n: "mboxLNodeNew h v = (n, h1)" by fastforce
  show ?thesis
    using add_first_node [OF assms(1) [unfolded True] n] e n
    by (auto simp: mboxListAddHead_def True)
next
  case False
  obtain n h1 where n: "mboxLNodeNew h v = (n, h1)" by fastforce
  have len: "l_len l = length cs" and r: "l_root l = Some (first_of cs 0)"
    using assms(1) False by (auto simp: list_rep_def first_of_hd)
  note l = link_node [OF assms(1) False n]
  have d: "distinct (map fst ((lh_fresh h, v) # cs))"
    using list_repD(4) [OF assms(1)] list_rep_fresh [OF assms(1)] by force
  from l obtain h5 where h5: "mboxListAddHead h l v =
      Inr (h5, l\<lparr>l_root := n, l_len := Suc (length cs)\<rparr>)"
    "lh_cells h5 (lh_fresh h) = Some \<lparr>ln_data = v, ln_next = Some (first_of cs 0),
       ln_prev = Some (last_of 0 cs)\<rparr>"
    "dseg (lh_cells h5) (lh_fresh h) cs (lh_fresh h)" "frame cs h h5"
    "\<forall>a \<ge> lh_fresh h5. lh_cells h5 a = None"
    using n r len assms(2) by (fastforce simp: mboxListAddHead_def Let_def)
  moreover have "n = Some (lh_fresh h)" using n by (simp add: mboxLNodeNew_def)
  ultimately show ?thesis
    using d False len ends_indep [OF False] by (auto simp: list_rep_def ring_def)
qed

lemma mboxListAddTail_rep:
  assumes "list_rep h l cs" and "Suc (length cs) < SIZE_MOD"
  shows "\<exists>h' l'. mboxListAddTail h l v = Inr (h', l') \<and>
     list_rep h' l' (cs @ [(lh_fresh h, v)]) \<and> frame cs h h' \<and>
     l_locked l' = l_locked l \<and> l_freedata l' = l_freedata l"
proof (cases "cs = []")
  case True
  then have e: "l_root l = None" "l_len l = 0" using assms(1) by (auto simp: list_rep_def)
  obtain n h1 where n: "mboxLNodeNew h v = (n, h1)" by fastforce
  show ?thesis
    using add_first_node [OF assms(1) [unfolded True] n] e n
    by (auto simp: mboxListAddTail_def True)
next
  case False
  obtain n h1 where n: "mboxLNodeNew h v = (n, h1)" by fastforce
  have len: "l_len l = length cs" and r: "l_root l = Some (first_of cs 0)"
    using assms(1) False by (auto simp: list_rep_def first_of_hd)
  note l = link_node [OF assms(1) False n]
  have d: "distinct (map fst (cs @ [(lh_fresh h, v)]))"
    using list_repD(4) [OF assms(1)] list_rep_fresh [OF assms(1)] by force
  from l obtain h5 where h5: "mboxListAddTail h l v = Inr (h5, l\<lparr>l_len := Suc (length cs)\<rparr>)"
    "lh_cells h5 (lh_fresh h) = Some \<lparr>ln_data = v, ln_next = Some (first_of cs 0),
       ln_prev = Some (last_of 0 cs)\<rparr>"
    "dseg (lh_cells h5) (lh_fresh h) cs (lh_fresh h)" "frame cs h h5"
    "\<forall>a \<ge> lh_fresh h5. lh_cells h5 a = None"
    using n r len assms(2) by (fastforce simp: mboxListAddTail_def Let_def)
  then show ?thesis
    using d r False len ends_indep [OF False]
    by (auto simp: list_rep_def ring_def first_of_hd)
qed

text \<open>Unlinking an end of a ring of at least two cells, and freeing it.\<close>

lemma mboxListRemoveHead_rep:
  assumes "list_rep h l ((a, v) # cs)" and "Suc (length cs) < SIZE_MOD"
  shows "\<exists>h' l'. mboxListRemoveHead h l = Inr (v, h', l') \<and> list_rep h' l' cs \<and>
     lh_cells h' a = None \<and> frame ((a, v) # cs) h h' \<and> l_locked l' = l_locked l \<and> l_freedata l' = l_freedata l"
proof -
  note L = list_repD(1,4,5) [OF assms(1)]
  have root: "l_root l = Some a" using assms(1) by (simp add: list_rep_def)
  have fr: "\<forall>b \<ge> lh_fresh h. lh_cells h b = None" using list_repD(6) [OF assms(1)] by blast
  have node: "lh_cells h a = Some \<lparr>ln_data = v, ln_next = Some (first_of cs a),
      ln_prev = Some (last_of a cs)\<rparr>" and seg: "dseg (lh_cells h) a cs a"
    using L(3) by simp_all
  show ?thesis
  proof (cases "cs = []")
    case True
    then show ?thesis
      using L root node fr
      by (auto simp: mboxListRemoveHead_def ln_free_def list_rep_def ring_def frame_def)
  next
    case False
    have d: "distinct (map fst cs)" "a \<notin> fst ` set cs" using L(2) by auto
    have len: "l_len l = Suc (length cs)" "length cs \<noteq> 0" using L(1) False by auto
    obtain x where x: "set_next h (Some (last_of a cs)) (Some (first_of cs a)) =
        Inr (h\<lparr>lh_cells := (lh_cells h)(last_of a cs \<mapsto> x)\<rparr>)"
      "dseg ((lh_cells h)(last_of a cs \<mapsto> x)) a cs (first_of cs a)"
      using set_next_seg [OF seg d(1) False] by metis
    define h1 where "h1 = h\<lparr>lh_cells := (lh_cells h)(last_of a cs \<mapsto> x)\<rparr>"
    have "dseg (lh_cells h1) a cs (first_of cs a)" using x(2) by (simp add: h1_def)
    then obtain y where y: "set_prev h1 (Some (first_of cs a)) (Some (last_of a cs)) =
        Inr (h1\<lparr>lh_cells := (lh_cells h1)(first_of cs a \<mapsto> y)\<rparr>)"
      "dseg ((lh_cells h1)(first_of cs a \<mapsto> y)) (last_of a cs) cs (first_of cs a)"
      using set_prev_seg [OF _ d(1) False] by metis
    define h2 where "h2 = h1\<lparr>lh_cells := (lh_cells h1)(first_of cs a \<mapsto> y)\<rparr>"
    have ends: "last_of a cs \<in> fst ` set cs" "first_of cs a \<in> fst ` set cs"
      using last_of_in first_of_in False by blast+
    then have ne: "a \<noteq> last_of a cs" "a \<noteq> first_of cs a" using d(2) by metis+
    have still: "lh_cells h2 a \<noteq> None" using node ne by (simp add: h2_def h1_def)
    define h3 where "h3 = h2\<lparr>lh_cells := (lh_cells h2)(a := None)\<rparr>"
    have e: "last_of 0 cs = last_of a cs" "first_of cs 0 = first_of cs a"
      using ends_indep [OF False] by blast+
    have "dseg (lh_cells h2) (last_of a cs) cs (first_of cs a)" using y(2) by (simp add: h2_def)
    then have "dseg (lh_cells h3) (last_of 0 cs) cs (first_of cs 0)"
      using d(2) by (simp add: h3_def e)
    moreover have "last_of a cs < lh_fresh h" "first_of cs a < lh_fresh h"
      using list_rep_fresh [OF assms(1)] ends by simp_all
    then have "\<forall>b \<ge> lh_fresh h3. lh_cells h3 b = None"
      using fr by (simp add: h3_def h2_def h1_def)
    ultimately have "list_rep h3 (l\<lparr>l_root := Some (first_of cs a), l_len := length cs\<rparr>) cs"
      using False d(1) by (simp add: list_rep_def ring_def first_of_hd)
    moreover have "frame ((a, v) # cs) h h3"
      using ends by (auto simp: frame_def h3_def h2_def h1_def)
    moreover have "mboxListRemoveHead h l =
        Inr (v, h3, l\<lparr>l_root := Some (first_of cs a), l_len := length cs\<rparr>)"
      using node root len x(1) y(1) still assms(2) False
      by (simp add: mboxListRemoveHead_def ln_free_def h3_def h2_def h1_def)
    moreover have "lh_cells h3 a = None" by (simp add: h3_def)
    ultimately show ?thesis by simp
  qed
qed

lemma mboxListRemoveHead_empty: "list_rep h l [] \<Longrightarrow> mboxListRemoveHead h l = Inr (None, h, l)"
  by (simp add: mboxListRemoveHead_def list_rep_def)

lemma mboxListRemoveTail_rep:
  assumes "list_rep h l (cs @ [(a, v)])" and "Suc (length cs) < SIZE_MOD"
  shows "\<exists>h' l'. mboxListRemoveTail h l = Inr (v, h', l') \<and> list_rep h' l' cs \<and>
     frame (cs @ [(a, v)]) h h' \<and> l_locked l' = l_locked l \<and> l_freedata l' = l_freedata l"
proof -
  note L = list_repD(1,4,5) [OF assms(1)]
  have root: "l_root l = Some (first_of cs a)"
    using list_repD(3) [OF assms(1), of a] by simp
  have fr: "\<forall>b \<ge> lh_fresh h. lh_cells h b = None" using list_repD(6) [OF assms(1)] by blast
  have node: "lh_cells h a = Some \<lparr>ln_data = v, ln_next = Some (first_of cs a),
      ln_prev = Some (last_of a cs)\<rparr>" and seg: "dseg (lh_cells h) a cs a"
    using L(3) by simp_all
  show ?thesis
  proof (cases "cs = []")
    case True
    then show ?thesis
      using L root node fr
      by (auto simp: mboxListRemoveTail_def ln_free_def list_rep_def ring_def frame_def)
  next
    case False
    have d: "distinct (map fst cs)" "a \<notin> fst ` set cs" using L(2) by auto
    have len: "l_len l = Suc (length cs)" "length cs \<noteq> 0" using L(1) False by auto
    obtain hd where hd: "lh_cells h (first_of cs a) = Some hd" "ln_prev hd = Some a"
      using seg False by (cases cs) auto
    obtain x where x: "set_prev h (Some (first_of cs a)) (Some (last_of a cs)) =
        Inr (h\<lparr>lh_cells := (lh_cells h)(first_of cs a \<mapsto> x)\<rparr>)"
      "dseg ((lh_cells h)(first_of cs a \<mapsto> x)) (last_of a cs) cs a"
      using set_prev_seg [OF seg d(1) False] by metis
    define h1 where "h1 = h\<lparr>lh_cells := (lh_cells h)(first_of cs a \<mapsto> x)\<rparr>"
    have "dseg (lh_cells h1) (last_of a cs) cs a" using x(2) by (simp add: h1_def)
    then obtain y where y: "set_next h1 (Some (last_of a cs)) (Some (first_of cs a)) =
        Inr (h1\<lparr>lh_cells := (lh_cells h1)(last_of a cs \<mapsto> y)\<rparr>)"
      "dseg ((lh_cells h1)(last_of a cs \<mapsto> y)) (last_of a cs) cs (first_of cs a)"
      using set_next_seg [OF _ d(1) False] ends_indep [OF False] by metis
    define h2 where "h2 = h1\<lparr>lh_cells := (lh_cells h1)(last_of a cs \<mapsto> y)\<rparr>"
    have ends: "last_of a cs \<in> fst ` set cs" "first_of cs a \<in> fst ` set cs"
      using last_of_in first_of_in False by blast+
    then have ne: "a \<noteq> last_of a cs" "a \<noteq> first_of cs a" using d(2) by metis+
    have still: "lh_cells h2 a \<noteq> None" using node ne by (simp add: h2_def h1_def)
    define h3 where "h3 = h2\<lparr>lh_cells := (lh_cells h2)(a := None)\<rparr>"
    have e: "last_of 0 cs = last_of a cs" "first_of cs 0 = first_of cs a"
      using ends_indep [OF False] by blast+
    have "dseg (lh_cells h2) (last_of a cs) cs (first_of cs a)" using y(2) by (simp add: h2_def)
    then have "dseg (lh_cells h3) (last_of 0 cs) cs (first_of cs 0)"
      using d(2) by (simp add: h3_def e)
    moreover have "last_of a cs < lh_fresh h" "first_of cs a < lh_fresh h"
      using list_rep_fresh [OF assms(1)] ends by simp_all
    then have "\<forall>b \<ge> lh_fresh h3. lh_cells h3 b = None"
      using fr by (simp add: h3_def h2_def h1_def)
    ultimately have "list_rep h3 (l\<lparr>l_len := length cs\<rparr>) cs"
      using False d(1) root by (simp add: list_rep_def ring_def first_of_hd)
    moreover have "frame (cs @ [(a, v)]) h h3"
      using ends by (auto simp: frame_def h3_def h2_def h1_def)
    moreover have "mboxListRemoveTail h l = Inr (v, h3, l\<lparr>l_len := length cs\<rparr>)"
      using node root len x(1) y(1) still assms(2) False hd
      by (simp add: mboxListRemoveTail_def ln_free_def h3_def h2_def h1_def)
    ultimately show ?thesis by simp
  qed
qed

lemma mboxListRemoveTail_empty: "list_rep h l [] \<Longrightarrow> mboxListRemoveTail h l = Inr (None, h, l)"
  by (simp add: mboxListRemoveTail_def list_rep_def)

text \<open>The search returns the first datum that matches, or null.\<close>

lemma find_loop_seg:
  "dseg (lh_cells h) p cs n \<Longrightarrow>
   find_loop f k h (Some (first_of cs n)) (length cs) =
     Inr (case find (\<lambda>d. f d k) (map snd cs) of None \<Rightarrow> None | Some d \<Rightarrow> d)"
  by (induction cs arbitrary: p) auto

lemma mboxListFind_rep:
  assumes "list_rep h l cs"
  shows "mboxListFind h l k f =
     Inr (case find (\<lambda>d. f d k) (map snd cs) of None \<Rightarrow> None | Some d \<Rightarrow> d)"
proof (cases "cs = []")
  case False
  then show ?thesis
    using find_loop_seg [OF list_repD(5) [OF assms], of f k] list_repD(1) [OF assms]
      list_repD(3) [OF assms False, of "first_of cs 0"]
    by (simp add: mboxListFind_def)
qed (use list_repD(1) [OF assms] in \<open>simp add: mboxListFind_def\<close>)

lemma frame_trans:
  "frame cs h h1 \<Longrightarrow> frame ds h1 h2 \<Longrightarrow> fst ` set ds \<subseteq> fst ` set cs \<Longrightarrow> frame cs h h2"
  unfolding frame_def by (metis (no_types, lifting) le_trans less_le_trans subsetD)

lemma release_loop_rep:
  assumes "list_rep h l cs" and "length cs < SIZE_MOD"
  shows "\<exists>h'. release_loop h l (length cs) freed =
       Inr (h', freed @ (if l_freedata l then map the (filter (\<lambda>d. d \<noteq> None) (map snd cs)) else [])) \<and>
     (\<forall>a \<in> fst ` set cs. lh_cells h' a = None) \<and> frame cs h h'"
  using assms
proof (induction cs arbitrary: h l freed)
  case Nil
  then show ?case by (simp add: release_loop.simps list_repD(1) frame_def)
next
  case (Cons c cs)
  obtain a v where c: "c = (a, v)" by fastforce
  obtain h1 l1 where r: "mboxListRemoveHead h l = Inr (v, h1, l1)" "list_rep h1 l1 cs"
    "lh_cells h1 a = None" "frame ((a, v) # cs) h h1" "l_freedata l1 = l_freedata l"
    using mboxListRemoveHead_rep [of h l a v cs] Cons.prems by (auto simp: c)
  let ?freed = "case v of Some d \<Rightarrow> (if l_freedata l1 then freed @ [d] else freed) | None \<Rightarrow> freed"
  obtain h' where h': "release_loop h1 l1 (length cs) ?freed =
       Inr (h', ?freed @ (if l_freedata l1 then map the (filter (\<lambda>d. d \<noteq> None) (map snd cs)) else []))"
     "\<forall>a \<in> fst ` set cs. lh_cells h' a = None" "frame cs h1 h'"
    using Cons.IH [OF r(2), of ?freed] Cons.prems(2) by auto
  have a: "a \<notin> fst ` set cs" "a < lh_fresh h"
    using list_repD(4) [OF Cons.prems(1)] list_rep_fresh [OF Cons.prems(1)] by (auto simp: c)
  then have "lh_cells h' a = None"
    using h'(3) r(3,4) unfolding frame_def by (metis less_le_trans)
  moreover have "frame (c # cs) h h'" using frame_trans [OF r(4) h'(3)] by (auto simp: c)
  moreover have "l_len l = Suc (length cs)" using list_repD(1) [OF Cons.prems(1)] by simp
  ultimately show ?case
    using h'(1,2) r(1,5) by (auto simp: c release_loop.simps [of h] split: option.splits)
qed

text \<open>Joining two rings crosses over the pointers at their ends.\<close>

lemma mboxListAppendListTail_rep:
  assumes "list_rep h m cs" and "list_rep h x ds" and "fst ` set cs \<inter> fst ` set ds = {}"
    and "length cs + length ds < SIZE_MOD"
  shows "\<exists>h' m' x'. mboxListAppendListTail h m x = Inr (h', m', x') \<and> list_rep h' m' (cs @ ds) \<and>
     x' = (if ds = [] then Some x else None) \<and> frame (cs @ ds) h h' \<and> l_locked m' = l_locked m"
proof (cases "ds = []")
  case True
  then show ?thesis
    using assms(1) list_repD(1) [OF assms(2)]
    by (auto simp: mboxListAppendListTail_def frame_def)
next
  case ds: False
  note A = list_repD(1,4,5) [OF assms(1)] and B = list_repD(1,4,5) [OF assms(2)]
  show ?thesis
  proof (cases "cs = []")
    case True
    then show ?thesis
      using ds A(1) B(1) assms(1,2,4)
      by (auto simp: mboxListAppendListTail_def list_rep_def frame_def)
  next
    case cs: False
    let ?c = "first_of cs 0" and ?t = "last_of 0 cs" and ?d = "first_of ds 0" and ?u = "last_of 0 ds"
    have roots: "l_root m = Some ?c" "l_root x = Some ?d"
      using list_repD(3) [OF assms(1) cs] list_repD(3) [OF assms(2) ds] by blast+
    have ends: "?c \<in> fst ` set cs" "?t \<in> fst ` set cs" "?d \<in> fst ` set ds" "?u \<in> fst ` set ds"
      using first_of_in last_of_in cs ds by blast+
    then have ni: "?c \<notin> fst ` set ds" "?t \<notin> fst ` set ds" "?d \<notin> fst ` set cs" "?u \<notin> fst ` set cs"
      using assms(3) by blast+
    obtain r where r: "lh_cells h ?c = Some r" "ln_prev r = Some ?t"
      using A(3) cs by (cases cs) auto
    obtain q where q: "lh_cells h ?d = Some q" "ln_prev q = Some ?u"
      using B(3) ds by (cases ds) auto
    obtain v1 where v1: "set_prev h (Some ?d) (Some ?t) =
        Inr (h\<lparr>lh_cells := (lh_cells h)(?d \<mapsto> v1)\<rparr>)" "dseg ((lh_cells h)(?d \<mapsto> v1)) ?t ds ?d"
      using set_prev_seg [OF B(3,2) ds] by blast
    define h1 where "h1 = h\<lparr>lh_cells := (lh_cells h)(?d \<mapsto> v1)\<rparr>"
    have s1: "dseg (lh_cells h1) ?t cs ?c" "dseg (lh_cells h1) ?t ds ?d"
      using v1(2) A(3) ni by (simp_all add: h1_def)
    obtain v2 where v2: "set_next h1 (Some ?t) (Some ?d) =
        Inr (h1\<lparr>lh_cells := (lh_cells h1)(?t \<mapsto> v2)\<rparr>)" "dseg ((lh_cells h1)(?t \<mapsto> v2)) ?t cs ?d"
      using set_next_seg [OF s1(1) A(2) cs] ends_indep [OF cs] by metis
    define h2 where "h2 = h1\<lparr>lh_cells := (lh_cells h1)(?t \<mapsto> v2)\<rparr>"
    have s2: "dseg (lh_cells h2) ?t cs ?d" "dseg (lh_cells h2) ?t ds ?d"
      using v2(2) s1(2) ni by (simp_all add: h2_def)
    obtain v3 where v3: "set_prev h2 (Some ?c) (Some ?u) =
        Inr (h2\<lparr>lh_cells := (lh_cells h2)(?c \<mapsto> v3)\<rparr>)" "dseg ((lh_cells h2)(?c \<mapsto> v3)) ?u cs ?d"
      using set_prev_seg [OF s2(1) A(2) cs] by blast
    define h3 where "h3 = h2\<lparr>lh_cells := (lh_cells h2)(?c \<mapsto> v3)\<rparr>"
    have s3: "dseg (lh_cells h3) ?u cs ?d" "dseg (lh_cells h3) ?t ds ?d"
      using v3(2) s2(2) ni by (simp_all add: h3_def)
    obtain v4 where v4: "set_next h3 (Some ?u) (Some ?c) =
        Inr (h3\<lparr>lh_cells := (lh_cells h3)(?u \<mapsto> v4)\<rparr>)" "dseg ((lh_cells h3)(?u \<mapsto> v4)) ?t ds ?c"
      using set_next_seg [OF s3(2) B(2) ds] ends_indep [OF ds] by metis
    define h4 where "h4 = h3\<lparr>lh_cells := (lh_cells h3)(?u \<mapsto> v4)\<rparr>"
    have s4: "dseg (lh_cells h4) ?u cs ?d" "dseg (lh_cells h4) ?t ds ?c"
      using v4(2) s3(1) ni by (simp_all add: h4_def)
    have e: "first_of cs ?d = ?c" "last_of ?t ds = ?u" "first_of ds ?c = ?d" "last_of ?u cs = ?t"
      using ends_indep [OF cs] ends_indep [OF ds] by blast+
    have "ring (lh_cells h4) (cs @ ds)"
      using s4 A(2) B(2) assms(3) by (simp add: ring_def e)
    moreover have "\<forall>a \<ge> lh_fresh h4. lh_cells h4 a = None"
      using list_repD(6) [OF assms(1)] list_rep_fresh [OF assms(1)] list_rep_fresh [OF assms(2)] ends
      by (simp add: h4_def h3_def h2_def h1_def) (metis leD)
    moreover have "mboxListAppendListTail h m x =
        Inr (h4, m\<lparr>l_len := length cs + length ds\<rparr>, None)"
      using A(1) B(1) roots cs ds r q v1(1) v2(1) v3(1) v4(1) assms(4)
      by (simp add: mboxListAppendListTail_def h4_def h3_def h2_def h1_def)
    moreover have "a \<noteq> ?c \<and> a \<noteq> ?t \<and> a \<noteq> ?d \<and> a \<noteq> ?u" if "a \<notin> fst ` set (cs @ ds)" for a
      using ends that unfolding set_append image_Un by blast
    then have "frame (cs @ ds) h h4"
      unfolding frame_def by (simp add: h4_def h3_def h2_def h1_def)
    ultimately show ?thesis
      using roots cs ds by (auto simp: list_rep_def first_of_hd)
  qed
qed

section \<open>The double-ended queue the lists are used as\<close>

text \<open>
  The job queue, the batches of the indexer and the list of parsed messages see a list only
  through its four end operations. Their contract is that of a sequence: \<open>spec_op\<close> says what
  each operation does to the sequence and what it returns, null from an empty one.
\<close>

datatype 'v deque_op = PushHead "'v void_ptr" | PushTail "'v void_ptr" | PopHead | PopTail

fun spec_op :: "'v deque_op \<Rightarrow> 'v void_ptr list \<Rightarrow> 'v void_ptr \<times> 'v void_ptr list" where
  "spec_op (PushHead v) xs = (None, v # xs)"
| "spec_op (PushTail v) xs = (None, xs @ [v])"
| "spec_op PopHead xs = (if xs = [] then (None, []) else (hd xs, tl xs))"
| "spec_op PopTail xs = (if xs = [] then (None, []) else (last xs, butlast xs))"

fun spec_run ::
  "'v deque_op list \<Rightarrow> 'v void_ptr list \<Rightarrow> 'v void_ptr list \<times> 'v void_ptr list" where
  "spec_run [] xs = ([], xs)"
| "spec_run (c # cs) xs =
     (let (r, ys) = spec_op c xs; (rs, zs) = spec_run cs ys in (r # rs, zs))"

type_synonym ('v, 's) provider =
  "('s \<Rightarrow> 'v void_ptr \<Rightarrow> c_error + 's) \<times> ('s \<Rightarrow> 'v void_ptr \<Rightarrow> c_error + 's) \<times>
   ('s \<Rightarrow> c_error + ('v void_ptr \<times> 's)) \<times> ('s \<Rightarrow> c_error + ('v void_ptr \<times> 's))"

fun run_op ::
  "('v, 's) provider \<Rightarrow> 'v deque_op \<Rightarrow> 's \<Rightarrow> c_error + ('v void_ptr \<times> 's)" where
  "run_op (ph, pt, rh, rt) (PushHead v) s = bindE (ph s v) (\<lambda>s. Inr (None, s))"
| "run_op (ph, pt, rh, rt) (PushTail v) s = bindE (pt s v) (\<lambda>s. Inr (None, s))"
| "run_op (ph, pt, rh, rt) PopHead s = rh s"
| "run_op (ph, pt, rh, rt) PopTail s = rt s"

fun run_ops ::
  "('v, 's) provider \<Rightarrow> 'v deque_op list \<Rightarrow> 's \<Rightarrow> c_error + ('v void_ptr list \<times> 's)" where
  "run_ops P [] s = Inr ([], s)"
| "run_ops P (c # cs) s =
     bindE (run_op P c s) (\<lambda>(r, s). bindE (run_ops P cs s) (\<lambda>(rs, s). Inr (r # rs, s)))"

locale deque =
  fixes rep :: "'s \<Rightarrow> 'v void_ptr list \<Rightarrow> bool"
    and push_head :: "'s \<Rightarrow> 'v void_ptr \<Rightarrow> c_error + 's"
    and push_tail :: "'s \<Rightarrow> 'v void_ptr \<Rightarrow> c_error + 's"
    and pop_head :: "'s \<Rightarrow> c_error + ('v void_ptr \<times> 's)"
    and pop_tail :: "'s \<Rightarrow> c_error + ('v void_ptr \<times> 's)"
    and room :: nat
  assumes push_head: "rep s xs \<Longrightarrow> length xs < room \<Longrightarrow> \<exists>t. push_head s v = Inr t \<and> rep t (v # xs)"
    and push_tail: "rep s xs \<Longrightarrow> length xs < room \<Longrightarrow> \<exists>t. push_tail s v = Inr t \<and> rep t (xs @ [v])"
    and pop_head: "rep s (v # xs) \<Longrightarrow> length xs < room \<Longrightarrow> \<exists>t. pop_head s = Inr (v, t) \<and> rep t xs"
    and pop_tail: "rep s (xs @ [v]) \<Longrightarrow> length xs < room \<Longrightarrow> \<exists>t. pop_tail s = Inr (v, t) \<and> rep t xs"
    and pop_empty: "rep s [] \<Longrightarrow>
      (\<exists>t. pop_head s = Inr (None, t) \<and> rep t []) \<and> (\<exists>t. pop_tail s = Inr (None, t) \<and> rep t [])"
begin

abbreviation provided :: "('v, 's) provider" where
  "provided \<equiv> (push_head, push_tail, pop_head, pop_tail)"

lemma op_refines:
  assumes "rep s xs" and "length xs < room"
  shows "\<exists>t. run_op provided c s = Inr (fst (spec_op c xs), t) \<and> rep t (snd (spec_op c xs))"
proof (cases c)
  case PopHead
  then show ?thesis using pop_empty [of s] pop_head [of s "hd xs" "tl xs"] assms by (cases xs) auto
next
  case PopTail
  then show ?thesis
    using pop_empty [of s] pop_tail [of s "butlast xs" "last xs"] assms
    by (cases xs rule: rev_cases) auto
next
  case (PushHead v)
  then show ?thesis using push_head [OF assms, of v] by auto
next
  case (PushTail v)
  then show ?thesis using push_tail [OF assms, of v] by auto
qed

lemma length_spec_op: "length (snd (spec_op c xs)) \<le> Suc (length xs)"
  by (cases c) auto

lemma run_refines:
  assumes "rep s xs" and "length xs + length cs \<le> room"
  shows "\<exists>t. run_ops provided cs s = Inr (fst (spec_run cs xs), t) \<and> rep t (snd (spec_run cs xs))"
  using assms
proof (induction cs arbitrary: s xs)
  case (Cons c cs)
  then obtain t where t: "run_op provided c s = Inr (fst (spec_op c xs), t)"
    "rep t (snd (spec_op c xs))"
    using op_refines [of s xs c] by auto
  with Cons.IH [OF t(2)] Cons.prems length_spec_op [of c xs] show ?case
    by (auto split: prod.splits)
qed simp

end

text \<open>A list alone in its heap, and one used through the operations that take the mutex.\<close>

abbreviation list_ops :: "('v, 'v lheap \<times> mboxList) provider" where
  "list_ops \<equiv> (\<lambda>(h, l). mboxListAddHead h l, \<lambda>(h, l). mboxListAddTail h l,
     \<lambda>(h, l). mboxListRemoveHead h l, \<lambda>(h, l). mboxListRemoveTail h l)"

abbreviation ts_ops :: "('v, 'v lheap \<times> mboxList) provider" where
  "ts_ops \<equiv> (\<lambda>(h, l). mboxListTSAddHead h l, \<lambda>(h, l). mboxListTSAddTail h l,
     \<lambda>(h, l). mboxListTSRemoveHead h l, \<lambda>(h, l). mboxListTSRemoveTail h l)"

lemma holds_locked [simp]: "holds h (l\<lparr>l_locked := b\<rparr>) xs \<longleftrightarrow> holds h l xs"
  by (simp add: holds_def list_rep_def)

lemma holds_push:
  assumes "holds h l xs" and "length xs < SIZE_MOD - 1"
  shows "\<exists>h' l'. mboxListAddHead h l v = Inr (h', l') \<and> holds h' l' (v # xs)"
    and "\<exists>h' l'. mboxListAddTail h l v = Inr (h', l') \<and> holds h' l' (xs @ [v])"
proof -
  obtain cs where cs: "list_rep h l cs" "map snd cs = xs" using assms(1) by (auto simp: holds_def)
  have "Suc (length cs) < SIZE_MOD" using assms(2) unfolding cs(2) [symmetric] length_map by simp
  with cs show "\<exists>h' l'. mboxListAddHead h l v = Inr (h', l') \<and> holds h' l' (v # xs)"
    and "\<exists>h' l'. mboxListAddTail h l v = Inr (h', l') \<and> holds h' l' (xs @ [v])"
    using mboxListAddHead_rep [OF cs(1), of v] mboxListAddTail_rep [OF cs(1), of v]
    by (fastforce simp: holds_def)+
qed

lemma holds_pop_head:
  assumes "holds h l (v # xs)" and "length xs < SIZE_MOD - 1"
  shows "\<exists>h' l'. mboxListRemoveHead h l = Inr (v, h', l') \<and> holds h' l' xs"
proof -
  obtain a cs where cs: "list_rep h l ((a, v) # cs)" "map snd cs = xs"
    using assms(1) by (auto simp: holds_def)
  have "Suc (length cs) < SIZE_MOD" using assms(2) unfolding cs(2) [symmetric] length_map by simp
  with cs show ?thesis using mboxListRemoveHead_rep [OF cs(1)] by (fastforce simp: holds_def)
qed

lemma holds_pop_tail:
  assumes "holds h l (xs @ [v])" and "length xs < SIZE_MOD - 1"
  shows "\<exists>h' l'. mboxListRemoveTail h l = Inr (v, h', l') \<and> holds h' l' xs"
proof -
  obtain ds where ds: "list_rep h l ds" "map snd ds = xs @ [v]"
    using assms(1) by (auto simp: holds_def)
  then obtain a cs where cs: "list_rep h l (cs @ [(a, v)])" "map snd cs = xs"
    by (cases ds rule: rev_cases) auto
  have "Suc (length cs) < SIZE_MOD" using assms(2) unfolding cs(2) [symmetric] length_map by simp
  with cs show ?thesis using mboxListRemoveTail_rep [OF cs(1)] by (fastforce simp: holds_def)
qed

lemma holds_pop_empty:
  "holds h l [] \<Longrightarrow> mboxListRemoveHead h l = Inr (None, h, l) \<and> mboxListRemoveTail h l = Inr (None, h, l)"
  by (auto simp: holds_def mboxListRemoveHead_empty mboxListRemoveTail_empty)

interpretation plain: deque "\<lambda>(h, l). holds h l" "\<lambda>(h, l). mboxListAddHead h l"
  "\<lambda>(h, l). mboxListAddTail h l" "\<lambda>(h, l). mboxListRemoveHead h l"
  "\<lambda>(h, l). mboxListRemoveTail h l" "SIZE_MOD - 1"
  by unfold_locales
    (auto simp: holds_pop_empty intro: holds_push [simplified]
      dest: holds_pop_head [simplified] holds_pop_tail [simplified])

definition ts_rep :: "'v lheap \<times> mboxList \<Rightarrow> 'v void_ptr list \<Rightarrow> bool" where
  "ts_rep s xs \<longleftrightarrow> holds (fst s) (snd s) xs \<and> \<not> l_locked (snd s)"

lemmas ts_defs = mboxListTSAddHead_def mboxListTSAddTail_def mboxListTSRemoveHead_def
  mboxListTSRemoveTail_def list_lock_def list_unlock_def ts_rep_def

interpretation ts: deque ts_rep "\<lambda>(h, l). mboxListTSAddHead h l"
  "\<lambda>(h, l). mboxListTSAddTail h l" "\<lambda>(h, l). mboxListTSRemoveHead h l"
  "\<lambda>(h, l). mboxListTSRemoveTail h l" "SIZE_MOD - 1"
proof (unfold_locales, goal_cases)
  case (1 s xs v)
  then show ?case using holds_push(1) [of "fst s" "snd s\<lparr>l_locked := True\<rparr>" xs v]
    by (auto simp: ts_defs split_beta)
next
  case (2 s xs v)
  then show ?case using holds_push(2) [of "fst s" "snd s\<lparr>l_locked := True\<rparr>" xs v]
    by (auto simp: ts_defs split_beta)
next
  case (3 s v xs)
  then show ?case using holds_pop_head [of "fst s" "snd s\<lparr>l_locked := True\<rparr>" v xs]
    by (auto simp: ts_defs split_beta)
next
  case (4 s xs v)
  then show ?case using holds_pop_tail [of "fst s" "snd s\<lparr>l_locked := True\<rparr>" xs v]
    by (auto simp: ts_defs split_beta)
next
  case (5 s)
  then show ?case using holds_pop_empty [of "fst s" "snd s\<lparr>l_locked := True\<rparr>"]
    by (auto simp: ts_defs split_beta)
qed

section \<open>Properties\<close>

text \<open>
  C13. The thread-safe operations are those of a double-ended queue: any sequence of additions
  and removals at either end, run on a list that holds \<open>xs\<close> and whose mutex is free,
  completes without a bad access or a deadlock, returns what the sequence specification
  returns (null from an empty list), leaves the list with the specification's content and
  the mutex free.
\<close>

theorem mboxListTS_refines_deque:
  assumes "holds h l xs" and "\<not> l_locked l" and "length xs + length ops < SIZE_MOD"
  shows "\<exists>h' l'. run_ops ts_ops ops (h, l) = Inr (fst (spec_run ops xs), h', l') \<and>
     holds h' l' (snd (spec_run ops xs)) \<and> \<not> l_locked l'"
  using ts.run_refines [of "(h, l)" xs ops] assms by (auto simp: ts_rep_def)

lemma holds_new: "holds \<lparr>lh_cells = (\<lambda>_. None), lh_fresh = 0\<rparr> mboxListTSNew []"
  by (auto simp: holds_def mboxListTSNew_def mboxListNew_def list_rep_def ring_def)

theorem mboxListTS_refines_deque_witness:
  "\<exists>h l. run_ops ts_ops [PushTail (Some 7), PushHead (Some (8 :: nat)), PopTail, PopHead, PopHead]
       (\<lparr>lh_cells = (\<lambda>_. None), lh_fresh = 0\<rparr>, mboxListTSNew) =
     Inr ([None, None, Some 7, Some 8, None], h, l) \<and> holds h l [] \<and> \<not> l_locked l"
  using mboxListTS_refines_deque [OF holds_new,
      where ops = "[PushTail (Some 7), PushHead (Some 8), PopTail, PopHead, PopHead]"]
  by (simp add: mboxListTSNew_def)

text \<open>
  \<open>mboxListAppendListTail\<close> joins two lists of one heap: the first then holds its own
  data followed by the other's, in the same nodes, and no other node of the heap changes;
  the header of the second is freed unless it was empty.
\<close>

theorem mboxListAppendListTail_concatenates:
  assumes "list_rep h main cs" and "list_rep h aux ds" and "fst ` set cs \<inter> fst ` set ds = {}"
    and "length cs + length ds < SIZE_MOD"
  shows "\<exists>h' main' aux'. mboxListAppendListTail h main aux = Inr (h', main', aux') \<and>
     list_rep h' main' (cs @ ds) \<and> aux' = (if ds = [] then Some aux else None) \<and>
     (\<forall>a < lh_fresh h. a \<notin> fst ` set cs \<union> fst ` set ds \<longrightarrow> lh_cells h' a = lh_cells h a)"
  using mboxListAppendListTail_rep [OF assms] by (auto simp: frame_def image_Un)

definition two_nodes :: "nat lheap" where
  "two_nodes = \<lparr>lh_cells = [4 \<mapsto> \<lparr>ln_data = Some 1, ln_next = Some 4, ln_prev = Some 4\<rparr>,
     5 \<mapsto> \<lparr>ln_data = Some 2, ln_next = Some 5, ln_prev = Some 5\<rparr>], lh_fresh = 6\<rparr>"

definition one_at :: "nat \<Rightarrow> mboxList" where
  "one_at a = \<lparr>l_len = 1, l_root = Some a, l_locked = False, l_freedata = True\<rparr>"

lemma two_nodes_rep:
  "list_rep two_nodes (one_at 4) [(4, Some 1)]" "list_rep two_nodes (one_at 5) [(5, Some 2)]"
  by (auto simp: list_rep_def ring_def two_nodes_def one_at_def)

theorem mboxListAppendListTail_concatenates_witness:
  "\<exists>h' main'. mboxListAppendListTail two_nodes (one_at 4) (one_at 5) = Inr (h', main', None) \<and>
     list_rep h' main' [(4, Some 1), (5, Some 2)]"
  using mboxListAppendListTail_concatenates [OF two_nodes_rep] by simp blast

text \<open>
  \<open>mboxListRelease\<close> ends, frees every node of the list and no other, and hands each datum
  that is not null to the list's \<open>freedata\<close>, from head to tail; without \<open>freedata\<close> the data
  are not released.
\<close>

theorem mboxListRelease_frees:
  assumes "list_rep h l cs" and "length cs < SIZE_MOD"
  shows "\<exists>h'. mboxListRelease h (Some l) =
       Inr (h', if l_freedata l then map the (filter (\<lambda>d. d \<noteq> None) (map snd cs)) else []) \<and>
     (\<forall>a < lh_fresh h. lh_cells h' a = (if a \<in> fst ` set cs then None else lh_cells h a))"
  using release_loop_rep [OF assms, of "[]"] list_repD(1) [OF assms(1)]
  by (auto simp: mboxListRelease_def frame_def)

theorem mboxListRelease_frees_witness:
  "\<exists>h'. mboxListRelease two_nodes (Some (one_at 5)) = Inr (h', [2]) \<and>
     lh_cells h' 5 = None \<and> lh_cells h' 4 = lh_cells two_nodes 4"
  using mboxListRelease_frees [OF two_nodes_rep(2)] by (auto simp: one_at_def two_nodes_def)

end
