(* ===== verification/Mbox_ListSort.thy ===== *)
theory Mbox_ListSort
  imports Mbox_List "HOL-Library.Multiset"
begin

text \<open>
  The quick sort of \<open>src/src/mbox-list.c\<close>: it moves the data between the nodes and leaves
  the nodes in place. The partition and the recursion follow the node pointers; they are
  shown to sort the sequence of data of the ring, for every comparison that meets the
  contract \<open>list_order\<close> on the data of the list.
\<close>

section \<open>The operations\<close>

type_synonym 'v list_cmp = "'v void_ptr \<Rightarrow> 'v void_ptr \<Rightarrow> c_error + int"

text \<open>\<open>tmp = p->data; p->data = c->data; c->data = tmp;\<close>\<close>

definition swap_data :: "'v lheap \<Rightarrow> ptr \<Rightarrow> ptr \<Rightarrow> c_error + 'v lheap" where
  "swap_data h p c =
     bindE (ln_get h p) (\<lambda>np. bindE (ln_get h c) (\<lambda>nc.
     bindE (set_data h p (ln_data nc)) (\<lambda>h. set_data h c (ln_data np))))"

definition step_prev :: "'v lheap \<Rightarrow> ptr \<Rightarrow> ptr \<Rightarrow> c_error + ptr" where
  "step_prev h prev low =
     (if prev = None then Inr low else bindE (ln_get h prev) (\<lambda>n. Inr (ln_next n)))"

text \<open>
  The loop follows \<open>next\<close> from \<open>low\<close> until it meets \<open>high\<close>: its fuel is the number of
  nodes, which no walk to a node of the ring exceeds.
\<close>

fun pivot_loop ::
  "'v list_cmp \<Rightarrow> ptr \<Rightarrow> ptr \<Rightarrow> 'v void_ptr \<Rightarrow> nat \<Rightarrow> 'v lheap \<Rightarrow> ptr \<Rightarrow> ptr \<Rightarrow>
     c_error + ('v lheap \<times> ptr)" where
  "pivot_loop compare low high pivot fuel h prev current =
     (if current = high then Inr (h, prev)
      else case fuel of 0 \<Rightarrow> Inl Diverges
        | Suc fuel \<Rightarrow>
            bindE (ln_get h current) (\<lambda>nc.
            bindE (compare (ln_data nc) pivot) (\<lambda>r.
            bindE (if r \<le> 0
                   then bindE (step_prev h prev low) (\<lambda>prev.
                        bindE (swap_data h prev current) (\<lambda>h. Inr (h, prev)))
                   else Inr (h, prev)) (\<lambda>(h, prev).
            bindE (ln_get h current) (\<lambda>nc.
            pivot_loop compare low high pivot fuel h prev (ln_next nc))))))"

declare pivot_loop.simps [simp del]

definition mboxListQSortPivot ::
  "'v lheap \<Rightarrow> mboxList \<Rightarrow> ptr \<Rightarrow> ptr \<Rightarrow> 'v list_cmp \<Rightarrow> c_error + ('v lheap \<times> ptr)" where
  "mboxListQSortPivot h l low high compare =
     bindE (ln_get h high) (\<lambda>nh. bindE (ln_get h low) (\<lambda>nl.
     bindE (pivot_loop compare low high (ln_data nh) (l_len l) h (ln_prev nl) low) (\<lambda>(h, prev).
     bindE (step_prev h prev low) (\<lambda>prev.
     bindE (swap_data h prev high) (\<lambda>h. Inr (h, prev))))))"

text \<open>
  The depth of the recursion is bounded by \<open>fuel\<close>; the number of nodes is enough, because
  each call works on a shorter stretch of the ring.
\<close>

fun mboxQSortHelper ::
  "nat \<Rightarrow> 'v lheap \<Rightarrow> mboxList \<Rightarrow> ptr \<Rightarrow> ptr \<Rightarrow> int \<Rightarrow> 'v list_cmp \<Rightarrow> c_error + 'v lheap" where
  "mboxQSortHelper fuel h l low high cnt compare =
     bindE (if low = high then Inr True
            else if cnt = 1 then bindE (ln_get h high) (\<lambda>nh. Inr (low = ln_next nh))
            else Inr False) (\<lambda>done.
     if done then Inr h
     else case fuel of 0 \<Rightarrow> Inl Diverges
       | Suc fuel \<Rightarrow>
           bindE (mboxListQSortPivot h l low high compare) (\<lambda>(h, pivot).
           bindE (ln_get h pivot) (\<lambda>np.
           bindE (mboxQSortHelper fuel h l low (ln_prev np) 1 compare) (\<lambda>h.
           bindE (ln_get h pivot) (\<lambda>np.
           mboxQSortHelper fuel h l (ln_next np) high 1 compare)))))"

declare mboxQSortHelper.simps [simp del]

text \<open>The early return keeps the mutex.\<close>

definition mboxListQSort ::
  "'v lheap \<Rightarrow> mboxList \<Rightarrow> 'v list_cmp option \<Rightarrow> c_error + ('v lheap \<times> mboxList)" where
  "mboxListQSort h l compare =
     bindE (list_lock l) (\<lambda>l.
     case compare of
       None \<Rightarrow> Inr (h, l)
     | Some cmp \<Rightarrow>
         (if l_len l \<le> 1 then Inr (h, l)
          else bindE (ln_get h (l_root l)) (\<lambda>r.
               bindE (mboxQSortHelper (l_len l) h l (l_root l) (ln_prev r) 0 cmp) (\<lambda>h.
               Inr (h, list_unlock l)))))"

section \<open>The ring by position\<close>

text \<open>
  \<open>vring C as xs\<close>: the node at the \<open>i\<close>-th address holds the \<open>i\<close>-th datum and is linked
  to its neighbours modulo the length.
\<close>

definition vring :: "(nat \<rightharpoonup> 'v mboxLNode) \<Rightarrow> nat list \<Rightarrow> 'v void_ptr list \<Rightarrow> bool" where
  "vring C as xs \<longleftrightarrow> distinct as \<and> length xs = length as \<and>
     (\<forall>i < length as. C (as ! i) = Some \<lparr>ln_data = xs ! i,
        ln_next = Some (as ! (Suc i mod length as)),
        ln_prev = Some (as ! ((i + length as - 1) mod length as))\<rparr>)"

lemma dseg_nth:
  "dseg C p cs n \<longleftrightarrow> (\<forall>i < length cs. C (fst (cs ! i)) = Some \<lparr>ln_data = snd (cs ! i),
     ln_next = Some (if Suc i < length cs then fst (cs ! Suc i) else n),
     ln_prev = Some (if i = 0 then p else fst (cs ! (i - 1)))\<rparr>)"
proof (induction cs arbitrary: p)
  case (Cons c cs)
  have f: "first_of cs n = (if 0 < length cs then fst (cs ! 0) else n)" by (cases cs) auto
  have b: "fst ((c # cs) ! i) = (if i = 0 then fst c else fst (cs ! (i - 1)))" for i
    by (cases i) auto
  show ?case unfolding dseg.simps Cons.IH f by (simp add: All_less_Suc2 b)
qed simp

lemma ring_vring:
  assumes "length as = length xs" and "as \<noteq> []"
  shows "ring C (zip as xs) \<longleftrightarrow> vring C as xs"
proof -
  let ?n = "length as"
  have n: "0 < ?n" "length (zip as xs) = ?n" using assms by auto
  have ends: "first_of (zip as xs) 0 = as ! 0" "last_of 0 (zip as xs) = as ! (?n - 1)"
    using assms by (cases as; cases xs; auto simp: last_of_def last_conv_nth)+
  have nx: "(if Suc i < ?n then as ! Suc i else as ! 0) = as ! (Suc i mod ?n)" if "i < ?n" for i
    using that by (cases "Suc i = ?n") auto
  have pv: "(if i = 0 then as ! (?n - 1) else as ! (i - 1)) = as ! ((i + ?n - 1) mod ?n)"
    if "i < ?n" for i
    using that n(1) by (cases i) auto
  have "map fst (zip as xs) = as" using assms(1) by simp
  then show ?thesis
    unfolding ring_def vring_def dseg_nth ends n(2)
    using assms(1) nx pv by (auto simp: if_distrib [of fst] cong: if_cong)
qed

lemma vringD:
  assumes "vring C as xs" and "i < length as"
  shows "C (as ! i) = Some \<lparr>ln_data = xs ! i, ln_next = Some (as ! (Suc i mod length as)),
       ln_prev = Some (as ! ((i + length as - 1) mod length as))\<rparr>"
  using assms by (simp add: vring_def)

text \<open>Only the data change: the heap outside the ring is as it was.\<close>

definition sorts_in :: "nat list \<Rightarrow> 'v lheap \<Rightarrow> 'v lheap \<Rightarrow> bool" where
  "sorts_in as h h' \<longleftrightarrow>
     lh_fresh h' = lh_fresh h \<and> (\<forall>a. a \<notin> set as \<longrightarrow> lh_cells h' a = lh_cells h a)"

lemma sorts_in_refl [simp]: "sorts_in as h h"
  by (simp add: sorts_in_def)

lemma sorts_in_trans: "sorts_in as h h1 \<Longrightarrow> sorts_in as h1 h2 \<Longrightarrow> sorts_in as h h2"
  by (simp add: sorts_in_def)

definition swapped :: "nat \<Rightarrow> nat \<Rightarrow> 'a list \<Rightarrow> 'a list" where
  "swapped i j xs = xs[i := xs ! j, j := xs ! i]"

lemma length_swapped [simp]: "length (swapped i j xs) = length xs"
  by (simp add: swapped_def)

lemma nth_swapped:
  "i < length xs \<Longrightarrow> j < length xs \<Longrightarrow>
   swapped i j xs ! k = (if k = i then xs ! j else if k = j then xs ! i else xs ! k)"
  by (simp add: swapped_def nth_list_update)

lemma mset_swapped [simp]:
  "i < length xs \<Longrightarrow> j < length xs \<Longrightarrow> mset (swapped i j xs) = mset xs"
  by (simp add: swapped_def mset_swap)

lemma vring_set_data:
  assumes "vring (lh_cells h) as xs" and "i < length as"
  shows "\<exists>h'. set_data h (Some (as ! i)) v = Inr h' \<and> vring (lh_cells h') as (xs[i := v]) \<and>
     sorts_in as h h'"
  using assms vringD [OF assms]
  by (auto simp: set_data_def vring_def nth_list_update nth_eq_iff_index_eq sorts_in_def)

lemma vring_swap:
  assumes "vring (lh_cells h) as xs" and "i < length as" and "j < length as"
  shows "\<exists>h'. swap_data h (Some (as ! i)) (Some (as ! j)) = Inr h' \<and>
     vring (lh_cells h') as (swapped i j xs) \<and> sorts_in as h h'"
proof -
  obtain h1 where h1: "set_data h (Some (as ! i)) (xs ! j) = Inr h1"
    "vring (lh_cells h1) as (xs[i := xs ! j])" "sorts_in as h h1"
    using vring_set_data [OF assms(1,2)] by blast
  obtain h2 where h2: "set_data h1 (Some (as ! j)) (xs ! i) = Inr h2"
    "vring (lh_cells h2) as (xs[i := xs ! j, j := xs ! i])" "sorts_in as h1 h2"
    using vring_set_data [OF h1(2) assms(3)] by blast
  show ?thesis
    using vringD [OF assms(1,2)] vringD [OF assms(1,3)] h1 h2 sorts_in_trans [OF h1(3) h2(3)]
    by (simp add: swap_data_def swapped_def)
qed

text \<open>The pointer one place before position \<open>k\<close>, where the partition keeps \<open>prev\<close>.\<close>

abbreviation before :: "nat list \<Rightarrow> nat \<Rightarrow> ptr" where
  "before as k \<equiv> Some (as ! ((k + length as - 1) mod length as))"

lemma step_prev_before:
  assumes "vring (lh_cells h) as xs" and "k < length as"
  shows "step_prev h (before as k) low = Inr (Some (as ! k))"
proof -
  let ?n = "length as"
  have "Suc ((k + ?n - 1) mod ?n) mod ?n = k"
  proof (cases k)
    case (Suc m)
    then show ?thesis using assms(2) by simp
  qed (use assms(2) in simp)
  moreover have "(k + ?n - 1) mod ?n < ?n" using assms(2) by (intro mod_less_divisor) linarith
  ultimately show ?thesis
    using vringD [OF assms(1), of "(k + ?n - 1) mod ?n"] by (simp add: step_prev_def)
qed

section \<open>Stretches of a sequence\<close>

text \<open>\<open>perm_in lo hi xs ys\<close>: \<open>ys\<close> rearranges the positions from \<open>lo\<close> to before \<open>hi\<close>.\<close>

definition perm_in :: "nat \<Rightarrow> nat \<Rightarrow> 'a list \<Rightarrow> 'a list \<Rightarrow> bool" where
  "perm_in lo hi xs ys \<longleftrightarrow> length ys = length xs \<and> mset ys = mset xs \<and>
     (\<forall>i < length xs. i < lo \<or> hi \<le> i \<longrightarrow> ys ! i = xs ! i)"

lemma perm_in_refl [simp]: "perm_in lo hi xs xs"
  by (simp add: perm_in_def)

lemma perm_in_trans: "perm_in lo hi xs ys \<Longrightarrow> perm_in lo hi ys zs \<Longrightarrow> perm_in lo hi xs zs"
  by (simp add: perm_in_def)

lemma perm_in_mono: "perm_in lo hi xs ys \<Longrightarrow> lo' \<le> lo \<Longrightarrow> hi \<le> hi' \<Longrightarrow> perm_in lo' hi' xs ys"
  by (auto simp: perm_in_def)

lemma perm_in_set: "perm_in lo hi xs ys \<Longrightarrow> set ys = set xs"
  by (auto simp: perm_in_def dest: mset_eq_setD)

lemma perm_in_swapped:
  "lo \<le> i \<Longrightarrow> i < hi \<Longrightarrow> lo \<le> j \<Longrightarrow> j < hi \<Longrightarrow> hi \<le> length xs \<Longrightarrow> perm_in lo hi xs (swapped i j xs)"
  by (auto simp: perm_in_def nth_swapped)

lemma perm_in_elem:
  assumes "perm_in lo hi xs ys" and "lo \<le> i" and "i < hi" and "hi \<le> length xs"
  shows "\<exists>j. lo \<le> j \<and> j < hi \<and> ys ! i = xs ! j"
proof -
  let ?mid = "\<lambda>zs. drop lo (take hi zs)"
  have split: "zs = take lo zs @ ?mid zs @ drop hi zs" for zs :: "'a list"
  proof -
    have "take hi zs = take lo zs @ ?mid zs"
      using append_take_drop_id [of lo "take hi zs"] assms(2,3) by (simp add: min_def)
    then show ?thesis using append_take_drop_id [of hi zs] by (metis append.assoc)
  qed
  have m: "mset zs = mset (take lo zs) + (mset (?mid zs) + mset (drop hi zs))" for zs :: "'a list"
    using arg_cong [OF split, where f = mset, of zs] by (simp only: mset_append)
  have l: "length ys = length xs" using assms(1) by (simp add: perm_in_def)
  have "take lo ys = take lo xs" "drop hi ys = drop hi xs"
    using assms by (auto simp: perm_in_def intro!: nth_equalityI)
  then have "mset (?mid ys) = mset (?mid xs)"
    using m [of ys] m [of xs] assms(1) by (simp add: perm_in_def)
  then have "set (?mid ys) = set (?mid xs)" by (rule mset_eq_setD)
  moreover have "?mid ys ! (i - lo) = ys ! i" "i - lo < length (?mid ys)"
    using assms(2-) l by simp_all
  ultimately have "ys ! i \<in> set (?mid xs)" by (metis nth_mem)
  then obtain k where "k < hi - lo" "?mid xs ! k = ys ! i"
    using assms(4) by (auto simp: in_set_conv_nth)
  then show ?thesis
    using assms(3,4) by (intro exI [of _ "lo + k"]) auto
qed

section \<open>Sorting\<close>

text \<open>
  What the sort needs of the comparison. On the data of the list (a set \<open>S\<close>) it returns;
  of two data, one is at most the other; and whatever is at most a pivot is at most whatever
  is not. A total preorder has these laws, but so have comparisons that are not transitive,
  such as one that makes a string equal to all of its prefixes.
\<close>

locale list_order =
  fixes cmp :: "'v list_cmp" and S :: "'v void_ptr set"
  assumes returns: "x \<in> S \<Longrightarrow> y \<in> S \<Longrightarrow> \<exists>r. cmp x y = Inr r"
    and cross: "x \<in> S \<Longrightarrow> p \<in> S \<Longrightarrow> y \<in> S \<Longrightarrow> cmp x p = Inr r \<Longrightarrow> r \<le> 0 \<Longrightarrow>
      cmp y p = Inr s \<Longrightarrow> 0 < s \<Longrightarrow> \<exists>t \<le> 0. cmp x y = Inr t"
    and total: "x \<in> S \<Longrightarrow> y \<in> S \<Longrightarrow> cmp x y = Inr r \<Longrightarrow> 0 < r \<Longrightarrow> \<exists>s \<le> 0. cmp y x = Inr s"
begin

definition le :: "'v void_ptr \<Rightarrow> 'v void_ptr \<Rightarrow> bool" where
  "le x y \<longleftrightarrow> (\<exists>r \<le> 0. cmp x y = Inr r)"

lemma le_cross:
  assumes "x \<in> S" and "p \<in> S" and "y \<in> S" and "le x p" and "\<not> le y p"
  shows "le x y"
proof -
  obtain s where "cmp y p = Inr s" "0 < s"
    using returns [OF assms(3,2)] assms(5) by (auto simp: le_def not_le)
  then show ?thesis using cross assms(1-4) by (auto simp: le_def)
qed

lemma le_total: "x \<in> S \<Longrightarrow> y \<in> S \<Longrightarrow> \<not> le x y \<Longrightarrow> le y x"
  using returns [of x y] total [of x y] by (auto simp: le_def not_le)

text \<open>What the partition of the positions from \<open>lo\<close> to before \<open>hi\<close> around \<open>pv\<close> leaves.\<close>

definition partitions ::
  "nat list \<Rightarrow> nat \<Rightarrow> nat \<Rightarrow> 'v void_ptr \<Rightarrow> 'v lheap \<Rightarrow> 'v void_ptr list \<Rightarrow>
     c_error + ('v lheap \<times> ptr) \<Rightarrow> bool" where
  "partitions as lo hi pv h xs res \<longleftrightarrow> (\<exists>h' xs' m. res = Inr (h', before as m) \<and>
     vring (lh_cells h') as xs' \<and> sorts_in as h h' \<and> perm_in lo hi xs xs' \<and>
     lo \<le> m \<and> m \<le> hi \<and> (\<forall>i. lo \<le> i \<and> i < m \<longrightarrow> le (xs' ! i) pv) \<and>
     (\<forall>i. m \<le> i \<and> i < hi \<longrightarrow> \<not> le (xs' ! i) pv))"

lemma partitions_mono:
  "partitions as lo hi pv h1 ys res \<Longrightarrow> sorts_in as h h1 \<Longrightarrow> perm_in lo hi xs ys \<Longrightarrow>
   partitions as lo hi pv h xs res"
  unfolding partitions_def by (blast intro: sorts_in_trans perm_in_trans)

lemma pivot_loop_ok:
  assumes "vring (lh_cells h) as xs" and "set xs \<subseteq> S" and "lo \<le> k" and "k \<le> j" and "j \<le> hi"
    and "hi < length as" and "hi - j \<le> fuel" and "\<And>i. lo \<le> i \<Longrightarrow> i < k \<Longrightarrow> le (xs ! i) pv"
    and "\<And>i. k \<le> i \<Longrightarrow> i < j \<Longrightarrow> \<not> le (xs ! i) pv" and "pv \<in> S"
  shows "partitions as lo hi pv h xs
    (pivot_loop cmp low (Some (as ! hi)) pv fuel h (before as k) (Some (as ! j)))"
  using assms
proof (induction "hi - j" arbitrary: h xs k j fuel)
  case 0
  then have "j = hi" by simp
  then have "pivot_loop cmp low (Some (as ! hi)) pv fuel h (before as k) (Some (as ! j)) =
      Inr (h, before as k)"
    by (subst pivot_loop.simps) simp
  then show ?case
    unfolding partitions_def using 0 \<open>j = hi\<close>
    by (intro exI [of _ h] exI [of _ xs] exI [of _ k]) simp
next
  case (Suc d)
  let ?n = "length as"
  have j: "j < hi" "j < ?n" "k < ?n" "length xs = ?n"
    using Suc.hyps(2) Suc.prems by (auto simp: vring_def)
  obtain f where f: "fuel = Suc f" "hi - Suc j \<le> f"
    using Suc.prems(7) j(1) by (cases fuel) auto
  have d: "d = hi - Suc j" "Suc j \<le> hi" using Suc.hyps(2) by auto
  have ne: "as ! j \<noteq> as ! hi"
    using Suc.prems(1,6) j by (simp add: vring_def nth_eq_iff_index_eq)
  have nj: "lh_cells h (as ! j) = Some \<lparr>ln_data = xs ! j, ln_next = Some (as ! Suc j),
      ln_prev = before as j\<rparr>"
    using vringD [OF Suc.prems(1) j(2)] j Suc.prems(6) by simp
  have "xs ! j \<in> S" using Suc.prems(2) j by auto
  then obtain r where r: "cmp (xs ! j) pv = Inr r" using returns Suc.prems(10) by blast
  show ?case
  proof (cases "r \<le> 0")
    case True
    then have lej: "le (xs ! j) pv" using r by (auto simp: le_def)
    let ?ys = "swapped k j xs"
    obtain h1 where h1: "swap_data h (Some (as ! k)) (Some (as ! j)) = Inr h1"
      "vring (lh_cells h1) as ?ys" "sorts_in as h h1"
      using vring_swap [OF Suc.prems(1) j(3,2)] by blast
    have nj1: "lh_cells h1 (as ! j) = Some \<lparr>ln_data = ?ys ! j, ln_next = Some (as ! Suc j),
        ln_prev = before as j\<rparr>"
      using vringD [OF h1(2) j(2)] j Suc.prems(6) by simp
    have b: "before as (Suc k) = Some (as ! k)" using j by simp
    have "set ?ys = set xs" using j by (intro mset_eq_setD) simp
    then have S: "set ?ys \<subseteq> S" using Suc.prems(2) by simp
    have lo: "le (?ys ! i) pv" if "lo \<le> i" "i < Suc k" for i
      using that lej Suc.prems(4) Suc.prems(8) [of i] j by (auto simp: nth_swapped less_Suc_eq)
    have up: "\<not> le (?ys ! i) pv" if "Suc k \<le> i" "i < Suc j" for i
      using that Suc.prems(4) Suc.prems(9) [of i] Suc.prems(9) [of k] j
      by (auto simp: nth_swapped less_Suc_eq)
    have "partitions as lo hi pv h1 ?ys
        (pivot_loop cmp low (Some (as ! hi)) pv f h1 (before as (Suc k)) (Some (as ! Suc j)))"
      by (rule Suc.hyps(1) [OF d(1) h1(2) S _ _ d(2) Suc.prems(6) f(2) lo up Suc.prems(10)])
        (use Suc.prems(3,4) in auto)
    moreover have "perm_in lo hi xs ?ys"
      using Suc.prems(3,4,6) j by (intro perm_in_swapped) auto
    moreover have "pivot_loop cmp low (Some (as ! hi)) pv fuel h (before as k) (Some (as ! j)) =
        pivot_loop cmp low (Some (as ! hi)) pv f h1 (before as (Suc k)) (Some (as ! Suc j))"
      using ne nj nj1 f(1) r True step_prev_before [OF Suc.prems(1) j(3)] h1(1) b
      by (subst pivot_loop.simps) simp
    ultimately show ?thesis using partitions_mono h1(3) by fastforce
  next
    case False
    then have "\<not> le (xs ! j) pv" using r by (auto simp: le_def)
    then have up: "\<not> le (xs ! i) pv" if "k \<le> i" "i < Suc j" for i
      using that Suc.prems(9) [of i] by (auto simp: less_Suc_eq)
    have "partitions as lo hi pv h xs
        (pivot_loop cmp low (Some (as ! hi)) pv f h (before as k) (Some (as ! Suc j)))"
      by (rule Suc.hyps(1) [OF d(1) Suc.prems(1,2,3) _ d(2) Suc.prems(6) f(2) Suc.prems(8) up
            Suc.prems(10)]) (use Suc.prems(4) in auto)
    then show ?thesis
      using ne nj f(1) r False by (subst pivot_loop.simps) simp
  qed
qed

lemma pivot_ok:
  assumes "vring (lh_cells h) as xs" and "set xs \<subseteq> S" and "lo < hi" and "hi < length as"
    and "l_len l = length as"
  shows "\<exists>h' zs m. mboxListQSortPivot h l (Some (as ! lo)) (Some (as ! hi)) cmp = Inr (h', Some (as ! m)) \<and>
     vring (lh_cells h') as zs \<and> sorts_in as h h' \<and> perm_in lo (Suc hi) xs zs \<and> lo \<le> m \<and> m \<le> hi \<and>
     (\<forall>i. lo \<le> i \<and> i < m \<longrightarrow> le (zs ! i) (zs ! m)) \<and>
     (\<forall>i. m < i \<and> i \<le> hi \<longrightarrow> \<not> le (zs ! i) (zs ! m))"
proof -
  let ?pv = "xs ! hi"
  have len: "length xs = length as" using assms(1) by (simp add: vring_def)
  then have pvS: "?pv \<in> S" using assms(2,4) by auto
  have "partitions as lo hi ?pv h xs
      (pivot_loop cmp (Some (as ! lo)) (Some (as ! hi)) ?pv (l_len l) h (before as lo) (Some (as ! lo)))"
    using assms(3,4,5) by (intro pivot_loop_ok [OF assms(1,2)]) (auto simp: pvS)
  then obtain h1 ys m where loop:
    "pivot_loop cmp (Some (as ! lo)) (Some (as ! hi)) ?pv (l_len l) h (before as lo) (Some (as ! lo)) =
      Inr (h1, before as m)"
    "vring (lh_cells h1) as ys" "sorts_in as h h1" "perm_in lo hi xs ys" "lo \<le> m" "m \<le> hi"
    "\<forall>i. lo \<le> i \<and> i < m \<longrightarrow> le (ys ! i) ?pv" "\<forall>i. m \<le> i \<and> i < hi \<longrightarrow> \<not> le (ys ! i) ?pv"
    unfolding partitions_def by blast
  have b: "m < length as" "hi < length ys" "m < length ys"
    using loop(2,6) assms(4) by (auto simp: vring_def)
  obtain h2 where h2: "swap_data h1 (Some (as ! m)) (Some (as ! hi)) = Inr h2"
    "vring (lh_cells h2) as (swapped m hi ys)" "sorts_in as h1 h2"
    using vring_swap [OF loop(2) b(1) assms(4)] by blast
  let ?zs = "swapped m hi ys"
  have pv: "ys ! hi = ?pv" using loop(4) assms(4) len by (simp add: perm_in_def)
  have zm: "?zs ! m = ?pv" using b pv by (simp add: nth_swapped)
  have "perm_in lo (Suc hi) xs ys" using loop(4) by (rule perm_in_mono) simp_all
  moreover have "perm_in lo (Suc hi) ys ?zs"
    using loop(5,6) b assms(3) by (intro perm_in_swapped) auto
  ultimately have "perm_in lo (Suc hi) xs ?zs" by (rule perm_in_trans)
  moreover have "le (?zs ! i) (?zs ! m)" if "lo \<le> i" "i < m" for i
    using that loop(6,7) b zm by (simp add: nth_swapped)
  moreover have "\<not> le (?zs ! i) (?zs ! m)" if i: "m < i" "i \<le> hi" for i
  proof -
    have "?zs ! i = (if i = hi then ys ! m else ys ! i)" using i b by (simp add: nth_swapped)
    moreover have "\<not> le (ys ! m) ?pv" using i loop(8) by simp
    moreover have "\<not> le (ys ! i) ?pv" if "i \<noteq> hi" using i that loop(8) by simp
    ultimately show ?thesis unfolding zm by auto
  qed
  moreover have "mboxListQSortPivot h l (Some (as ! lo)) (Some (as ! hi)) cmp = Inr (h2, Some (as ! m))"
    using vringD [OF assms(1,4)] vringD [OF assms(1), of lo] assms(3,4) loop(1) h2(1)
      step_prev_before [OF loop(2) b(1)]
    by (simp add: mboxListQSortPivot_def)
  ultimately show ?thesis using h2 loop(3,5,6) sorts_in_trans by blast
qed

text \<open>
  A stretch is sorted when each of its elements is at most every later one. Joining the two
  sorted sides of a pivot gives a sorted stretch, whatever the rearrangements inside them.
\<close>

definition sorted_in :: "nat \<Rightarrow> nat \<Rightarrow> 'v void_ptr list \<Rightarrow> bool" where
  "sorted_in lo hi xs \<longleftrightarrow> (\<forall>i j. lo \<le> i \<and> i < j \<and> j < hi \<longrightarrow> le (xs ! i) (xs ! j))"

lemma sorted_in_perm:
  "sorted_in lo m xs \<Longrightarrow> perm_in m' hi xs ys \<Longrightarrow> m \<le> m' \<Longrightarrow> m \<le> length xs \<Longrightarrow> sorted_in lo m ys"
  by (simp add: sorted_in_def perm_in_def)

lemma sorted_in_join:
  assumes "set zs \<subseteq> S" and "hi \<le> length zs" and "lo \<le> m" and "m < hi"
    and "\<forall>i. lo \<le> i \<and> i < m \<longrightarrow> le (zs ! i) (zs ! m)"
    and "\<forall>i. m < i \<and> i < hi \<longrightarrow> \<not> le (zs ! i) (zs ! m)"
    and "perm_in lo m zs us" and "sorted_in lo m us"
    and "perm_in (Suc m) hi us vs" and "sorted_in (Suc m) hi vs"
  shows "sorted_in lo hi vs" and "perm_in lo hi zs vs"
proof -
  have pm: "perm_in lo hi zs us" "perm_in lo hi us vs"
    using assms(3,4,7,9) by (auto intro: perm_in_mono)
  then show p: "perm_in lo hi zs vs" by (rule perm_in_trans)
  have len: "length us = length zs" "length vs = length zs"
    using assms(7,9) by (auto simp: perm_in_def)
  have eq: "us ! m = zs ! m" "vs ! m = zs ! m"
    using assms(2,4,7,9) len by (auto simp: perm_in_def)
  have S: "vs ! i \<in> S" if "i < hi" for i
    using that perm_in_set [OF p] assms(1,2) len nth_mem [of i vs] by auto
  have low: "le (vs ! i) (vs ! m)" if i: "lo \<le> i" "i < m" for i
  proof -
    have "vs ! i = us ! i" using i assms(2,4,9) len by (auto simp: perm_in_def)
    moreover obtain j where "lo \<le> j" "j < m" "us ! i = zs ! j"
      using perm_in_elem [OF assms(7) i] assms(2,4) by auto
    ultimately show ?thesis using assms(5) eq by simp
  qed
  have upp: "\<not> le (vs ! i) (vs ! m)" if i: "m < i" "i < hi" for i
  proof -
    obtain j where j: "Suc m \<le> j" "j < hi" "vs ! i = us ! j"
      using perm_in_elem [OF assms(9), of i] i assms(2) len by auto
    then have "us ! j = zs ! j" using assms(2,7) len by (auto simp: perm_in_def)
    then show ?thesis using j assms(6) eq by simp
  qed
  have left: "sorted_in lo m vs"
    using sorted_in_perm [OF assms(8,9)] assms(2,4) len by simp
  show "sorted_in lo hi vs"
    unfolding sorted_in_def
  proof (intro allI impI, elim conjE)
    fix i j assume ij: "lo \<le> i" "i < j" "j < hi"
    consider "j < m" | "j = m" | "i = m" | "m < i" | "i < m" "m < j" using ij by linarith
    then show "le (vs ! i) (vs ! j)"
    proof cases
      case 3
      then show ?thesis using le_total [OF S S upp] ij assms(4) by simp
    next
      case 5
      then show ?thesis using le_cross [OF S S S low upp] ij assms(4) by simp
    qed (use ij left assms(10) low in \<open>auto simp: sorted_in_def\<close>)
  qed
qed

lemma helper_stops:
  assumes "vring (lh_cells h) as xs" and "hi < length as"
  shows "mboxQSortHelper fuel h l (Some (as ! (Suc hi mod length as))) (Some (as ! hi)) 1 cmp = Inr h"
  using vringD [OF assms] by (subst mboxQSortHelper.simps) simp

lemma helper_ok:
  assumes "vring (lh_cells h) as xs" and "set xs \<subseteq> S" and "lo \<le> hi" and "hi < length as"
    and "l_len l = length as" and "hi - lo \<le> fuel" and "cnt = 1 \<longrightarrow> Suc hi - lo < length as"
  shows "\<exists>h' ys. mboxQSortHelper fuel h l (Some (as ! lo)) (Some (as ! hi)) cnt cmp = Inr h' \<and>
     vring (lh_cells h') as ys \<and> sorts_in as h h' \<and> perm_in lo (Suc hi) xs ys \<and>
     sorted_in lo (Suc hi) ys"
  using assms
proof (induction fuel arbitrary: h xs lo hi cnt)
  case 0
  then have "lo = hi" by simp
  then show ?case
    using 0 by (subst mboxQSortHelper.simps) (auto simp: sorted_in_def intro!: exI [of _ xs])
next
  case (Suc fuel)
  let ?n = "length as"
  show ?case
  proof (cases "lo = hi")
    case True
    then show ?thesis
      using Suc.prems by (subst mboxQSortHelper.simps) (auto simp: sorted_in_def intro!: exI [of _ xs])
  next
    case False
    then have lt: "lo < hi" using Suc.prems(3) by simp
    have d: "distinct as" using Suc.prems(1) by (simp add: vring_def)
    obtain h1 zs m where pv:
      "mboxListQSortPivot h l (Some (as ! lo)) (Some (as ! hi)) cmp = Inr (h1, Some (as ! m))"
      "vring (lh_cells h1) as zs" "sorts_in as h h1" "perm_in lo (Suc hi) xs zs" "lo \<le> m" "m \<le> hi"
      "\<forall>i. lo \<le> i \<and> i < m \<longrightarrow> le (zs ! i) (zs ! m)"
      "\<forall>i. m < i \<and> i \<le> hi \<longrightarrow> \<not> le (zs ! i) (zs ! m)"
      using pivot_ok [OF Suc.prems(1,2) lt Suc.prems(4,5)] by blast
    have m: "m < ?n" using pv(6) Suc.prems(4) by simp
    have zS: "set zs \<subseteq> S"
      using perm_in_set [OF pv(4)] Suc.prems(2) by simp
    have left: "\<exists>h2 us. mboxQSortHelper fuel h1 l (Some (as ! lo)) (before as m) 1 cmp = Inr h2 \<and>
        vring (lh_cells h2) as us \<and> sorts_in as h1 h2 \<and> perm_in lo m zs us \<and> sorted_in lo m us"
    proof (cases "m = lo")
      case True
      let ?p = "(m + ?n - 1) mod ?n"
      have p: "?p < ?n" using m by (intro mod_less_divisor) linarith
      have "Suc ?p mod ?n = m"
        using m by (cases m) auto
      then have "mboxQSortHelper fuel h1 l (Some (as ! lo)) (before as m) 1 cmp = Inr h1"
        using helper_stops [OF pv(2) p, of fuel l] True by simp
      then show ?thesis using pv(2) True by (auto simp: sorted_in_def intro!: exI [of _ zs])
    next
      case False
      then obtain k where k: "m = Suc k" "lo \<le> k" using pv(5) by (cases m) auto
      have "before as m = Some (as ! k)" using m k by simp
      then show ?thesis
        using Suc.IH [OF pv(2) zS k(2) _ Suc.prems(5), of 1] k m pv(6) Suc.prems(6) lt
        by (simp add: less_Suc_eq_le)
    qed
    then obtain h2 us where L:
      "mboxQSortHelper fuel h1 l (Some (as ! lo)) (before as m) 1 cmp = Inr h2"
      "vring (lh_cells h2) as us" "sorts_in as h1 h2" "perm_in lo m zs us" "sorted_in lo m us"
      by blast
    have uS: "set us \<subseteq> S" using perm_in_set [OF L(4)] zS by simp
    have right: "\<exists>h3 vs. mboxQSortHelper fuel h2 l (Some (as ! (Suc m mod ?n))) (Some (as ! hi)) 1 cmp =
        Inr h3 \<and> vring (lh_cells h3) as vs \<and> sorts_in as h2 h3 \<and> perm_in (Suc m) (Suc hi) us vs \<and>
        sorted_in (Suc m) (Suc hi) vs"
    proof (cases "m = hi")
      case True
      then show ?thesis
        using helper_stops [OF L(2) Suc.prems(4)] L(2)
        by (auto simp: sorted_in_def intro!: exI [of _ us])
    next
      case False
      then have "Suc m \<le> hi" using pv(6) by simp
      then show ?thesis
        using Suc.IH [OF L(2) uS _ Suc.prems(4,5), of "Suc m" 1] Suc.prems(4,6) lt pv(5) by simp
    qed
    then obtain h3 vs where R:
      "mboxQSortHelper fuel h2 l (Some (as ! (Suc m mod ?n))) (Some (as ! hi)) 1 cmp = Inr h3"
      "vring (lh_cells h3) as vs" "sorts_in as h2 h3" "perm_in (Suc m) (Suc hi) us vs"
      "sorted_in (Suc m) (Suc hi) vs"
      by blast
    have "length zs = ?n" using pv(2) by (simp add: vring_def)
    then have "sorted_in lo (Suc hi) vs \<and> perm_in lo (Suc hi) zs vs"
      using sorted_in_join [OF zS _ pv(5) _ pv(7) _ L(4,5) R(4,5)] pv(6,8) Suc.prems(4) by auto
    moreover have "mboxQSortHelper (Suc fuel) h l (Some (as ! lo)) (Some (as ! hi)) cnt cmp = Inr h3"
    proof -
      have "as ! lo \<noteq> as ! hi" using d lt Suc.prems(4) by (simp add: nth_eq_iff_index_eq)
      moreover have "as ! lo \<noteq> as ! (Suc hi mod ?n)" if "cnt = 1"
      proof -
        have "lo \<noteq> Suc hi mod ?n"
        proof (cases "Suc hi = ?n")
          case True
          then have "lo \<noteq> 0" using Suc.prems(7) that by auto
          then show ?thesis using True by simp
        next
          case False
          then show ?thesis using lt Suc.prems(4) by simp
        qed
        moreover have "Suc hi mod ?n < ?n" "lo < ?n"
          using lt Suc.prems(4) by (auto intro: mod_less_divisor)
        ultimately show ?thesis using nth_eq_iff_index_eq [OF d] by blast
      qed
      ultimately show ?thesis
        using vringD [OF Suc.prems(1,4)] vringD [OF pv(2) m] vringD [OF L(2) m] pv(1) L(1) R(1)
        by (subst mboxQSortHelper.simps) simp
    qed
    ultimately show ?thesis
      using R(2) pv(4) sorts_in_trans [OF pv(3) sorts_in_trans [OF L(3) R(3)]]
        perm_in_trans [OF pv(4)] by blast
  qed
qed

text \<open>The whole sort, on the list header.\<close>

lemma sort_ok:
  assumes "list_rep h l cs" and "\<not> l_locked l" and "2 \<le> length cs" and "set (map snd cs) \<subseteq> S"
  shows "\<exists>h' ys. mboxListQSort h l (Some cmp) = Inr (h', l) \<and>
     list_rep h' l (zip (map fst cs) ys) \<and> mset ys = mset (map snd cs) \<and> sorted_wrt le ys \<and>
     (\<forall>a. a \<notin> fst ` set cs \<longrightarrow> lh_cells h' a = lh_cells h a) \<and> lh_fresh h' = lh_fresh h"
proof -
  let ?as = "map fst cs" and ?xs = "map snd cs" and ?l = "l\<lparr>l_locked := True\<rparr>"
  have ne: "cs \<noteq> []" "?as \<noteq> []" using assms(3) by auto
  have len: "l_len l = length ?as" using list_repD(1) [OF assms(1)] by simp
  have root: "l_root l = Some (?as ! 0)"
    using list_repD(3) [OF assms(1) ne(1), of 0] ne(1) by (cases cs) auto
  have "ring (lh_cells h) (zip ?as ?xs)"
    using assms(1) by (simp add: list_rep_def zip_map_fst_snd)
  then have v: "vring (lh_cells h) ?as ?xs" using ring_vring [of ?as ?xs] ne(2) by simp
  have r0: "lh_cells h (?as ! 0) = Some \<lparr>ln_data = ?xs ! 0, ln_next = Some (?as ! (1 mod length ?as)),
      ln_prev = Some (?as ! (length ?as - 1))\<rparr>"
    using vringD [OF v, of 0] assms(3) ne(1) by (simp add: nth_map)
  have "\<exists>h' ys. mboxQSortHelper (length ?as) h ?l (Some (?as ! 0)) (Some (?as ! (length ?as - 1))) 0 cmp =
       Inr h' \<and> vring (lh_cells h') ?as ys \<and> sorts_in ?as h h' \<and>
     perm_in 0 (Suc (length ?as - 1)) ?xs ys \<and> sorted_in 0 (Suc (length ?as - 1)) ys"
    using assms(3,4) len by (intro helper_ok [OF v]) auto
  then obtain h' ys where q:
    "mboxQSortHelper (length ?as) h ?l (Some (?as ! 0)) (Some (?as ! (length ?as - 1))) 0 cmp = Inr h'"
    "vring (lh_cells h') ?as ys" "sorts_in ?as h h'" "mset ys = mset ?xs"
    "sorted_in 0 (Suc (length ?as - 1)) ys"
    by (auto simp: perm_in_def)
  have lys: "length ys = length ?as" using q(2) by (simp add: vring_def)
  have "mboxListQSort h l (Some cmp) = Inr (h', l)"
    using assms(2,3) len root r0 q(1) by (simp add: mboxListQSort_def list_lock_def list_unlock_def)
  moreover have "list_rep h' l (zip ?as ys)"
    using q(2,3) assms(1) ring_vring [of ?as ys "lh_cells h'"] ne lys list_rep_fresh [OF assms(1)]
    by (auto simp: list_rep_def sorts_in_def hd_zip hd_map) (metis list.set_map not_less)
  moreover have "sorted_wrt le ys"
    using q(5) lys ne(1) by (simp add: sorted_wrt_iff_nth_less sorted_in_def)
  ultimately show ?thesis using q(3,4) by (auto simp: sorts_in_def)
qed

end

section \<open>Properties\<close>

text \<open>
  C34. Sorting a list of no or one element returns with the mutex still locked: the next
  thread-safe operation of the same thread never returns.
\<close>

theorem mboxListQSort_short_keeps_lock:
  assumes "list_rep h l cs" and "length cs \<le> 1" and "\<not> l_locked l"
  shows "mboxListQSort h l compare = Inr (h, l\<lparr>l_locked := True\<rparr>) \<and>
     mboxListTSAddTail h (l\<lparr>l_locked := True\<rparr>) v = Inl Deadlock"
  using assms(2,3) list_repD(1) [OF assms(1)]
  by (auto simp: mboxListQSort_def mboxListTSAddTail_def list_lock_def split: option.splits)

theorem mboxListQSort_short_keeps_lock_witness:
  "mboxListQSort two_nodes (one_at 4) (Some (\<lambda>_ _. Inr 0)) = Inr (two_nodes, (one_at 4)\<lparr>l_locked := True\<rparr>) \<and>
   mboxListTSAddTail two_nodes ((one_at 4)\<lparr>l_locked := True\<rparr>) None = Inl Deadlock"
  using mboxListQSort_short_keeps_lock [OF two_nodes_rep(1)] by (simp add: one_at_def)

end
