(* ===== verification/Mbox_Msg.thy ===== *)
theory Mbox_Msg
  imports Mbox_Buf Mbox_Search Mbox_ListSort
begin

text \<open>
  The message summaries of \<open>src/src/mbox-msg.c\<close> and the operations on lists of them: the two
  comparisons, the two sorts and the filter by sender. The comparison by date meets the
  contract of the sort on messages whose date is known; the comparison by sender does not.
\<close>

section \<open>Messages\<close>

record mboxMsgLite =
  m_msg_id :: "mboxBuf option"
  m_from :: "mboxBuf option"
  m_subject :: "mboxBuf option"
  m_date :: "mboxBuf option"
  m_preview :: "mboxBuf option"
  m_from_line :: "mboxBuf option"
  m_unix_timestamp :: int
  m_start :: nat
  m_end :: nat

section \<open>Sorting\<close>

definition mboxMsgListCompareByDate :: "mboxMsgLite list_cmp" where
  "mboxMsgListCompareByDate d1 d2 =
     bindE (deref d1) (\<lambda>m1. bindE (deref d2) (\<lambda>m2.
     if m_unix_timestamp m1 = -1 \<or> m_unix_timestamp m2 = -1 then Inr (-1)
     else if m_unix_timestamp m1 < m_unix_timestamp m2 then Inr (-1)
     else if m_unix_timestamp m1 > m_unix_timestamp m2 then Inr 1
     else Inr 0))"

definition mboxMsgListCompareByFrom :: "mboxMsgLite list_cmp" where
  "mboxMsgListCompareByFrom d1 d2 =
     bindE (deref d1) (\<lambda>m1. bindE (deref d2) (\<lambda>m2.
     case (m_from m1, m_from m2) of
       (Some f1, Some f2) \<Rightarrow>
         (let len = (if buf_len f1 < buf_len f2 then buf_len f1 else buf_len f2)
          in mboxBufNCaseCmp f1 f2 len)
     | _ \<Rightarrow> Inr (-1)))"

definition mboxMsgListSortByDate ::
  "mboxMsgLite lheap \<Rightarrow> mboxList \<Rightarrow> c_error + (mboxMsgLite lheap \<times> mboxList)" where
  "mboxMsgListSortByDate h l = mboxListQSort h l (Some mboxMsgListCompareByDate)"

definition mboxMsgListSortByFrom ::
  "mboxMsgLite lheap \<Rightarrow> mboxList \<Rightarrow> c_error + (mboxMsgLite lheap \<times> mboxList)" where
  "mboxMsgListSortByFrom h l = mboxListQSort h l (Some mboxMsgListCompareByFrom)"

section \<open>Filtering\<close>

text \<open>
  The loop of \<open>mboxMsgListFilterBySender\<close>: \<open>n\<close> is the node it stands on and \<open>msg\<close> what
  that node holds; the node after it is read before the count is tested.
\<close>

fun filter_loop ::
  "int list \<Rightarrow> mboxChar list \<Rightarrow> nat \<Rightarrow> mboxMsgLite lheap \<Rightarrow> mboxList \<Rightarrow> ptr \<Rightarrow>
     mboxMsgLite void_ptr \<Rightarrow> c_error + (mboxMsgLite lheap \<times> mboxList)" where
  "filter_loop table sender 0 h filtered n msg = Inr (h, filtered)"
| "filter_loop table sender (Suc cnt) h filtered n msg =
     bindE (deref msg) (\<lambda>m.
     bindE (deref (m_from m)) (\<lambda>from.
     bindE (mboxBufContainsCasePatternWithTable from table sender (length sender)) (\<lambda>r.
     bindE (if r \<noteq> -1 then mboxListAddHead h filtered msg else Inr (h, filtered)) (\<lambda>(h, filtered).
     bindE (ln_get h n) (\<lambda>nd.
     bindE (ln_get h (ln_next nd)) (\<lambda>nd'.
     filter_loop table sender cnt h filtered (ln_next nd) (ln_data nd')))))))"

definition mboxMsgListFilterBySender ::
  "mboxMsgLite lheap \<Rightarrow> mboxList \<Rightarrow> mboxChar list \<Rightarrow>
     c_error + (mboxMsgLite lheap \<times> mboxList option)" where
  "mboxMsgListFilterBySender h l sender =
     (if l_len l = 0 then Inr (h, None)
      else bindE (ln_get h (l_root l)) (\<lambda>n.
           bindE (mboxBufComputePrefixTable sender (length sender)) (\<lambda>table.
           bindE (filter_loop table sender (l_len l) h mboxListNew (l_root l) (ln_data n))
             (\<lambda>(h, filtered). Inr (h, Some filtered)))))"

section \<open>The comparisons meet the contract of the sort\<close>

text \<open>
  A message whose date is not known, or that has no sender, compares as at most any other, on
  either side. That is not transitive, but it is all the sort needs.
\<close>

definition msgs :: "mboxMsgLite void_ptr set" where
  "msgs = range Some"

lemma in_msgs [simp]: "Some m \<in> msgs" "x \<in> msgs \<longleftrightarrow> (\<exists>m. x = Some m)"
  by (auto simp: msgs_def)

interpretation by_date: list_order mboxMsgListCompareByDate msgs
  by unfold_locales (auto simp: mboxMsgListCompareByDate_def split: if_splits)

lemma by_date_le:
  "by_date.le (Some m) (Some n) \<longleftrightarrow>
     m_unix_timestamp m = -1 \<or> m_unix_timestamp n = -1 \<or> m_unix_timestamp m \<le> m_unix_timestamp n"
  by (auto simp: by_date.le_def mboxMsgListCompareByDate_def)

lemma mboxBufNCaseCmp_rep:
  assumes "buf_rep b1 s1" and "buf_rep b2 s2" and "n \<le> length s1" and "n \<le> length s2"
  shows "mboxBufNCaseCmp b1 b2 n = Inr (list_ncmp c_tolower n s1 s2)"
  using assms by (auto simp: mboxBufNCaseCmp_def intro!: c_strncmp_bytes)

definition from_ok :: "mboxMsgLite \<Rightarrow> bool" where
  "from_ok m \<longleftrightarrow> (case m_from m of None \<Rightarrow> True | Some b \<Rightarrow> \<exists>s. buf_rep b s)"

definition from_bytes :: "mboxMsgLite \<Rightarrow> mboxChar list option" where
  "from_bytes m = map_option (\<lambda>b. map the (take (buf_len b) (buf_data b))) (m_from m)"

lemma from_bytes_Some:
  "m_from m = Some b \<Longrightarrow> buf_rep b s \<Longrightarrow> from_bytes m = Some s"
  by (simp add: from_bytes_def buf_rep_def)

definition from_le :: "mboxMsgLite \<Rightarrow> mboxMsgLite \<Rightarrow> bool" where
  "from_le m n \<longleftrightarrow>
     (case (from_bytes m, from_bytes n) of (Some s, Some t) \<Rightarrow> ci s t \<le> 0 | _ \<Rightarrow> True)"

lemma CompareByFrom_ci:
  assumes "from_ok m" and "from_ok n"
  shows "mboxMsgListCompareByFrom (Some m) (Some n) =
     Inr (case (from_bytes m, from_bytes n) of (Some s, Some t) \<Rightarrow> ci s t | _ \<Rightarrow> -1)"
proof (cases "m_from m = None \<or> m_from n = None")
  case True
  then show ?thesis
    by (auto simp: mboxMsgListCompareByFrom_def from_bytes_def split: option.splits)
next
  case False
  then obtain b s c t where r: "m_from m = Some b" "buf_rep b s" "m_from n = Some c" "buf_rep c t"
    using assms by (auto simp: from_ok_def)
  then have "mboxMsgListCompareByFrom (Some m) (Some n) =
      mboxBufNCaseCmp b c (min (length s) (length t))"
    by (auto simp: mboxMsgListCompareByFrom_def buf_repD(1) min_def)
  also have "\<dots> = Inr (ci s t)"
    using mboxBufNCaseCmp_rep [OF r(2,4)] list_ncmp_ci by simp
  finally show ?thesis using from_bytes_Some r by simp
qed

definition from_msgs :: "mboxMsgLite void_ptr set" where
  "from_msgs = {Some m | m. from_ok m}"

interpretation by_from: list_order mboxMsgListCompareByFrom from_msgs
proof (unfold_locales, goal_cases)
  case (1 x y)
  then show ?case by (auto simp: from_msgs_def CompareByFrom_ci)
next
  case (2 x p y r s)
  then show ?case
    using ci_cross by (auto simp: from_msgs_def CompareByFrom_ci split: option.splits)
next
  case (3 x y r)
  then show ?case
    by (auto simp: from_msgs_def CompareByFrom_ci split: option.splits) (metis ci_swap neg_le_0_iff_le less_imp_le)
qed

section \<open>The filter\<close>

text \<open>What the filter keeps: the sender contains the string when letter case is ignored.\<close>

definition sent_by :: "mboxChar list \<Rightarrow> mboxMsgLite \<Rightarrow> bool" where
  "sent_by p m \<longleftrightarrow> (\<exists>i. occurs_at c_tolower p (the (from_bytes m)) i)"

definition searchable :: "mboxMsgLite \<Rightarrow> bool" where
  "searchable m \<longleftrightarrow> (\<exists>b s. m_from m = Some b \<and> buf_rep b s \<and> NUL \<notin> set s \<and> length s < 2 ^ 31)"

lemma search_msg:
  assumes "map c_tolower p = p" and "p \<noteq> []" and "length p < 2 ^ 63" and "searchable m"
  shows "\<exists>b r. m_from m = Some b \<and>
     mboxBufContainsCasePatternWithTable b (map int (prefix_table_of p)) p (length p) = Inr r \<and>
     (r \<noteq> -1 \<longleftrightarrow> sent_by p m)"
proof -
  obtain b s where b: "m_from m = Some b" "buf_rep b s" "NUL \<notin> set s" "length s < 2 ^ 31"
    using assms(4) by (auto simp: searchable_def)
  then show ?thesis
    using caseless.find_spec [OF assms(2) b(2-4) assms(3)] prefix_table_of_spec(3) [of p] assms(1,2)
      from_bytes_Some [OF b(1,2)]
    by (auto simp: mboxBufContainsCasePatternWithTable_def sent_by_def)
qed

lemma filter_loop_ok:
  assumes "map c_tolower p = p" and "p \<noteq> []" and "length p < 2 ^ 63"
    and "\<forall>m \<in> set ms. searchable m" and "length ms < SIZE_MOD"
    and "vring (lh_cells h) as (map Some ms)" and "i \<le> length ms"
    and "list_rep h f fs" and "map snd fs = map Some (rev (filter (sent_by p) (take i ms)))"
    and "set as \<inter> fst ` set fs = {}" and "\<forall>a \<in> set as. a < lh_fresh h"
    and "n = Some (as ! (i mod length as))" and "i < length ms \<Longrightarrow> msg = Some (ms ! i)"
  shows "\<exists>h' f'. filter_loop (map int (prefix_table_of p)) p (length ms - i) h f n msg = Inr (h', f') \<and>
     vring (lh_cells h') as (map Some ms) \<and>
     holds h' f' (map Some (rev (filter (sent_by p) ms))) \<and>
     (\<forall>a < lh_fresh h. a \<notin> fst ` set fs \<longrightarrow> lh_cells h' a = lh_cells h a)"
  using assms(6-)
proof (induction "length ms - i" arbitrary: i h f fs n msg)
  case 0
  then show ?case by (auto simp: holds_def)
next
  case (Suc d)
  have len: "length as = length ms" using Suc.prems(1) by (simp add: vring_def)
  have i: "i < length ms" "d = length ms - Suc i" using Suc.hyps(2) by auto
  have msg: "msg = Some (ms ! i)" "n = Some (as ! i)" using Suc.prems(7,8) i len by simp_all
  have next_i: "Suc i mod length as < length as" using i(1) len by (intro mod_less_divisor) linarith
  obtain b r where r: "m_from (ms ! i) = Some b"
    "mboxBufContainsCasePatternWithTable b (map int (prefix_table_of p)) p (length p) = Inr r"
    "r \<noteq> -1 \<longleftrightarrow> sent_by p (ms ! i)"
    using search_msg [OF assms(1-3), of "ms ! i"] assms(4) i by auto
  have tk: "take (Suc i) ms = take i ms @ [ms ! i]" using i(1) by (simp add: take_Suc_conv_app_nth)
  have short: "Suc (length fs) < SIZE_MOD"
  proof -
    have "length fs \<le> i"
      using arg_cong [OF Suc.prems(4), of length] length_filter_le [of "sent_by p" "take i ms"] by simp
    then show ?thesis using i(1) assms(5) by simp
  qed
  have step: "\<exists>h1 f1 fs1. (if r \<noteq> -1 then mboxListAddHead h f msg else Inr (h, f)) = Inr (h1, f1) \<and>
      vring (lh_cells h1) as (map Some ms) \<and> list_rep h1 f1 fs1 \<and>
      map snd fs1 = map Some (rev (filter (sent_by p) (take (Suc i) ms))) \<and>
      set as \<inter> fst ` set fs1 = {} \<and> (\<forall>a \<in> set as. a < lh_fresh h1) \<and>
      lh_fresh h \<le> lh_fresh h1 \<and>
      (\<forall>a < lh_fresh h. a \<notin> fst ` set fs \<longrightarrow> a \<notin> fst ` set fs1 \<and> lh_cells h1 a = lh_cells h a)"
  proof (cases "r \<noteq> -1")
    case True
    obtain h1 f1 where a: "mboxListAddHead h f msg = Inr (h1, f1)"
      "list_rep h1 f1 ((lh_fresh h, msg) # fs)" "frame fs h h1"
      using mboxListAddHead_rep [OF Suc.prems(3) short] by blast
    have same: "lh_cells h1 x = lh_cells h x" if "x \<in> set as" for x
      using a(3) that Suc.prems(5,6) by (auto simp: frame_def disjoint_iff)
    then have "vring (lh_cells h1) as (map Some ms)"
      using Suc.prems(1) by (simp add: vring_def)
    moreover have "set as \<inter> fst ` set ((lh_fresh h, msg) # fs) = {}"
      using Suc.prems(5,6) by fastforce
    moreover have "map snd ((lh_fresh h, msg) # fs) =
        map Some (rev (filter (sent_by p) (take (Suc i) ms)))"
      using tk True r(3) Suc.prems(4) msg(1) by simp
    moreover have "\<forall>x \<in> set as. x < lh_fresh h1"
      using a(3) Suc.prems(6) by (auto simp: frame_def intro: less_le_trans)
    ultimately show ?thesis
      using a True by (intro exI [of _ h1] exI [of _ f1] exI [of _ "(lh_fresh h, msg) # fs"])
        (auto simp: frame_def)
  next
    case False
    then show ?thesis
      using Suc.prems r(3) tk by (intro exI [of _ h] exI [of _ f] exI [of _ fs]) auto
  qed
  then obtain h1 f1 fs1 where s: "(if r \<noteq> -1 then mboxListAddHead h f msg else Inr (h, f)) = Inr (h1, f1)"
    "vring (lh_cells h1) as (map Some ms)" "list_rep h1 f1 fs1"
    "map snd fs1 = map Some (rev (filter (sent_by p) (take (Suc i) ms)))"
    "set as \<inter> fst ` set fs1 = {}" "\<forall>a \<in> set as. a < lh_fresh h1" "lh_fresh h \<le> lh_fresh h1"
    "\<forall>a < lh_fresh h. a \<notin> fst ` set fs \<longrightarrow> a \<notin> fst ` set fs1 \<and> lh_cells h1 a = lh_cells h a"
    by blast
  have nd: "ln_get h1 n = Inr \<lparr>ln_data = Some (ms ! i), ln_next = Some (as ! (Suc i mod length as)),
      ln_prev = before as i\<rparr>"
    using vringD [OF s(2), of i] i len by (simp add: msg(2))
  obtain nd' where nd': "ln_get h1 (Some (as ! (Suc i mod length as))) = Inr nd'"
    "ln_data nd' = Some (ms ! (Suc i mod length as))"
    using vringD [OF s(2) next_i] next_i len by simp
  have "\<exists>h' f'. filter_loop (map int (prefix_table_of p)) p (length ms - Suc i) h1 f1
        (Some (as ! (Suc i mod length as))) (ln_data nd') = Inr (h', f') \<and>
      vring (lh_cells h') as (map Some ms) \<and> holds h' f' (map Some (rev (filter (sent_by p) ms))) \<and>
      (\<forall>a < lh_fresh h1. a \<notin> fst ` set fs1 \<longrightarrow> lh_cells h' a = lh_cells h1 a)"
    using i len nd'(2) by (intro Suc.hyps(1) [OF i(2) s(2) _ s(3,4,5,6)]) auto
  then obtain h' f' where h': "filter_loop (map int (prefix_table_of p)) p (length ms - Suc i) h1 f1
        (Some (as ! (Suc i mod length as))) (ln_data nd') = Inr (h', f')"
      "vring (lh_cells h') as (map Some ms)" "holds h' f' (map Some (rev (filter (sent_by p) ms)))"
      "\<forall>a < lh_fresh h1. a \<notin> fst ` set fs1 \<longrightarrow> lh_cells h' a = lh_cells h1 a"
    by blast
  have "filter_loop (map int (prefix_table_of p)) p (length ms - i) h f n msg = Inr (h', f')"
    using Suc.hyps(2) [symmetric] i(2) msg(1) r(1,2) s(1) nd nd'(1) h'(1)
    by (cases "r = -1") simp_all
  moreover have "\<forall>a < lh_fresh h. a \<notin> fst ` set fs \<longrightarrow> lh_cells h' a = lh_cells h a"
    using h'(4) s(7,8) by (metis less_le_trans)
  ultimately show ?case using h'(2,3) by blast
qed

section \<open>Properties\<close>

lemma map_the_Some: "set xs \<subseteq> range Some \<Longrightarrow> \<exists>ys. xs = map Some ys"
  by (induction xs) (auto, metis list.simps(9))

lemma by_from_le:
  "from_ok m \<Longrightarrow> from_ok n \<Longrightarrow> by_from.le (Some m) (Some n) \<longleftrightarrow> from_le m n"
  by (auto simp: by_from.le_def CompareByFrom_ci from_le_def split: option.splits)

text \<open>
  C18. Sorting a list of at least two messages by date returns, leaves the mutex as it was and
  the nodes in place, rearranges the messages, and leaves those whose date is known in
  the order of their dates, wherever the messages without a date stand.
\<close>

theorem mboxMsgListSortByDate_sorts:
  assumes "list_rep h l cs" and "\<not> l_locked l" and "2 \<le> length cs"
    and "set (map snd cs) \<subseteq> range Some"
  shows "\<exists>h' ms. mboxMsgListSortByDate h l = Inr (h', l) \<and>
     list_rep h' l (zip (map fst cs) (map Some ms)) \<and>
     mset (map Some ms) = mset (map snd cs) \<and>
     sorted (filter (\<lambda>t. t \<noteq> -1) (map m_unix_timestamp ms))"
proof -
  obtain h' ys where q: "mboxListQSort h l (Some mboxMsgListCompareByDate) = Inr (h', l)"
    "list_rep h' l (zip (map fst cs) ys)" "mset ys = mset (map snd cs)" "sorted_wrt by_date.le ys"
    using by_date.sort_ok [OF assms(1-3)] assms(4) by (auto simp: msgs_def)
  obtain ms where ms: "ys = map Some ms"
    using map_the_Some [of ys] assms(4) mset_eq_setD [OF q(3)] by auto
  have "sorted (filter (\<lambda>t. t \<noteq> -1) (map m_unix_timestamp ms))"
    using q(4) unfolding ms
    by (induction ms) (auto simp: by_date_le)
  then show ?thesis using q(1-3) ms by (auto simp: mboxMsgListSortByDate_def)
qed

definition msg_at :: "int \<Rightarrow> mboxMsgLite" where
  "msg_at t = \<lparr>m_msg_id = None, m_from = None, m_subject = None, m_date = None, m_preview = None,
     m_from_line = None, m_unix_timestamp = t, m_start = 0, m_end = 0\<rparr>"

definition two_msgs :: "mboxMsgLite \<Rightarrow> mboxMsgLite \<Rightarrow> mboxMsgLite lheap" where
  "two_msgs m n = \<lparr>lh_cells = [4 \<mapsto> \<lparr>ln_data = Some m, ln_next = Some 5, ln_prev = Some 5\<rparr>,
     5 \<mapsto> \<lparr>ln_data = Some n, ln_next = Some 4, ln_prev = Some 4\<rparr>], lh_fresh = 6\<rparr>"

definition two_list :: mboxList where
  "two_list = \<lparr>l_len = 2, l_root = Some 4, l_locked = False, l_freedata = False\<rparr>"

lemma two_msgs_rep: "list_rep (two_msgs m n) two_list [(4, Some m), (5, Some n)]"
  by (auto simp: list_rep_def ring_def two_msgs_def two_list_def)

theorem mboxMsgListSortByDate_sorts_witness:
  "\<exists>h' ms. mboxMsgListSortByDate (two_msgs (msg_at 9) (msg_at 2)) two_list = Inr (h', two_list) \<and>
     mset (map Some ms) = mset [Some (msg_at 9), Some (msg_at 2)] \<and>
     sorted (filter (\<lambda>t. t \<noteq> -1) (map m_unix_timestamp ms))"
  using mboxMsgListSortByDate_sorts [OF two_msgs_rep, of "msg_at 9" "msg_at 2"]
  by (auto simp: two_list_def)

text \<open>
  C19. Sorting by sender compares two senders over the shorter length only, which makes a
  sender equal to every prefix of it and the comparison not transitive. The sort is right
  all the same: it rearranges the messages so that no message stands before one whose sender
  is smaller.
\<close>

theorem mboxMsgListSortByFrom_sorts:
  assumes "list_rep h l cs" and "\<not> l_locked l" and "2 \<le> length cs"
    and "set (map snd cs) \<subseteq> {Some m | m. from_ok m}"
  shows "\<exists>h' ms. mboxMsgListSortByFrom h l = Inr (h', l) \<and>
     list_rep h' l (zip (map fst cs) (map Some ms)) \<and>
     mset (map Some ms) = mset (map snd cs) \<and> sorted_wrt from_le ms"
proof -
  obtain h' ys where q: "mboxListQSort h l (Some mboxMsgListCompareByFrom) = Inr (h', l)"
    "list_rep h' l (zip (map fst cs) ys)" "mset ys = mset (map snd cs)" "sorted_wrt by_from.le ys"
    using by_from.sort_ok [OF assms(1-3)] assms(4) by (auto simp: from_msgs_def)
  have ok: "set ys \<subseteq> {Some m | m. from_ok m}" using assms(4) mset_eq_setD [OF q(3)] by simp
  then obtain ms where ms: "ys = map Some ms" using map_the_Some [of ys] by blast
  have fo: "\<forall>m \<in> set ms. from_ok m" using ok unfolding ms by auto
  have "sorted_wrt (\<lambda>m n. by_from.le (Some m) (Some n)) ms"
    using q(4) unfolding ms by (simp add: sorted_wrt_map)
  then have "sorted_wrt from_le ms"
    by (rule sorted_wrt_mono_rel [rotated]) (use fo by_from_le in blast)
  then show ?thesis using q(1-3) ms by (auto simp: mboxMsgListSortByFrom_def)
qed

definition msg_from :: "string \<Rightarrow> mboxMsgLite" where
  "msg_from s = (msg_at 0)\<lparr>m_from := Some \<lparr>buf_data = map Some s @ [Some NUL], buf_offset = 0,
     buf_len = length s, buf_capacity = length s\<rparr>\<rparr>"

lemma msg_from_ok: "length s < 100 \<Longrightarrow> from_ok (msg_from s)"
  by (auto simp: from_ok_def msg_from_def buf_rep_def intro!: exI [of _ s])

theorem mboxMsgListSortByFrom_sorts_witness:
  "\<exists>h' ms. mboxMsgListSortByFrom (two_msgs (msg_from ''bob'') (msg_from ''Al'')) two_list =
       Inr (h', two_list) \<and>
     mset (map Some ms) = mset [Some (msg_from ''bob''), Some (msg_from ''Al'')] \<and>
     sorted_wrt from_le ms"
  using mboxMsgListSortByFrom_sorts [OF two_msgs_rep, of "msg_from ''bob''" "msg_from ''Al''"]
    msg_from_ok [of "''bob''"] msg_from_ok [of "''Al''"]
  by (auto simp: two_list_def)

text \<open>
  C39. Filtering by a sender in lower case, of one byte up to as many as fit an \<open>int\<close>, returns a new list of exactly the messages whose
  sender contains it when letter case is ignored, in the reverse of their order; the list
  filtered is left as it was.
\<close>

theorem mboxMsgListFilterBySender_correct:
  assumes "map c_tolower p = p" and "p \<noteq> []" and "length p < 2 ^ 31"
    and "list_rep h l cs" and "map snd cs = map Some ms" and "ms \<noteq> []"
    and "length ms < SIZE_MOD" and "\<forall>m \<in> set ms. searchable m"
  shows "\<exists>h' f'. mboxMsgListFilterBySender h l p = Inr (h', Some f') \<and>
     list_rep h' l cs \<and> holds h' f' (map Some (rev (filter (sent_by p) ms)))"
proof -
  let ?as = "map fst cs"
  have p63: "length p < 2 ^ 63" using assms(3) by simp
  have lcs: "length cs = length ms" using arg_cong [OF assms(5), of length] by simp
  then have ne: "cs \<noteq> []" "?as \<noteq> []" using assms(6) by auto
  have len: "l_len l = length ms" using list_repD(1) [OF assms(4)] lcs by simp
  have root: "l_root l = Some (?as ! 0)"
    using list_repD(3) [OF assms(4) ne(1), of 0] ne(1) by (cases cs) auto
  have zip: "zip ?as (map Some ms) = cs" unfolding assms(5) [symmetric] by (rule zip_map_fst_snd)
  then have v: "vring (lh_cells h) ?as (map Some ms)"
    using ring_vring [of ?as "map Some ms" "lh_cells h"] ne(2) lcs assms(4)
    by (simp add: list_rep_def)
  have fr: "\<forall>a \<ge> lh_fresh h. lh_cells h a = None" using list_repD(6) [OF assms(4)] by blast
  have n0: "ln_get h (l_root l) = Inr \<lparr>ln_data = Some (ms ! 0),
      ln_next = Some (?as ! (Suc 0 mod length ?as)), ln_prev = before ?as 0\<rparr>"
    using vringD [OF v, of 0] assms(6) lcs unfolding root by (simp add: nth_map)
  have "\<exists>h' f'. filter_loop (map int (prefix_table_of p)) p (length ms - 0) h mboxListNew (l_root l)
        (Some (ms ! 0)) = Inr (h', f') \<and> vring (lh_cells h') ?as (map Some ms) \<and>
      holds h' f' (map Some (rev (filter (sent_by p) ms))) \<and>
      (\<forall>a < lh_fresh h. a \<notin> fst ` set ([] :: mboxMsgLite cells) \<longrightarrow> lh_cells h' a = lh_cells h a)"
    using list_rep_fresh [OF assms(4)] root
    by (intro filter_loop_ok [OF assms(1,2) p63 assms(8,7) v _ mboxListNew_rep [OF fr]]) auto
  then obtain h' f' where r: "filter_loop (map int (prefix_table_of p)) p (length ms) h mboxListNew (l_root l)
        (Some (ms ! 0)) = Inr (h', f')" "vring (lh_cells h') ?as (map Some ms)"
      "holds h' f' (map Some (rev (filter (sent_by p) ms)))"
    by auto
  have "mboxMsgListFilterBySender h l p = Inr (h', Some f')"
    using assms(6) n0 r(1) prefix_table_of [OF assms(2,3)] len
    by (simp add: mboxMsgListFilterBySender_def)
  moreover have "list_rep h' l cs"
    using r(2,3) ring_vring [of ?as "map Some ms" "lh_cells h'"] ne(2) lcs assms(4) zip
    by (auto simp: list_rep_def holds_def)
  ultimately show ?thesis using r(3) by blast
qed

theorem mboxMsgListFilterBySender_correct_witness:
  "\<exists>h' f'. mboxMsgListFilterBySender (two_msgs (msg_from ''bob'') (msg_from ''Al'')) two_list ''al'' =
       Inr (h', Some f') \<and>
     list_rep h' two_list [(4, Some (msg_from ''bob'')), (5, Some (msg_from ''Al''))]"
proof -
  have s: "searchable (msg_from ''bob'')" "searchable (msg_from ''Al'')"
    by (auto simp: searchable_def msg_from_def buf_rep_def
        intro: exI [of _ "''bob''"] exI [of _ "''Al''"])
  have "map c_tolower ''al'' = ''al''" by (simp add: c_tolower_def byte_def)
  then show ?thesis
    using mboxMsgListFilterBySender_correct [OF _ _ _ two_msgs_rep,
        of "''al''" "msg_from ''bob''" "msg_from ''Al''" "[msg_from ''bob'', msg_from ''Al'']"] s
    by simp blast
qed

end
