(* ===== verification/Mbox_RBTree.thy ===== *)
theory Mbox_RBTree
  imports Mbox_Prelude
begin

text \<open>
  The red-black tree of \<open>src/src/mbox-redblacktree.c\<close>: nodes with parent pointers in a heap,
  the shared sentinel, insertion with its rotations, search, deletion, iteration and release,
  as the code has them. \<open>Mbox_RBShape\<close> and \<open>Mbox_RBInsert\<close> prove what they do.
\<close>

section \<open>Nodes, heap and tree\<close>

datatype RbColor = RB_RED | RB_BLACK

record ('k, 'v) rbNode =
  rb_key :: "'k void_ptr"
  rb_value :: "'v void_ptr"
  rb_color :: RbColor
  rb_left :: ptr
  rb_right :: ptr
  rb_parent :: ptr

text \<open>The sentinel is the node at address 0.\<close>

abbreviation (input) SENT :: nat where "SENT \<equiv> 0"

definition RB_SENTINAL :: ptr where
  "RB_SENTINAL = Some SENT"

text \<open>
  \<open>rh_released\<close> lists what was handed to the functions that free keys and values, in order.
\<close>

record ('k, 'v) rbheap =
  rh_cells :: "nat \<rightharpoonup> ('k, 'v) rbNode"
  rh_fresh :: nat
  rh_released :: "('k + 'v) list"

type_synonym 'k rbCompareKey = "'k void_ptr \<Rightarrow> 'k void_ptr \<Rightarrow> c_error + int"

record 'k mboxRBTree =
  t_root :: ptr
  t_size :: nat
  t_freekey :: bool
  t_freevalue :: bool
  t_keycmp :: "'k rbCompareKey"

definition rb_get :: "('k, 'v) rbheap \<Rightarrow> ptr \<Rightarrow> c_error + ('k, 'v) rbNode" where
  "rb_get h p =
     (case p of None \<Rightarrow> Inl NullDeref
      | Some a \<Rightarrow> (case rh_cells h a of None \<Rightarrow> Inl UseAfterFree | Some n \<Rightarrow> Inr n))"

definition rb_upd ::
  "('k, 'v) rbheap \<Rightarrow> ptr \<Rightarrow> (('k, 'v) rbNode \<Rightarrow> ('k, 'v) rbNode) \<Rightarrow> c_error + ('k, 'v) rbheap" where
  "rb_upd h p f =
     (case p of None \<Rightarrow> Inl NullDeref
      | Some a \<Rightarrow> (case rh_cells h a of None \<Rightarrow> Inl UseAfterFree
                  | Some n \<Rightarrow> Inr (h\<lparr>rh_cells := (rh_cells h)(a \<mapsto> f n)\<rparr>)))"

definition put_left :: "('k, 'v) rbheap \<Rightarrow> ptr \<Rightarrow> ptr \<Rightarrow> c_error + ('k, 'v) rbheap" where
  "put_left h p q = rb_upd h p (rb_left_update (\<lambda>_. q))"

definition put_right :: "('k, 'v) rbheap \<Rightarrow> ptr \<Rightarrow> ptr \<Rightarrow> c_error + ('k, 'v) rbheap" where
  "put_right h p q = rb_upd h p (rb_right_update (\<lambda>_. q))"

definition put_parent :: "('k, 'v) rbheap \<Rightarrow> ptr \<Rightarrow> ptr \<Rightarrow> c_error + ('k, 'v) rbheap" where
  "put_parent h p q = rb_upd h p (rb_parent_update (\<lambda>_. q))"

definition put_color :: "('k, 'v) rbheap \<Rightarrow> ptr \<Rightarrow> RbColor \<Rightarrow> c_error + ('k, 'v) rbheap" where
  "put_color h p c = rb_upd h p (rb_color_update (\<lambda>_. c))"

abbreviation left_of :: "('k, 'v) rbheap \<Rightarrow> ptr \<Rightarrow> c_error + ptr" where
  "left_of h p \<equiv> bindE (rb_get h p) (\<lambda>n. Inr (rb_left n))"

abbreviation right_of :: "('k, 'v) rbheap \<Rightarrow> ptr \<Rightarrow> c_error + ptr" where
  "right_of h p \<equiv> bindE (rb_get h p) (\<lambda>n. Inr (rb_right n))"

abbreviation parent_of :: "('k, 'v) rbheap \<Rightarrow> ptr \<Rightarrow> c_error + ptr" where
  "parent_of h p \<equiv> bindE (rb_get h p) (\<lambda>n. Inr (rb_parent n))"

abbreviation color_of :: "('k, 'v) rbheap \<Rightarrow> ptr \<Rightarrow> c_error + RbColor" where
  "color_of h p \<equiv> bindE (rb_get h p) (\<lambda>n. Inr (rb_color n))"

section \<open>Making trees and nodes\<close>

text \<open>The sentinel keeps the parent that was last written to it.\<close>

definition rbTreeNew ::
  "('k, 'v) rbheap \<Rightarrow> bool \<Rightarrow> bool \<Rightarrow> 'k rbCompareKey \<Rightarrow> ('k, 'v) rbheap \<times> 'k mboxRBTree" where
  "rbTreeNew h freekey freevalue keycmp =
     (let par = (case rh_cells h SENT of None \<Rightarrow> None | Some n \<Rightarrow> rb_parent n)
      in (h\<lparr>rh_cells := (rh_cells h)(SENT \<mapsto> \<lparr>rb_key = None, rb_value = None, rb_color = RB_BLACK,
            rb_left = None, rb_right = None, rb_parent = par\<rparr>)\<rparr>,
          \<lparr>t_root = RB_SENTINAL, t_size = 0, t_freekey = freekey, t_freevalue = freevalue,
           t_keycmp = keycmp\<rparr>))"

definition rbNodeNew ::
  "('k, 'v) rbheap \<Rightarrow> 'k void_ptr \<Rightarrow> 'v void_ptr \<Rightarrow> ptr \<times> ('k, 'v) rbheap" where
  "rbNodeNew h key value =
     (Some (rh_fresh h),
      h\<lparr>rh_cells := (rh_cells h)(rh_fresh h \<mapsto> \<lparr>rb_key = key, rb_value = value, rb_color = RB_RED,
          rb_left = RB_SENTINAL, rb_right = RB_SENTINAL, rb_parent = None\<rparr>),
        rh_fresh := Suc (rh_fresh h)\<rparr>)"

definition rbNodeRelease ::
  "('k, 'v) rbheap \<Rightarrow> 'k mboxRBTree \<Rightarrow> ptr \<Rightarrow> c_error + ('k, 'v) rbheap" where
  "rbNodeRelease h t n =
     (if n = None \<or> n = RB_SENTINAL then Inr h
      else bindE (rb_get h n) (\<lambda>nd.
        Inr (h\<lparr>rh_cells := (rh_cells h)(the n := None),
          rh_released := rh_released h @
            (if t_freekey t then map Inl (case rb_key nd of None \<Rightarrow> [] | Some k \<Rightarrow> [k]) else []) @
            (if t_freevalue t then map Inr (case rb_value nd of None \<Rightarrow> [] | Some v \<Rightarrow> [v]) else [])\<rparr>)))"

section \<open>Rotations\<close>

definition rbLeftRotate ::
  "('k, 'v) rbheap \<Rightarrow> 'k mboxRBTree \<Rightarrow> ptr \<Rightarrow> c_error + (('k, 'v) rbheap \<times> 'k mboxRBTree)" where
  "rbLeftRotate h t x =
     bindE (right_of h x) (\<lambda>y.
     bindE (left_of h y) (\<lambda>yl.
     bindE (put_right h x yl) (\<lambda>h.
     bindE (if yl \<noteq> RB_SENTINAL then put_parent h yl x else Inr h) (\<lambda>h.
     bindE (parent_of h x) (\<lambda>xp.
     bindE (put_parent h y xp) (\<lambda>h.
     bindE (if xp = None then Inr (h, t\<lparr>t_root := y\<rparr>)
            else bindE (left_of h xp) (\<lambda>xpl.
                 bindE (if x = xpl then put_left h xp y else put_right h xp y) (\<lambda>h.
                 Inr (h, t)))) (\<lambda>(h, t).
     bindE (put_left h y x) (\<lambda>h.
     bindE (put_parent h x y) (\<lambda>h. Inr (h, t))))))))))"

definition rbRightRotate ::
  "('k, 'v) rbheap \<Rightarrow> 'k mboxRBTree \<Rightarrow> ptr \<Rightarrow> c_error + (('k, 'v) rbheap \<times> 'k mboxRBTree)" where
  "rbRightRotate h t y =
     bindE (left_of h y) (\<lambda>x.
     bindE (right_of h x) (\<lambda>xr.
     bindE (put_left h y xr) (\<lambda>h.
     bindE (if xr \<noteq> RB_SENTINAL then put_parent h xr y else Inr h) (\<lambda>h.
     bindE (parent_of h y) (\<lambda>yp.
     bindE (put_parent h x yp) (\<lambda>h.
     bindE (if yp = None then Inr (h, t\<lparr>t_root := x\<rparr>)
            else bindE (right_of h yp) (\<lambda>ypr.
                 bindE (if y = ypr then put_right h yp x else put_left h yp x) (\<lambda>h.
                 Inr (h, t)))) (\<lambda>(h, t).
     bindE (put_right h x y) (\<lambda>h.
     bindE (put_parent h y x) (\<lambda>h. Inr (h, t))))))))))"

section \<open>Insertion\<close>

text \<open>
  One round of the repair, where the parent \<open>p\<close> of \<open>z\<close> is the left child of the
  grandparent \<open>g\<close>, and where it is the right one.
\<close>

definition fixup_left ::
  "('k, 'v) rbheap \<Rightarrow> 'k mboxRBTree \<Rightarrow> ptr \<Rightarrow> ptr \<Rightarrow> ptr \<Rightarrow>
     c_error + (('k, 'v) rbheap \<times> 'k mboxRBTree \<times> ptr)" where
  "fixup_left h t z p g =
     bindE (right_of h g) (\<lambda>y.
     bindE (color_of h y) (\<lambda>yc.
     if yc = RB_RED
     then bindE (put_color h y RB_BLACK) (\<lambda>h.
          bindE (put_color h p RB_BLACK) (\<lambda>h.
          bindE (put_color h g RB_RED) (\<lambda>h. Inr (h, t, g))))
     else bindE (right_of h p) (\<lambda>pr.
          bindE (if z = pr
                 then bindE (rbLeftRotate h t p) (\<lambda>(h, t). Inr (h, t, p))
                 else Inr (h, t, z)) (\<lambda>(h, t, z).
          bindE (parent_of h z) (\<lambda>p.
          bindE (put_color h p RB_BLACK) (\<lambda>h.
          bindE (parent_of h p) (\<lambda>g.
          bindE (put_color h g RB_RED) (\<lambda>h.
          bindE (rbRightRotate h t g) (\<lambda>(h, t). Inr (h, t, z))))))))))"

definition fixup_right ::
  "('k, 'v) rbheap \<Rightarrow> 'k mboxRBTree \<Rightarrow> ptr \<Rightarrow> ptr \<Rightarrow> ptr \<Rightarrow>
     c_error + (('k, 'v) rbheap \<times> 'k mboxRBTree \<times> ptr)" where
  "fixup_right h t z p g =
     bindE (left_of h g) (\<lambda>y.
     bindE (color_of h y) (\<lambda>yc.
     if yc = RB_RED
     then bindE (put_color h y RB_BLACK) (\<lambda>h.
          bindE (put_color h p RB_BLACK) (\<lambda>h.
          bindE (put_color h g RB_RED) (\<lambda>h. Inr (h, t, g))))
     else bindE (left_of h p) (\<lambda>pl.
          bindE (if z = pl
                 then bindE (rbRightRotate h t p) (\<lambda>(h, t). Inr (h, t, p))
                 else Inr (h, t, z)) (\<lambda>(h, t, z).
          bindE (parent_of h z) (\<lambda>p.
          bindE (put_color h p RB_BLACK) (\<lambda>h.
          bindE (parent_of h p) (\<lambda>g.
          bindE (put_color h g RB_RED) (\<lambda>h.
          bindE (rbLeftRotate h t g) (\<lambda>(h, t). Inr (h, t, z))))))))))"

text \<open>The loop climbs two levels or ends; its fuel is the number of nodes.\<close>

fun rbInsertFixup_loop ::
  "nat \<Rightarrow> ('k, 'v) rbheap \<Rightarrow> 'k mboxRBTree \<Rightarrow> ptr \<Rightarrow> c_error + (('k, 'v) rbheap \<times> 'k mboxRBTree)" where
  "rbInsertFixup_loop fuel h t z =
     bindE (parent_of h z) (\<lambda>p.
     bindE (color_of h p) (\<lambda>pc.
     if pc \<noteq> RB_RED then Inr (h, t)
     else case fuel of 0 \<Rightarrow> Inl Diverges
       | Suc fuel \<Rightarrow>
           bindE (parent_of h p) (\<lambda>g.
           bindE (left_of h g) (\<lambda>gl.
           bindE (if p = gl then fixup_left h t z p g else fixup_right h t z p g) (\<lambda>(h, t, z).
           if z = t_root t then Inr (h, t) else rbInsertFixup_loop fuel h t z)))))"

declare rbInsertFixup_loop.simps [simp del]

definition rbInsertFixup ::
  "('k, 'v) rbheap \<Rightarrow> 'k mboxRBTree \<Rightarrow> ptr \<Rightarrow> c_error + (('k, 'v) rbheap \<times> 'k mboxRBTree)" where
  "rbInsertFixup h t z =
     bindE (rbInsertFixup_loop (t_size t) h t z) (\<lambda>(h, t).
     bindE (put_color h (t_root t) RB_BLACK) (\<lambda>h. Inr (h, t)))"

text \<open>The descent to the place of a new key: \<open>None\<close> when the key is in the tree.\<close>

fun insert_descend ::
  "nat \<Rightarrow> ('k, 'v) rbheap \<Rightarrow> 'k mboxRBTree \<Rightarrow> 'k void_ptr \<Rightarrow> ptr \<Rightarrow> ptr \<Rightarrow> c_error + ptr option" where
  "insert_descend fuel h t key x y =
     (if x = RB_SENTINAL then Inr (Some y)
      else case fuel of 0 \<Rightarrow> Inl Diverges
        | Suc fuel \<Rightarrow>
            bindE (rb_get h x) (\<lambda>nx.
            bindE (t_keycmp t key (rb_key nx)) (\<lambda>cmp.
            if cmp < 0 then insert_descend fuel h t key (rb_left nx) x
            else if cmp > 0 then insert_descend fuel h t key (rb_right nx) x
            else Inr None)))"

declare insert_descend.simps [simp del]

definition mboxRBTreeInsert ::
  "('k, 'v) rbheap \<Rightarrow> 'k mboxRBTree \<Rightarrow> 'k void_ptr \<Rightarrow> 'v void_ptr \<Rightarrow>
     c_error + (('k, 'v) rbheap \<times> 'k mboxRBTree)" where
  "mboxRBTreeInsert h t key value =
     bindE (insert_descend (t_size t) h t key (t_root t) None) (\<lambda>place.
     case place of None \<Rightarrow> Inr (h, t)
     | Some y \<Rightarrow>
         let (z, h) = rbNodeNew h key value
         in bindE (put_parent h z y) (\<lambda>h.
            bindE (if y = None then Inr (h, t\<lparr>t_root := z\<rparr>)
                   else bindE (rb_get h z) (\<lambda>nz. bindE (rb_get h y) (\<lambda>ny.
                        bindE (t_keycmp t (rb_key nz) (rb_key ny)) (\<lambda>cmp.
                        bindE (if cmp < 0 then put_left h y z else put_right h y z) (\<lambda>h.
                        Inr (h, t)))))) (\<lambda>(h, t).
            let t = t\<lparr>t_size := size_add (t_size t) 1\<rparr>
            in bindE (parent_of h z) (\<lambda>zp.
               if zp = None
               then bindE (put_color h z RB_BLACK) (\<lambda>h. Inr (h, t))
               else bindE (parent_of h zp) (\<lambda>zpp.
                    if zpp = None then Inr (h, t) else rbInsertFixup h t z)))))"

section \<open>Search\<close>

fun rbNodeFind :: "nat \<Rightarrow> ('k, 'v) rbheap \<Rightarrow> 'k mboxRBTree \<Rightarrow> ptr \<Rightarrow> 'k void_ptr \<Rightarrow> c_error + ptr" where
  "rbNodeFind fuel h t cur key =
     (if cur = None \<or> cur = RB_SENTINAL then Inr None
      else case fuel of 0 \<Rightarrow> Inl Diverges
        | Suc fuel \<Rightarrow>
            bindE (rb_get h cur) (\<lambda>nc.
            bindE (t_keycmp t key (rb_key nc)) (\<lambda>cmp.
            if cmp = 0 then Inr cur
            else if cmp < 0 then rbNodeFind fuel h t (rb_left nc) key
            else rbNodeFind fuel h t (rb_right nc) key)))"

declare rbNodeFind.simps [simp del]

definition mboxRBTreeGet ::
  "('k, 'v) rbheap \<Rightarrow> 'k mboxRBTree \<Rightarrow> 'k void_ptr \<Rightarrow> c_error + 'v void_ptr" where
  "mboxRBTreeGet h t key =
     bindE (rbNodeFind (t_size t) h t (t_root t) key) (\<lambda>n.
     if n \<noteq> None \<and> n \<noteq> RB_SENTINAL then bindE (rb_get h n) (\<lambda>nd. Inr (rb_value nd))
     else Inr None)"

definition mboxRBTreeHas ::
  "('k, 'v) rbheap \<Rightarrow> 'k mboxRBTree \<Rightarrow> 'k void_ptr \<Rightarrow> c_error + bool" where
  "mboxRBTreeHas h t key =
     bindE (rbNodeFind (t_size t) h t (t_root t) key) (\<lambda>n. Inr (n \<noteq> None))"

section \<open>Deletion\<close>

definition rbTransplant ::
  "('k, 'v) rbheap \<Rightarrow> 'k mboxRBTree \<Rightarrow> ptr \<Rightarrow> ptr \<Rightarrow> c_error + (('k, 'v) rbheap \<times> 'k mboxRBTree)" where
  "rbTransplant h t u v =
     bindE (parent_of h u) (\<lambda>up.
     bindE (if up = None then Inr (h, t\<lparr>t_root := v\<rparr>)
            else bindE (left_of h up) (\<lambda>upl.
                 bindE (if u = upl then put_left h up v else put_right h up v) (\<lambda>h.
                 Inr (h, t)))) (\<lambda>(h, t).
     bindE (parent_of h u) (\<lambda>up.
     bindE (put_parent h v up) (\<lambda>h. Inr (h, t)))))"

text \<open>It follows \<open>left\<close> to null, which the sentinel holds: it ends on the sentinel.\<close>

fun rbNodeMinimum :: "nat \<Rightarrow> ('k, 'v) rbheap \<Rightarrow> ptr \<Rightarrow> c_error + ptr" where
  "rbNodeMinimum fuel h n =
     bindE (left_of h n) (\<lambda>l.
     if l = None then Inr n
     else case fuel of 0 \<Rightarrow> Inl Diverges | Suc fuel \<Rightarrow> rbNodeMinimum fuel h l)"

declare rbNodeMinimum.simps [simp del]

text \<open>
  The second branch colours a red sibling red again and the parent black, where the first one
  colours them black and red.
\<close>

fun mboxRBTreeFixDelete ::
  "nat \<Rightarrow> ('k, 'v) rbheap \<Rightarrow> 'k mboxRBTree \<Rightarrow> ptr \<Rightarrow> c_error + (('k, 'v) rbheap \<times> 'k mboxRBTree)" where
  "mboxRBTreeFixDelete fuel h t x =
     bindE (if x \<noteq> None \<and> x \<noteq> t_root t then bindE (color_of h x) (\<lambda>c. Inr (c = RB_BLACK))
            else Inr False) (\<lambda>go.
     if \<not> go then bindE (put_color h x RB_BLACK) (\<lambda>h. Inr (h, t))
     else case fuel of 0 \<Rightarrow> Inl Diverges
       | Suc fuel \<Rightarrow>
     bindE (parent_of h x) (\<lambda>p.
     bindE (left_of h p) (\<lambda>pl.
     bindE (if x = pl
       then bindE (right_of h p) (\<lambda>w.
            bindE (color_of h w) (\<lambda>wc.
            bindE (if wc = RB_RED
                   then bindE (put_color h w RB_BLACK) (\<lambda>h.
                        bindE (put_color h p RB_RED) (\<lambda>h.
                        bindE (rbLeftRotate h t p) (\<lambda>(h, t).
                        bindE (parent_of h x) (\<lambda>p.
                        bindE (right_of h p) (\<lambda>w. Inr (h, t, w))))))
                   else Inr (h, t, w)) (\<lambda>(h, t, w).
            bindE (left_of h w) (\<lambda>wl. bindE (color_of h wl) (\<lambda>wlc.
            bindE (right_of h w) (\<lambda>wr.
            bindE (if wlc = RB_BLACK then bindE (color_of h wr) (\<lambda>c. Inr (c = RB_BLACK))
                   else Inr False) (\<lambda>both.
            if both
            then bindE (put_color h w RB_RED) (\<lambda>h.
                 bindE (parent_of h x) (\<lambda>p. Inr (h, t, p)))
            else bindE (color_of h wr) (\<lambda>wrc.
                 bindE (if wrc = RB_BLACK
                        then bindE (put_color h wl RB_BLACK) (\<lambda>h.
                             bindE (put_color h w RB_RED) (\<lambda>h.
                             bindE (rbRightRotate h t w) (\<lambda>(h, t).
                             bindE (parent_of h x) (\<lambda>p.
                             bindE (right_of h p) (\<lambda>w. Inr (h, t, w))))))
                        else Inr (h, t, w)) (\<lambda>(h, t, w).
                 bindE (parent_of h x) (\<lambda>p.
                 bindE (color_of h p) (\<lambda>pc.
                 bindE (put_color h w pc) (\<lambda>h.
                 bindE (put_color h p RB_BLACK) (\<lambda>h.
                 bindE (right_of h w) (\<lambda>wr.
                 bindE (put_color h wr RB_BLACK) (\<lambda>h.
                 bindE (rbLeftRotate h t p) (\<lambda>(h, t). Inr (h, t, t_root t)))))))))))))))))
       else bindE (left_of h p) (\<lambda>w.
            bindE (color_of h w) (\<lambda>wc.
            bindE (if wc = RB_RED
                   then bindE (put_color h w RB_RED) (\<lambda>h.
                        bindE (put_color h p RB_BLACK) (\<lambda>h.
                        bindE (rbRightRotate h t p) (\<lambda>(h, t).
                        bindE (parent_of h x) (\<lambda>p.
                        bindE (left_of h p) (\<lambda>w. Inr (h, t, w))))))
                   else Inr (h, t, w)) (\<lambda>(h, t, w).
            bindE (right_of h w) (\<lambda>wr. bindE (color_of h wr) (\<lambda>wrc.
            bindE (left_of h w) (\<lambda>wl.
            bindE (if wrc = RB_BLACK then bindE (color_of h wl) (\<lambda>c. Inr (c = RB_BLACK))
                   else Inr False) (\<lambda>both.
            if both
            then bindE (put_color h w RB_RED) (\<lambda>h.
                 bindE (parent_of h x) (\<lambda>p. Inr (h, t, p)))
            else bindE (color_of h wl) (\<lambda>wlc.
                 bindE (if wlc = RB_BLACK
                        then bindE (put_color h wr RB_BLACK) (\<lambda>h.
                             bindE (put_color h w RB_RED) (\<lambda>h.
                             bindE (rbLeftRotate h t w) (\<lambda>(h, t).
                             bindE (parent_of h x) (\<lambda>p.
                             bindE (left_of h p) (\<lambda>w. Inr (h, t, w))))))
                        else Inr (h, t, w)) (\<lambda>(h, t, w).
                 bindE (parent_of h x) (\<lambda>p.
                 bindE (color_of h p) (\<lambda>pc.
                 bindE (put_color h w pc) (\<lambda>h.
                 bindE (put_color h p RB_BLACK) (\<lambda>h.
                 bindE (left_of h w) (\<lambda>wl.
                 bindE (put_color h wl RB_BLACK) (\<lambda>h.
                 bindE (rbRightRotate h t p) (\<lambda>(h, t). Inr (h, t, t_root t))))))))))))))))))
     (\<lambda>(h, t, x). mboxRBTreeFixDelete fuel h t x))))"

declare mboxRBTreeFixDelete.simps [simp del]

text \<open>
  The loop that looks for the key: \<open>z = cur\<close> when it is found, without moving \<open>cur\<close>. The
  fuel is a parameter of its own.
\<close>

fun delete_find ::
  "nat \<Rightarrow> ('k, 'v) rbheap \<Rightarrow> 'k mboxRBTree \<Rightarrow> 'k void_ptr \<Rightarrow> ptr \<Rightarrow> ptr \<Rightarrow> c_error + ptr" where
  "delete_find fuel h t key cur z =
     (if cur = None then Inr z
      else case fuel of 0 \<Rightarrow> Inl Diverges
        | Suc fuel \<Rightarrow>
            bindE (rb_get h cur) (\<lambda>nc.
            bindE (t_keycmp t key (rb_key nc)) (\<lambda>cmp.
            if cmp = 0 then delete_find fuel h t key cur cur
            else if cmp > 0 then delete_find fuel h t key (rb_right nc) z
            else delete_find fuel h t key (rb_left nc) z)))"

declare delete_find.simps [simp del]

definition delete_unlink ::
  "nat \<Rightarrow> ('k, 'v) rbheap \<Rightarrow> 'k mboxRBTree \<Rightarrow> ptr \<Rightarrow>
     c_error + (('k, 'v) rbheap \<times> 'k mboxRBTree \<times> ptr \<times> RbColor)" where
  "delete_unlink fuel h t z =
     bindE (rb_get h z) (\<lambda>nz.
     if rb_left nz = None
     then bindE (rbTransplant h t z (rb_right nz)) (\<lambda>(h, t). Inr (h, t, rb_right nz, rb_color nz))
     else if rb_right nz = None
     then bindE (rbTransplant h t z (rb_left nz)) (\<lambda>(h, t). Inr (h, t, rb_left nz, rb_color nz))
     else bindE (rbNodeMinimum fuel h (rb_right nz)) (\<lambda>y.
          bindE (rb_get h y) (\<lambda>ny.
          let x = rb_right ny
          in bindE (if y \<noteq> rb_right nz
                    then bindE (rbTransplant h t y (rb_right ny)) (\<lambda>(h, t).
                         bindE (right_of h z) (\<lambda>zr.
                         bindE (put_right h y zr) (\<lambda>h.
                         bindE (put_parent h zr y) (\<lambda>h. Inr (h, t)))))
                    else bindE (put_parent h x y) (\<lambda>h. Inr (h, t))) (\<lambda>(h, t).
             bindE (rbTransplant h t z y) (\<lambda>(h, t).
             bindE (left_of h z) (\<lambda>zl.
             bindE (put_left h y zl) (\<lambda>h.
             bindE (put_parent h zl y) (\<lambda>h.
             bindE (color_of h z) (\<lambda>zc.
             bindE (put_color h y zc) (\<lambda>h. Inr (h, t, x, rb_color ny)))))))))))"

definition mboxRBTreeDelete ::
  "nat \<Rightarrow> ('k, 'v) rbheap \<Rightarrow> 'k mboxRBTree \<Rightarrow> 'k void_ptr \<Rightarrow>
     c_error + (('k, 'v) rbheap \<times> 'k mboxRBTree)" where
  "mboxRBTreeDelete fuel h t key =
     bindE (delete_find fuel h t key (t_root t) None) (\<lambda>z.
     if z = None then Inr (h, t)
     else bindE (delete_unlink fuel h t z) (\<lambda>(h, t, x, original_color).
          bindE (if original_color = RB_BLACK then mboxRBTreeFixDelete fuel h t x
                 else Inr (h, t)) (\<lambda>(h, t).
          bindE (rbNodeRelease h t z) (\<lambda>h.
          Inr (h, t\<lparr>t_size := size_sub (t_size t) 1\<rparr>)))))"

section \<open>Release and iteration\<close>

text \<open>The recursions follow the children; their fuel bounds the depth.\<close>

fun rbNodeFree ::
  "nat \<Rightarrow> ('k, 'v) rbheap \<Rightarrow> 'k mboxRBTree \<Rightarrow> ptr \<Rightarrow> c_error + ('k, 'v) rbheap" where
  "rbNodeFree fuel h t n =
     (if n = None \<or> n = RB_SENTINAL then Inr h
      else case fuel of 0 \<Rightarrow> Inl Diverges
        | Suc fuel \<Rightarrow>
            bindE (left_of h n) (\<lambda>l. bindE (rbNodeFree fuel h t l) (\<lambda>h.
            bindE (right_of h n) (\<lambda>r. bindE (rbNodeFree fuel h t r) (\<lambda>h.
            rbNodeRelease h t n)))))"

declare rbNodeFree.simps [simp del]

definition mboxRBTreeClear ::
  "('k, 'v) rbheap \<Rightarrow> 'k mboxRBTree option \<Rightarrow>
     c_error + (('k, 'v) rbheap \<times> 'k mboxRBTree option)" where
  "mboxRBTreeClear h t =
     (case t of None \<Rightarrow> Inr (h, None)
      | Some t \<Rightarrow>
         (if t_size t \<noteq> 0
          then bindE (rbNodeFree (t_size t) h t (t_root t)) (\<lambda>h.
               Inr (h, Some (t\<lparr>t_size := 0, t_root := RB_SENTINAL\<rparr>)))
          else Inr (h, Some t)))"

definition mboxRBTreeRelease ::
  "('k, 'v) rbheap \<Rightarrow> 'k mboxRBTree option \<Rightarrow> c_error + ('k, 'v) rbheap" where
  "mboxRBTreeRelease h t =
     (case t of None \<Rightarrow> Inr h
      | Some t \<Rightarrow> bindE (mboxRBTreeClear h (Some t)) (\<lambda>(h, _). Inr h))"

text \<open>The callback takes the closure and returns it updated, or fails.\<close>

fun rbForEachHelper ::
  "nat \<Rightarrow> ('k, 'v) rbheap \<Rightarrow> ptr \<Rightarrow> ('k void_ptr \<Rightarrow> 'v void_ptr \<Rightarrow> 'c \<Rightarrow> c_error + 'c) \<Rightarrow> 'c \<Rightarrow>
     c_error + 'c" where
  "rbForEachHelper fuel h n cb closure =
     (if n = None \<or> n = RB_SENTINAL then Inr closure
      else case fuel of 0 \<Rightarrow> Inl Diverges
        | Suc fuel \<Rightarrow>
            bindE (rb_get h n) (\<lambda>nd.
            bindE (rbForEachHelper fuel h (rb_left nd) cb closure) (\<lambda>closure.
            bindE (cb (rb_key nd) (rb_value nd) closure) (\<lambda>closure.
            rbForEachHelper fuel h (rb_right nd) cb closure))))"

declare rbForEachHelper.simps [simp del]

definition mboxRBTreeForEach ::
  "('k, 'v) rbheap \<Rightarrow> 'k mboxRBTree \<Rightarrow> ('k void_ptr \<Rightarrow> 'v void_ptr \<Rightarrow> 'c \<Rightarrow> c_error + 'c) \<Rightarrow> 'c \<Rightarrow>
     c_error + 'c" where
  "mboxRBTreeForEach h t cb closure = rbForEachHelper (t_size t) h (t_root t) cb closure"

end
