(* ===== verification/Mbox_RBShape.thy ===== *)
theory Mbox_RBShape
  imports Mbox_RBTree
begin

text \<open>
  The trees the nodes of \<open>Mbox_RBTree\<close> form: a tree with the address of every node, the
  path from the root to a place in it, and how the primitive writes and the two rotations act
  on them.
\<close>

section \<open>Shapes\<close>

datatype (keysv: 'k, valsv: 'v) rbt =
    Lf
  | Nd "('k, 'v) rbt" nat "'k void_ptr" "'v void_ptr" RbColor "('k, 'v) rbt"

fun root_ptr :: "('k, 'v) rbt \<Rightarrow> ptr" where
  "root_ptr Lf = RB_SENTINAL"
| "root_ptr (Nd l a k v c r) = Some a"

fun addrs :: "('k, 'v) rbt \<Rightarrow> nat list" where
  "addrs Lf = []"
| "addrs (Nd l a k v c r) = addrs l @ a # addrs r"

fun entries :: "('k, 'v) rbt \<Rightarrow> ('k void_ptr \<times> 'v void_ptr) list" where
  "entries Lf = []"
| "entries (Nd l a k v c r) = entries l @ (k, v) # entries r"

type_synonym ('k, 'v) cellmap = "nat \<rightharpoonup> ('k, 'v) rbNode"

text \<open>\<open>tree_at C p t\<close>: the cells of \<open>t\<close> are in \<open>C\<close>, the root's parent being \<open>p\<close>.\<close>

fun tree_at :: "('k, 'v) cellmap \<Rightarrow> ptr \<Rightarrow> ('k, 'v) rbt \<Rightarrow> bool" where
  "tree_at C p Lf \<longleftrightarrow> True"
| "tree_at C p (Nd l a k v c r) \<longleftrightarrow>
     a \<noteq> SENT \<and>
     C a = Some \<lparr>rb_key = k, rb_value = v, rb_color = c, rb_left = root_ptr l,
       rb_right = root_ptr r, rb_parent = p\<rparr> \<and>
     tree_at C (Some a) l \<and> tree_at C (Some a) r"

text \<open>A path upwards: the side the hole is on, the node, and its other subtree.\<close>

datatype ('k, 'v) frame =
    InLeft nat "'k void_ptr" "'v void_ptr" RbColor "('k, 'v) rbt"
  | InRight "('k, 'v) rbt" nat "'k void_ptr" "'v void_ptr" RbColor

type_synonym ('k, 'v) path = "('k, 'v) frame list"

fun fill :: "('k, 'v) rbt \<Rightarrow> ('k, 'v) frame \<Rightarrow> ('k, 'v) rbt" where
  "fill t (InLeft a k v c r) = Nd t a k v c r"
| "fill t (InRight l a k v c) = Nd l a k v c t"

fun plug :: "('k, 'v) rbt \<Rightarrow> ('k, 'v) path \<Rightarrow> ('k, 'v) rbt" where
  "plug t [] = t"
| "plug t (f # fs) = plug (fill t f) fs"

fun faddr :: "('k, 'v) frame \<Rightarrow> nat" where
  "faddr (InLeft a k v c r) = a"
| "faddr (InRight l a k v c) = a"

fun fside :: "('k, 'v) frame \<Rightarrow> ('k, 'v) rbt" where
  "fside (InLeft a k v c r) = r"
| "fside (InRight l a k v c) = l"

fun fcolor :: "('k, 'v) frame \<Rightarrow> RbColor" where
  "fcolor (InLeft a k v c r) = c"
| "fcolor (InRight l a k v c) = c"

definition hole_parent :: "('k, 'v) path \<Rightarrow> ptr" where
  "hole_parent fs = (case fs of [] \<Rightarrow> None | f # _ \<Rightarrow> Some (faddr f))"

lemma hole_parent_simps [simp]:
  "hole_parent [] = None" "hole_parent (f # fs) = Some (faddr f)"
  by (simp_all add: hole_parent_def)

fun faddrs :: "('k, 'v) frame \<Rightarrow> nat list" where
  "faddrs f = faddr f # addrs (fside f)"

definition paddrs :: "('k, 'v) path \<Rightarrow> nat list" where
  "paddrs fs = concat (map faddrs fs)"

lemma paddrs_simps [simp]:
  "paddrs [] = []" "paddrs (f # fs) = faddrs f @ paddrs fs"
  by (simp_all add: paddrs_def)

lemma set_addrs_fill [simp]: "set (addrs (fill t f)) = insert (faddr f) (set (addrs t) \<union> set (addrs (fside f)))"
  by (cases f) auto

lemma set_addrs_plug [simp]: "set (addrs (plug t fs)) = set (addrs t) \<union> set (paddrs fs)"
  by (induction fs arbitrary: t) auto

lemma distinct_fill: "distinct (addrs (fill t f)) \<longleftrightarrow>
   distinct (addrs t) \<and> distinct (faddrs f) \<and> set (addrs t) \<inter> set (faddrs f) = {}"
  by (cases f) auto

lemma distinct_plug: "distinct (addrs (plug t fs)) \<longleftrightarrow>
   distinct (addrs t) \<and> distinct (paddrs fs) \<and> set (addrs t) \<inter> set (paddrs fs) = {}"
proof (induction fs arbitrary: t)
  case (Cons f fs)
  show ?case using Cons [of "fill t f"] by (cases f) (auto simp: distinct_fill)
qed simp

text \<open>The cells of a path, the hole's child being \<open>p\<close>.\<close>

fun path_at :: "('k, 'v) cellmap \<Rightarrow> ptr \<Rightarrow> ('k, 'v) path \<Rightarrow> bool" where
  "path_at C p [] \<longleftrightarrow> True"
| "path_at C p (InLeft a k v c r # fs) \<longleftrightarrow>
     a \<noteq> SENT \<and>
     C a = Some \<lparr>rb_key = k, rb_value = v, rb_color = c, rb_left = p, rb_right = root_ptr r,
       rb_parent = hole_parent fs\<rparr> \<and>
     tree_at C (Some a) r \<and> path_at C (Some a) fs"
| "path_at C p (InRight l a k v c # fs) \<longleftrightarrow>
     a \<noteq> SENT \<and>
     C a = Some \<lparr>rb_key = k, rb_value = v, rb_color = c, rb_left = root_ptr l, rb_right = p,
       rb_parent = hole_parent fs\<rparr> \<and>
     tree_at C (Some a) l \<and> path_at C (Some a) fs"

lemma root_ptr_fill [simp]: "root_ptr (fill t f) = Some (faddr f)"
  by (cases f) auto

lemma tree_at_plug:
  "tree_at C None (plug t fs) \<longleftrightarrow> tree_at C (hole_parent fs) t \<and> path_at C (root_ptr t) fs"
proof (induction fs arbitrary: t)
  case (Cons f fs)
  show ?case unfolding plug.simps Cons by (cases f) auto
qed simp

lemma root_ptr_plug: "root_ptr (plug t fs) = (if fs = [] then root_ptr t else Some (faddr (last fs)))"
  by (induction fs arbitrary: t) auto

section \<open>Writes\<close>

lemma tree_at_frame [simp]: "a \<notin> set (addrs t) \<Longrightarrow> tree_at (C(a := x)) p t \<longleftrightarrow> tree_at C p t"
  by (induction t arbitrary: p) auto

lemma tree_at_cong:
  "(\<And>a. a \<in> set (addrs t) \<Longrightarrow> C' a = C a) \<Longrightarrow> tree_at C' p t \<longleftrightarrow> tree_at C p t"
  by (induction t arbitrary: p) auto

lemma path_at_cong:
  assumes "\<And>a. a \<in> set (paddrs fs) \<Longrightarrow> C' a = C a"
  shows "path_at C' p fs \<longleftrightarrow> path_at C p fs"
  using assms
proof (induction fs arbitrary: p)
  case (Cons f fs)
  then have "path_at C' q fs \<longleftrightarrow> path_at C q fs" for q by simp
  moreover have "tree_at C' q (fside f) \<longleftrightarrow> tree_at C q (fside f)" for q
    using Cons.prems by (intro tree_at_cong) simp
  moreover have "C' (faddr f) = C (faddr f)" using Cons.prems by simp
  ultimately show ?case by (cases f) simp_all
qed simp

lemma path_at_frame [simp]: "a \<notin> set (paddrs fs) \<Longrightarrow> path_at (C(a := x)) p fs \<longleftrightarrow> path_at C p fs"
  by (rule path_at_cong) auto

lemma rb_get_Some [simp]: "rh_cells h a = Some n \<Longrightarrow> rb_get h (Some a) = Inr n"
  by (simp add: rb_get_def)

lemma rb_upd_Some [simp]:
  "rh_cells h a = Some n \<Longrightarrow>
   rb_upd h (Some a) f = Inr (h\<lparr>rh_cells := (rh_cells h)(a \<mapsto> f n)\<rparr>)"
  by (simp add: rb_upd_def)

lemmas put_defs = put_left_def put_right_def put_parent_def put_color_def

text \<open>Giving a subtree another parent: nothing for the sentinel, one write otherwise.\<close>

lemma reparent:
  assumes "tree_at (rh_cells h) p t" and "distinct (addrs t)"
  shows "\<exists>h'. (if root_ptr t \<noteq> RB_SENTINAL then put_parent h (root_ptr t) q else Inr h) = Inr h' \<and>
     tree_at (rh_cells h') q t \<and> rh_fresh h' = rh_fresh h \<and> rh_released h' = rh_released h \<and>
     (\<forall>a. a \<notin> set (addrs t) \<longrightarrow> rh_cells h' a = rh_cells h a)"
proof (cases t)
  case Lf
  then show ?thesis by auto
next
  case (Nd l a k v c r)
  then show ?thesis using assms by (auto simp: put_defs RB_SENTINAL_def)
qed

text \<open>Pointing the path at another child.\<close>

lemma rechild:
  assumes "path_at (rh_cells h) (Some x) (f # fs)" and "distinct (paddrs (f # fs))"
    and "x \<notin> set (paddrs (f # fs))" and "x \<noteq> SENT"
  shows "\<exists>h'. bindE (left_of h (Some (faddr f))) (\<lambda>l.
       bindE (if Some x = l then put_left h (Some (faddr f)) q else put_right h (Some (faddr f)) q)
         (\<lambda>h. Inr (h, t))) = Inr (h', t) \<and>
     path_at (rh_cells h') q (f # fs) \<and> rh_fresh h' = rh_fresh h \<and> rh_released h' = rh_released h \<and>
     (\<forall>a. a \<notin> set (paddrs (f # fs)) \<longrightarrow> rh_cells h' a = rh_cells h a)"
    and "\<exists>h'. bindE (right_of h (Some (faddr f))) (\<lambda>r.
       bindE (if Some x = r then put_right h (Some (faddr f)) q else put_left h (Some (faddr f)) q)
         (\<lambda>h. Inr (h, t))) = Inr (h', t) \<and>
     path_at (rh_cells h') q (f # fs) \<and> rh_fresh h' = rh_fresh h \<and> rh_released h' = rh_released h \<and>
     (\<forall>a. a \<notin> set (paddrs (f # fs)) \<longrightarrow> rh_cells h' a = rh_cells h a)"
proof -
  have other: "root_ptr (fside f) \<noteq> Some x"
    using assms(3,4) by (cases "fside f") (auto simp: RB_SENTINAL_def)
  show "\<exists>h'. bindE (left_of h (Some (faddr f))) (\<lambda>l.
       bindE (if Some x = l then put_left h (Some (faddr f)) q else put_right h (Some (faddr f)) q)
         (\<lambda>h. Inr (h, t))) = Inr (h', t) \<and>
     path_at (rh_cells h') q (f # fs) \<and> rh_fresh h' = rh_fresh h \<and> rh_released h' = rh_released h \<and>
     (\<forall>a. a \<notin> set (paddrs (f # fs)) \<longrightarrow> rh_cells h' a = rh_cells h a)"
    using assms other by (cases f) (auto simp: put_defs)
  show "\<exists>h'. bindE (right_of h (Some (faddr f))) (\<lambda>r.
       bindE (if Some x = r then put_right h (Some (faddr f)) q else put_left h (Some (faddr f)) q)
         (\<lambda>h. Inr (h, t))) = Inr (h', t) \<and>
     path_at (rh_cells h') q (f # fs) \<and> rh_fresh h' = rh_fresh h \<and> rh_released h' = rh_released h \<and>
     (\<forall>a. a \<notin> set (paddrs (f # fs)) \<longrightarrow> rh_cells h' a = rh_cells h a)"
    using assms other by (cases f) (auto simp: put_defs)
qed

text \<open>The same where the path may be empty: then the tree's root moves.\<close>

definition same_but :: "nat set \<Rightarrow> ('k, 'v) rbheap \<Rightarrow> ('k, 'v) rbheap \<Rightarrow> bool" where
  "same_but A h h' \<longleftrightarrow> rh_fresh h' = rh_fresh h \<and> rh_released h' = rh_released h \<and>
     (\<forall>a. a \<notin> A \<longrightarrow> rh_cells h' a = rh_cells h a)"

lemma same_but_refl [simp]: "same_but A h h"
  by (simp add: same_but_def)

lemma same_but_trans: "same_but A h h1 \<Longrightarrow> same_but A h1 h2 \<Longrightarrow> same_but A h h2"
  by (simp add: same_but_def)

lemma same_but_mono: "same_but A h h' \<Longrightarrow> A \<subseteq> B \<Longrightarrow> same_but B h h'"
  by (auto simp: same_but_def)

lemma same_butD: "same_but A h h' \<Longrightarrow> a \<notin> A \<Longrightarrow> rh_cells h' a = rh_cells h a"
  by (simp add: same_but_def)

lemma reparent_same:
  assumes "tree_at (rh_cells h) p t" and "distinct (addrs t)"
  shows "\<exists>h'. (if root_ptr t \<noteq> RB_SENTINAL then put_parent h (root_ptr t) q else Inr h) = Inr h' \<and>
     tree_at (rh_cells h') q t \<and> same_but (set (addrs t)) h h'"
  using reparent [OF assms, of q] by (simp only: same_but_def)

lemma relink_left:
  assumes "path_at (rh_cells h) (Some x) fs" and "distinct (paddrs fs)"
    and "x \<notin> set (paddrs fs)" and "x \<noteq> SENT"
  shows "\<exists>h'. (if hole_parent fs = None then Inr (h, t\<lparr>t_root := q\<rparr>)
       else bindE (left_of h (hole_parent fs)) (\<lambda>l.
         bindE (if Some x = l then put_left h (hole_parent fs) q else put_right h (hole_parent fs) q)
         (\<lambda>h. Inr (h, t)))) = Inr (h', if fs = [] then t\<lparr>t_root := q\<rparr> else t) \<and>
     path_at (rh_cells h') q fs \<and> same_but (set (paddrs fs)) h h'"
proof (cases fs)
  case (Cons f gs)
  show ?thesis
    using rechild(1) [OF assms(1,2,3) [unfolded Cons] assms(4), of q t]
    unfolding Cons hole_parent_simps same_but_def by simp
qed simp

lemma relink_right:
  assumes "path_at (rh_cells h) (Some x) fs" and "distinct (paddrs fs)"
    and "x \<notin> set (paddrs fs)" and "x \<noteq> SENT"
  shows "\<exists>h'. (if hole_parent fs = None then Inr (h, t\<lparr>t_root := q\<rparr>)
       else bindE (right_of h (hole_parent fs)) (\<lambda>r.
         bindE (if Some x = r then put_right h (hole_parent fs) q else put_left h (hole_parent fs) q)
         (\<lambda>h. Inr (h, t)))) = Inr (h', if fs = [] then t\<lparr>t_root := q\<rparr> else t) \<and>
     path_at (rh_cells h') q fs \<and> same_but (set (paddrs fs)) h h'"
proof (cases fs)
  case (Cons f gs)
  show ?thesis
    using rechild(2) [OF assms(1,2,3) [unfolded Cons] assms(4), of q t]
    unfolding Cons hole_parent_simps same_but_def by simp
qed simp

section \<open>The tree in the heap\<close>

definition sentinel_ok :: "('k, 'v) rbheap \<Rightarrow> bool" where
  "sentinel_ok h \<longleftrightarrow> (\<exists>p. rh_cells h SENT = Some \<lparr>rb_key = None, rb_value = None,
     rb_color = RB_BLACK, rb_left = None, rb_right = None, rb_parent = p\<rparr>)"

definition rb_at :: "('k, 'v) rbheap \<Rightarrow> 'k mboxRBTree \<Rightarrow> ('k, 'v) rbt \<Rightarrow> bool" where
  "rb_at h t T \<longleftrightarrow> tree_at (rh_cells h) None T \<and> distinct (addrs T) \<and> t_root t = root_ptr T \<and>
     sentinel_ok h \<and> (\<forall>a \<in> set (addrs T). a < rh_fresh h) \<and> 0 < rh_fresh h"

lemma tree_at_no_sent: "tree_at C p t \<Longrightarrow> SENT \<notin> set (addrs t)"
  by (induction t arbitrary: p) auto

lemma rb_at_no_sent: "rb_at h t T \<Longrightarrow> SENT \<notin> set (addrs T)"
  unfolding rb_at_def using tree_at_no_sent by blast

lemma sentinel_same: "sentinel_ok h \<Longrightarrow> same_but A h h' \<Longrightarrow> SENT \<notin> A \<Longrightarrow> sentinel_ok h'"
  by (auto simp: sentinel_ok_def same_but_def)

text \<open>A subtree that a step does not write to stays.\<close>

lemma tree_at_same:
  "tree_at (rh_cells h) p t \<Longrightarrow> same_but A h h' \<Longrightarrow> A \<inter> set (addrs t) = {} \<Longrightarrow>
   tree_at (rh_cells h') p t"
  using tree_at_cong [of t "rh_cells h'" "rh_cells h" p] by (auto simp: same_but_def disjoint_iff)

lemma path_at_same:
  "path_at (rh_cells h) p fs \<Longrightarrow> same_but A h h' \<Longrightarrow> A \<inter> set (paddrs fs) = {} \<Longrightarrow>
   path_at (rh_cells h') p fs"
  using path_at_cong [of fs "rh_cells h'" "rh_cells h" p] by (auto simp: same_but_def disjoint_iff)

text \<open>A left rotation at any place of a tree, and a right one as its mirror image.\<close>

lemma left_rotate_cells:
  fixes h :: "('k, 'v) rbheap" and t :: "'k mboxRBTree" and fs :: "('k, 'v) path"
  assumes at: "tree_at (rh_cells h) (hole_parent fs) (Nd A x kx vx cx (Nd B y ky vy cy D))"
      "path_at (rh_cells h) (Some x) fs"
    and d: "distinct (addrs (plug (Nd A x kx vx cx (Nd B y ky vy cy D)) fs))"
  shows "\<exists>h'. rbLeftRotate h t (Some x) = Inr (h', if fs = [] then t\<lparr>t_root := Some y\<rparr> else t) \<and>
     tree_at (rh_cells h') (hole_parent fs) (Nd (Nd A x kx vx cx B) y ky vy cy D) \<and>
     path_at (rh_cells h') (Some y) fs \<and>
     same_but (insert x (insert y (set (addrs B) \<union> set (paddrs fs)))) h h'"
proof -
  let ?C = "rh_cells h" and ?hp = "hole_parent fs"
  have ds: "distinct (addrs B)" "distinct (paddrs fs)" using d by (auto simp: distinct_plug)
  have ne: "x \<noteq> y" "x \<notin> set (addrs A)" "x \<notin> set (addrs B)" "x \<notin> set (addrs D)"
    "y \<notin> set (addrs A)" "y \<notin> set (addrs B)" "y \<notin> set (addrs D)"
    "x \<notin> set (paddrs fs)" "y \<notin> set (paddrs fs)" "x \<noteq> SENT" "y \<noteq> SENT"
    using d at(1) by (auto simp: distinct_plug)
  have disj: "set (addrs A) \<inter> set (paddrs fs) = {}" "set (addrs B) \<inter> set (paddrs fs) = {}"
    "set (addrs D) \<inter> set (paddrs fs) = {}" "set (addrs A) \<inter> set (addrs B) = {}"
    "set (addrs D) \<inter> set (addrs B) = {}"
    using d by (auto simp: distinct_plug)
  define nx where "nx = \<lparr>rb_key = kx, rb_value = vx, rb_color = cx, rb_left = root_ptr A,
      rb_right = Some y, rb_parent = ?hp\<rparr>"
  define ny where "ny = \<lparr>rb_key = ky, rb_value = vy, rb_color = cy, rb_left = root_ptr B,
      rb_right = root_ptr D, rb_parent = Some x\<rparr>"
  have c0: "?C x = Some nx" "?C y = Some ny" using at(1) by (simp_all add: nx_def ny_def)
  define h1 where "h1 = h\<lparr>rh_cells := ?C(x \<mapsto> nx\<lparr>rb_right := root_ptr B\<rparr>)\<rparr>"
  have "tree_at (rh_cells h1) (Some y) B" using at(1) ne by (auto simp: h1_def)
  then obtain h2 where h2: "(if root_ptr B \<noteq> RB_SENTINAL then put_parent h1 (root_ptr B) (Some x)
      else Inr h1) = Inr h2" "tree_at (rh_cells h2) (Some x) B" "same_but (set (addrs B)) h1 h2"
    using reparent_same ds(1) by blast
  have c2: "rh_cells h2 x = Some (nx\<lparr>rb_right := root_ptr B\<rparr>)" "rh_cells h2 y = Some ny"
    using same_butD [OF h2(3)] ne c0 by (simp_all add: h1_def)
  define h3 where "h3 = h2\<lparr>rh_cells := (rh_cells h2)(y \<mapsto> ny\<lparr>rb_parent := ?hp\<rparr>)\<rparr>"
  have s3: "same_but (insert x (insert y (set (addrs B)))) h h3"
    using h2(3) by (auto simp: same_but_def h3_def h1_def)
  have "path_at (rh_cells h3) (Some x) fs"
    using path_at_same [OF at(2) s3] ne disj by auto
  from relink_left [OF this ds(2) ne(8,10), of "Some y" t]
  obtain h4 where h4: "(if ?hp = None then Inr (h3, t\<lparr>t_root := Some y\<rparr>)
       else bindE (left_of h3 ?hp) (\<lambda>l.
         bindE (if Some x = l then put_left h3 ?hp (Some y) else put_right h3 ?hp (Some y))
         (\<lambda>h. Inr (h, t)))) = Inr (h4, if fs = [] then t\<lparr>t_root := Some y\<rparr> else t)"
    "path_at (rh_cells h4) (Some y) fs" "same_but (set (paddrs fs)) h3 h4"
    by blast
  have c4: "rh_cells h4 x = Some (nx\<lparr>rb_right := root_ptr B\<rparr>)"
    "rh_cells h4 y = Some (ny\<lparr>rb_parent := ?hp\<rparr>)"
    using same_butD [OF h4(3)] ne c2 by (simp_all add: h3_def)
  define h5 where "h5 = h4\<lparr>rh_cells := (rh_cells h4)
      (y \<mapsto> ny\<lparr>rb_parent := ?hp, rb_left := Some x\<rparr>)\<rparr>"
  define h6 where "h6 = h5\<lparr>rh_cells := (rh_cells h5)
      (x \<mapsto> nx\<lparr>rb_right := root_ptr B, rb_parent := Some y\<rparr>)\<rparr>"
  have r: "right_of h (Some x) = Inr (Some y)" "left_of h (Some y) = Inr (root_ptr B)"
    "put_right h (Some x) (root_ptr B) = Inr h1" "parent_of h2 (Some x) = Inr ?hp"
    "put_parent h2 (Some y) ?hp = Inr h3" "put_left h4 (Some y) (Some x) = Inr h5"
    "put_parent h5 (Some x) (Some y) = Inr h6"
    using c0 c2 c4 ne by (simp_all add: put_defs h1_def h3_def h5_def h6_def nx_def ny_def)
  have run: "rbLeftRotate h t (Some x) = Inr (h6, if fs = [] then t\<lparr>t_root := Some y\<rparr> else t)"
    unfolding rbLeftRotate_def by (simp only: r h2(1) h4(1) bindE.simps prod.case)
  have s5: "same_but {x, y} h4 h6" by (simp add: same_but_def h5_def h6_def)
  have s6: "same_but (insert x (insert y (set (addrs B) \<union> set (paddrs fs)))) h h6"
    by (rule same_but_trans [OF same_but_mono [OF s3] same_but_trans
          [OF same_but_mono [OF h4(3)] same_but_mono [OF s5]]]) auto
  have "same_but (insert y (set (paddrs fs) \<union> {x, y})) h2 h6"
    using h4(3) s5 by (auto simp: same_but_def h3_def)
  then have "tree_at (rh_cells h6) (Some x) B"
    by (rule tree_at_same [OF h2(2)]) (use ne disj in auto)
  moreover have "tree_at (rh_cells h6) (Some x) A"
    by (rule tree_at_same [of h _ _ _ h6, OF _ s6]) (use at(1) ne disj in auto)
  moreover have "tree_at (rh_cells h6) (Some y) D"
    by (rule tree_at_same [of h _ _ _ h6, OF _ s6]) (use at(1) ne disj in auto)
  moreover have "path_at (rh_cells h6) (Some y) fs"
    using path_at_same [OF h4(2) s5] ne by simp
  ultimately show ?thesis
    using run s6 ne by (intro exI [of _ h6]) (simp add: h6_def h5_def nx_def ny_def)
qed

section \<open>Mirror images\<close>

text \<open>
  Exchanging left and right everywhere turns a tree, its path and a left rotation into their
  mirror images; a right rotation is the image of a left one.
\<close>

definition flip_node :: "('k, 'v) rbNode \<Rightarrow> ('k, 'v) rbNode" where
  "flip_node n = n\<lparr>rb_left := rb_right n, rb_right := rb_left n\<rparr>"

definition flip :: "('k, 'v) rbheap \<Rightarrow> ('k, 'v) rbheap" where
  "flip h = h\<lparr>rh_cells := (\<lambda>a. map_option flip_node (rh_cells h a))\<rparr>"

fun flip_tree :: "('k, 'v) rbt \<Rightarrow> ('k, 'v) rbt" where
  "flip_tree Lf = Lf"
| "flip_tree (Nd l a k v c r) = Nd (flip_tree r) a k v c (flip_tree l)"

fun flip_frame :: "('k, 'v) frame \<Rightarrow> ('k, 'v) frame" where
  "flip_frame (InLeft a k v c r) = InRight (flip_tree r) a k v c"
| "flip_frame (InRight l a k v c) = InLeft a k v c (flip_tree l)"

lemma flip_node_simps [simp]:
  "rb_left (flip_node n) = rb_right n" "rb_right (flip_node n) = rb_left n"
  "rb_parent (flip_node n) = rb_parent n" "rb_color (flip_node n) = rb_color n"
  "rb_key (flip_node n) = rb_key n" "rb_value (flip_node n) = rb_value n"
  "flip_node (flip_node n) = n"
  by (simp_all add: flip_node_def)

lemma flip_simps [simp]:
  "flip (flip h) = h" "rh_fresh (flip h) = rh_fresh h" "rh_released (flip h) = rh_released h"
  "rh_cells (flip h) a = map_option flip_node (rh_cells h a)"
  by (simp_all add: flip_def option.map_comp comp_def option.map_ident)

lemma flip_get: "rb_get (flip h) p = bindE (rb_get h p) (\<lambda>n. Inr (flip_node n))"
  by (auto simp: rb_get_def split: option.splits)

lemma flip_upd:
  "rb_upd (flip h) p f = bindE (rb_upd h p (\<lambda>n. flip_node (f (flip_node n)))) (\<lambda>h. Inr (flip h))"
  by (auto simp: rb_upd_def flip_def fun_eq_iff split: option.splits)

lemma flip_put:
  "put_left (flip h) p q = bindE (put_right h p q) (\<lambda>h. Inr (flip h))"
  "put_right (flip h) p q = bindE (put_left h p q) (\<lambda>h. Inr (flip h))"
  "put_parent (flip h) p q = bindE (put_parent h p q) (\<lambda>h. Inr (flip h))"
  by (simp_all add: put_defs flip_upd flip_node_def comp_def)

lemma root_ptr_flip [simp]: "root_ptr (flip_tree t) = root_ptr t"
  by (cases t) auto

lemma addrs_flip [simp]: "set (addrs (flip_tree t)) = set (addrs t)"
  by (induction t) auto

lemma flip_tree_at: "tree_at (rh_cells (flip h)) p (flip_tree t) \<longleftrightarrow> tree_at (rh_cells h) p t"
proof (induction t arbitrary: p)
  case (Nd l a k v c r)
  have "rh_cells (flip h) a = Some \<lparr>rb_key = k, rb_value = v, rb_color = c,
      rb_left = root_ptr r, rb_right = root_ptr l, rb_parent = p\<rparr> \<longleftrightarrow>
    rh_cells h a = Some \<lparr>rb_key = k, rb_value = v, rb_color = c,
      rb_left = root_ptr l, rb_right = root_ptr r, rb_parent = p\<rparr>"
    by (cases "rh_cells h a"; cases "the (rh_cells h a)") (auto simp: flip_node_def)
  then show ?case using Nd by (simp del: flip_simps(4)) blast
qed simp

lemma right_is_flipped_left:
  "rbRightRotate (flip h) t y = bindE (rbLeftRotate h t y) (\<lambda>(h, t). Inr (flip h, t))"
  unfolding rbRightRotate_def rbLeftRotate_def flip_get bindE_assoc bindE.simps flip_node_simps
  by (simp add: flip_put flip_get bindE_assoc split_beta cong: if_cong)

lemma addrs_flip_rev: "addrs (flip_tree t) = rev (addrs t)"
  by (induction t) auto

lemma fill_flip: "fill (flip_tree t) (flip_frame f) = flip_tree (fill t f)"
  by (cases f) auto

lemma plug_flip: "plug (flip_tree t) (map flip_frame fs) = flip_tree (plug t fs)"
  by (induction fs arbitrary: t) (auto simp: fill_flip)

lemma flip_frame_simps [simp]:
  "faddr (flip_frame f) = faddr f" "fside (flip_frame f) = flip_tree (fside f)"
  "fcolor (flip_frame f) = fcolor f"
  by (cases f; simp)+

lemma hole_parent_flip [simp]: "hole_parent (map flip_frame fs) = hole_parent fs"
  by (cases fs) auto

lemma set_paddrs_flip [simp]: "set (paddrs (map flip_frame fs)) = set (paddrs fs)"
  by (induction fs) auto

lemma flip_path_at: "path_at (rh_cells (flip h)) p (map flip_frame fs) \<longleftrightarrow> path_at (rh_cells h) p fs"
proof (induction fs arbitrary: p)
  case (Cons f fs)
  have "rh_cells (flip h) a = Some \<lparr>rb_key = k, rb_value = v, rb_color = c,
      rb_left = r, rb_right = l, rb_parent = p\<rparr> \<longleftrightarrow>
    rh_cells h a = Some \<lparr>rb_key = k, rb_value = v, rb_color = c,
      rb_left = l, rb_right = r, rb_parent = p\<rparr>" for a k v c l r p
    by (cases "rh_cells h a"; cases "the (rh_cells h a)") (auto simp: flip_node_def)
  then show ?case using Cons flip_tree_at [of h]
    by (cases f) (simp_all del: flip_simps(4))
qed simp

lemma flip_node_swap: "n = flip_node m \<longleftrightarrow> flip_node n = m"
  by auto

lemma same_but_flip [simp]: "same_but A (flip h) h' \<longleftrightarrow> same_but A h (flip h')"
proof -
  have "rh_cells h' a = map_option flip_node (rh_cells h a) \<longleftrightarrow>
      map_option flip_node (rh_cells h' a) = rh_cells h a" for a
    by (cases "rh_cells h' a"; cases "rh_cells h a") (auto simp: flip_node_swap)
  then show ?thesis by (auto simp: same_but_def)
qed

lemma right_rotate_cells:
  fixes h :: "('k, 'v) rbheap" and t :: "'k mboxRBTree" and fs :: "('k, 'v) path"
  assumes at: "tree_at (rh_cells h) (hole_parent fs) (Nd (Nd A x kx vx cx B) y ky vy cy D)"
      "path_at (rh_cells h) (Some y) fs"
    and d: "distinct (addrs (plug (Nd (Nd A x kx vx cx B) y ky vy cy D) fs))"
  shows "\<exists>h'. rbRightRotate h t (Some y) = Inr (h', if fs = [] then t\<lparr>t_root := Some x\<rparr> else t) \<and>
     tree_at (rh_cells h') (hole_parent fs) (Nd A x kx vx cx (Nd B y ky vy cy D)) \<and>
     path_at (rh_cells h') (Some x) fs \<and>
     same_but (insert x (insert y (set (addrs B) \<union> set (paddrs fs)))) h h'"
proof -
  let ?h = "flip h" and ?fs = "map flip_frame fs"
  have "tree_at (rh_cells ?h) (hole_parent ?fs)
      (Nd (flip_tree D) y ky vy cy (Nd (flip_tree B) x kx vx cx (flip_tree A)))"
    using at(1) flip_tree_at [of h "hole_parent fs" "Nd (Nd A x kx vx cx B) y ky vy cy D"] by simp
  moreover have "path_at (rh_cells ?h) (Some y) ?fs" using at(2) flip_path_at by blast
  moreover have "distinct (addrs (plug (Nd (flip_tree D) y ky vy cy
      (Nd (flip_tree B) x kx vx cx (flip_tree A))) ?fs))"
    using d plug_flip [of "Nd (Nd A x kx vx cx B) y ky vy cy D" fs]
    by (simp add: addrs_flip_rev del: addrs.simps)
  ultimately obtain h1 where h1:
    "rbLeftRotate ?h t (Some y) = Inr (h1, if ?fs = [] then t\<lparr>t_root := Some x\<rparr> else t)"
    "tree_at (rh_cells h1) (hole_parent ?fs)
      (Nd (Nd (flip_tree D) y ky vy cy (flip_tree B)) x kx vx cx (flip_tree A))"
    "path_at (rh_cells h1) (Some x) ?fs"
    "same_but (insert y (insert x (set (addrs (flip_tree B)) \<union> set (paddrs ?fs)))) ?h h1"
    using left_rotate_cells by blast
  have "rbRightRotate h t (Some y) = Inr (flip h1, if fs = [] then t\<lparr>t_root := Some x\<rparr> else t)"
    using right_is_flipped_left [of ?h t "Some y"] h1(1) by (simp del: rbLeftRotate_def)
  moreover have "tree_at (rh_cells (flip h1)) (hole_parent fs) (Nd A x kx vx cx (Nd B y ky vy cy D))"
    using h1(2) flip_tree_at [of "flip h1" "hole_parent fs" "Nd A x kx vx cx (Nd B y ky vy cy D)"]
    by (simp del: flip_simps(4))
  moreover have "path_at (rh_cells (flip h1)) (Some x) fs"
    using h1(3) flip_path_at [of "flip h1" "Some x" fs] by (simp del: flip_simps(4))
  ultimately show ?thesis using h1(4) by (auto simp: insert_commute)
qed

section \<open>Rotations and colours on the whole tree\<close>

text \<open>What a step that rearranges the nodes of \<open>T\<close> into \<open>T'\<close> leaves.\<close>

definition rearranged ::
  "('k, 'v) rbheap \<Rightarrow> 'k mboxRBTree \<Rightarrow> ('k, 'v) rbt \<Rightarrow> ('k, 'v) rbheap \<Rightarrow> ('k, 'v) rbt \<Rightarrow> bool" where
  "rearranged h t T h' T' \<longleftrightarrow>
     rb_at h' (t\<lparr>t_root := root_ptr T'\<rparr>) T' \<and> same_but (set (addrs T)) h h' \<and>
     set (addrs T') = set (addrs T)"

lemma rearranged_trans:
  "rearranged h t T h1 T1 \<Longrightarrow> rearranged h1 (t\<lparr>t_root := root_ptr T1\<rparr>) T1 h2 T2 \<Longrightarrow> rearranged h t T h2 T2"
  by (auto simp: rearranged_def intro: same_but_trans)

lemma rearranged_refl: "rb_at h t T \<Longrightarrow> rearranged h t T h T"
  by (simp add: rearranged_def rb_at_def)

lemma rb_at_rearranged:
  assumes "rb_at h t T" and "tree_at (rh_cells h') None T'" and "same_but A h h'"
    and "A \<subseteq> set (addrs T)" and "set (addrs T') = set (addrs T)" and "distinct (addrs T')"
  shows "rearranged h t T h' T'"
  using assms same_but_mono [OF assms(3,4)] rb_at_no_sent [OF assms(1)]
    sentinel_same [OF _ assms(3)]
  by (auto simp: rearranged_def rb_at_def same_but_def)

lemma left_rotate_at:
  fixes h :: "('k, 'v) rbheap" and t :: "'k mboxRBTree"
  assumes "rb_at h t (plug (Nd A x kx vx cx (Nd B y ky vy cy D)) fs)"
  shows "\<exists>h'. rbLeftRotate h t (Some x) =
       Inr (h', t\<lparr>t_root := root_ptr (plug (Nd (Nd A x kx vx cx B) y ky vy cy D) fs)\<rparr>) \<and>
     rearranged h t (plug (Nd A x kx vx cx (Nd B y ky vy cy D)) fs) h'
       (plug (Nd (Nd A x kx vx cx B) y ky vy cy D) fs)"
proof -
  have r: "tree_at (rh_cells h) (hole_parent fs) (Nd A x kx vx cx (Nd B y ky vy cy D))"
      "path_at (rh_cells h) (Some x) fs"
      "distinct (addrs (plug (Nd A x kx vx cx (Nd B y ky vy cy D)) fs))"
    using assms unfolding rb_at_def tree_at_plug by simp_all
  obtain h' where h': "rbLeftRotate h t (Some x) = Inr (h', if fs = [] then t\<lparr>t_root := Some y\<rparr> else t)"
     "tree_at (rh_cells h') (hole_parent fs) (Nd (Nd A x kx vx cx B) y ky vy cy D)"
     "path_at (rh_cells h') (Some y) fs"
     "same_but (insert x (insert y (set (addrs B) \<union> set (paddrs fs)))) h h'"
    using left_rotate_cells [OF r] by blast
  have "(if fs = [] then t\<lparr>t_root := Some y\<rparr> else t) =
      t\<lparr>t_root := root_ptr (plug (Nd (Nd A x kx vx cx B) y ky vy cy D) fs)\<rparr>"
    using assms by (cases "fs = []") (simp_all add: rb_at_def root_ptr_plug)
  moreover have "rearranged h t (plug (Nd A x kx vx cx (Nd B y ky vy cy D)) fs) h'
       (plug (Nd (Nd A x kx vx cx B) y ky vy cy D) fs)"
    by (rule rb_at_rearranged [OF assms _ h'(4)])
      (use h'(2,3) r(3) in \<open>auto simp: tree_at_plug distinct_plug\<close>)
  ultimately show ?thesis using h'(1) by simp
qed

lemma right_rotate_at:
  fixes h :: "('k, 'v) rbheap" and t :: "'k mboxRBTree"
  assumes "rb_at h t (plug (Nd (Nd A x kx vx cx B) y ky vy cy D) fs)"
  shows "\<exists>h'. rbRightRotate h t (Some y) =
       Inr (h', t\<lparr>t_root := root_ptr (plug (Nd A x kx vx cx (Nd B y ky vy cy D)) fs)\<rparr>) \<and>
     rearranged h t (plug (Nd (Nd A x kx vx cx B) y ky vy cy D) fs) h'
       (plug (Nd A x kx vx cx (Nd B y ky vy cy D)) fs)"
proof -
  have r: "tree_at (rh_cells h) (hole_parent fs) (Nd (Nd A x kx vx cx B) y ky vy cy D)"
      "path_at (rh_cells h) (Some y) fs"
      "distinct (addrs (plug (Nd (Nd A x kx vx cx B) y ky vy cy D) fs))"
    using assms unfolding rb_at_def tree_at_plug by simp_all
  obtain h' where h': "rbRightRotate h t (Some y) = Inr (h', if fs = [] then t\<lparr>t_root := Some x\<rparr> else t)"
     "tree_at (rh_cells h') (hole_parent fs) (Nd A x kx vx cx (Nd B y ky vy cy D))"
     "path_at (rh_cells h') (Some x) fs"
     "same_but (insert x (insert y (set (addrs B) \<union> set (paddrs fs)))) h h'"
    using right_rotate_cells [OF r] by blast
  have "(if fs = [] then t\<lparr>t_root := Some x\<rparr> else t) =
      t\<lparr>t_root := root_ptr (plug (Nd A x kx vx cx (Nd B y ky vy cy D)) fs)\<rparr>"
    using assms by (cases "fs = []") (simp_all add: rb_at_def root_ptr_plug)
  moreover have "rearranged h t (plug (Nd (Nd A x kx vx cx B) y ky vy cy D) fs) h'
       (plug (Nd A x kx vx cx (Nd B y ky vy cy D)) fs)"
    by (rule rb_at_rearranged [OF assms _ h'(4)])
      (use h'(2,3) r(3) in \<open>auto simp: tree_at_plug distinct_plug\<close>)
  ultimately show ?thesis using h'(1) by simp
qed

text \<open>Colouring the node at one address.\<close>

fun recolor :: "nat \<Rightarrow> RbColor \<Rightarrow> ('k, 'v) rbt \<Rightarrow> ('k, 'v) rbt" where
  "recolor a c Lf = Lf"
| "recolor a c (Nd l b k v d r) =
     Nd (recolor a c l) b k v (if b = a then c else d) (recolor a c r)"

fun recolor_frame :: "nat \<Rightarrow> RbColor \<Rightarrow> ('k, 'v) frame \<Rightarrow> ('k, 'v) frame" where
  "recolor_frame a c (InLeft b k v d r) = InLeft b k v (if b = a then c else d) (recolor a c r)"
| "recolor_frame a c (InRight l b k v d) = InRight (recolor a c l) b k v (if b = a then c else d)"

lemma recolor_id [simp]: "a \<notin> set (addrs t) \<Longrightarrow> recolor a c t = t"
  by (induction t) auto

lemma addrs_recolor [simp]: "addrs (recolor a c t) = addrs t"
  by (induction t) auto

lemma entries_recolor [simp]: "entries (recolor a c t) = entries t"
  by (induction t) auto

lemma root_ptr_recolor [simp]: "root_ptr (recolor a c t) = root_ptr t"
  by (cases t) auto

lemma recolor_fill: "recolor a c (fill t f) = fill (recolor a c t) (recolor_frame a c f)"
  by (cases f) auto

lemma recolor_frame_id: "a \<notin> set (faddrs f) \<Longrightarrow> recolor_frame a c f = f"
  by (cases f) auto

lemma recolor_plug:
  "a \<notin> set (paddrs fs) \<Longrightarrow> recolor a c (plug t fs) = plug (recolor a c t) fs"
  by (induction fs arbitrary: t) (auto simp: recolor_fill recolor_frame_id simp del: faddrs.simps)

lemma tree_at_recolor:
  "tree_at C p t \<Longrightarrow> distinct (addrs t) \<Longrightarrow> a \<in> set (addrs t) \<Longrightarrow>
   \<exists>n. C a = Some n \<and> tree_at (C(a \<mapsto> n\<lparr>rb_color := c\<rparr>)) p (recolor a c t)"
proof (induction t arbitrary: p)
  case (Nd l b k v d r)
  then consider "a = b" "a \<notin> set (addrs l)" "a \<notin> set (addrs r)"
    | "a \<noteq> b" "a \<in> set (addrs l)" "a \<notin> set (addrs r)"
    | "a \<noteq> b" "a \<notin> set (addrs l)" "a \<in> set (addrs r)" by auto
  then show ?case
  proof cases
    case 1
    then have n: "C a = Some \<lparr>rb_key = k, rb_value = v, rb_color = d, rb_left = root_ptr l,
        rb_right = root_ptr r, rb_parent = p\<rparr>" "tree_at C (Some a) l" "tree_at C (Some a) r"
      using Nd.prems by auto
    then show ?thesis using 1 Nd.prems(1)
      by (simp del: fun_upd_apply add: fun_upd_same)
  next
    case 2
    then show ?thesis using Nd.IH(1) [of "Some b"] Nd.prems
      by (auto simp del: fun_upd_apply simp: fun_upd_other)
  next
    case 3
    then show ?thesis using Nd.IH(2) [of "Some b"] Nd.prems
      by (auto simp del: fun_upd_apply simp: fun_upd_other)
  qed
qed simp

lemma paint_at:
  fixes h :: "('k, 'v) rbheap" and t :: "'k mboxRBTree"
  assumes "rb_at h t T" and "a \<in> set (addrs T)"
  shows "\<exists>h'. put_color h (Some a) c = Inr h' \<and> rb_at h' t (recolor a c T) \<and>
     rearranged h t T h' (recolor a c T)"
proof -
  obtain n where n: "rh_cells h a = Some n"
      "tree_at ((rh_cells h)(a \<mapsto> n\<lparr>rb_color := c\<rparr>)) None (recolor a c T)"
    using tree_at_recolor assms unfolding rb_at_def by blast
  let ?h' = "h\<lparr>rh_cells := (rh_cells h)(a \<mapsto> n\<lparr>rb_color := c\<rparr>)\<rparr>"
  have "rearranged h t T ?h' (recolor a c T)"
    by (rule rb_at_rearranged [OF assms(1), of _ _ "{a}"])
      (use n assms in \<open>auto simp: same_but_def rb_at_def\<close>)
  moreover have "t\<lparr>t_root := root_ptr (recolor a c T)\<rparr> = t" using assms(1) by (simp add: rb_at_def)
  ultimately show ?thesis using n(1) by (auto simp: put_color_def rearranged_def)
qed

text \<open>Reading the nodes around a place.\<close>

lemma rb_at_place:
  assumes "rb_at h t (plug (Nd l a k v c r) fs)"
  shows "rh_cells h a = Some \<lparr>rb_key = k, rb_value = v, rb_color = c, rb_left = root_ptr l,
       rb_right = root_ptr r, rb_parent = hole_parent fs\<rparr>"
    and "a \<noteq> SENT"
  using assms by (auto simp: rb_at_def tree_at_plug)

lemma color_of_root:
  assumes "tree_at (rh_cells h) p T" and "sentinel_ok h"
  shows "color_of h (root_ptr T) = Inr (case T of Lf \<Rightarrow> RB_BLACK | Nd l a k v c r \<Rightarrow> c)"
  using assms by (cases T) (auto simp: sentinel_ok_def RB_SENTINAL_def)

end
