(* ===== verification/Mbox_RBInsert.thy ===== *)
theory Mbox_RBInsert
  imports Mbox_RBShape
begin

text \<open>
  Insertion into the red-black tree: the balance invariants, one round of the repair on either
  side, the repair loop, the descent, and the whole operation.
\<close>

section \<open>The balance invariants\<close>

fun rcolor :: "('k, 'v) rbt \<Rightarrow> RbColor" where
  "rcolor Lf = RB_BLACK"
| "rcolor (Nd l a k v c r) = c"

fun bh :: "('k, 'v) rbt \<Rightarrow> nat" where
  "bh Lf = 0"
| "bh (Nd l a k v c r) = (if c = RB_BLACK then Suc (bh l) else bh l)"

fun invh :: "('k, 'v) rbt \<Rightarrow> bool" where
  "invh Lf \<longleftrightarrow> True"
| "invh (Nd l a k v c r) \<longleftrightarrow> invh l \<and> invh r \<and> bh l = bh r"

fun invc :: "('k, 'v) rbt \<Rightarrow> bool" where
  "invc Lf \<longleftrightarrow> True"
| "invc (Nd l a k v c r) \<longleftrightarrow> invc l \<and> invc r \<and>
     (c = RB_RED \<longrightarrow> rcolor l = RB_BLACK \<and> rcolor r = RB_BLACK)"

definition bal :: "nat \<Rightarrow> ('k, 'v) rbt \<Rightarrow> bool" where
  "bal n t \<longleftrightarrow> invc t \<and> invh t \<and> bh t = n"

definition is_rb :: "('k, 'v) rbt \<Rightarrow> bool" where
  "is_rb t \<longleftrightarrow> invc t \<and> invh t \<and> rcolor t = RB_BLACK"

text \<open>\<open>path_ok n fs\<close>: around a hole of black height \<open>n\<close> everything is balanced.\<close>

fun path_ok :: "nat \<Rightarrow> ('k, 'v) path \<Rightarrow> bool" where
  "path_ok n [] \<longleftrightarrow> True"
| "path_ok n (f # fs) \<longleftrightarrow> bal n (fside f) \<and>
     (fcolor f = RB_RED \<longrightarrow> rcolor (fside f) = RB_BLACK \<and>
        (\<exists>g gs. fs = g # gs \<and> fcolor g = RB_BLACK)) \<and>
     path_ok (if fcolor f = RB_BLACK then Suc n else n) fs"

lemma rcolor_cases: "rcolor t = RB_RED \<or> rcolor t = RB_BLACK"
  by (cases "rcolor t") auto

lemma not_red [simp]: "c \<noteq> RB_RED \<longleftrightarrow> c = RB_BLACK" "c \<noteq> RB_BLACK \<longleftrightarrow> c = RB_RED"
  by (cases c; simp)+

lemma rcolor_redE:
  assumes "rcolor t = RB_RED"
  obtains l a k v r where "t = Nd l a k v RB_RED r"
  using assms by (cases t) auto

lemma bal_fill:
  "bal n t \<Longrightarrow> path_ok n (f # fs) \<Longrightarrow> (fcolor f = RB_RED \<Longrightarrow> rcolor t = RB_BLACK) \<Longrightarrow>
   bal (if fcolor f = RB_BLACK then Suc n else n) (fill t f) \<and> rcolor (fill t f) = fcolor f"
  by (cases f) (auto simp: bal_def)

lemma bal_plug:
  assumes "bal n t" and "path_ok n fs"
    and "\<And>f gs. fs = f # gs \<Longrightarrow> fcolor f = RB_RED \<Longrightarrow> rcolor t = RB_BLACK"
  shows "invc (plug t fs) \<and> invh (plug t fs)"
  using assms
proof (induction fs arbitrary: n t)
  case (Cons f fs)
  have b: "bal (if fcolor f = RB_BLACK then Suc n else n) (fill t f)" "rcolor (fill t f) = fcolor f"
    using bal_fill [OF Cons.prems(1,2)] Cons.prems(3) by blast+
  have p: "path_ok (if fcolor f = RB_BLACK then Suc n else n) fs" using Cons.prems(2) by simp
  show ?case
    unfolding plug.simps
    by (rule Cons.IH [OF b(1) p]) (use Cons.prems(2) b(2) in auto)
qed (simp add: bal_def)

section \<open>Mirror images of the invariants\<close>

lemma flip_tree_flip [simp]: "flip_tree (flip_tree t) = t"
  by (induction t) auto

lemma flip_frame_flip [simp]: "flip_frame (flip_frame f) = f"
  by (cases f) auto

lemma entries_flip: "entries (flip_tree t) = rev (entries t)"
  by (induction t) auto

lemma rcolor_flip [simp]: "rcolor (flip_tree t) = rcolor t"
  by (cases t) auto

lemma bh_flip [simp]: "invh t \<Longrightarrow> bh (flip_tree t) = bh t"
  by (induction t) auto

lemma invh_flip [simp]: "invh (flip_tree t) \<longleftrightarrow> invh t"
proof (induction t)
  case (Nd l a k v c r)
  then show ?case by auto
qed simp

lemma invc_flip [simp]: "invc (flip_tree t) \<longleftrightarrow> invc t"
  by (induction t) auto

lemma bal_flip [simp]: "bal n (flip_tree t) \<longleftrightarrow> bal n t"
  by (auto simp: bal_def)

lemma sentinel_flip [simp]: "sentinel_ok (flip h) \<longleftrightarrow> sentinel_ok h"
proof -
  have "flip_node n = \<lparr>rb_key = None, rb_value = None, rb_color = RB_BLACK, rb_left = None,
      rb_right = None, rb_parent = p\<rparr> \<longleftrightarrow> n = \<lparr>rb_key = None, rb_value = None, rb_color = RB_BLACK,
      rb_left = None, rb_right = None, rb_parent = p\<rparr>" for n :: "('a, 'b) rbNode" and p
    by (cases n) (auto simp: flip_node_def)
  then show ?thesis by (cases "rh_cells h SENT") (auto simp: sentinel_ok_def)
qed

lemma rb_at_flip [simp]: "rb_at (flip h) t (flip_tree T) \<longleftrightarrow> rb_at h t T"
  unfolding rb_at_def using flip_tree_at [of h None T] by (simp add: addrs_flip_rev del: flip_simps(4))

lemma rearranged_flip:
  "rearranged (flip h) t (flip_tree T) h' T' \<longleftrightarrow> rearranged h t T (flip h') (flip_tree T')"
  unfolding rearranged_def using rb_at_flip [of "flip h'" _ "flip_tree T'"] by simp

lemma flip_put_color: "put_color (flip h) p c = bindE (put_color h p c) (\<lambda>h. Inr (flip h))"
  by (simp add: put_defs flip_upd flip_node_def comp_def)

lemma left_is_flipped_right:
  "rbLeftRotate (flip h) t y = bindE (rbRightRotate h t y) (\<lambda>(h, t). Inr (flip h, t))"
proof -
  have "rbRightRotate h t y = bindE (rbLeftRotate (flip h) t y) (\<lambda>(h, t). Inr (flip h, t))"
    using right_is_flipped_left [of "flip h" t y] by simp
  then show ?thesis by (cases "rbLeftRotate (flip h) t y") auto
qed

lemma fixup_right_flipped:
  "fixup_right (flip h) t z p g = bindE (fixup_left h t z p g) (\<lambda>(h, t, z). Inr (flip h, t, z))"
  unfolding fixup_right_def fixup_left_def
  by (simp add: flip_put_color flip_get bindE_assoc split_beta right_is_flipped_left
      left_is_flipped_right cong: if_cong)

section \<open>One round of the repair\<close>

text \<open>
  What a round makes of the subtree \<open>G\<close> of the grandparent: a subtree \<open>S\<close> of the same
  entries and nodes and of the same black height, that is either red with \<open>z\<close> its root, or
  black with \<open>z\<close> a child of the root.
\<close>

definition round_ok :: "nat \<Rightarrow> ('k, 'v) rbt \<Rightarrow> ('k, 'v) rbt \<Rightarrow> nat \<Rightarrow> bool" where
  "round_ok n G S z \<longleftrightarrow> entries S = entries G \<and> bal n S \<and>
     ((\<exists>l k v r. S = Nd l z k v RB_RED r) \<or>
      (\<exists>l k v r m km vm R. S = Nd (Nd l z k v RB_RED r) m km vm RB_BLACK R) \<or>
      (\<exists>l k v r m km vm R. S = Nd R m km vm RB_BLACK (Nd l z k v RB_RED r)))"

lemma round_ok_flip: "round_ok n (flip_tree G) (flip_tree S) z \<longleftrightarrow> round_ok n G S z"
proof -
  have "round_ok n (flip_tree G) (flip_tree S) z" if "round_ok n G S z" for G S :: "('a, 'b) rbt"
    using that unfolding round_ok_def entries_flip by (auto; fastforce)
  then show ?thesis by (metis flip_tree_flip)
qed

lemma fixup_left_red:
  assumes "rb_at h t (plug (fill Z f) (InLeft ga gk gv RB_BLACK (Nd ul ua uk uv RB_RED ur) # gs))"
    and "Z = Nd l a k v RB_RED r" and "fcolor f = RB_RED"
    and "bal n Z" and "bal n (fside f)" and "bal n (Nd ul ua uk uv RB_RED ur)"
  shows "\<exists>h' S. fixup_left h t (Some a) (Some (faddr f)) (Some ga) = Inr (h', t, Some ga) \<and>
     t_root t = root_ptr (plug S gs) \<and>
     rearranged h t (plug (fill Z f) (InLeft ga gk gv RB_BLACK (Nd ul ua uk uv RB_RED ur) # gs))
       h' (plug S gs) \<and>
     round_ok (Suc n) (Nd (fill Z f) ga gk gv RB_BLACK (Nd ul ua uk uv RB_RED ur)) S ga"
proof -
  let ?U = "Nd ul ua uk uv RB_RED ur" and ?G = "Nd (fill Z f) ga gk gv RB_BLACK (Nd ul ua uk uv RB_RED ur)"
  let ?p = "faddr f" and ?T = "plug ?G gs"
  have at: "rb_at h t ?T" using assms(1) by simp
  have d: "distinct (addrs ?G)" "set (addrs ?G) \<inter> set (paddrs gs) = {}"
    using at by (auto simp: rb_at_def distinct_plug)
  then have ne: "ua \<noteq> ?p" "ua \<noteq> ga" "?p \<noteq> ga" "ga \<notin> set (paddrs gs)" "ua \<notin> set (paddrs gs)"
    "?p \<notin> set (paddrs gs)" by auto
  have g: "rh_cells h ga = Some \<lparr>rb_key = gk, rb_value = gv, rb_color = RB_BLACK,
      rb_left = Some ?p, rb_right = Some ua, rb_parent = hole_parent gs\<rparr>"
    using rb_at_place(1) [OF at] by simp
  have "rb_at h t (plug ?U (InRight (fill Z f) ga gk gv RB_BLACK # gs))" using at by simp
  then have u: "color_of h (Some ua) = Inr RB_RED" using rb_at_place(1) by fastforce
  obtain h1 where h1: "put_color h (Some ua) RB_BLACK = Inr h1" "rb_at h1 t (recolor ua RB_BLACK ?T)"
      "rearranged h t ?T h1 (recolor ua RB_BLACK ?T)"
    using paint_at [OF at, of ua RB_BLACK] by auto
  obtain h2 where h2: "put_color h1 (Some ?p) RB_BLACK = Inr h2"
      "rb_at h2 t (recolor ?p RB_BLACK (recolor ua RB_BLACK ?T))"
      "rearranged h1 t (recolor ua RB_BLACK ?T) h2 (recolor ?p RB_BLACK (recolor ua RB_BLACK ?T))"
    using paint_at [OF h1(2), of ?p RB_BLACK] by auto
  let ?T3 = "recolor ga RB_RED (recolor ?p RB_BLACK (recolor ua RB_BLACK ?T))"
  obtain h3 where h3: "put_color h2 (Some ga) RB_RED = Inr h3" "rb_at h3 t ?T3"
      "rearranged h2 t (recolor ?p RB_BLACK (recolor ua RB_BLACK ?T)) h3 ?T3"
    using paint_at [OF h2(2), of ga RB_RED] by auto
  have run: "fixup_left h t (Some a) (Some ?p) (Some ga) = Inr (h3, t, Some ga)"
    using g u h1(1) h2(1) h3(1) by (simp add: fixup_left_def)
  let ?S = "recolor ga RB_RED (recolor ?p RB_BLACK (recolor ua RB_BLACK ?G))"
  have S: "?T3 = plug ?S gs" 
    by (simp only: recolor_plug [OF ne(4)] recolor_plug [OF ne(5)] recolor_plug [OF ne(6)])
  have root: "t_root t = root_ptr ?T3" using h3(2) by (simp add: rb_at_def)
  have "rearranged h t ?T h3 ?T3"
    using h1(2,3) h2(2,3) h3(3) at by (auto simp: rearranged_def rb_at_def intro: same_but_trans)
  moreover have "round_ok (Suc n) ?G ?S ga"
  proof -
    have "?S = Nd (recolor ?p RB_BLACK (fill Z f)) ga gk gv RB_RED (Nd ul ua uk uv RB_BLACK ur)"
      using d(1) by (cases f) (auto simp: assms(2))
    moreover have "recolor ?p RB_BLACK (fill Z f) =
        (case f of InLeft pa pk pv c s \<Rightarrow> Nd Z pa pk pv RB_BLACK s
                 | InRight s pa pk pv c \<Rightarrow> Nd s pa pk pv RB_BLACK Z)"
      using d(1) by (cases f) (auto simp: assms(2))
    ultimately show ?thesis
      using assms(2-) by (cases f) (auto simp: round_ok_def bal_def)
  qed
  ultimately show ?thesis using run root S by (metis plug.simps(2) fill.simps(1))
qed

text \<open>With a black uncle, the round ends with a right rotation of the grandparent.\<close>

lemma fixup_tail:
  fixes h :: "('k, 'v) rbheap" and t :: "'k mboxRBTree"
  assumes "rb_at h t (plug (Nd (Nd (Nd l z k v RB_RED r) pa pk pv RB_RED s) ga gk gv RB_BLACK U) gs)"
  shows "\<exists>h'. bindE (parent_of h (Some z)) (\<lambda>p. bindE (put_color h p RB_BLACK) (\<lambda>h.
       bindE (parent_of h p) (\<lambda>g. bindE (put_color h g RB_RED) (\<lambda>h.
       bindE (rbRightRotate h t g) (\<lambda>(h, t). Inr (h, t, Some z)))))) =
     Inr (h', t\<lparr>t_root := root_ptr (plug (Nd (Nd l z k v RB_RED r) pa pk pv RB_BLACK
            (Nd s ga gk gv RB_RED U)) gs)\<rparr>, Some z) \<and>
     rearranged h t (plug (Nd (Nd (Nd l z k v RB_RED r) pa pk pv RB_RED s) ga gk gv RB_BLACK U) gs) h'
       (plug (Nd (Nd l z k v RB_RED r) pa pk pv RB_BLACK (Nd s ga gk gv RB_RED U)) gs)"
proof -
  let ?G = "Nd (Nd (Nd l z k v RB_RED r) pa pk pv RB_RED s) ga gk gv RB_BLACK U"
  let ?T = "plug ?G gs"
  have d: "distinct (addrs ?G)" "set (addrs ?G) \<inter> set (paddrs gs) = {}"
    using assms by (auto simp: rb_at_def distinct_plug)
  then have ne: "pa \<notin> set (paddrs gs)" "ga \<notin> set (paddrs gs)" by auto
  have "rb_at h t (plug (Nd l z k v RB_RED r) (InLeft pa pk pv RB_RED s # InLeft ga gk gv RB_BLACK U # gs))"
    using assms by simp
  then have z: "parent_of h (Some z) = Inr (Some pa)" using rb_at_place(1) by fastforce
  obtain h1 where h1: "put_color h (Some pa) RB_BLACK = Inr h1" "rb_at h1 t (recolor pa RB_BLACK ?T)"
      "rearranged h t ?T h1 (recolor pa RB_BLACK ?T)"
    using paint_at [OF assms, of pa RB_BLACK] by auto
  have T1: "recolor pa RB_BLACK ?T =
      plug (Nd (Nd (Nd l z k v RB_RED r) pa pk pv RB_BLACK s) ga gk gv RB_BLACK U) gs"
    using d by (auto simp: recolor_plug [OF ne(1)])
  have "rb_at h1 t (plug (Nd (Nd l z k v RB_RED r) pa pk pv RB_BLACK s) (InLeft ga gk gv RB_BLACK U # gs))"
    using h1(2) T1 by simp
  then have p: "parent_of h1 (Some pa) = Inr (Some ga)" using rb_at_place(1) by fastforce
  obtain h2 where h2: "put_color h1 (Some ga) RB_RED = Inr h2"
      "rb_at h2 t (recolor ga RB_RED (recolor pa RB_BLACK ?T))"
      "rearranged h1 t (recolor pa RB_BLACK ?T) h2 (recolor ga RB_RED (recolor pa RB_BLACK ?T))"
    using paint_at [OF h1(2), of ga RB_RED] by auto
  have T2: "recolor ga RB_RED (recolor pa RB_BLACK ?T) =
      plug (Nd (Nd (Nd l z k v RB_RED r) pa pk pv RB_BLACK s) ga gk gv RB_RED U) gs"
    unfolding T1 using d by (auto simp: recolor_plug [OF ne(2)])
  obtain h3 where h3: "rbRightRotate h2 t (Some ga) = Inr (h3, t\<lparr>t_root := root_ptr (plug (Nd
        (Nd l z k v RB_RED r) pa pk pv RB_BLACK (Nd s ga gk gv RB_RED U)) gs)\<rparr>)"
      "rearranged h2 t (recolor ga RB_RED (recolor pa RB_BLACK ?T)) h3 (plug (Nd
        (Nd l z k v RB_RED r) pa pk pv RB_BLACK (Nd s ga gk gv RB_RED U)) gs)"
    using right_rotate_at h2(2) unfolding T2 by blast
  have "rearranged h t ?T h3 (plug (Nd (Nd l z k v RB_RED r) pa pk pv RB_BLACK
      (Nd s ga gk gv RB_RED U)) gs)"
    using h1(3) h2(3) h3(2) by (auto simp: rearranged_def intro: same_but_trans)
  then show ?thesis using z p h1(1) h2(1) h3(1) by auto
qed

lemma fixup_left_black:
  assumes "rb_at h t (plug (fill Z f) (InLeft ga gk gv RB_BLACK U # gs))" and "rcolor U = RB_BLACK"
    and "Z = Nd l a k v RB_RED r" and "fcolor f = RB_RED"
    and "bal n Z" and "bal n (fside f)" and "bal n U" and "rcolor (fside f) = RB_BLACK"
  shows "\<exists>h' z S. fixup_left h t (Some a) (Some (faddr f)) (Some ga) =
       Inr (h', t\<lparr>t_root := root_ptr (plug S gs)\<rparr>, Some z) \<and>
     rearranged h t (plug (fill Z f) (InLeft ga gk gv RB_BLACK U # gs)) h' (plug S gs) \<and>
     round_ok (Suc n) (Nd (fill Z f) ga gk gv RB_BLACK U) S z"
proof -
  have at: "rb_at h t (plug (Nd (fill Z f) ga gk gv RB_BLACK U) gs)" using assms(1) by simp
  have g: "rh_cells h ga = Some \<lparr>rb_key = gk, rb_value = gv, rb_color = RB_BLACK,
      rb_left = Some (faddr f), rb_right = root_ptr U, rb_parent = hole_parent gs\<rparr>"
    using rb_at_place(1) [OF at] by simp
  have "tree_at (rh_cells h) (Some ga) U" "sentinel_ok h"
    using at by (auto simp: rb_at_def tree_at_plug)
  then have u: "color_of h (root_ptr U) = Inr RB_BLACK"
    using color_of_root assms(2) by (cases U) fastforce+
  show ?thesis
  proof (cases f)
    case (InLeft pa pk pv c s)
    have c: "c = RB_RED" using assms(4) InLeft by simp
    have "rb_at h t (plug (Nd Z pa pk pv RB_RED s) (InLeft ga gk gv RB_BLACK U # gs))"
      using at InLeft c by simp
    note p = rb_at_place(1) [OF this]
    have "Some a \<noteq> root_ptr s"
      using at InLeft by (cases s) (auto simp: assms(3) rb_at_def distinct_plug RB_SENTINAL_def
          tree_at_plug)
    moreover have at1: "rb_at h t (plug (Nd (Nd (Nd l a k v RB_RED r) pa pk pv RB_RED s)
        ga gk gv RB_BLACK U) gs)"
      using at InLeft c assms(3) by simp
    let ?S = "Nd (Nd l a k v RB_RED r) pa pk pv RB_BLACK (Nd s ga gk gv RB_RED U)"
    obtain h' where h': "bindE (parent_of h (Some a)) (\<lambda>p. bindE (put_color h p RB_BLACK) (\<lambda>h.
       bindE (parent_of h p) (\<lambda>g. bindE (put_color h g RB_RED) (\<lambda>h.
       bindE (rbRightRotate h t g) (\<lambda>(h, t). Inr (h, t, Some a)))))) =
        Inr (h', t\<lparr>t_root := root_ptr (plug ?S gs)\<rparr>, Some a)"
      "rearranged h t (plug (fill Z f) (InLeft ga gk gv RB_BLACK U # gs)) h' (plug ?S gs)"
      using fixup_tail [OF at1] InLeft c assms(3) by auto
    ultimately have "fixup_left h t (Some a) (Some (faddr f)) (Some ga) =
        Inr (h', t\<lparr>t_root := root_ptr (plug ?S gs)\<rparr>, Some a)"
      using g u p by (simp add: fixup_left_def InLeft)
    moreover have "round_ok (Suc n) (Nd (fill Z f) ga gk gv RB_BLACK U) ?S a"
      using assms(2-8) by (auto simp: InLeft c round_ok_def bal_def)
    ultimately show ?thesis using h'(2) by blast
  next
    case (InRight s pa pk pv c)
    have c: "c = RB_RED" using assms(4) InRight by simp
    have at1: "rb_at h t (plug (Nd s pa pk pv RB_RED (Nd l a k v RB_RED r)) (InLeft ga gk gv RB_BLACK U # gs))"
      using at InRight c assms(3) by simp
    note p = rb_at_place(1) [OF this]
    let ?T1 = "plug (Nd (Nd (Nd s pa pk pv RB_RED l) a k v RB_RED r) ga gk gv RB_BLACK U) gs"
    obtain h1 where h1: "rbLeftRotate h t (Some pa) = Inr (h1, t\<lparr>t_root := root_ptr ?T1\<rparr>)"
        "rearranged h t (plug (fill Z f) (InLeft ga gk gv RB_BLACK U # gs)) h1 ?T1"
      using left_rotate_at [OF at1] InRight c assms(3) by auto
    have at2: "rb_at h1 (t\<lparr>t_root := root_ptr ?T1\<rparr>) ?T1" using h1(2) by (simp add: rearranged_def)
    let ?S = "Nd (Nd s pa pk pv RB_RED l) a k v RB_BLACK (Nd r ga gk gv RB_RED U)"
    obtain h2 where h2: "bindE (parent_of h1 (Some pa)) (\<lambda>p. bindE (put_color h1 p RB_BLACK) (\<lambda>h.
       bindE (parent_of h p) (\<lambda>g. bindE (put_color h g RB_RED) (\<lambda>h.
       bindE (rbRightRotate h (t\<lparr>t_root := root_ptr ?T1\<rparr>) g) (\<lambda>(h, t). Inr (h, t, Some pa)))))) =
        Inr (h2, t\<lparr>t_root := root_ptr (plug ?S gs)\<rparr>, Some pa)"
      "rearranged h1 (t\<lparr>t_root := root_ptr ?T1\<rparr>) ?T1 h2 (plug ?S gs)"
      using fixup_tail [OF at2] by auto
    have "fixup_left h t (Some a) (Some (faddr f)) (Some ga) =
        Inr (h2, t\<lparr>t_root := root_ptr (plug ?S gs)\<rparr>, Some pa)"
      using g u p h1(1) h2(1) by (simp add: fixup_left_def InRight)
    moreover have "round_ok (Suc n) (Nd (fill Z f) ga gk gv RB_BLACK U) ?S pa"
      using assms(2-8) by (auto simp: InRight c round_ok_def bal_def)
    ultimately show ?thesis using rearranged_trans [OF h1(2) h2(2)] by blast
  qed
qed

lemma fixup_left_round:
  assumes "rb_at h t (plug (fill Z f) (InLeft ga gk gv RB_BLACK U # gs))"
    and "Z = Nd l a k v RB_RED r" and "fcolor f = RB_RED"
    and "bal n Z" and "bal n (fside f)" and "bal n U" and "rcolor (fside f) = RB_BLACK"
  shows "\<exists>h' z S. fixup_left h t (Some a) (Some (faddr f)) (Some ga) =
       Inr (h', t\<lparr>t_root := root_ptr (plug S gs)\<rparr>, Some z) \<and>
     rearranged h t (plug (fill Z f) (InLeft ga gk gv RB_BLACK U # gs)) h' (plug S gs) \<and>
     round_ok (Suc n) (Nd (fill Z f) ga gk gv RB_BLACK U) S z"
proof (cases "rcolor U = RB_RED")
  case True
  then obtain ul ua uk uv ur where U: "U = Nd ul ua uk uv RB_RED ur" by (rule rcolor_redE)
  obtain h' S where r: "fixup_left h t (Some a) (Some (faddr f)) (Some ga) = Inr (h', t, Some ga)"
    "t_root t = root_ptr (plug S gs)"
    "rearranged h t (plug (fill Z f) (InLeft ga gk gv RB_BLACK U # gs)) h' (plug S gs)"
    "round_ok (Suc n) (Nd (fill Z f) ga gk gv RB_BLACK U) S ga"
    using fixup_left_red [OF assms(1) [unfolded U] assms(2-5) assms(6) [unfolded U]] U by auto
  moreover have "t\<lparr>t_root := root_ptr (plug S gs)\<rparr> = t" using r(2) by simp
  ultimately show ?thesis by metis
next
  case False
  then show ?thesis using fixup_left_black [OF assms(1) _ assms(2-7)] rcolor_cases by blast
qed

lemma fixup_right_round:
  assumes "rb_at h t (plug (fill Z f) (InRight U ga gk gv RB_BLACK # gs))"
    and "Z = Nd l a k v RB_RED r" and "fcolor f = RB_RED"
    and "bal n Z" and "bal n (fside f)" and "bal n U" and "rcolor (fside f) = RB_BLACK"
  shows "\<exists>h' z S. fixup_right h t (Some a) (Some (faddr f)) (Some ga) =
       Inr (h', t\<lparr>t_root := root_ptr (plug S gs)\<rparr>, Some z) \<and>
     rearranged h t (plug (fill Z f) (InRight U ga gk gv RB_BLACK # gs)) h' (plug S gs) \<and>
     round_ok (Suc n) (Nd U ga gk gv RB_BLACK (fill Z f)) S z"
proof -
  let ?T = "plug (fill Z f) (InRight U ga gk gv RB_BLACK # gs)" and ?gs = "map flip_frame gs"
  have T: "flip_tree ?T = plug (fill (flip_tree Z) (flip_frame f))
      (InLeft ga gk gv RB_BLACK (flip_tree U) # ?gs)"
    using plug_flip [of "fill Z f" "InRight U ga gk gv RB_BLACK # gs"] by (simp add: fill_flip)
  have at: "rb_at (flip h) t (plug (fill (flip_tree Z) (flip_frame f))
      (InLeft ga gk gv RB_BLACK (flip_tree U) # ?gs))"
    using assms(1) unfolding T [symmetric] rb_at_flip .
  have Z: "flip_tree Z = Nd (flip_tree r) a k v RB_RED (flip_tree l)" by (simp add: assms(2))
  obtain h' z S where r:
    "fixup_left (flip h) t (Some a) (Some (faddr (flip_frame f))) (Some ga) =
       Inr (h', t\<lparr>t_root := root_ptr (plug S ?gs)\<rparr>, Some z)"
    "rearranged (flip h) t (flip_tree ?T) h' (plug S ?gs)"
    "round_ok (Suc n) (Nd (fill (flip_tree Z) (flip_frame f)) ga gk gv RB_BLACK (flip_tree U)) S z"
    using fixup_left_round [OF at Z, of n] assms(3-7) unfolding T by fastforce
  have S: "plug S ?gs = flip_tree (plug (flip_tree S) gs)"
    using plug_flip [of "flip_tree S" gs] by simp
  have "fixup_right h t (Some a) (Some (faddr f)) (Some ga) =
      Inr (flip h', t\<lparr>t_root := root_ptr (plug (flip_tree S) gs)\<rparr>, Some z)"
    using fixup_right_flipped [of "flip h" t "Some a" "Some (faddr f)" "Some ga"] r(1) by (simp add: S)
  moreover have "rearranged h t ?T (flip h') (plug (flip_tree S) gs)"
    using r(2) unfolding rearranged_flip S by simp
  moreover have "round_ok (Suc n) (Nd U ga gk gv RB_BLACK (fill Z f)) (flip_tree S) z"
    using r(3) round_ok_flip [of "Suc n" "Nd U ga gk gv RB_BLACK (fill Z f)" "flip_tree S" z]
    by (simp add: fill_flip)
  ultimately show ?thesis by blast
qed

section \<open>The repair loop\<close>

text \<open>
  Started at a red node of a tree that is balanced everywhere else, the loop ends in a tree of
  the same entries and nodes that is balanced once its root is painted black.
\<close>

definition repaired :: "('k, 'v) rbt \<Rightarrow> ('k, 'v) rbt \<Rightarrow> bool" where
  "repaired T T' \<longleftrightarrow> entries T' = entries T \<and> invc T' \<and> invh T'"

lemma entries_fill:
  "entries (fill t f) = (case f of InLeft a k v c r \<Rightarrow> entries t @ (k, v) # entries r
     | InRight l a k v c \<Rightarrow> entries l @ (k, v) # entries t)"
  by (cases f) auto

lemma entries_plug_cong: "entries s = entries t \<Longrightarrow> entries (plug s fs) = entries (plug t fs)"
proof (induction fs arbitrary: s t)
  case (Cons f fs)
  have "entries (fill s f) = entries (fill t f)"
    using Cons.prems by (cases f) (simp_all add: entries_fill)
  then show ?case unfolding plug.simps by (rule Cons.IH)
qed simp

lemma loop_stops:
  assumes "rb_at h t (plug (Nd l a k v c r) (f # fs))" and "fcolor f = RB_BLACK"
  shows "rbInsertFixup_loop fuel h t (Some a) = Inr (h, t)"
proof -
  have z: "parent_of h (Some a) = Inr (Some (faddr f))" using rb_at_place(1) [OF assms(1)] by simp
  have "path_at (rh_cells h) (Some a) (f # fs)"
    using assms(1) unfolding rb_at_def tree_at_plug by simp
  then obtain n where "rh_cells h (faddr f) = Some n" "rb_color n = RB_BLACK"
    using assms(2) by (cases f) auto
  then show ?thesis using z by (subst rbInsertFixup_loop.simps) simp
qed

lemma left_of_frame:
  assumes "rb_at h t (plug Z (f # g # gs))"
  shows "parent_of h (Some (faddr f)) = Inr (Some (faddr g))"
    and "\<exists>p. left_of h (Some (faddr g)) = Inr p \<and>
      (Some (faddr f) = p \<longleftrightarrow> (\<exists>b kb vb c s. g = InLeft b kb vb c s))"
    and "color_of h (Some (faddr f)) = Inr (fcolor f)"
proof -
  have at: "path_at (rh_cells h) (root_ptr Z) (f # g # gs)"
    using assms unfolding rb_at_def tree_at_plug by simp
  then show "parent_of h (Some (faddr f)) = Inr (Some (faddr g))"
    "color_of h (Some (faddr f)) = Inr (fcolor f)"
    by (cases f; simp)+
  have at2: "path_at (rh_cells h) (Some (faddr f)) (g # gs)" "faddr f \<noteq> SENT"
    using at by (cases f; simp)+
  have "distinct (paddrs (f # g # gs))"
    using assms by (simp add: rb_at_def distinct_plug del: plug.simps paddrs_simps)
  then have "faddr f \<notin> set (addrs (fside g))" by auto
  then have ne: "Some (faddr f) \<noteq> root_ptr (fside g)"
    using at2(2) by (cases "fside g") (auto simp: RB_SENTINAL_def)
  show "\<exists>p. left_of h (Some (faddr g)) = Inr p \<and>
      (Some (faddr f) = p \<longleftrightarrow> (\<exists>b kb vb c s. g = InLeft b kb vb c s))"
    using at2(1) ne by (cases g) auto
qed

lemma round_on_path:
  assumes "rb_at h t (plug Z (f # g # gs))" and "Z = Nd l a k v RB_RED r" and "bal n Z"
    and "path_ok n (f # g # gs)" and "fcolor f = RB_RED"
  shows "\<exists>h' z S. bindE (left_of h (Some (faddr g))) (\<lambda>gl.
       if Some (faddr f) = gl then fixup_left h t (Some a) (Some (faddr f)) (Some (faddr g))
       else fixup_right h t (Some a) (Some (faddr f)) (Some (faddr g))) =
       Inr (h', t\<lparr>t_root := root_ptr (plug S gs)\<rparr>, Some z) \<and>
     rearranged h t (plug Z (f # g # gs)) h' (plug S gs) \<and>
     round_ok (Suc n) (fill (fill Z f) g) S z"
proof -
  obtain p where p: "left_of h (Some (faddr g)) = Inr p"
    "Some (faddr f) = p \<longleftrightarrow> (\<exists>b kb vb c s. g = InLeft b kb vb c s)"
    using left_of_frame(2) [OF assms(1)] by blast
  have c: "fcolor g = RB_BLACK" "bal n (fside f)" "rcolor (fside f) = RB_BLACK" "bal n (fside g)"
    using assms(4,5) by auto
  show ?thesis
  proof (cases g)
    case (InLeft ga gk gv gc U)
    then show ?thesis
      using fixup_left_round [of h t Z f ga gk gv U gs l a k v r n] assms c p by fastforce
  next
    case (InRight U ga gk gv gc)
    then show ?thesis
      using fixup_right_round [of h t Z f U ga gk gv gs l a k v r n] assms c p by fastforce
  qed
qed

lemma fixup_loop_ok:
  assumes "rb_at h t (plug Z fs)" and "Z = Nd l a k v RB_RED r" and "bal n Z"
    and "path_ok n fs" and "fs \<noteq> []" and "length fs \<le> 2 * fuel"
  shows "\<exists>h' T'. rbInsertFixup_loop fuel h t (Some a) = Inr (h', t\<lparr>t_root := root_ptr T'\<rparr>) \<and>
     rearranged h t (plug Z fs) h' T' \<and> repaired (plug Z fs) T'"
  using assms
proof (induction fuel arbitrary: h t Z l a k v r n fs)
  case (Suc fuel)
  obtain f fs' where fs: "fs = f # fs'" using Suc.prems(5) by (cases fs) auto
  show ?case
  proof (cases "fcolor f = RB_BLACK")
    case True
    have "rbInsertFixup_loop (Suc fuel) h t (Some a) = Inr (h, t)"
      using loop_stops Suc.prems(1,2) True fs by blast
    moreover have "repaired (plug Z fs) (plug Z fs)"
      using bal_plug [OF Suc.prems(3,4)] fs True by (auto simp: repaired_def)
    moreover have "t\<lparr>t_root := root_ptr (plug Z fs)\<rparr> = t" using Suc.prems(1) by (simp add: rb_at_def)
    ultimately show ?thesis using rearranged_refl [OF Suc.prems(1)] by metis
  next
    case False
    then have red: "fcolor f = RB_RED" by simp
    then obtain g gs where g: "fs' = g # gs" "fcolor g = RB_BLACK"
      using Suc.prems(4) fs by auto
    note at = Suc.prems(1) [unfolded fs g(1)]
    obtain h1 z S where round: "bindE (left_of h (Some (faddr g))) (\<lambda>gl.
         if Some (faddr f) = gl then fixup_left h t (Some a) (Some (faddr f)) (Some (faddr g))
         else fixup_right h t (Some a) (Some (faddr f)) (Some (faddr g))) =
         Inr (h1, t\<lparr>t_root := root_ptr (plug S gs)\<rparr>, Some z)"
       "rearranged h t (plug Z (f # g # gs)) h1 (plug S gs)" "round_ok (Suc n) (fill (fill Z f) g) S z"
      using round_on_path [OF at Suc.prems(2,3) _ red] Suc.prems(4) fs g(1) by blast
    let ?t1 = "t\<lparr>t_root := root_ptr (plug S gs)\<rparr>"
    have at1: "rb_at h1 ?t1 (plug S gs)" using round(2) by (simp add: rearranged_def)
    have run: "rbInsertFixup_loop (Suc fuel) h t (Some a) =
        (if Some z = root_ptr (plug S gs) then Inr (h1, ?t1)
         else rbInsertFixup_loop fuel h1 ?t1 (Some z))"
    proof -
      have "parent_of h (Some a) = Inr (Some (faddr f))"
        using rb_at_place(1) Suc.prems(1,2) fs by fastforce
      moreover obtain gl where gl: "left_of h (Some (faddr g)) = Inr gl"
        using left_of_frame(2) [OF at] by blast
      ultimately show ?thesis
        using round(1) unfolding gl bindE.simps
        by (subst rbInsertFixup_loop.simps, simp only: left_of_frame(1,3) [OF at] gl bindE.simps
            red if_False simp_thms nat.case prod.case) simp
    qed
    have ent: "entries (plug S gs) = entries (plug Z fs)"
      using entries_plug_cong [of S "fill (fill Z f) g" gs] round(3) fs g(1)
      by (simp add: round_ok_def)
    have po: "path_ok (Suc n) gs" using Suc.prems(4) fs g red by simp
    have bS: "bal (Suc n) S" using round(3) by (simp add: round_ok_def)
    have z: "Some z \<noteq> root_ptr (plug S gs)" if "gs \<noteq> [] \<or> (\<exists>m. root_ptr S = Some m \<and> m \<noteq> z)"
      "z \<in> set (addrs S)"
    proof -
      have "set (addrs S) \<inter> set (paddrs gs) = {}" using at1 by (auto simp: rb_at_def distinct_plug)
      moreover have "faddr (last gs) \<in> set (paddrs gs)" if "gs \<noteq> []"
        using last_in_set [OF that] by (auto simp: paddrs_def intro!: bexI [of _ "last gs"])
      ultimately show ?thesis using that by (auto simp: root_ptr_plug)
    qed
    consider (red) l' k' v' r' where "S = Nd l' z k' v' RB_RED r'"
      | (black) l' k' v' r' m km vm R where "S = Nd (Nd l' z k' v' RB_RED r') m km vm RB_BLACK R \<or>
                        S = Nd R m km vm RB_BLACK (Nd l' z k' v' RB_RED r')"
      using round(3) unfolding round_ok_def by blast
    then show ?thesis
    proof cases
      case red
      show ?thesis
      proof (cases "gs = []")
        case True
        have "rbInsertFixup_loop (Suc fuel) h t (Some a) = Inr (h1, ?t1)"
          using run red True by simp
        moreover have "repaired (plug Z fs) (plug S gs)"
          using ent bS True by (simp add: repaired_def bal_def)
        ultimately show ?thesis using round(2) fs g(1) by blast
      next
        case False
        obtain h' T' where IH: "rbInsertFixup_loop fuel h1 ?t1 (Some z) =
            Inr (h', ?t1\<lparr>t_root := root_ptr T'\<rparr>)" "rearranged h1 ?t1 (plug S gs) h' T'"
            "repaired (plug S gs) T'"
          using Suc.IH [OF at1 red bS po False] Suc.prems(6) fs g(1) by auto
        have "Some z \<noteq> root_ptr (plug S gs)" using z False red by simp
        then show ?thesis
          using run IH rearranged_trans [OF round(2) IH(2)] ent fs g(1)
          by (auto simp: repaired_def)
      qed
    next
      case black
      have ne: "Some z \<noteq> root_ptr (plug S gs)"
        using black at1 by (intro z) (auto simp: rb_at_def distinct_plug)
      have "rbInsertFixup_loop fuel h1 ?t1 (Some z) = Inr (h1, ?t1)"
        using black
      proof
        assume S: "S = Nd (Nd l' z k' v' RB_RED r') m km vm RB_BLACK R"
        have "rb_at h1 ?t1 (plug (Nd l' z k' v' RB_RED r') (InLeft m km vm RB_BLACK R # gs))"
          using at1 by (simp add: S)
        from loop_stops [OF this] show ?thesis by simp
      next
        assume S: "S = Nd R m km vm RB_BLACK (Nd l' z k' v' RB_RED r')"
        have "rb_at h1 ?t1 (plug (Nd l' z k' v' RB_RED r') (InRight R m km vm RB_BLACK # gs))"
          using at1 by (simp add: S)
        from loop_stops [OF this] show ?thesis by simp
      qed
      moreover have "invc (plug S gs) \<and> invh (plug S gs)"
        using bal_plug [OF bS po] black by auto
      ultimately show ?thesis
        using run ne round(2) ent fs g(1) by (auto simp: repaired_def)
    qed
  qed
qed simp

section \<open>The search order\<close>

definition klt :: "'k rbCompareKey \<Rightarrow> 'k void_ptr \<Rightarrow> 'k void_ptr \<Rightarrow> bool" where
  "klt cmp x y \<longleftrightarrow> (case cmp x y of Inl _ \<Rightarrow> False | Inr r \<Rightarrow> r < 0)"

definition keq :: "'k rbCompareKey \<Rightarrow> 'k void_ptr \<Rightarrow> 'k void_ptr \<Rightarrow> bool" where
  "keq cmp x y \<longleftrightarrow> cmp x y = Inr 0"

definition ordered :: "'k rbCompareKey \<Rightarrow> ('k, 'v) rbt \<Rightarrow> bool" where
  "ordered cmp T \<longleftrightarrow> sorted_wrt (klt cmp) (map fst (entries T))"

abbreviation keys :: "('k, 'v) rbt \<Rightarrow> 'k void_ptr set" where
  "keys T \<equiv> fst ` set (entries T)"

text \<open>The entries on either side of a hole.\<close>

fun lefts :: "('k, 'v) path \<Rightarrow> ('k void_ptr \<times> 'v void_ptr) list" where
  "lefts [] = []"
| "lefts (InLeft a k v c r # fs) = lefts fs"
| "lefts (InRight l a k v c # fs) = lefts fs @ entries l @ [(k, v)]"

fun rights :: "('k, 'v) path \<Rightarrow> ('k void_ptr \<times> 'v void_ptr) list" where
  "rights [] = []"
| "rights (InLeft a k v c r # fs) = (k, v) # entries r @ rights fs"
| "rights (InRight l a k v c # fs) = rights fs"

lemma entries_plug: "entries (plug t fs) = lefts fs @ entries t @ rights fs"
proof (induction fs arbitrary: t)
  case (Cons f fs)
  then show ?case by (cases f) auto
qed simp

text \<open>The walk from a place down to where a key belongs.\<close>

fun locate :: "'k rbCompareKey \<Rightarrow> 'k void_ptr \<Rightarrow> ('k, 'v) rbt \<Rightarrow> ('k, 'v) path \<Rightarrow> ('k, 'v) path option" where
  "locate cmp key Lf fs = Some fs"
| "locate cmp key (Nd l a k v c r) fs =
     (if klt cmp key k then locate cmp key l (InLeft a k v c r # fs)
      else if keq cmp key k then None
      else locate cmp key r (InRight l a k v c # fs))"

lemma locate_plug: "locate cmp key Z fs = Some gs \<Longrightarrow> plug Lf gs = plug Z fs"
  by (induction Z arbitrary: fs) (auto split: if_splits)

text \<open>
  What the tree needs of the comparison of keys: on a set \<open>S\<close> of keys it returns, exchanging
  the operands exchanges "smaller" and "greater", and "smaller" is transitive. Being equal
  need not be transitive.
\<close>

locale key_order =
  fixes cmp :: "'k rbCompareKey" and S :: "'k void_ptr set"
  assumes returns: "x \<in> S \<Longrightarrow> y \<in> S \<Longrightarrow> \<exists>r. cmp x y = Inr r"
    and swap: "x \<in> S \<Longrightarrow> y \<in> S \<Longrightarrow> cmp x y = Inr r \<Longrightarrow> cmp y x = Inr s \<Longrightarrow> s < 0 \<longleftrightarrow> 0 < r"
    and trans: "x \<in> S \<Longrightarrow> y \<in> S \<Longrightarrow> z \<in> S \<Longrightarrow> klt cmp x y \<Longrightarrow> klt cmp y z \<Longrightarrow> klt cmp x z"
begin

lemma cases3:
  assumes "x \<in> S" and "y \<in> S"
  obtains (lt) r where "cmp x y = Inr r" "r < 0" "klt cmp x y" "\<not> klt cmp y x" "\<not> keq cmp x y"
  | (eq) "cmp x y = Inr 0" "keq cmp x y" "\<not> klt cmp x y" "\<not> klt cmp y x"
  | (gt) r where "cmp x y = Inr r" "0 < r" "klt cmp y x" "\<not> klt cmp x y" "\<not> keq cmp x y"
proof -
  obtain r s where r: "cmp x y = Inr r" and s: "cmp y x = Inr s" using returns assms by blast
  have "s < 0 \<longleftrightarrow> 0 < r" "r < 0 \<longleftrightarrow> 0 < s" using swap assms r s by blast+
  then show ?thesis
    using that r s by (cases r "0 :: int" rule: linorder_cases) (auto simp: klt_def keq_def)
qed

lemma descend_locate:
  assumes "tree_at (rh_cells h) p Z" and "t_keycmp t = cmp" and "key \<in> S" and "keys Z \<subseteq> S"
    and "length (addrs Z) \<le> fuel"
  shows "insert_descend fuel h t key (root_ptr Z) (hole_parent fs) =
     Inr (map_option hole_parent (locate cmp key Z fs))"
  using assms
proof (induction Z arbitrary: p fuel fs)
  case Lf
  then show ?case by (simp add: insert_descend.simps)
next
  case (Nd l a k v c r)
  obtain f where f: "fuel = Suc f" "length (addrs l) \<le> f" "length (addrs r) \<le> f"
    using Nd.prems(5) by (cases fuel) auto
  have a: "rb_get h (Some a) = Inr \<lparr>rb_key = k, rb_value = v, rb_color = c, rb_left = root_ptr l,
      rb_right = root_ptr r, rb_parent = p\<rparr>" "Some a \<noteq> RB_SENTINAL"
    using Nd.prems(1) by (auto simp: RB_SENTINAL_def)
  have l: "insert_descend f h t key (root_ptr l) (Some a) =
      Inr (map_option hole_parent (locate cmp key l (InLeft a k v c r # fs)))"
    using Nd.IH(1) [of "Some a" f "InLeft a k v c r # fs"] Nd.prems f(2) by auto
  have r: "insert_descend f h t key (root_ptr r) (Some a) =
      Inr (map_option hole_parent (locate cmp key r (InRight l a k v c # fs)))"
    using Nd.IH(2) [of "Some a" f "InRight l a k v c # fs"] Nd.prems f(3) by auto
  have "key \<in> S" "k \<in> S" using Nd.prems by auto
  then show ?case
    using a l r Nd.prems(2) by (cases rule: cases3) (simp_all add: f(1) insert_descend.simps)
qed

lemma locate_place:
  assumes "key \<in> S" and "keys Z \<subseteq> S" and "sorted_wrt (klt cmp) (map fst (entries Z))"
    and "\<forall>k \<in> fst ` set (lefts fs). klt cmp k key" and "\<forall>k \<in> fst ` set (rights fs). klt cmp key k"
  shows "locate cmp key Z fs = None \<longleftrightarrow> (\<exists>k \<in> keys Z. keq cmp key k)"
    and "locate cmp key Z fs = Some gs \<Longrightarrow>
      (\<forall>k \<in> fst ` set (lefts gs). klt cmp k key) \<and> (\<forall>k \<in> fst ` set (rights gs). klt cmp key k)"
proof -
  have "(locate cmp key Z fs = None \<longleftrightarrow> (\<exists>k \<in> keys Z. keq cmp key k)) \<and>
     (\<forall>gs. locate cmp key Z fs = Some gs \<longrightarrow>
      (\<forall>k \<in> fst ` set (lefts gs). klt cmp k key) \<and> (\<forall>k \<in> fst ` set (rights gs). klt cmp key k))"
    using assms
  proof (induction Z arbitrary: fs)
    case (Nd l a k v c r)
    have kS: "k \<in> S" using Nd.prems(2) by simp
    have lS: "x \<in> S" "klt cmp x k" if "x \<in> keys l" for x
      using that Nd.prems(2,3) by (auto simp: sorted_wrt_append)
    have rS: "x \<in> S" "klt cmp k x" if "x \<in> keys r" for x
      using that Nd.prems(2,3) by (auto simp: sorted_wrt_append)
    have sub: "sorted_wrt (klt cmp) (map fst (entries l))" "sorted_wrt (klt cmp) (map fst (entries r))"
      "keys l \<subseteq> S" "keys r \<subseteq> S"
      using Nd.prems(2,3) by (auto simp: sorted_wrt_append)
    have ks: "keys (Nd l a k v c r) = keys l \<union> {k} \<union> keys r" by auto
    have no: "\<not> keq cmp key x" if "x \<in> S" "klt cmp key x \<or> klt cmp x key" for x
      using Nd.prems(1) that(1) by (cases rule: cases3) (use that(2) in auto)
    show ?case
      using Nd.prems(1) kS
    proof (cases rule: cases3)
      case lt
      have gtr: "klt cmp key x" if "x \<in> keys r" for x
        using trans [OF Nd.prems(1) kS rS(1) lt(3) rS(2)] that by blast
      then have "\<forall>x \<in> fst ` set (rights (InLeft a k v c r # fs)). klt cmp key x"
        using lt Nd.prems(5) by auto
      note IH = Nd.IH(1) [OF Nd.prems(1) sub(3,1) _ this]
      have "(\<exists>x \<in> keys (Nd l a k v c r). keq cmp key x) \<longleftrightarrow> (\<exists>x \<in> keys l. keq cmp key x)"
        unfolding ks using no [OF rS(1)] gtr lt(5) by blast
      moreover have "locate cmp key (Nd l a k v c r) fs = locate cmp key l (InLeft a k v c r # fs)"
        using lt(3) by simp
      ultimately show ?thesis using IH Nd.prems(4) by simp
    next
      case eq
      then show ?thesis by auto
    next
      case gt
      have ltl: "klt cmp x key" if "x \<in> keys l" for x
        using trans [OF lS(1) kS Nd.prems(1) lS(2) gt(3)] that by blast
      then have "\<forall>x \<in> fst ` set (lefts (InRight l a k v c # fs)). klt cmp x key"
        using gt Nd.prems(4) by auto
      note IH = Nd.IH(2) [OF Nd.prems(1) sub(4,2) this]
      have "(\<exists>x \<in> keys (Nd l a k v c r). keq cmp key x) \<longleftrightarrow> (\<exists>x \<in> keys r. keq cmp key x)"
        unfolding ks using no [OF lS(1)] ltl gt(5) by blast
      moreover have "locate cmp key (Nd l a k v c r) fs = locate cmp key r (InRight l a k v c # fs)"
        using gt(4,5) by simp
      ultimately show ?thesis using IH Nd.prems(5) by simp
    qed
  qed simp
  then show "locate cmp key Z fs = None \<longleftrightarrow> (\<exists>k \<in> keys Z. keq cmp key k)"
    and "locate cmp key Z fs = Some gs \<Longrightarrow>
      (\<forall>k \<in> fst ` set (lefts gs). klt cmp k key) \<and> (\<forall>k \<in> fst ` set (rights gs). klt cmp key k)"
    by blast+
qed

end

section \<open>The tree in the heap, complete\<close>

text \<open>
  \<open>rb_tree h t T\<close>: the header \<open>t\<close> and the heap hold the tree \<open>T\<close>, balanced, ordered
  and of the recorded size.
\<close>

definition rb_tree :: "('k, 'v) rbheap \<Rightarrow> 'k mboxRBTree \<Rightarrow> ('k, 'v) rbt \<Rightarrow> bool" where
  "rb_tree h t T \<longleftrightarrow> rb_at h t T \<and> is_rb T \<and> ordered (t_keycmp t) T \<and> t_size t = length (entries T)"

lemma length_addrs: "length (addrs T) = length (entries T)"
  by (induction T) auto

lemma unplug_bal:
  "invc (plug t fs) \<Longrightarrow> invh (plug t fs) \<Longrightarrow> rcolor (plug t fs) = RB_BLACK \<Longrightarrow>
   bal (bh t) t \<and> path_ok (bh t) fs \<and> (\<forall>f gs. fs = f # gs \<longrightarrow> fcolor f = RB_RED \<longrightarrow> rcolor t = RB_BLACK) \<and>
   (fs = [] \<longrightarrow> rcolor t = RB_BLACK)"
proof (induction fs arbitrary: t)
  case (Cons f fs)
  have IH: "bal (bh (fill t f)) (fill t f) \<and> path_ok (bh (fill t f)) fs \<and>
      (\<forall>g gs. fs = g # gs \<longrightarrow> fcolor g = RB_RED \<longrightarrow> rcolor (fill t f) = RB_BLACK) \<and>
      (fs = [] \<longrightarrow> rcolor (fill t f) = RB_BLACK)"
    using Cons.IH [of "fill t f"] Cons.prems unfolding plug.simps by blast
  then show ?case
    by (cases f; cases fs) (auto simp: bal_def)
qed (simp add: bal_def)

lemma length_path: "length fs \<le> length (addrs (plug t fs))"
proof -
  have "length (addrs (plug t fs)) = length (addrs t) + length (paddrs fs)"
  proof (induction fs arbitrary: t)
    case (Cons f fs)
    then show ?case by (cases f) auto
  qed simp
  moreover have "length fs \<le> length (paddrs fs)" by (induction fs) auto
  ultimately show ?thesis by simp
qed

text \<open>Painting the root black completes the repair.\<close>

lemma paint_root:
  fixes h :: "('k, 'v) rbheap" and t :: "'k mboxRBTree"
  assumes "rb_at h t T" and "invc T" and "invh T" and "T \<noteq> Lf"
  shows "\<exists>h' T'. put_color h (t_root t) RB_BLACK = Inr h' \<and> rb_at h' t T' \<and> is_rb T' \<and>
     entries T' = entries T \<and> rearranged h t T h' T'"
proof -
  obtain l a k v c r where T: "T = Nd l a k v c r" using assms(4) by (cases T) auto
  have root: "t_root t = Some a" using assms(1) by (simp add: rb_at_def T)
  have a: "a \<notin> set (addrs l)" "a \<notin> set (addrs r)" using assms(1) by (auto simp: rb_at_def T)
  then have T': "recolor a RB_BLACK T = Nd l a k v RB_BLACK r" by (simp add: T)
  obtain h' where "put_color h (Some a) RB_BLACK = Inr h'" "rb_at h' t (recolor a RB_BLACK T)"
      "rearranged h t T h' (recolor a RB_BLACK T)"
    using paint_at [OF assms(1), of a RB_BLACK] T by auto
  moreover have "is_rb (recolor a RB_BLACK T)" using assms(2,3) unfolding T' by (simp add: T is_rb_def)
  ultimately show ?thesis using root entries_recolor by metis
qed

text \<open>Hanging a new red node at the place found.\<close>

fun fkey :: "('k, 'v) frame \<Rightarrow> 'k void_ptr" where
  "fkey (InLeft a k v c r) = k"
| "fkey (InRight l a k v c) = k"

fun is_left :: "('k, 'v) frame \<Rightarrow> bool" where
  "is_left (InLeft a k v c r) = True"
| "is_left (InRight l a k v c) = False"

text \<open>What adding a node to the tree of the nodes \<open>A\<close> leaves of the heap.\<close>

definition added :: "nat set \<Rightarrow> ('k, 'v) rbheap \<Rightarrow> ('k, 'v) rbheap \<Rightarrow> bool" where
  "added A h h' \<longleftrightarrow> rh_fresh h' = Suc (rh_fresh h) \<and> rh_released h' = rh_released h \<and>
     (\<forall>a. a \<notin> A \<longrightarrow> a \<noteq> rh_fresh h \<longrightarrow> rh_cells h' a = rh_cells h a)"

lemma added_same: "added A h h1 \<Longrightarrow> same_but (insert (rh_fresh h) A) h1 h2 \<Longrightarrow> added A h h2"
  by (auto simp: added_def same_but_def)

lemma hang_node:
  fixes h :: "('k, 'v) rbheap" and t :: "'k mboxRBTree"
  assumes at: "rb_at h t (plug Lf (f # fs))" and new: "rbNodeNew h key value = (z, h1)"
    and "left \<longleftrightarrow> is_left f"
  shows "\<exists>h2 nz nf h3. z = Some (rh_fresh h) \<and> put_parent h1 z (Some (faddr f)) = Inr h2 \<and>
     rb_get h2 z = Inr nz \<and> rb_key nz = key \<and>
     rb_get h2 (Some (faddr f)) = Inr nf \<and> rb_key nf = fkey f \<and>
     (if left then put_left h2 (Some (faddr f)) z else put_right h2 (Some (faddr f)) z) = Inr h3 \<and>
     rb_at h3 t (plug (Nd Lf (rh_fresh h) key value RB_RED Lf) (f # fs)) \<and>
     added (set (paddrs (f # fs))) h h3"
proof -
  let ?a = "rh_fresh h" and ?C = "rh_cells h"
  have p: "path_at ?C RB_SENTINAL (f # fs)" "distinct (paddrs (f # fs))"
      "\<forall>b \<in> set (paddrs (f # fs)). b < ?a" "0 < ?a" "sentinel_ok h"
      "t_root t = root_ptr (plug Lf (f # fs))"
    using at unfolding rb_at_def tree_at_plug distinct_plug by simp_all
  have fresh: "?a \<notin> set (paddrs (f # fs))" "?a \<noteq> SENT" using p(3,4) by auto
  define node where "node = \<lparr>rb_key = key, rb_value = value, rb_color = RB_RED,
      rb_left = RB_SENTINAL, rb_right = RB_SENTINAL, rb_parent = Some (faddr f)\<rparr>"
  define h2 where "h2 = h\<lparr>rh_cells := ?C(?a \<mapsto> node), rh_fresh := Suc ?a\<rparr>"
  have z: "z = Some ?a" "put_parent h1 z (Some (faddr f)) = Inr h2"
    using new by (auto simp: rbNodeNew_def put_parent_def h2_def node_def)
  have p2: "path_at (rh_cells h2) RB_SENTINAL (f # fs)" using p(1) fresh(1) by (simp add: h2_def)
  have ne: "faddr f \<noteq> ?a" using fresh(1) by auto
  obtain nf where nf: "rh_cells h2 (faddr f) = Some nf" "rb_key nf = fkey f"
    using p2 by (cases f) auto
  define h3 where "h3 = h2\<lparr>rh_cells := (rh_cells h2)(faddr f \<mapsto>
      (if left then nf\<lparr>rb_left := Some ?a\<rparr> else nf\<lparr>rb_right := Some ?a\<rparr>))\<rparr>"
  have put: "(if left then put_left h2 (Some (faddr f)) z else put_right h2 (Some (faddr f)) z) = Inr h3"
    using nf(1) by (simp add: put_left_def put_right_def h3_def z(1))
  have path: "path_at (rh_cells h3) (Some ?a) (f # fs)"
    using p2 p(2) nf(1) assms(3) by (cases f) (auto simp: h3_def simp del: fun_upd_apply simp: fun_upd_same)
  have node: "tree_at (rh_cells h3) (Some (faddr f)) (Nd Lf ?a key value RB_RED Lf)"
    using ne fresh(2) by (simp add: h3_def h2_def node_def)
  have sent: "sentinel_ok h3"
    using p(5) fresh(2) p(1) by (cases f) (auto simp: sentinel_ok_def h3_def h2_def)
  have "rb_at h3 t (plug (Nd Lf ?a key value RB_RED Lf) (f # fs))"
    unfolding rb_at_def tree_at_plug distinct_plug
    using path node sent p fresh by (auto simp: root_ptr_plug h3_def h2_def less_Suc_eq)
  moreover have "added (set (paddrs (f # fs))) h h3" by (auto simp: added_def h3_def h2_def)
  moreover have "rb_get h2 z = Inr node" "rb_key node = key" "rb_get h2 (Some (faddr f)) = Inr nf"
    using nf(1) by (simp_all add: z(1) h2_def node_def)
  ultimately show ?thesis using z nf(2) put by blast
qed

context key_order begin

text \<open>The new entry stands between the entries its walk left on either side.\<close>

lemma inserted_ordered:
  assumes "ordered cmp T" and "keys T \<subseteq> S" and "key \<in> S" and "locate cmp key T [] = Some gs"
    and "entries T' = entries (plug (Nd Lf a key value c Lf) gs)"
  shows "ordered cmp T' \<and> set (entries T') = insert (key, value) (set (entries T)) \<and>
     length (entries T') = Suc (length (entries T))"
proof -
  have T: "entries T = lefts gs @ rights gs"
    using locate_plug [OF assms(4)] entries_plug [of Lf gs] by simp
  have T': "entries T' = lefts gs @ (key, value) # rights gs"
    using assms(5) entries_plug [of "Nd Lf a key value c Lf" gs] by simp
  have "(\<forall>k \<in> fst ` set (lefts gs). klt cmp k key) \<and> (\<forall>k \<in> fst ` set (rights gs). klt cmp key k)"
    using locate_place(2) [OF assms(3,2), where fs = "[]"] assms(1,4) by (simp add: ordered_def)
  then show ?thesis
    using assms(1) unfolding ordered_def T T' by (auto simp: sorted_wrt_append)
qed

lemma side_of_frame:
  assumes "keys T \<subseteq> S" and "key \<in> S" and "ordered cmp T" and "locate cmp key T [] = Some (f # fs)"
  shows "\<exists>r. cmp key (fkey f) = Inr r \<and> (r < 0 \<longleftrightarrow> is_left f)"
proof -
  have o: "\<forall>k \<in> fst ` set (lefts (f # fs)). klt cmp k key" "\<forall>k \<in> fst ` set (rights (f # fs)). klt cmp key k"
    using locate_place(2) [OF assms(2,1), of "[]" "f # fs"] assms(3,4) by (auto simp: ordered_def)
  have "fkey f \<in> keys T"
    using locate_plug [OF assms(4)] entries_plug [of Lf "f # fs"] by (cases f) auto
  then have "fkey f \<in> S" using assms(1) by blast
  with assms(2) show ?thesis
    by (cases rule: cases3) (use o in \<open>cases f; auto\<close>)+
qed

lemma insert_ok:
  fixes h :: "('k, 'v) rbheap"
  assumes tree: "rb_tree h t T" and c: "t_keycmp t = cmp" and key: "key \<in> S" and kT: "keys T \<subseteq> S"
    and size: "Suc (t_size t) < SIZE_MOD" and new: "\<not> (\<exists>k \<in> keys T. keq cmp key k)"
  shows "\<exists>h' t' T'. mboxRBTreeInsert h t key value = Inr (h', t') \<and> rb_tree h' t' T' \<and>
     set (entries T') = insert (key, value) (set (entries T)) \<and> t_size t' = Suc (t_size t) \<and>
     t_keycmp t' = cmp \<and> t_freekey t' = t_freekey t \<and> t_freevalue t' = t_freevalue t \<and>
     added (set (addrs T)) h h'"
proof -
  have at: "rb_at h t T" and rb: "is_rb T" and ord: "ordered cmp T" and sz: "t_size t = length (entries T)"
    using tree c by (auto simp: rb_tree_def)
  obtain gs where gs: "locate cmp key T [] = Some gs"
    using locate_place(1) [OF key kT, of "[]"] ord new by (auto simp: ordered_def)
  have T: "T = plug Lf gs" using locate_plug [OF gs] by simp
  have root: "t_root t = root_ptr T" using at by (simp add: rb_at_def)
  have desc: "insert_descend (t_size t) h t key (t_root t) None = Inr (Some (hole_parent gs))"
    using descend_locate [of h None T t key "t_size t" "[]"] at c key kT sz gs
    by (simp add: root rb_at_def length_addrs)
  obtain z h1 where z: "rbNodeNew h key value = (z, h1)" by fastforce
  let ?Z = "Nd Lf (rh_fresh h) key value RB_RED Lf"
  show ?thesis
  proof (cases gs)
    case Nil
    then have TL: "T = Lf" by (simp add: T)
    let ?n = "\<lparr>rb_key = key, rb_value = value, rb_color = RB_BLACK, rb_left = RB_SENTINAL,
        rb_right = RB_SENTINAL, rb_parent = None\<rparr>"
    let ?h = "h\<lparr>rh_cells := (rh_cells h)(rh_fresh h \<mapsto> ?n), rh_fresh := Suc (rh_fresh h)\<rparr>"
    let ?t = "t\<lparr>t_root := Some (rh_fresh h), t_size := Suc (t_size t)\<rparr>"
    have "mboxRBTreeInsert h t key value = Inr (?h, ?t)"
      using desc Nil size by (simp add: mboxRBTreeInsert_def rbNodeNew_def put_defs)
    moreover have "rb_tree ?h ?t (Nd Lf (rh_fresh h) key value RB_BLACK Lf)"
      using at sz unfolding TL by (auto simp: rb_tree_def rb_at_def sentinel_ok_def is_rb_def ordered_def)
    ultimately show ?thesis
      using c by (intro exI [of _ ?h] exI [of _ ?t] exI [of _ "Nd Lf (rh_fresh h) key value RB_BLACK Lf"])
        (simp add: TL added_def)
  next
    case (Cons f fs)
    have at': "rb_at h t (plug Lf (f # fs))" using at T Cons by simp
    obtain r where r: "cmp key (fkey f) = Inr r" "r < 0 \<longleftrightarrow> is_left f"
      using side_of_frame [OF kT key ord] gs Cons by blast
    obtain h2 nz nf h3 where hang: "z = Some (rh_fresh h)" "put_parent h1 z (Some (faddr f)) = Inr h2"
      "rb_get h2 z = Inr nz" "rb_key nz = key" "rb_get h2 (Some (faddr f)) = Inr nf" "rb_key nf = fkey f"
      "(if r < 0 then put_left h2 (Some (faddr f)) z else put_right h2 (Some (faddr f)) z) = Inr h3"
      "rb_at h3 t (plug ?Z (f # fs))" "added (set (paddrs (f # fs))) h h3"
      using hang_node [OF at' z r(2)] by blast
    let ?t = "t\<lparr>t_size := Suc (t_size t)\<rparr>" and ?T1 = "plug ?Z (f # fs)"
    have at1: "rb_at h3 ?t ?T1" using hang(8) by (simp add: rb_at_def)
    have par: "parent_of h3 z = Inr (Some (faddr f))" "parent_of h3 (Some (faddr f)) = Inr (hole_parent fs)"
    proof -
      show "parent_of h3 z = Inr (Some (faddr f))" using rb_at_place(1) [OF hang(8)] hang(1) by simp
      have "path_at (rh_cells h3) (Some (rh_fresh h)) (f # fs)"
        using hang(8) unfolding rb_at_def tree_at_plug by simp
      then show "parent_of h3 (Some (faddr f)) = Inr (hole_parent fs)" by (cases f) auto
    qed
    have run: "mboxRBTreeInsert h t key value =
        (if hole_parent fs = None then Inr (h3, ?t) else rbInsertFixup h3 ?t z)"
    proof -
      have "size_add (t_size t) 1 = Suc (t_size t)" using size by simp
      then show ?thesis
        by (simp only: mboxRBTreeInsert_def desc Cons hole_parent_simps z bindE.simps option.case
            Let_def prod.case hang(2-7) c r(1) par option.distinct if_False)
    qed
    have shape: "path_ok 0 (f # fs)" "fs = [] \<longrightarrow> fcolor f = RB_BLACK" "bal 0 ?Z"
    proof -
      have "rcolor T = RB_BLACK" "invc T" "invh T" using rb by (auto simp: is_rb_def)
      then show "path_ok 0 (f # fs)" "fs = [] \<longrightarrow> fcolor f = RB_BLACK" "bal 0 ?Z"
        using unplug_bal [of Lf "f # fs"] T Cons by (cases f; auto simp: bal_def)+
    qed
    have addT: "set (addrs T) = set (paddrs (f # fs))" using T Cons by simp
    have ent: "T' = T' \<Longrightarrow> entries T' = entries ?T1 \<Longrightarrow> ordered cmp T' \<and>
        set (entries T') = insert (key, value) (set (entries T)) \<and>
        length (entries T') = Suc (length (entries T))" for T'
      using inserted_ordered [OF ord kT key gs] Cons by simp
    show ?thesis
    proof (cases "fs = []")
      case True
      have "is_rb ?T1"
        using bal_plug [OF shape(3,1)] shape(2) True by (cases f) (auto simp: is_rb_def)
      then have "rb_tree h3 ?t ?T1" using at1 ent [of ?T1] c sz by (simp add: rb_tree_def)
      then show ?thesis using run True ent [of ?T1] c addT hang(9) by auto
    next
      case False
      then obtain g gs' where fs: "fs = g # gs'" by (cases fs) auto
      have "length (f # fs) \<le> length (addrs T)" using length_path [of "f # fs" Lf] T Cons by simp
      then have fuel: "length (f # fs) \<le> 2 * t_size ?t" by (simp add: length_addrs sz)
      obtain h4 T2 where loop: "rbInsertFixup_loop (t_size ?t) h3 ?t z =
          Inr (h4, ?t\<lparr>t_root := root_ptr T2\<rparr>)" "rearranged h3 ?t ?T1 h4 T2" "repaired ?T1 T2"
        using fixup_loop_ok [OF at1 refl shape(3,1) _ fuel] hang(1) by auto
      let ?t2 = "?t\<lparr>t_root := root_ptr T2\<rparr>"
      have T2: "rb_at h4 ?t2 T2" "invc T2" "invh T2" "entries T2 = entries ?T1"
        using loop(2,3) by (auto simp: rearranged_def repaired_def)
      have "T2 \<noteq> Lf"
      proof
        assume "T2 = Lf"
        then have "entries ?T1 = []" using T2(4) by simp
        then show False by (simp add: entries_plug del: plug.simps)
      qed
      then obtain h5 T3 where paint: "put_color h4 (t_root ?t2) RB_BLACK = Inr h5" "rb_at h5 ?t2 T3"
          "is_rb T3" "entries T3 = entries T2" "rearranged h4 ?t2 T2 h5 T3"
        using paint_root [OF T2(1,2,3)] by blast
      have "mboxRBTreeInsert h t key value = Inr (h5, ?t2)"
        using run fs loop(1) paint(1) by (simp add: rbInsertFixup_def)
      moreover have "rb_tree h5 ?t2 T3"
        using paint(2,3) ent [of T3] T2(4) paint(4) c sz by (simp add: rb_tree_def)
      moreover have "added (set (addrs T)) h h5"
      proof -
        have "same_but (set (addrs ?T1)) h3 h5"
          using loop(2) paint(5) by (auto simp: rearranged_def intro: same_but_trans)
        then show ?thesis
          using added_same [OF hang(9), of h5] addT by (simp add: insert_commute)
      qed
      ultimately show ?thesis using ent [of T3] T2(4) paint(4) c by auto
    qed
  qed
qed

end

end
