(* ===== verification/Mbox_RBSearch.thy ===== *)
theory Mbox_RBSearch
  imports Mbox_RBInsert "HOL-Library.Multiset"
begin

text \<open>
  Searching the red-black tree, walking it in order, releasing it, and what its deletion does.
\<close>

section \<open>Search\<close>

text \<open>The subtree at which the search for a key ends.\<close>

fun seek :: "'k rbCompareKey \<Rightarrow> 'k void_ptr \<Rightarrow> ('k, 'v) rbt \<Rightarrow> ('k, 'v) rbt" where
  "seek cmp key Lf = Lf"
| "seek cmp key (Nd l a k v c r) =
     (if klt cmp key k then seek cmp key l
      else if keq cmp key k then Nd l a k v c r else seek cmp key r)"

fun node_ptr :: "('k, 'v) rbt \<Rightarrow> ptr" where
  "node_ptr Lf = None"
| "node_ptr (Nd l a k v c r) = Some a"

lemma seek_locate: "seek cmp key T = Lf \<longleftrightarrow> locate cmp key T fs \<noteq> None"
  by (induction T arbitrary: fs) auto

lemma seek_entry: "seek cmp key T = Nd l a k v c r \<Longrightarrow> (k, v) \<in> set (entries T) \<and> keq cmp key k"
  by (induction T) (auto split: if_splits)

lemma seek_cell:
  "tree_at C p T \<Longrightarrow> seek cmp key T = Nd l a k v c r \<Longrightarrow>
   a \<noteq> SENT \<and> (\<exists>n. C a = Some n \<and> rb_value n = v)"
  by (induction T arbitrary: p) (auto split: if_splits)

context key_order begin

lemma find_seek:
  assumes "tree_at (rh_cells h) p Z" and "t_keycmp t = cmp" and "key \<in> S" and "keys Z \<subseteq> S"
    and "length (addrs Z) \<le> fuel"
  shows "rbNodeFind fuel h t (root_ptr Z) key = Inr (node_ptr (seek cmp key Z))"
  using assms
proof (induction Z arbitrary: p fuel)
  case Lf
  then show ?case by (simp add: rbNodeFind.simps)
next
  case (Nd l a k v c r)
  obtain f where f: "fuel = Suc f" "length (addrs l) \<le> f" "length (addrs r) \<le> f"
    using Nd.prems(5) by (cases fuel) auto
  have a: "rb_get h (Some a) = Inr \<lparr>rb_key = k, rb_value = v, rb_color = c, rb_left = root_ptr l,
      rb_right = root_ptr r, rb_parent = p\<rparr>" "Some a \<noteq> RB_SENTINAL"
    using Nd.prems(1) by (auto simp: RB_SENTINAL_def)
  have l: "rbNodeFind f h t (root_ptr l) key = Inr (node_ptr (seek cmp key l))"
    using Nd.IH(1) [of "Some a" f] Nd.prems f(2) by auto
  have r: "rbNodeFind f h t (root_ptr r) key = Inr (node_ptr (seek cmp key r))"
    using Nd.IH(2) [of "Some a" f] Nd.prems f(3) by auto
  have "key \<in> S" "k \<in> S" using Nd.prems by auto
  then show ?case
    using a l r Nd.prems(2) by (cases rule: cases3) (simp_all add: f(1) rbNodeFind.simps)
qed

lemma find_ok:
  assumes "rb_tree h t T" and "t_keycmp t = cmp" and "key \<in> S" and "keys T \<subseteq> S"
  shows "rbNodeFind (t_size t) h t (t_root t) key = Inr (node_ptr (seek cmp key T))"
    and "seek cmp key T = Lf \<longleftrightarrow> \<not> (\<exists>k \<in> keys T. keq cmp key k)"
proof -
  show "rbNodeFind (t_size t) h t (t_root t) key = Inr (node_ptr (seek cmp key T))"
    using find_seek [of h None T t key "t_size t"] assms
    by (simp add: rb_tree_def rb_at_def length_addrs)
  show "seek cmp key T = Lf \<longleftrightarrow> \<not> (\<exists>k \<in> keys T. keq cmp key k)"
    using locate_place(1) [OF assms(3,4), where fs = "[]"] assms(1,2) seek_locate [of cmp key T "[]"]
    by (auto simp: rb_tree_def ordered_def)
qed

lemma get_ok:
  assumes "rb_tree h t T" and "t_keycmp t = cmp" and "key \<in> S" and "keys T \<subseteq> S"
  shows "\<exists>v. mboxRBTreeGet h t key = Inr v \<and>
     ((\<exists>k. (k, v) \<in> set (entries T) \<and> keq cmp key k) \<or>
      v = None \<and> \<not> (\<exists>k \<in> keys T. keq cmp key k))"
proof (cases "seek cmp key T")
  case Lf
  then show ?thesis using find_ok [OF assms] by (auto simp: mboxRBTreeGet_def)
next
  case (Nd l a k v c r)
  have "tree_at (rh_cells h) None T" using assms(1) by (simp add: rb_tree_def rb_at_def)
  then obtain n where "a \<noteq> SENT" "rh_cells h a = Some n" "rb_value n = v"
    using seek_cell [OF _ Nd] by blast
  then have "mboxRBTreeGet h t key = Inr v"
    using find_ok(1) [OF assms] Nd by (simp add: mboxRBTreeGet_def RB_SENTINAL_def)
  then show ?thesis using seek_entry [OF Nd] by blast
qed

lemma has_ok:
  assumes "rb_tree h t T" and "t_keycmp t = cmp" and "key \<in> S" and "keys T \<subseteq> S"
  shows "mboxRBTreeHas h t key = Inr (\<exists>k \<in> keys T. keq cmp key k)"
  using find_ok [OF assms] by (cases "seek cmp key T") (auto simp: mboxRBTreeHas_def)

lemma insert_again:
  assumes "rb_tree h t T" and "t_keycmp t = cmp" and "key \<in> S" and "keys T \<subseteq> S"
    and "\<exists>k \<in> keys T. keq cmp key k"
  shows "mboxRBTreeInsert h t key value = Inr (h, t)"
proof -
  have "locate cmp key T [] = None"
    using locate_place(1) [OF assms(3,4), where fs = "[]"] assms(1,2,5)
    by (auto simp: rb_tree_def ordered_def)
  then have "insert_descend (t_size t) h t key (t_root t) None = Inr None"
    using descend_locate [of h None T t key "t_size t" "[]"] assms(1-4)
    by (simp add: rb_tree_def rb_at_def length_addrs)
  then show ?thesis by (simp add: mboxRBTreeInsert_def)
qed

section \<open>Deletion\<close>

text \<open>
  The search of the deletion stays on a node whose key it has found, and leaves the tree
  through the sentinel otherwise, whose key is null.
\<close>

lemma delete_stays:
  assumes "rh_cells h a = Some n" and "t_keycmp t key (rb_key n) = Inr 0"
  shows "delete_find fuel h t key (Some a) z = Inl Diverges"
proof (induction fuel arbitrary: z)
  case (Suc fuel)
  then show ?case using assms by (subst delete_find.simps) simp
qed (simp add: delete_find.simps)

lemma delete_find_seek:
  assumes "tree_at (rh_cells h) p Z" and "sentinel_ok h" and "t_keycmp t = cmp" and "key \<in> S"
    and "keys Z \<subseteq> S" and "cmp key None = Inl NullDeref"
  shows "delete_find fuel h t key (root_ptr Z) z = Inl Diverges \<or>
     seek cmp key Z = Lf \<and> delete_find fuel h t key (root_ptr Z) z = Inl NullDeref"
    and "seek cmp key Z = Lf \<Longrightarrow> length (addrs Z) < fuel \<Longrightarrow>
       delete_find fuel h t key (root_ptr Z) z = Inl NullDeref"
proof -
  have "(delete_find fuel h t key (root_ptr Z) z = Inl Diverges \<or>
     seek cmp key Z = Lf \<and> delete_find fuel h t key (root_ptr Z) z = Inl NullDeref) \<and>
     (seek cmp key Z = Lf \<longrightarrow> length (addrs Z) < fuel \<longrightarrow>
       delete_find fuel h t key (root_ptr Z) z = Inl NullDeref)"
    using assms
  proof (induction Z arbitrary: p fuel)
    case Lf
    then obtain q where "rb_get h RB_SENTINAL = Inr \<lparr>rb_key = None, rb_value = None,
        rb_color = RB_BLACK, rb_left = None, rb_right = None, rb_parent = q\<rparr>"
      by (auto simp: sentinel_ok_def RB_SENTINAL_def)
    then show ?case
      using Lf.prems by (cases fuel) (simp_all add: delete_find.simps RB_SENTINAL_def)
  next
    case (Nd l a k v c r)
    have a: "rb_get h (Some a) = Inr \<lparr>rb_key = k, rb_value = v, rb_color = c, rb_left = root_ptr l,
        rb_right = root_ptr r, rb_parent = p\<rparr>"
      using Nd.prems(1) by simp
    have sub: "tree_at (rh_cells h) (Some a) l" "tree_at (rh_cells h) (Some a) r" "keys l \<subseteq> S" "keys r \<subseteq> S"
      using Nd.prems(1,5) by auto
    note IH = Nd.IH(1) [OF sub(1) Nd.prems(2-4) sub(3) Nd.prems(6)]
      Nd.IH(2) [OF sub(2) Nd.prems(2-4) sub(4) Nd.prems(6)]
    have "key \<in> S" "k \<in> S" using Nd.prems by auto
    then show ?case
    proof (cases rule: cases3)
      case eq
      have "delete_find fuel h t key (Some a) z = Inl Diverges"
        using delete_stays [of h a] Nd.prems(1,3) eq(1) by fastforce
      then show ?thesis using eq by simp
    next
      case lt
      then show ?thesis
        using a Nd.prems(3) IH(1) [of "fuel - 1"]
        by (cases fuel) (simp_all add: delete_find.simps [of _ h t key "Some a"])
    next
      case gt
      then show ?thesis
        using a Nd.prems(3) IH(2) [of "fuel - 1"]
        by (cases fuel) (simp_all add: delete_find.simps [of _ h t key "Some a"])
    qed
  qed
  then show "delete_find fuel h t key (root_ptr Z) z = Inl Diverges \<or>
     seek cmp key Z = Lf \<and> delete_find fuel h t key (root_ptr Z) z = Inl NullDeref"
    and "seek cmp key Z = Lf \<Longrightarrow> length (addrs Z) < fuel \<Longrightarrow>
       delete_find fuel h t key (root_ptr Z) z = Inl NullDeref"
    by blast+
qed

lemma delete_fails:
  assumes "rb_tree h t T" and "t_keycmp t = cmp" and "key \<in> S" and "keys T \<subseteq> S"
    and "cmp key None = Inl NullDeref"
  shows "(\<exists>k \<in> keys T. keq cmp key k) \<Longrightarrow> mboxRBTreeDelete fuel h t key = Inl Diverges"
    and "\<not> (\<exists>k \<in> keys T. keq cmp key k) \<Longrightarrow> t_size t < fuel \<Longrightarrow>
      mboxRBTreeDelete fuel h t key = Inl NullDeref"
proof -
  have T: "tree_at (rh_cells h) None T" "sentinel_ok h" "t_root t = root_ptr T"
    using assms(1) by (auto simp: rb_tree_def rb_at_def)
  have sz: "t_size t = length (addrs T)" using assms(1) by (simp add: rb_tree_def length_addrs)
  note d = delete_find_seek [OF T(1,2) assms(2-5), of fuel None]
  show "mboxRBTreeDelete fuel h t key = Inl Diverges" if "\<exists>k \<in> keys T. keq cmp key k"
  proof -
    have "seek cmp key T \<noteq> Lf" using find_ok(2) [OF assms(1-4)] that by blast
    then have "delete_find fuel h t key (t_root t) None = Inl Diverges" using d(1) T(3) by auto
    then show ?thesis by (simp add: mboxRBTreeDelete_def)
  qed
  show "mboxRBTreeDelete fuel h t key = Inl NullDeref"
    if "\<not> (\<exists>k \<in> keys T. keq cmp key k)" "t_size t < fuel"
    using d(2) find_ok(2) [OF assms(1-4)] that sz by (simp add: mboxRBTreeDelete_def T(3))
qed

end

section \<open>Release\<close>

text \<open>The order in which the nodes are released: both subtrees before their root.\<close>

fun post :: "('k, 'v) rbt \<Rightarrow> ('k void_ptr \<times> 'v void_ptr) list" where
  "post Lf = []"
| "post (Nd l a k v c r) = post l @ post r @ [(k, v)]"

definition handed :: "bool \<Rightarrow> bool \<Rightarrow> 'k void_ptr \<times> 'v void_ptr \<Rightarrow> ('k + 'v) list" where
  "handed fk fv e =
     (if fk then (case fst e of None \<Rightarrow> [] | Some k \<Rightarrow> [Inl k]) else []) @
     (if fv then (case snd e of None \<Rightarrow> [] | Some v \<Rightarrow> [Inr v]) else [])"

lemma mset_post: "mset (post T) = mset (entries T)"
  by (induction T) auto

lemma node_free_ok:
  assumes "tree_at (rh_cells h) p T" and "distinct (addrs T)" and "length (addrs T) \<le> fuel"
  shows "\<exists>h'. rbNodeFree fuel h t (root_ptr T) = Inr h' \<and>
     rh_released h' = rh_released h @ concat (map (handed (t_freekey t) (t_freevalue t)) (post T)) \<and>
     rh_fresh h' = rh_fresh h \<and>
     (\<forall>a. rh_cells h' a = (if a \<in> set (addrs T) then None else rh_cells h a))"
  using assms
proof (induction T arbitrary: h p fuel)
  case Lf
  then show ?case by (simp add: rbNodeFree.simps)
next
  case (Nd l a k v c r)
  obtain f where f: "fuel = Suc f" "length (addrs l) \<le> f" "length (addrs r) \<le> f"
    using Nd.prems(3) by (cases fuel) auto
  have d: "distinct (addrs l)" "distinct (addrs r)" "a \<notin> set (addrs l)" "a \<notin> set (addrs r)"
    "set (addrs l) \<inter> set (addrs r) = {}"
    using Nd.prems(2) by auto
  have c: "rh_cells h a = Some \<lparr>rb_key = k, rb_value = v, rb_color = c, rb_left = root_ptr l,
      rb_right = root_ptr r, rb_parent = p\<rparr>" "Some a \<noteq> RB_SENTINAL"
    using Nd.prems(1) by (auto simp: RB_SENTINAL_def)
  obtain h1 where h1: "rbNodeFree f h t (root_ptr l) = Inr h1"
     "rh_released h1 = rh_released h @ concat (map (handed (t_freekey t) (t_freevalue t)) (post l))"
     "rh_fresh h1 = rh_fresh h"
     "\<forall>b. rh_cells h1 b = (if b \<in> set (addrs l) then None else rh_cells h b)"
    using Nd.IH(1) [of h "Some a" f] Nd.prems(1) d(1) f(2) by auto
  have "tree_at (rh_cells h1) (Some a) r \<longleftrightarrow> tree_at (rh_cells h) (Some a) r"
    using h1(4) d(5) by (intro tree_at_cong) auto
  then obtain h2 where h2: "rbNodeFree f h1 t (root_ptr r) = Inr h2"
     "rh_released h2 = rh_released h1 @ concat (map (handed (t_freekey t) (t_freevalue t)) (post r))"
     "rh_fresh h2 = rh_fresh h1"
     "\<forall>b. rh_cells h2 b = (if b \<in> set (addrs r) then None else rh_cells h1 b)"
    using Nd.IH(2) [of h1 "Some a" f] Nd.prems(1) d(2) f(3) by auto
  have c1: "rh_cells h1 a = rh_cells h a" "rh_cells h2 a = rh_cells h a"
    using h1(4) h2(4) d(3,4) by auto
  show ?case
    using c c1 h1 h2 f(1)
    by (subst rbNodeFree.simps) (auto simp: rbNodeRelease_def handed_def split: option.splits)
qed

lemma release_ok:
  assumes "rb_tree h t T"
  shows "\<exists>h'. mboxRBTreeRelease h (Some t) = Inr h' \<and>
     rh_released h' = rh_released h @ concat (map (handed (t_freekey t) (t_freevalue t)) (post T)) \<and>
     rh_fresh h' = rh_fresh h \<and>
     (\<forall>a. rh_cells h' a = (if a \<in> set (addrs T) then None else rh_cells h a))"
proof -
  have T: "tree_at (rh_cells h) None T" "distinct (addrs T)" "t_root t = root_ptr T"
    "t_size t = length (addrs T)"
    using assms by (auto simp: rb_tree_def rb_at_def length_addrs)
  show ?thesis
  proof (cases "t_size t = 0")
    case True
    then have "T = Lf" using T(4) by (cases T) auto
    then show ?thesis using True by (simp add: mboxRBTreeRelease_def mboxRBTreeClear_def)
  next
    case False
    then show ?thesis
      using node_free_ok [OF T(1,2), of "t_size t" t] T(3,4)
      by (auto simp: mboxRBTreeRelease_def mboxRBTreeClear_def)
  qed
qed

section \<open>Iteration\<close>

fun visit ::
  "('k void_ptr \<Rightarrow> 'v void_ptr \<Rightarrow> 'c \<Rightarrow> c_error + 'c) \<Rightarrow> ('k void_ptr \<times> 'v void_ptr) list \<Rightarrow> 'c \<Rightarrow>
     c_error + 'c" where
  "visit cb [] c = Inr c"
| "visit cb ((k, v) # es) c = bindE (cb k v c) (visit cb es)"

lemma visit_append: "visit cb (xs @ ys) c = bindE (visit cb xs c) (visit cb ys)"
proof (induction xs arbitrary: c)
  case Nil
  then show ?case by simp
next
  case (Cons e xs)
  have "visit cb (xs @ ys) = (\<lambda>c. bindE (visit cb xs c) (visit cb ys))"
    by (rule ext) (rule Cons.IH)
  then show ?case by (cases e) (simp add: bindE_assoc)
qed

lemma for_each_at:
  assumes "tree_at (rh_cells h) p T" and "length (addrs T) \<le> fuel"
  shows "rbForEachHelper fuel h (root_ptr T) cb c = visit cb (entries T) c"
  using assms
proof (induction T arbitrary: p fuel c)
  case Lf
  then show ?case by (simp add: rbForEachHelper.simps)
next
  case (Nd l a k v d r)
  obtain f where f: "fuel = Suc f" "length (addrs l) \<le> f" "length (addrs r) \<le> f"
    using Nd.prems(2) by (cases fuel) auto
  have l: "rbForEachHelper f h (root_ptr l) cb = visit cb (entries l)"
    using Nd.IH(1) [of "Some a" f] Nd.prems(1) f(2) by (intro ext) simp
  have r: "rbForEachHelper f h (root_ptr r) cb = visit cb (entries r)"
    using Nd.IH(2) [of "Some a" f] Nd.prems(1) f(3) by (intro ext) simp
  have "Some a \<noteq> RB_SENTINAL" using Nd.prems(1) by (simp add: RB_SENTINAL_def)
  moreover have "visit cb ((k, v) # entries r) = (\<lambda>c. bindE (cb k v c) (visit cb (entries r)))"
    by (rule ext) simp
  ultimately show ?case
    using Nd.prems(1)
    by (subst rbForEachHelper.simps) (simp add: f(1) l r visit_append rb_get_def del: visit.simps)
qed

lemma for_each_ok: "rb_tree h t T \<Longrightarrow> mboxRBTreeForEach h t cb c = visit cb (entries T) c"
  using for_each_at [of h None T "t_size t" cb c]
  by (simp add: mboxRBTreeForEach_def rb_tree_def rb_at_def length_addrs)

end
