(* ===== verification/Mbox_Headers.thy ===== *)
theory Mbox_Headers
  imports Mbox_Buf Mbox_RBSearch
begin

text \<open>
  The tree of the headers of a message: the red-black tree with the comparison the parser gives
  it (\<open>mboxParseEmailHeaders\<close>), and the look-up of the headers the library knows
  (\<open>src/src/mbox-common-headers.c\<close>). The properties of the tree are stated here, on the
  comparison the program uses.
\<close>

section \<open>The tree the parser makes\<close>

definition header_keycmp :: "mboxBuf rbCompareKey" where
  "header_keycmp k1 k2 = bindE (deref k1) (\<lambda>b1. bindE (deref k2) (\<lambda>b2. mboxBufCaseCmp b1 b2))"

definition header_tree :: "(mboxBuf, 'v) rbheap \<Rightarrow> (mboxBuf, 'v) rbheap \<times> mboxBuf mboxRBTree" where
  "header_tree h = rbTreeNew h True True header_keycmp"

section \<open>The headers the library knows\<close>

definition header_name :: "string \<Rightarrow> nat \<Rightarrow> mboxBuf" where
  "header_name s len = \<lparr>buf_data = c_lit s, buf_offset = 0, buf_len = len, buf_capacity = 0\<rparr>"

definition mboxExpectedHeaders :: "mboxBuf list" where
  "mboxExpectedHeaders =
    [header_name ''__FROM_LINE__'' 13, header_name ''Content-Type'' 12,
     header_name ''Content-Transfer-Encoding'' 25, header_name ''From'' 4, header_name ''Date'' 4,
     header_name ''X-Gmail-Labels'' 14, header_name ''Subject'' 8, header_name ''Message-ID'' 10]"

definition mboxHeadersGet ::
  "(mboxBuf, 'v) rbheap \<Rightarrow> mboxBuf mboxRBTree \<Rightarrow> int \<Rightarrow> c_error + 'v void_ptr" where
  "mboxHeadersGet h headers header =
     bindE (if header < 0 then Inl OutOfBounds else list_at mboxExpectedHeaders (nat header)) (\<lambda>key.
     mboxRBTreeGet h headers (Some key))"

definition mboxHeaderGetString :: "int \<Rightarrow> c_error + block" where
  "mboxHeaderGetString header =
     bindE (if header < 0 then Inl OutOfBounds else list_at mboxExpectedHeaders (nat header)) (\<lambda>key.
     Inr (buf_data key))"

section \<open>The comparison is a search order\<close>

definition key_ok :: "mboxBuf \<Rightarrow> bool" where
  "key_ok b \<longleftrightarrow> buf_len b \<le> length (buf_data b) \<and> None \<notin> set (take (buf_len b) (buf_data b))"

definition key_bytes :: "mboxBuf \<Rightarrow> mboxChar list" where
  "key_bytes b = map the (take (buf_len b) (buf_data b))"

definition header_keys :: "mboxBuf void_ptr set" where
  "header_keys = {Some b | b. key_ok b}"

lemma buf_rep_key: "buf_rep b s \<Longrightarrow> key_ok b \<and> key_bytes b = s"
  by (auto simp: buf_rep_def key_ok_def key_bytes_def)

lemma key_read:
  assumes "key_ok b" and "k < buf_len b"
  shows "blk_read (buf_data b) k = Inr (key_bytes b ! k)"
proof -
  have "take (buf_len b) (buf_data b) ! k \<in> set (take (buf_len b) (buf_data b))"
    using assms by (intro nth_mem) (simp add: key_ok_def)
  then show ?thesis
    using assms by (cases "buf_data b ! k") (auto simp: blk_read_def key_ok_def key_bytes_def)
qed

lemma mboxBufCaseCmp_ci:
  assumes "key_ok b1" and "key_ok b2"
  shows "mboxBufCaseCmp b1 b2 = Inr (ci (key_bytes b1) (key_bytes b2))"
proof -
  have l: "length (key_bytes b1) = buf_len b1" "length (key_bytes b2) = buf_len b2"
    using assms by (simp_all add: key_bytes_def key_ok_def)
  have "c_strncmp c_tolower (buf_data b1) 0 (buf_data b2) 0 (min (buf_len b1) (buf_len b2)) =
      Inr (list_ncmp c_tolower (min (buf_len b1) (buf_len b2)) (key_bytes b1) (key_bytes b2))"
    using key_read [OF assms(1)] key_read [OF assms(2)] l by (intro c_strncmp_bytes) auto
  then show ?thesis
    using list_ncmp_ci [of "key_bytes b1" "key_bytes b2"] l
    by (auto simp: mboxBufCaseCmp_def min_def Let_def le_less_linear split: if_splits)
qed

lemma header_keycmp_ci:
  "key_ok b1 \<Longrightarrow> key_ok b2 \<Longrightarrow>
   header_keycmp (Some b1) (Some b2) = Inr (ci (key_bytes b1) (key_bytes b2))"
  by (simp add: header_keycmp_def mboxBufCaseCmp_ci)

text \<open>Up to case, one name is a prefix of the other.\<close>

definition same_header :: "mboxBuf \<Rightarrow> mboxBuf \<Rightarrow> bool" where
  "same_header b1 b2 \<longleftrightarrow> ci (key_bytes b1) (key_bytes b2) = 0"

lemma ci_less_trans: "ci x y < 0 \<Longrightarrow> ci y z < 0 \<Longrightarrow> ci x z < 0"
proof (induction y arbitrary: x z)
  case (Cons b y)
  then obtain a x' c z' where l: "x = a # x'" "z = c # z'" by (cases x; cases z) auto
  show ?case
    using Cons tolower_eq_NUL [of a b] tolower_eq_NUL [of b c] by (auto simp: l split: if_splits)
qed (auto elim: ci.elims)

interpretation hdr: key_order header_keycmp header_keys
proof (unfold_locales, goal_cases)
  case (1 x y)
  then show ?case by (auto simp: header_keys_def header_keycmp_ci)
next
  case (2 x y r s)
  then obtain a b where "x = Some a" "y = Some b" "key_ok a" "key_ok b"
    by (auto simp: header_keys_def)
  then show ?case
    using 2 ci_swap [of "key_bytes a" "key_bytes b"] by (auto simp: header_keycmp_ci)
next
  case (3 x y z)
  then show ?case
    using ci_less_trans by (auto simp: header_keys_def header_keycmp_ci klt_def)
qed

lemma keq_header: "key_ok a \<Longrightarrow> key_ok b \<Longrightarrow> keq header_keycmp (Some a) (Some b) \<longleftrightarrow> same_header a b"
  by (simp add: keq_def header_keycmp_ci same_header_def)

text \<open>\<open>header_rep h t T\<close>: a header tree with the nodes of \<open>T\<close>.\<close>

definition header_rep ::
  "(mboxBuf, 'v) rbheap \<Rightarrow> mboxBuf mboxRBTree \<Rightarrow> (mboxBuf, 'v) rbt \<Rightarrow> bool" where
  "header_rep h t T \<longleftrightarrow> rb_tree h t T \<and> t_keycmp t = header_keycmp \<and> t_freekey t \<and> t_freevalue t \<and>
     keys T \<subseteq> header_keys"

definition has_header :: "(mboxBuf void_ptr \<times> 'v void_ptr) list \<Rightarrow> mboxBuf \<Rightarrow> bool" where
  "has_header es k \<longleftrightarrow> list_ex (\<lambda>(k', v). case k' of None \<Rightarrow> False | Some b \<Rightarrow> same_header k b) es"

lemma has_headerI: "(Some b, v) \<in> set es \<Longrightarrow> same_header k b \<Longrightarrow> has_header es k"
  by (force simp: has_header_def list_ex_iff)

lemma header_repD:
  assumes "header_rep h t T"
  shows "rb_tree h t T" "t_keycmp t = header_keycmp" "keys T \<subseteq> header_keys"
  using assms by (simp_all add: header_rep_def)

lemma in_header_keys [simp]: "Some k \<in> header_keys \<longleftrightarrow> key_ok k"
  by (simp add: header_keys_def)

lemma has_header_keq:
  assumes "keys T \<subseteq> header_keys" and "key_ok k"
  shows "(\<exists>x \<in> keys T. keq header_keycmp (Some k) x) \<longleftrightarrow> has_header (entries T) k"
proof -
  have "keq header_keycmp (Some k) x \<longleftrightarrow> (case x of None \<Rightarrow> False | Some b \<Rightarrow> same_header k b)"
    if "x \<in> keys T" for x
    using that assms by (auto simp: header_keys_def keq_header)
  then show ?thesis by (auto simp: has_header_def list_ex_iff split_beta)
qed

lemma same_header_refl: "same_header k k"
  using ci_swap [of "key_bytes k" "key_bytes k"] by (simp add: same_header_def)

lemma header_tree_rep:
  assumes "0 < rh_fresh h" and "header_tree h = (h0, t0)"
  shows "header_rep h0 t0 Lf" and "t_size t0 = 0"
  using assms
  by (auto simp: header_tree_def rbTreeNew_def header_rep_def rb_tree_def rb_at_def sentinel_ok_def
      is_rb_def ordered_def RB_SENTINAL_def Let_def)

lemma header_insert_new:
  assumes "header_rep h t T" and "key_ok k" and "\<not> has_header (entries T) k"
    and "Suc (t_size t) < SIZE_MOD"
  shows "\<exists>h' t' T'. mboxRBTreeInsert h t (Some k) v = Inr (h', t') \<and> header_rep h' t' T' \<and>
     set (entries T') = insert (Some k, v) (set (entries T)) \<and> t_size t' = Suc (t_size t) \<and>
     added (set (addrs T)) h h'"
proof -
  note r = header_repD [OF assms(1)]
  have key: "Some k \<in> header_keys" using assms(2) by simp
  have new: "\<not> (\<exists>x \<in> keys T. keq header_keycmp (Some k) x)"
    using has_header_keq [OF r(3) assms(2)] assms(3) by simp
  obtain h' t' T' where i: "mboxRBTreeInsert h t (Some k) v = Inr (h', t')" "rb_tree h' t' T'"
    "set (entries T') = insert (Some k, v) (set (entries T))" "t_size t' = Suc (t_size t)"
    "t_keycmp t' = header_keycmp" "t_freekey t' = t_freekey t" "t_freevalue t' = t_freevalue t"
    "added (set (addrs T)) h h'"
    using hdr.insert_ok [OF r(1,2) key r(3) assms(4) new, of v] by blast
  moreover have "header_rep h' t' T'"
    using i(2,3,5,6,7) assms(1) key by (simp add: header_rep_def)
  ultimately show ?thesis by blast
qed

lemma header_insert_again:
  assumes "header_rep h t T" and "key_ok k" and "has_header (entries T) k"
  shows "mboxRBTreeInsert h t (Some k) v = Inr (h, t)"
  using hdr.insert_again [OF header_repD(1,2) [OF assms(1)] _ header_repD(3) [OF assms(1)]]
    has_header_keq [OF header_repD(3) [OF assms(1)] assms(2)] assms by simp

lemma header_get:
  assumes "header_rep h t T" and "key_ok k"
  shows "\<exists>v. mboxRBTreeGet h t (Some k) = Inr v \<and>
     ((\<exists>b. (Some b, v) \<in> set (entries T) \<and> same_header k b) \<or>
      v = None \<and> \<not> has_header (entries T) k)"
proof -
  note r = header_repD [OF assms(1)]
  obtain v where v: "mboxRBTreeGet h t (Some k) = Inr v"
    "(\<exists>x. (x, v) \<in> set (entries T) \<and> keq header_keycmp (Some k) x) \<or>
     v = None \<and> \<not> (\<exists>x \<in> keys T. keq header_keycmp (Some k) x)"
    using hdr.get_ok [OF r(1,2) _ r(3), of "Some k"] assms(2) by auto
  have "\<exists>b. x = Some b \<and> same_header k b"
    if "(x, v) \<in> set (entries T)" "keq header_keycmp (Some k) x" for x
  proof -
    have "x \<in> header_keys" using that(1) r(3) by force
    then show ?thesis using that(2) assms(2) by (auto simp: header_keys_def keq_header)
  qed
  then show ?thesis using v has_header_keq [OF r(3) assms(2)] by blast
qed

section \<open>The depth of the tree\<close>

fun depth :: "('k, 'v) rbt \<Rightarrow> nat" where
  "depth Lf = 0"
| "depth (Nd l a k v c r) = Suc (max (depth l) (depth r))"

lemma depth_bh:
  "invc T \<Longrightarrow> invh T \<Longrightarrow> depth T \<le> 2 * bh T + (if rcolor T = RB_RED then 1 else 0)"
proof (induction T)
  case (Nd l a k v c r)
  then show ?case by (cases c) (auto split: if_splits)
qed simp

lemma bh_size: "invh T \<Longrightarrow> 2 ^ bh T \<le> Suc (length (entries T))"
proof (induction T)
  case (Nd l a k v c r)
  then show ?case by (auto simp: mult_2)
qed simp

lemma depth_log: "is_rb T \<Longrightarrow> 2 ^ (depth T div 2) \<le> Suc (length (entries T))"
proof -
  assume rb: "is_rb T"
  then have "depth T \<le> 2 * bh T" using depth_bh [of T] by (auto simp: is_rb_def)
  then have "depth T div 2 \<le> bh T" by linarith
  then have "(2::nat) ^ (depth T div 2) \<le> 2 ^ bh T" by (intro power_increasing) auto
  also have "\<dots> \<le> Suc (length (entries T))" using bh_size [of T] rb by (simp add: is_rb_def)
  finally show ?thesis .
qed

section \<open>A sequence of insertions\<close>

text \<open>
  What the tree promises: of the headers put in, each is kept unless one that is there already
  has the same name, where a prefix counts as the same.
\<close>

definition add_header ::
  "(mboxBuf void_ptr \<times> 'v void_ptr) list \<Rightarrow> mboxBuf \<times> 'v void_ptr \<Rightarrow>
     (mboxBuf void_ptr \<times> 'v void_ptr) list" where
  "add_header es e = (if has_header es (fst e) then es else es @ [(Some (fst e), snd e)])"

fun insert_all ::
  "(mboxBuf, 'v) rbheap \<Rightarrow> mboxBuf mboxRBTree \<Rightarrow> (mboxBuf \<times> 'v void_ptr) list \<Rightarrow>
     c_error + ((mboxBuf, 'v) rbheap \<times> mboxBuf mboxRBTree)" where
  "insert_all h t [] = Inr (h, t)"
| "insert_all h t ((k, v) # es) =
     bindE (mboxRBTreeInsert h t (Some k) v) (\<lambda>(h, t). insert_all h t es)"

lemma has_header_set: "set xs = set ys \<Longrightarrow> has_header xs k = has_header ys k"
  by (simp add: has_header_def list_ex_iff)

lemma insert_all_ok:
  assumes "header_rep h t T" and "set (entries T) = set xs" and "t_size t = length xs"
    and "\<forall>e \<in> set es. key_ok (fst e)" and "length xs + length es < SIZE_MOD"
  shows "\<exists>h' t' T'. insert_all h t es = Inr (h', t') \<and> header_rep h' t' T' \<and>
     set (entries T') = set (foldl add_header xs es) \<and> t_size t' = length (foldl add_header xs es)"
  using assms
proof (induction es arbitrary: h t T xs)
  case (Cons e es)
  obtain k v where e: "e = (k, v)" by fastforce
  have k: "key_ok k" using Cons.prems(4) e by simp
  have same: "has_header (entries T) k = has_header xs k"
    by (rule has_header_set) (rule Cons.prems(2))
  show ?case
  proof (cases "has_header xs k")
    case True
    then show ?thesis
      using Cons.IH [OF Cons.prems(1-3)] Cons.prems(4,5) same
        header_insert_again [OF Cons.prems(1) k, of v] by (simp add: e add_header_def)
  next
    case False
    then obtain h1 t1 T1 where i: "mboxRBTreeInsert h t (Some k) v = Inr (h1, t1)"
      "header_rep h1 t1 T1" "set (entries T1) = insert (Some k, v) (set (entries T))"
      "t_size t1 = Suc (t_size t)"
      using header_insert_new [OF Cons.prems(1) k, of v] Cons.prems(3,5) same by auto
    have "set (entries T1) = set (xs @ [(Some k, v)])" "t_size t1 = length (xs @ [(Some k, v)])"
      using i(3,4) Cons.prems(2,3) by auto
    from Cons.IH [OF i(2) this] show ?thesis
      using Cons.prems(4,5) False i(1) by (simp add: e add_header_def)
  qed
qed auto

section \<open>Properties\<close>

lemma key_ok_name: "n \<le> Suc (length s) \<Longrightarrow> key_ok (header_name s n)"
  by (auto simp: key_ok_def header_name_def c_lit_def dest: in_set_takeD)

lemma key_bytes_name [simp]:
  "key_bytes (header_name s n) = take n (s @ [NUL])"
  by (simp add: key_bytes_def header_name_def c_lit_def take_map [symmetric])

definition no_nodes :: "(mboxBuf, mboxBuf) rbheap" where
  "no_nodes = \<lparr>rh_cells = Map.empty, rh_fresh = 1, rh_released = []\<rparr>"

definition one_node :: "mboxBuf \<Rightarrow> mboxBuf void_ptr \<Rightarrow> (mboxBuf, mboxBuf) rbheap" where
  "one_node k v = (fst (header_tree no_nodes))\<lparr>rh_cells := (rh_cells (fst (header_tree no_nodes)))
     (1 \<mapsto> \<lparr>rb_key = Some k, rb_value = v, rb_color = RB_BLACK, rb_left = Some 0,
          rb_right = Some 0, rb_parent = None\<rparr>), rh_fresh := 2\<rparr>"

definition one_header :: "mboxBuf mboxRBTree" where
  "one_header = \<lparr>t_root = Some 1, t_size = 1, t_freekey = True, t_freevalue = True,
     t_keycmp = header_keycmp\<rparr>"

lemma one_header_rep:
  "key_ok k \<Longrightarrow> header_rep (one_node k v) one_header (Nd Lf 1 (Some k) v RB_BLACK Lf)"
  by (auto simp: header_rep_def rb_tree_def rb_at_def sentinel_ok_def is_rb_def ordered_def
      one_node_def one_header_def no_nodes_def header_tree_def rbTreeNew_def RB_SENTINAL_def Let_def)

text \<open>
  C10. Any sequence of insertions into a new header tree returns and leaves a red-black search
  tree, coloured and ordered as one should be, whose nodes hold exactly the first header of
  each name; the recorded size is their number and the depth is at most twice the logarithm
  of the size.
\<close>

theorem mboxRBTree_holds_first_headers:
  assumes "0 < rh_fresh h" and "\<forall>e \<in> set es. key_ok (fst e)" and "length es < SIZE_MOD"
  shows "\<exists>h' t' T. insert_all (fst (header_tree h)) (snd (header_tree h)) es = Inr (h', t') \<and>
     header_rep h' t' T \<and> is_rb T \<and> set (entries T) = set (foldl add_header [] es) \<and>
     t_size t' = length (foldl add_header [] es) \<and> 2 ^ (depth T div 2) \<le> Suc (t_size t')"
proof -
  obtain h0 t0 where n: "header_tree h = (h0, t0)" by fastforce
  obtain h' t' T where i: "insert_all h0 t0 es = Inr (h', t')" "header_rep h' t' T"
    "set (entries T) = set (foldl add_header [] es)" "t_size t' = length (foldl add_header [] es)"
    using insert_all_ok [OF header_tree_rep(1) [OF assms(1) n], of "[]" es]
      header_tree_rep(2) [OF assms(1) n] assms(2,3) by auto
  have "rb_tree h' t' T" by (rule header_repD(1) [OF i(2)])
  then have "is_rb T" "2 ^ (depth T div 2) \<le> Suc (t_size t')"
    using depth_log [of T] by (simp_all add: rb_tree_def)
  then show ?thesis using n i by auto
qed

theorem mboxRBTree_holds_first_headers_witness:
  "\<exists>h' t' T. insert_all (fst (header_tree no_nodes)) (snd (header_tree no_nodes))
       [(header_name ''Received'' 8, None), (header_name ''To'' 2, None),
        (header_name ''Received-SPF'' 12, None)] = Inr (h', t') \<and>
     header_rep h' t' T \<and> t_size t' = 2"
  using mboxRBTree_holds_first_headers [of no_nodes "[(header_name ''Received'' 8, None),
      (header_name ''To'' 2, None), (header_name ''Received-SPF'' 12, None)]"]
  by (auto simp: no_nodes_def key_ok_name add_header_def has_header_def same_header_def
      c_tolower_def byte_def chr_of_def)

text \<open>
  C11. A header whose name is new is added: the node count and the size grow by one, nothing is
  freed, no node outside the tree changes, and looking the name up gives its value.
\<close>

theorem mboxRBTreeInsert_adds:
  assumes "header_rep h t T" and "key_ok k" and "\<not> has_header (entries T) k"
    and "Suc (t_size t) < SIZE_MOD"
  shows "\<exists>h' t' T'. mboxRBTreeInsert h t (Some k) v = Inr (h', t') \<and> header_rep h' t' T' \<and>
     set (entries T') = insert (Some k, v) (set (entries T)) \<and> t_size t' = Suc (t_size t) \<and>
     rh_released h' = rh_released h \<and>
     (\<forall>a. a \<notin> set (addrs T) \<and> a \<noteq> rh_fresh h \<longrightarrow> rh_cells h' a = rh_cells h a) \<and>
     mboxRBTreeGet h' t' (Some k) = Inr v"
proof -
  obtain h' t' T' where i: "mboxRBTreeInsert h t (Some k) v = Inr (h', t')" "header_rep h' t' T'"
    "set (entries T') = insert (Some k, v) (set (entries T))" "t_size t' = Suc (t_size t)"
    "added (set (addrs T)) h h'"
    using header_insert_new [OF assms] by blast
  have has: "has_header (entries T') k"
    using i(3) same_header_refl by (auto simp: has_header_def list_ex_iff)
  obtain v' b where g: "mboxRBTreeGet h' t' (Some k) = Inr v'" "(Some b, v') \<in> set (entries T')"
    "same_header k b"
    using header_get [OF i(2) assms(2)] has by blast
  have "(Some b, v') \<notin> set (entries T)"
    using assms(3) g(3) by (auto simp: has_header_def list_ex_iff)
  then have "v' = v" using g(2) i(3) by simp
  then show ?thesis using i g(1) by (auto simp: added_def)
qed

theorem mboxRBTreeInsert_adds_witness:
  "\<exists>h' t'. mboxRBTreeInsert (one_node (header_name ''To'' 2) None) one_header
       (Some (header_name ''From'' 4)) (Some (header_name ''a'' 1)) = Inr (h', t') \<and>
     mboxRBTreeGet h' t' (Some (header_name ''From'' 4)) = Inr (Some (header_name ''a'' 1))"
  using mboxRBTreeInsert_adds [OF one_header_rep [of "header_name ''To'' 2" None],
      of "header_name ''From'' 4" "Some (header_name ''a'' 1)"]
  by (auto simp: key_ok_name has_header_def same_header_def one_header_def
      c_tolower_def byte_def chr_of_def)

text \<open>
  A header whose name is a prefix of one in the tree, or has one in the tree as a prefix,
  changes nothing: the tree and the heap stay, and neither the name nor the value is kept
  or freed.
\<close>

theorem mboxRBTreeInsert_drops:
  assumes "header_rep h t T" and "key_ok k" and "(Some b, w) \<in> set (entries T)"
    and "same_header k b"
  shows "mboxRBTreeInsert h t (Some k) v = Inr (h, t)"
  by (rule header_insert_again [OF assms(1,2) has_headerI [OF assms(3,4)]])

theorem mboxRBTreeInsert_drops_witness:
  "mboxRBTreeInsert (one_node (header_name ''Received'' 8) None) one_header
     (Some (header_name ''Received-SPF'' 12)) None =
   Inr (one_node (header_name ''Received'' 8) None, one_header)"
  using mboxRBTreeInsert_drops [OF one_header_rep [of "header_name ''Received'' 8" None],
      of "header_name ''Received-SPF'' 12" "header_name ''Received'' 8" None]
  by (simp add: key_ok_name same_header_def)

text \<open>
  Looking up a header that the library knows, by its number, returns the value of a header
  of that name, or null exactly when there is none.
\<close>

theorem mboxHeadersGet_finds:
  assumes "header_rep h t T" and "0 \<le> i" and "i < 8"
  shows "\<exists>v. mboxHeadersGet h t i = Inr v \<and>
     ((\<exists>b. (Some b, v) \<in> set (entries T) \<and> same_header (mboxExpectedHeaders ! nat i) b) \<or>
      v = None \<and> \<not> has_header (entries T) (mboxExpectedHeaders ! nat i))"
proof -
  have "nat i \<in> set [0..<8]" using assms(2,3) by auto
  then have "key_ok (mboxExpectedHeaders ! nat i)" and "nat i < length mboxExpectedHeaders"
    by (auto simp: mboxExpectedHeaders_def key_ok_name upt_rec)
  then show ?thesis
    using header_get [OF assms(1)] assms(2) by (simp add: mboxHeadersGet_def)
qed

lemma subject_in_capitals: "same_header (header_name ''Subject'' 8) (header_name ''SUBJECT'' 7)"
  by code_simp

theorem mboxHeadersGet_finds_witness:
  "mboxHeadersGet (one_node (header_name ''SUBJECT'' 7) (Some (header_name ''hi'' 2))) one_header 6 =
     Inr (Some (header_name ''hi'' 2))"
  using mboxHeadersGet_finds [OF one_header_rep [of "header_name ''SUBJECT'' 7"
      "Some (header_name ''hi'' 2)"], of 6] subject_in_capitals
  by (auto simp: key_ok_name mboxExpectedHeaders_def has_header_def)

text \<open>
  \<open>mboxRBTreeHas\<close> says whether some name in the tree is, up to case, a prefix of the key
  or has it as a prefix.
\<close>

theorem mboxRBTreeHas_correct:
  assumes "header_rep h t T" and "key_ok k"
  shows "mboxRBTreeHas h t (Some k) = Inr (has_header (entries T) k)"
proof -
  note r = header_repD [OF assms(1)]
  show ?thesis
    using hdr.has_ok [OF r(1,2) _ r(3), of "Some k"] has_header_keq [OF r(3) assms(2)] assms(2)
    by simp
qed

theorem mboxRBTreeHas_correct_witness:
  "mboxRBTreeHas (one_node (header_name ''From'' 4) None) one_header (Some (header_name ''f'' 1)) =
     Inr True"
  using mboxRBTreeHas_correct [OF one_header_rep [of "header_name ''From'' 4" None],
      of "header_name ''f'' 1"]
  by (simp add: key_ok_name has_header_def same_header_def c_tolower_def byte_def chr_of_def)

text \<open>
  C30. \<open>mboxRBTreeDelete\<close> never deletes anything. When the key is in the tree its search stays
  on the node it has found and does not end, whatever the fuel; when it is not, the search
  goes past the sentinel's key, which is null.
\<close>

theorem mboxRBTreeDelete_never_deletes:
  assumes "header_rep h t T" and "key_ok k" and "t_size t < fuel"
  shows "mboxRBTreeDelete fuel h t (Some k) =
     (if has_header (entries T) k then Inl Diverges else Inl NullDeref)"
proof -
  note r = header_repD [OF assms(1)]
  have "header_keycmp (Some k) None = Inl NullDeref"
    by (simp add: header_keycmp_def deref_def)
  note d = hdr.delete_fails [OF r(1,2) _ r(3) this, unfolded has_header_keq [OF r(3) assms(2)]]
  show ?thesis using d assms(2,3) by (cases "has_header (entries T) k") simp_all
qed

theorem mboxRBTreeDelete_never_deletes_witness:
  "mboxRBTreeDelete 100 (one_node (header_name ''To'' 2) None) one_header (Some (header_name ''To'' 2)) =
     Inl Diverges \<and>
   mboxRBTreeDelete 100 (one_node (header_name ''To'' 2) None) one_header (Some (header_name ''Cc'' 2)) =
     Inl NullDeref"
  using mboxRBTreeDelete_never_deletes [OF one_header_rep [of "header_name ''To'' 2" None],
      of "header_name ''To'' 2" 100]
    mboxRBTreeDelete_never_deletes [OF one_header_rep [of "header_name ''To'' 2" None],
      of "header_name ''Cc'' 2" 100]
  by (simp add: key_ok_name has_header_def same_header_def one_header_def
      c_tolower_def byte_def chr_of_def)

text \<open>
  Releasing the tree frees each of its nodes and no other cell, and hands every name and
  every value that is not null to the functions that free them, once each.
\<close>

theorem mboxRBTreeRelease_frees:
  assumes "header_rep h t T"
  shows "\<exists>h' fs. mboxRBTreeRelease h (Some t) = Inr h' \<and>
     (\<forall>a. rh_cells h' a = (if a \<in> set (addrs T) then None else rh_cells h a)) \<and>
     rh_released h' = rh_released h @ fs \<and>
     mset fs = mset (concat (map (handed True True) (entries T)))"
proof -
  obtain h' where r: "mboxRBTreeRelease h (Some t) = Inr h'"
    "rh_released h' = rh_released h @ concat (map (handed True True) (post T))"
    "\<forall>a. rh_cells h' a = (if a \<in> set (addrs T) then None else rh_cells h a)"
    using release_ok [OF header_repD(1) [OF assms]] assms by (auto simp: header_rep_def)
  moreover have "mset (concat (map (handed True True) (post T))) =
      mset (concat (map (handed True True) (entries T)))"
    unfolding mset_concat map_map mset_map [symmetric]
    by (metis mset_map mset_post sum_mset_sum_list)
  ultimately show ?thesis by blast
qed

theorem mboxRBTreeRelease_frees_witness:
  "\<exists>h' fs. mboxRBTreeRelease (one_node (header_name ''To'' 2) None) (Some one_header) = Inr h' \<and>
     rh_cells h' 1 = None \<and> mset fs = {#Inl (header_name ''To'' 2)#} \<and>
     rh_released h' = rh_released (one_node (header_name ''To'' 2) None) @ fs"
  using mboxRBTreeRelease_frees [OF one_header_rep [of "header_name ''To'' 2" None]]
  by (auto simp: key_ok_name handed_def)

text \<open>
  \<open>mboxRBTreeForEach\<close> calls the callback on each entry once, smaller names first, and
  stops at the first call that fails.
\<close>

theorem mboxRBTreeForEach_in_order:
  assumes "header_rep h t T"
  shows "mboxRBTreeForEach h t cb c = visit cb (entries T) c \<and>
     sorted_wrt (klt header_keycmp) (map fst (entries T)) \<and> length (entries T) = t_size t"
  using for_each_ok [OF header_repD(1) [OF assms]] assms
  by (auto simp: header_rep_def rb_tree_def ordered_def)

theorem mboxRBTreeForEach_in_order_witness:
  "mboxRBTreeForEach (one_node (header_name ''To'' 2) None) one_header (\<lambda>k v n. Inr (Suc n)) 0 = Inr 1"
  using mboxRBTreeForEach_in_order [OF one_header_rep [of "header_name ''To'' 2" None],
      of "\<lambda>k v n. Inr (Suc n)" 0]
  by (simp add: key_ok_name)

end
