(* ===== verification/Mbox_Date.thy ===== *)
theory Mbox_Date
  imports Mbox_Prelude
begin

text \<open>
  The dates of \<open>src/src/mbox-date.c\<close>: the parser that follows a format, and the conversion of
  its result to seconds. \<open>mktime\<close>, which depends on the time zone of the machine, is a
  parameter.
\<close>

section \<open>Numbers\<close>

definition c_isdigit :: "mboxChar \<Rightarrow> bool" where
  "c_isdigit c \<longleftrightarrow> 48 \<le> byte c \<and> byte c \<le> 57"

text \<open>
  \<open>strtol\<close> with base 10: white space, a sign, digits. It returns the number and where it ends;
  where there are no digits it ends where it began. A number that is no \<open>long\<close> is clamped.
\<close>

function skip_space :: "block \<Rightarrow> nat \<Rightarrow> c_error + nat" where
  "skip_space m i =
     bindE (blk_read m i) (\<lambda>c. if c_isspace c then skip_space m (Suc i) else Inr i)"
  by pat_completeness auto
termination
  by (relation "measure (\<lambda>(m, i). length m - i)") (auto simp: outcome_simps)

function scan_digits :: "block \<Rightarrow> nat \<Rightarrow> int \<Rightarrow> c_error + (int \<times> nat)" where
  "scan_digits m i acc =
     bindE (blk_read m i) (\<lambda>c.
     if c_isdigit c then scan_digits m (Suc i) (10 * acc + (int (byte c) - 48)) else Inr (acc, i))"
  by pat_completeness auto
termination
  by (relation "measure (\<lambda>(m, i, acc). length m - i)") (auto simp: outcome_simps)

declare skip_space.simps [simp del] scan_digits.simps [simp del]

definition clamp_long :: "int \<Rightarrow> int" where
  "clamp_long x = max (- (2 ^ 63)) (min x (2 ^ 63 - 1))"

definition c_strtol :: "block \<Rightarrow> nat \<Rightarrow> c_error + (int \<times> nat)" where
  "c_strtol m i =
     bindE (skip_space m i) (\<lambda>j.
     bindE (blk_read m j) (\<lambda>c.
     let k = (if c = CHR ''-'' \<or> c = CHR ''+'' then Suc j else j)
     in bindE (scan_digits m k 0) (\<lambda>(n, e).
        Inr (if e = k then (0, i) else (clamp_long (if c = CHR ''-'' then - n else n), e)))))"

section \<open>Parsing a date\<close>

record mboxDate =
  tm_sec :: int
  tm_min :: int
  tm_hour :: int
  tm_mday :: int
  tm_mon :: int
  tm_year :: int
  tm_wday :: int
  tm_yday :: int
  tm_isdst :: int
  tm_zone_diff :: int

definition MBOX_DATE_FORMAT :: string where
  "MBOX_DATE_FORMAT = ''%d %b %Y %H:%M:%S %z''"

definition days :: "string list" where
  "days = [''Sun'', ''Mon'', ''Tue'', ''Wed'', ''Thu'', ''Fri'', ''Sat'']"

definition months :: "string list" where
  "months = [''Jan'', ''Feb'', ''Mar'', ''Apr'', ''May'', ''Jun'', ''Jul'', ''Aug'', ''Sep'',
     ''Oct'', ''Nov'', ''Dec'']"

definition unset_date :: mboxDate where
  "unset_date = \<lparr>tm_sec = -1, tm_min = -1, tm_hour = -1, tm_mday = -1, tm_mon = -1, tm_year = -1,
     tm_wday = -1, tm_yday = -1, tm_isdst = -1, tm_zone_diff = -1\<rparr>"

text \<open>The number of the first name that stands at \<open>i\<close>, from \<open>k\<close> on.\<close>

fun find_name :: "block \<Rightarrow> nat \<Rightarrow> string list \<Rightarrow> nat \<Rightarrow> c_error + nat option" where
  "find_name m i [] k = Inr None"
| "find_name m i (n # ns) k =
     bindE (c_strncmp c_tolower m i (c_lit n) 0 3) (\<lambda>r.
     if r = 0 then Inr (Some k) else find_name m i ns (Suc k))"

text \<open>What one conversion does: it gives up, or it moves \<open>strdate\<close> and \<open>endptr\<close>.\<close>

datatype date_step = Fails mboxDate | Goes nat nat mboxDate

definition conv_name ::
  "string list \<Rightarrow> nat \<Rightarrow> (mboxDate \<Rightarrow> int) \<Rightarrow> (int \<Rightarrow> mboxDate \<Rightarrow> mboxDate) \<Rightarrow>
     block \<Rightarrow> nat \<Rightarrow> nat \<Rightarrow> mboxDate \<Rightarrow> c_error + date_step" where
  "conv_name names adv get put m s e t =
     bindE (find_name m s names 0) (\<lambda>r.
     let (s, t) = (case r of None \<Rightarrow> (s, t) | Some k \<Rightarrow> (s + adv, put (int k) t))
     in Inr (if get t = -1 then Fails t else Goes s e t))"

definition conv_number ::
  "(int \<Rightarrow> mboxDate \<Rightarrow> mboxDate) \<Rightarrow> (nat \<Rightarrow> nat \<Rightarrow> nat) \<Rightarrow>
     block \<Rightarrow> nat \<Rightarrow> nat \<Rightarrow> mboxDate \<Rightarrow> c_error + date_step" where
  "conv_number put next_s m s e t =
     bindE (c_strtol m s) (\<lambda>(n, e).
     let t = put (int_of_long n) t
     in Inr (if s = e then Fails t else Goes (next_s s e) e t))"

definition date_conversion ::
  "mboxChar \<Rightarrow> block \<Rightarrow> nat \<Rightarrow> nat \<Rightarrow> mboxDate \<Rightarrow> c_error + date_step" where
  "date_conversion f m s e t =
     (if f = CHR ''a'' then conv_name days 3 tm_wday (\<lambda>n. tm_wday_update (\<lambda>_. n)) m s e t
      else if f = CHR ''b'' then conv_name months 2 tm_mon (\<lambda>n. tm_mon_update (\<lambda>_. n)) m s e t
      else if f = CHR ''d'' then conv_number (\<lambda>n. tm_mday_update (\<lambda>_. n)) (\<lambda>s e. s + 2) m s e t
      else if f = CHR ''m'' then conv_number (\<lambda>n. tm_mon_update (\<lambda>_. n)) (\<lambda>s e. e + 1) m s e t
      else if f = CHR ''Y'' then conv_number (\<lambda>n. tm_year_update (\<lambda>_. n)) (\<lambda>s e. e + 1) m s e t
      else if f = CHR ''H'' then conv_number (\<lambda>n. tm_hour_update (\<lambda>_. n)) (\<lambda>s e. e + 1) m s e t
      else if f = CHR ''M'' then conv_number (\<lambda>n. tm_min_update (\<lambda>_. n)) (\<lambda>s e. e + 1) m s e t
      else if f = CHR ''p''
      then bindE (c_strncmp c_tolower m s (c_lit ''AM'') 0 2) (\<lambda>am.
           bindE (if am = 0
                  then Inr (if tm_hour t \<ge> 12 then t\<lparr>tm_hour := tm_hour t - 12\<rparr> else t)
                  else bindE (c_strncmp c_tolower m s (c_lit ''PM'') 0 2) (\<lambda>pm.
                       if pm = 0 then bindE (int_op (tm_hour t + 12)) (\<lambda>h. Inr (t\<lparr>tm_hour := h\<rparr>))
                       else Inr t)) (\<lambda>t.
           conv_number (\<lambda>n. tm_mon_update (\<lambda>_. n)) (\<lambda>s e. s + 1) m s e t))
      else if f = CHR ''S'' then conv_number (\<lambda>n. tm_sec_update (\<lambda>_. n)) (\<lambda>s e. e + 1) m s e t
      else if f = CHR ''z''
      then conv_number (\<lambda>n. tm_zone_diff_update (\<lambda>_. n)) (\<lambda>s e. e + 1) m s e t
      else Inr (Goes s e t))"

text \<open>
  The loop over the format: \<open>s\<close>, \<open>e\<close> and \<open>i\<close> are where \<open>strdate\<close>, \<open>endptr\<close> and
  \<open>format\<close> point. The result is what the function returns, and the date.
\<close>

function date_loop ::
  "block \<Rightarrow> block \<Rightarrow> nat \<Rightarrow> nat \<Rightarrow> nat \<Rightarrow> mboxDate \<Rightarrow> c_error + (int \<times> mboxDate)" where
  "date_loop m fmt s e i t =
     bindE (blk_read m s) (\<lambda>c.
     if c = NUL then Inr (1, t)
     else bindE (blk_read fmt i) (\<lambda>f.
       if f = NUL then Inr (1, t)
       else
         let j = (if f = CHR ''%'' then Suc i else i)
         in bindE (if f = CHR ''%''
                   then bindE (blk_read fmt j) (\<lambda>f. date_conversion f m s e t)
                   else Inr (Goes s e t)) (\<lambda>r.
            case r of Fails t \<Rightarrow> Inr (0, t)
            | Goes s e t \<Rightarrow>
                bindE (blk_read m e) (\<lambda>x.
                if x = NUL then Inr (1, t)
                else bindE (blk_read fmt j) (\<lambda>f.
                     bindE (blk_read m s) (\<lambda>c.
                     date_loop m fmt (if f = c then Suc s else s) e (Suc j) t))))))"
  by pat_completeness auto
termination
  by (relation "measure (\<lambda>(m, fmt, s, e, i, t). length fmt - i)") (auto simp: outcome_simps)

declare date_loop.simps [simp del]

definition mboxDateStringToStruct :: "block \<Rightarrow> block \<Rightarrow> c_error + (int \<times> mboxDate)" where
  "mboxDateStringToStruct strdate format = date_loop strdate format 0 0 0 unset_date"

section \<open>Seconds\<close>

record c_tm =
  c_sec :: int
  c_min :: int
  c_hour :: int
  c_mday :: int
  c_mon :: int
  c_year :: int

definition long_op :: "int \<Rightarrow> c_error + int" where
  "long_op x = (if - (2 ^ 63) \<le> x \<and> x < 2 ^ 63 then Inr x else Inl IntOverflow)"

definition mboxDateStructToUnix :: "(c_tm \<Rightarrow> int) \<Rightarrow> mboxDate \<Rightarrow> c_error + int" where
  "mboxDateStructToUnix mktime d =
     bindE (int_op (tm_year d - 1900)) (\<lambda>y.
     let timestamp = mktime \<lparr>c_sec = tm_sec d, c_min = tm_min d, c_hour = tm_hour d,
           c_mday = tm_mday d, c_mon = tm_mon d, c_year = y\<rparr>
     in if tm_zone_diff d \<noteq> 0 \<and> tm_zone_diff d \<noteq> -1
        then bindE (int_op \<bar>tm_zone_diff d\<bar>) (\<lambda>z.
             let hour_diff = z div 100; min_diff = z mod 100
             in bindE (int_op (hour_diff * 3600)) (\<lambda>hs.
                if tm_zone_diff d < -1
                then bindE (long_op (timestamp + hs)) (\<lambda>u. long_op (u + min_diff * 60))
                else bindE (long_op (timestamp - hs)) (\<lambda>u. long_op (u - min_diff * 60))))
        else Inr timestamp)"

section \<open>Evaluating the parser\<close>

lemma scan_digits_step [simp]:
  "blk_read m i = Inr c \<Longrightarrow> c_isdigit c \<Longrightarrow>
   scan_digits m i acc = scan_digits m (Suc i) (10 * acc + (int (byte c) - 48))"
  "blk_read m i = Inr c \<Longrightarrow> \<not> c_isdigit c \<Longrightarrow> scan_digits m i acc = Inr (acc, i)"
  by (simp_all add: scan_digits.simps [of m i])

lemma skip_space_step [simp]:
  "blk_read m i = Inr c \<Longrightarrow> c_isspace c \<Longrightarrow> skip_space m i = skip_space m (Suc i)"
  "blk_read m i = Inr c \<Longrightarrow> \<not> c_isspace c \<Longrightarrow> skip_space m i = Inr i"
  by (simp_all add: skip_space.simps [of m i])

text \<open>One round of the loop: on a character of the format, and on a conversion.\<close>

lemma date_loop_char:
  "blk_read m s = Inr c \<Longrightarrow> c \<noteq> NUL \<Longrightarrow> blk_read fmt i = Inr f \<Longrightarrow> f \<noteq> NUL \<Longrightarrow> f \<noteq> CHR ''%'' \<Longrightarrow>
   blk_read m e = Inr x \<Longrightarrow> x \<noteq> NUL \<Longrightarrow>
   date_loop m fmt s e i t = date_loop m fmt (if f = c then Suc s else s) e (Suc i) t"
  by (subst date_loop.simps) simp

definition after_conversion ::
  "block \<Rightarrow> block \<Rightarrow> nat \<Rightarrow> mboxChar \<Rightarrow> date_step \<Rightarrow> c_error + (int \<times> mboxDate)" where
  "after_conversion m fmt j f r =
     (case r of Fails t \<Rightarrow> Inr (0, t)
      | Goes s e t \<Rightarrow>
          bindE (blk_read m e) (\<lambda>x.
          if x = NUL then Inr (1, t)
          else bindE (blk_read m s) (\<lambda>c. date_loop m fmt (if f = c then Suc s else s) e (Suc j) t)))"

lemma date_loop_conv:
  "blk_read m s = Inr c \<Longrightarrow> c \<noteq> NUL \<Longrightarrow> blk_read fmt i = Inr CHR ''%'' \<Longrightarrow>
   blk_read fmt (Suc i) = Inr f \<Longrightarrow>
   date_loop m fmt s e i t = bindE (date_conversion f m s e t) (after_conversion m fmt (Suc i) f)"
  by (subst date_loop.simps)
    (auto simp: after_conversion_def intro!: bindE_cong split: date_step.splits)

lemma after_conversion:
  "after_conversion m fmt j f (Fails t) = Inr (0, t)"
  "blk_read m e = Inr NUL \<Longrightarrow> after_conversion m fmt j f (Goes s e t) = Inr (1, t)"
  "blk_read m e = Inr x \<Longrightarrow> x \<noteq> NUL \<Longrightarrow> blk_read m s = Inr c \<Longrightarrow>
   after_conversion m fmt j f (Goes s e t) =
     date_loop m fmt (if f = c then Suc s else s) e (Suc j) t"
  by (simp_all add: after_conversion_def)

section \<open>Dates as text\<close>

definition digit :: "nat \<Rightarrow> mboxChar" where
  "digit n = chr_of (48 + n mod 10)"

lemma byte_digit [simp]: "byte (digit n) = 48 + n mod 10"
  by (simp add: digit_def byte_chr_of)

lemma digit_facts [simp]: "c_isdigit (digit n)" "\<not> c_isspace (digit n)"
  by (simp_all add: c_isdigit_def c_isspace_def)

lemma digit_neq [simp]: "\<not> c_isdigit c \<Longrightarrow> digit n \<noteq> c" "\<not> c_isdigit c \<Longrightarrow> c \<noteq> digit n"
  using digit_facts(1) by metis+

definition two :: "nat \<Rightarrow> string" where
  "two n = [digit (n div 10), digit n]"

definition four :: "nat \<Rightarrow> string" where
  "four n = [digit (n div 1000), digit (n div 100), digit (n div 10), digit n]"

definition zone_text :: "int \<Rightarrow> string" where
  "zone_text z = (if z < 0 then CHR ''-'' else CHR ''+'') # four (nat \<bar>z\<bar>)"

definition date_text :: "nat \<Rightarrow> nat \<Rightarrow> nat \<Rightarrow> nat \<Rightarrow> nat \<Rightarrow> nat \<Rightarrow> int \<Rightarrow> string" where
  "date_text d mon y H M S z = two d @ '' '' @ months ! mon @ '' '' @ four y @ '' '' @
     two H @ '':'' @ two M @ '':'' @ two S @ '' '' @ zone_text z"

lemma two_value: "10 * int (n div 10) + int n mod 10 = int n"
  using arg_cong [OF mult_div_mod_eq [of 10 n], of int] by (simp only: of_nat_add of_nat_mult of_nat_mod of_nat_numeral)

lemma four_value:
  "1000 * int (n div 1000) + 100 * (int (n div 100) mod 10) + 10 * (int (n div 10) mod 10) +
   int n mod 10 = int n"
proof -
  have "10 * int (n div 1000) + int (n div 100) mod 10 = int (n div 100)"
    "10 * int (n div 100) + int (n div 10) mod 10 = int (n div 10)"
    using two_value [of "n div 100"] two_value [of "n div 10"]
      div_mult2_eq [of n 100 10] div_mult2_eq [of n 10 10] by simp_all
  then show ?thesis using two_value [of n] by linarith
qed

lemma four_value_neg:
  "- (1000 * int (n div 1000)) - 100 * (int (n div 100) mod 10) - 10 * (int (n div 10) mod 10) -
   int n mod 10 = - int n"
  using four_value [of n] by linarith

lemma blk_read_lit: "blk_read (c_lit s) i = (if i < length s then Inr (s ! i) else if i = length s then Inr NUL else Inl OutOfBounds)"
  by (auto simp: blk_read_def c_lit_def nth_append)

lemma plain_chars:
  "list_all (\<lambda>c. \<not> c_isdigit c) (NUL # '' :-+%dYHMSznrylgptvcb'')"
  "list_all (\<lambda>c. \<not> c_isspace c) (NUL # '':-+%dYHMSznrylgptvcb'')"
  by code_simp+

lemmas plain_char_facts [simp] = plain_chars [simplified]

lemma clamp_long_small [simp]: "\<bar>x\<bar> < 2 ^ 63 \<Longrightarrow> clamp_long x = x"
  by (simp add: clamp_long_def)

text \<open>Two or four digits, with a character after them that is none.\<close>

lemma strtol_two:
  assumes "n < 100" and "blk_read m i = Inr (digit (n div 10))" and "blk_read m (Suc i) = Inr (digit n)"
    and "blk_read m (Suc (Suc i)) = Inr c" and "\<not> c_isdigit c"
  shows "c_strtol m i = Inr (int n, Suc (Suc i))"
proof -
  have "\<bar>int n\<bar> < 2 ^ 63" using assms(1) by simp
  then show ?thesis using assms by (simp add: c_strtol_def zmod_int two_value)
qed

lemma strtol_four:
  assumes "n < 10000" and "blk_read m i = Inr (digit (n div 1000))"
    and "blk_read m (Suc i) = Inr (digit (n div 100))"
    and "blk_read m (Suc (Suc i)) = Inr (digit (n div 10))"
    and "blk_read m (Suc (Suc (Suc i))) = Inr (digit n)"
    and "blk_read m (Suc (Suc (Suc (Suc i)))) = Inr c" and "\<not> c_isdigit c"
  shows "c_strtol m i = Inr (int n, Suc (Suc (Suc (Suc i))))"
proof -
  have "\<bar>int n\<bar> < 2 ^ 63" using assms(1) by simp
  then show ?thesis using assms by (simp add: c_strtol_def zmod_int four_value four_value_neg)
qed

lemma strtol_zone:
  assumes "n < 10000" and "blk_read m i = Inr (if neg then CHR ''-'' else CHR ''+'')"
    and "blk_read m (Suc i) = Inr (digit (n div 1000))"
    and "blk_read m (Suc (Suc i)) = Inr (digit (n div 100))"
    and "blk_read m (Suc (Suc (Suc i))) = Inr (digit (n div 10))"
    and "blk_read m (Suc (Suc (Suc (Suc i)))) = Inr (digit n)"
    and "blk_read m (Suc (Suc (Suc (Suc (Suc i))))) = Inr c" and "\<not> c_isdigit c"
  shows "c_strtol m i = Inr (if neg then - int n else int n, Suc (Suc (Suc (Suc (Suc i)))))"
proof -
  have "\<bar>int n\<bar> < 2 ^ 63" using assms(1) by simp
  then show ?thesis using assms by (cases neg) (simp_all add: c_strtol_def zmod_int four_value four_value_neg)
qed

text \<open>A name of three letters is found by its lower-case letters.\<close>

lemma strncasecmp_three:
  assumes "length w = 3" and "length n = 3" and "NUL \<notin> set w" and "\<And>k. k < 3 \<Longrightarrow> blk_read m (i + k) = Inr (w ! k)"
  shows "\<exists>r. c_strncmp c_tolower m i (c_lit n) 0 3 = Inr r \<and> (r = 0 \<longleftrightarrow> map c_tolower w = map c_tolower n)"
proof -
  obtain a b c where w: "w = [a, b, c]" using assms(1) by (auto simp: numeral_3_eq_3 length_Suc_conv)
  obtain a' b' c' where n: "n = [a', b', c']"
    using assms(2) by (auto simp: numeral_3_eq_3 length_Suc_conv)
  have "blk_read m i = Inr a" "blk_read m (Suc i) = Inr b" "blk_read m (Suc (Suc i)) = Inr c"
    using assms(4) [of 0] assms(4) [of 1] assms(4) [of 2] by (simp_all add: w)
  then show ?thesis
    using assms(3) by (auto simp: c_strncmp_step blk_read_lit w n)
qed

lemma find_name_ok:
  assumes "j < length names" and "names ! j = w" and "length w = 3" and "NUL \<notin> set w"
    and "list_all (\<lambda>n. length n = 3) names" and "distinct (map (map c_tolower) names)"
    and "\<And>k. k < 3 \<Longrightarrow> blk_read m (i + k) = Inr (w ! k)"
  shows "find_name m i names n = Inr (Some (n + j))"
  using assms(1,2,5,6)
proof (induction names arbitrary: j n)
  case (Cons x names)
  obtain r where r: "c_strncmp c_tolower m i (c_lit x) 0 3 = Inr r"
    "r = 0 \<longleftrightarrow> map c_tolower w = map c_tolower x"
    using strncasecmp_three [OF assms(3) _ assms(4,7), of x] Cons.prems(3) by auto
  show ?case
  proof (cases j)
    case 0
    then show ?thesis using r Cons.prems(2) by simp
  next
    case (Suc j')
    then have "w \<in> set names" using Cons.prems(1,2) by auto
    then have "r \<noteq> 0" using r(2) Cons.prems(4) by (auto simp: image_iff)
    then show ?thesis using r(1) Cons.IH [of j' "Suc n"] Cons.prems Suc by simp
  qed
qed simp

lemma months_names:
  "length months = 12" "list_all (\<lambda>n. length n = 3 \<and> NUL \<notin> set n) months"
  "distinct (map (map c_tolower) months)"
  by code_simp+

lemma find_month:
  assumes "mon < 12" and "blk_read m i = Inr (months ! mon ! 0)"
    and "blk_read m (Suc i) = Inr (months ! mon ! 1)" and "blk_read m (Suc (Suc i)) = Inr (months ! mon ! 2)"
  shows "find_name m i months 0 = Inr (Some mon)"
proof -
  have "length (months ! mon) = 3 \<and> NUL \<notin> set (months ! mon)"
    using months_names(1,2) assms(1) by (simp add: list_all_length)
  moreover have "blk_read m (i + k) = Inr (months ! mon ! k)" if "k < 3" for k
    using that assms(2-4) by (auto simp: numeral_3_eq_3 numeral_2_eq_2 less_Suc_eq)
  ultimately show ?thesis
    using find_name_ok [of mon months "months ! mon" m i 0] months_names assms(1)
    by (simp add: list_all_length)
qed

lemma third_letter:
  "mon < 12 \<Longrightarrow> (months ! mon ! 2 = CHR ''b'') = (mon = 1) \<and> \<not> c_isspace (months ! mon ! 2) \<and>
     \<not> c_isdigit (months ! mon ! 2) \<and> months ! mon ! 2 \<notin> {NUL, CHR '' '', CHR ''-'', CHR ''+''}"
proof -
  have "list_all (\<lambda>mon. (months ! mon ! 2 = CHR ''b'') = (mon = 1) \<and> \<not> c_isspace (months ! mon ! 2) \<and>
     \<not> c_isdigit (months ! mon ! 2) \<and> months ! mon ! 2 \<notin> set [NUL, CHR '' '', CHR ''-'', CHR ''+'']) [0..<12]"
    by code_simp
  then show "mon < 12 \<Longrightarrow> ?thesis" by (auto simp: list_all_iff)
qed

lemma month_letters: "mon < 12 \<Longrightarrow> months ! mon = [months ! mon ! 0, months ! mon ! 1, months ! mon ! 2]"
  using months_names(1,2) by (auto simp: list_all_length numeral_3_eq_3 length_Suc_conv numeral_2_eq_2)

lemma date_head:
  fixes d mon :: nat and rest :: string
  defines "m \<equiv> c_lit (two d @ '' '' @ months ! mon @ CHR '' '' # rest)"
  assumes "d < 100" and "mon < 12" and "rest \<noteq> []" and "NUL \<notin> set rest"
  shows "date_loop m (c_lit MBOX_DATE_FORMAT) 0 0 0 unset_date =
     date_loop m (c_lit MBOX_DATE_FORMAT) (if mon = 1 then 6 else 5) 2 5
       (unset_date\<lparr>tm_mday := int d, tm_mon := int mon\<rparr>)"
proof -
  obtain a b c where w: "months ! mon = [a, b, c]" using month_letters [OF assms(3)] by blast
  have m: "m = c_lit (digit (d div 10) # digit d # CHR '' '' # a # b # c # CHR '' '' # rest)"
    unfolding m_def by (simp add: two_def w)
  have f: "find_name m 3 months 0 = Inr (Some mon)"
    by (rule find_month [OF assms(3)]) (simp_all add: w m blk_read_lit)
  have s: "c_strtol m 0 = Inr (int d, 2)"
    using strtol_two [OF assms(2), of m 0 "CHR '' ''"] by (simp add: m blk_read_lit)
  have c: "(c = CHR ''b'') = (mon = 1)" "c \<noteq> NUL" "c \<noteq> CHR '' ''"
    using third_letter [OF assms(3)] by (auto simp: w)
  have "a \<noteq> NUL" using months_names(1,2) assms(3) w by (auto simp: list_all_length)
  moreover have r: "blk_read m 0 = Inr (digit (d div 10))" "blk_read m 2 = Inr CHR '' ''" "blk_read m 3 = Inr a"
     "blk_read m 5 = Inr c" "blk_read m 6 = Inr CHR '' ''"
    by (simp_all add: m blk_read_lit)

  moreover have "mon = 1 \<and> c = CHR ''b'' \<or> mon \<noteq> 1 \<and> c \<noteq> CHR ''b'' \<and> CHR ''b'' \<noteq> c"
    using c(1) by auto
  ultimately show ?thesis
    unfolding MBOX_DATE_FORMAT_def using assms(2,3) c(2,3)
    by (elim disjE conjE) (simp_all add: date_loop_char date_loop_conv after_conversion date_conversion_def
        conv_number_def conv_name_def f s r blk_read_lit numeral_2_eq_2 [symmetric])
qed

lemma date_tail:
  fixes d y H M S :: nat and z :: int
  defines "m \<equiv> c_lit (date_text d 1 y H M S z)"
  assumes "y < 10000" "H < 100" "M < 100" "S < 100" "\<bar>z\<bar> < 10000"
  shows "date_loop m (c_lit MBOX_DATE_FORMAT) 6 2 5 t =
     Inr (1, t\<lparr>tm_year := int y, tm_hour := int H, tm_min := int M, tm_sec := int S,
       tm_zone_diff := z\<rparr>)"
proof -
  let ?z = "nat \<bar>z\<bar>"
  have m: "m = c_lit [digit (d div 10), digit d, CHR '' '', CHR ''F'', CHR ''e'', CHR ''b'',
      CHR '' '', digit (y div 1000), digit (y div 100), digit (y div 10), digit y, CHR '' '',
      digit (H div 10), digit H, CHR '':'', digit (M div 10), digit M, CHR '':'', digit (S div 10),
      digit S, CHR '' '', if z < 0 then CHR ''-'' else CHR ''+'', digit (?z div 1000),
      digit (?z div 100), digit (?z div 10), digit ?z]"
    by (simp add: m_def date_text_def two_def four_def zone_text_def months_def)
  note r = blk_read_lit [of _ 0] blk_read_lit
  have st: "c_strtol m 7 = Inr (int y, 11)"
    using strtol_four [OF assms(2), of m 7 "CHR '' ''"] by (simp add: m blk_read_lit)
  have sH: "c_strtol m 12 = Inr (int H, 14)"
    using strtol_two [OF assms(3), of m 12 "CHR '':''"] by (simp add: m blk_read_lit)
  have sM: "c_strtol m 15 = Inr (int M, 17)"
    using strtol_two [OF assms(4), of m 15 "CHR '':''"] by (simp add: m blk_read_lit)
  have sS: "c_strtol m 18 = Inr (int S, 20)"
    using strtol_two [OF assms(5), of m 18 "CHR '' ''"] by (simp add: m blk_read_lit)
  have "?z < 10000" using assms(6) by simp
  from strtol_zone [OF this, of m 21 "z < 0" NUL] have sz: "c_strtol m 21 = Inr (z, 26)"
    by (simp add: m blk_read_lit)
  have rd: "blk_read m 6 = Inr CHR '' ''" "blk_read m 7 = Inr (digit (y div 1000))"
    "blk_read m 11 = Inr CHR '' ''" "blk_read m 12 = Inr (digit (H div 10))"
    "blk_read m 14 = Inr CHR '':''" "blk_read m 15 = Inr (digit (M div 10))"
    "blk_read m 17 = Inr CHR '':''" "blk_read m 18 = Inr (digit (S div 10))"
    "blk_read m 20 = Inr CHR '' ''" "blk_read m 21 = Inr (if z < 0 then CHR ''-'' else CHR ''+'')"
    "blk_read m 26 = Inr NUL" "blk_read m 2 = Inr CHR '' ''"
    by (simp_all add: m blk_read_lit)
  show ?thesis
    unfolding MBOX_DATE_FORMAT_def using assms(2-)
    by (simp add: date_loop_char date_loop_conv after_conversion date_conversion_def
        conv_number_def st sH sM sS sz rd blk_read_lit)
qed

section \<open>The parser stays inside its strings\<close>

definition c_string :: "block \<Rightarrow> nat \<Rightarrow> bool" where
  "c_string m n \<longleftrightarrow> n < length m \<and> m ! n = Some NUL \<and>
     list_all (\<lambda>c. c \<noteq> None \<and> c \<noteq> Some NUL) (take n m)"

lemma c_string_read:
  assumes "c_string m n" and "i \<le> n"
  shows "\<exists>c. blk_read m i = Inr c \<and> (c = NUL \<longleftrightarrow> i = n)"
proof (cases "i = n")
  case False
  then have "m ! i \<noteq> None \<and> m ! i \<noteq> Some NUL"
    using assms by (auto simp: c_string_def list_all_length)
  then show ?thesis using assms False by (auto simp: c_string_def blk_read_def)
qed (use assms in \<open>simp add: c_string_def blk_read_def\<close>)

lemma skip_space_safe: "c_string m n \<Longrightarrow> i \<le> n \<Longrightarrow> \<exists>j. skip_space m i = Inr j \<and> i \<le> j \<and> j \<le> n"
proof (induction "n - i" arbitrary: i)
  case 0
  then show ?case using c_string_read [of m n n] by auto
next
  case (Suc d)
  obtain c where c: "blk_read m i = Inr c" using c_string_read [OF Suc.prems] by blast
  show ?case
  proof (cases "c_isspace c")
    case True
    have "\<exists>j. skip_space m (Suc i) = Inr j \<and> Suc i \<le> j \<and> j \<le> n"
      using Suc.hyps(2) Suc.prems by (intro Suc.hyps(1)) simp_all
    then obtain j where "skip_space m (Suc i) = Inr j" "Suc i \<le> j" "j \<le> n" by blast
    then show ?thesis using skip_space_step(1) [OF c True] by auto
  next
    case False
    then show ?thesis using skip_space_step(2) [OF c False] Suc.prems by blast
  qed
qed

lemma scan_digits_safe:
  "c_string m n \<Longrightarrow> i \<le> n \<Longrightarrow> \<exists>v e. scan_digits m i acc = Inr (v, e) \<and> i \<le> e \<and> e \<le> n"
proof (induction "n - i" arbitrary: i acc)
  case 0
  then show ?case using c_string_read [of m n n] by auto
next
  case (Suc d)
  obtain c where c: "blk_read m i = Inr c" using c_string_read [OF Suc.prems] by blast
  show ?case
  proof (cases "c_isdigit c")
    case True
    have "\<exists>v e. scan_digits m (Suc i) (10 * acc + (int (byte c) - 48)) = Inr (v, e) \<and>
        Suc i \<le> e \<and> e \<le> n"
      using Suc.hyps(2) Suc.prems by (intro Suc.hyps(1)) simp_all
    then obtain v e where "scan_digits m (Suc i) (10 * acc + (int (byte c) - 48)) = Inr (v, e)"
      "Suc i \<le> e" "e \<le> n" by blast
    then show ?thesis using scan_digits_step(1) [OF c True] by auto
  next
    case False
    then show ?thesis using scan_digits_step(2) [OF c False] Suc.prems by blast
  qed
qed

lemma strtol_safe:
  assumes "c_string m n" and "i \<le> n"
  shows "\<exists>v e. c_strtol m i = Inr (v, e) \<and> i \<le> e \<and> e \<le> n"
proof -
  obtain j where j: "skip_space m i = Inr j" "i \<le> j" "j \<le> n" using skip_space_safe [OF assms] by blast
  obtain c where c: "blk_read m j = Inr c" "c = NUL \<longleftrightarrow> j = n" using c_string_read [OF assms(1) j(3)] by blast
  let ?k = "if c = CHR ''-'' \<or> c = CHR ''+'' then Suc j else j"
  have "?k \<le> n" using c(2) j(3) by auto
  from scan_digits_safe [OF assms(1) this, of 0]
  obtain v e where e: "scan_digits m ?k 0 = Inr (v, e)" "?k \<le> e" "e \<le> n" by blast
  have "c_strtol m i = Inr (if e = ?k then (0, i)
      else (clamp_long (if c = CHR ''-'' then - v else v), e))"
    using j(1) c(1) e(1) by (simp add: c_strtol_def Let_def)
  then show ?thesis using e(2,3) j(2) assms(2) by (cases "e = ?k") (auto split: if_splits)
qed

lemma strncmp_safe:
  assumes "c_string m n" and "NUL \<notin> set s"
  shows "i \<le> n \<Longrightarrow> j + k \<le> length s \<Longrightarrow>
    \<exists>r. c_strncmp c_tolower m i (c_lit s) j k = Inr r \<and> (r = 0 \<longrightarrow> i + k \<le> n)"
proof (induction k arbitrary: i j)
  case (Suc k)
  obtain c where c: "blk_read m i = Inr c" "c = NUL \<longleftrightarrow> i = n"
    using c_string_read [OF assms(1) Suc.prems(1)] by blast
  have "s ! j \<in> set s" using Suc.prems(2) by (intro nth_mem) simp
  then have j: "s ! j \<noteq> NUL" "blk_read (c_lit s) j = Inr (s ! j)"
    using Suc.prems(2) assms(2) by (metis, simp add: blk_read_lit)
  show ?case
  proof (cases "c_tolower c = c_tolower (s ! j)")
    case True
    then have "c \<noteq> NUL" using j(1) tolower_NUL_iff by metis
    then show ?thesis
      using True c j Suc.IH [of "Suc i" "Suc j"] Suc.prems by (auto simp: c_strncmp_step)
  next
    case False
    then show ?thesis using c j by (auto simp: c_strncmp_step byte_inj)
  qed
qed simp

lemma find_name_safe:
  assumes "c_string m n" and "i \<le> n" and "list_all (\<lambda>s. length s = 3 \<and> NUL \<notin> set s) names"
  shows "\<exists>r. find_name m i names k = Inr r \<and> (r \<noteq> None \<longrightarrow> i + 3 \<le> n)"
  using assms(3)
proof (induction names arbitrary: k)
  case (Cons s names)
  then show ?case using strncmp_safe [OF assms(1) _ assms(2), of s 0 3] by force
qed simp

text \<open>Where a conversion leaves the two pointers.\<close>

definition stays :: "nat \<Rightarrow> c_error + date_step \<Rightarrow> bool" where
  "stays n r \<longleftrightarrow> (case r of Inl err \<Rightarrow> err = IntOverflow | Inr (Fails t) \<Rightarrow> True
     | Inr (Goes s e t) \<Rightarrow> e \<le> n \<and> (s \<le> n \<or> e = n))"

lemma conv_name_safe:
  assumes "c_string m n" "s \<le> n" "e \<le> n" "list_all (\<lambda>s. length s = 3 \<and> NUL \<notin> set s) names" "adv \<le> 3"
  shows "stays n (conv_name names adv get put m s e t)"
proof -
  obtain r where r: "find_name m s names 0 = Inr r" "r \<noteq> None \<longrightarrow> s + 3 \<le> n"
    using find_name_safe [OF assms(1,2,4), of 0] by blast
  then show ?thesis using assms(2,3,5) by (cases r) (auto simp: conv_name_def stays_def)
qed

lemma conv_number_safe:
  assumes "c_string m n" "s \<le> n" "\<And>e. s < e \<Longrightarrow> next_s s e \<le> Suc e"
  shows "stays n (conv_number put next_s m s e t)"
proof -
  obtain v e where e: "c_strtol m s = Inr (v, e)" "s \<le> e" "e \<le> n"
    using strtol_safe [OF assms(1,2)] by blast
  then show ?thesis
    using assms(3) [of e] by (auto simp: conv_number_def stays_def Let_def)
qed

lemma stays_bind: "stays n r \<Longrightarrow> (\<And>x. m = Inr x \<Longrightarrow> stays n (f x)) \<Longrightarrow>
  (\<And>err. m = Inl err \<Longrightarrow> err = IntOverflow) \<Longrightarrow> stays n (bindE m f)"
  by (cases m) (auto simp: stays_def)

lemma date_conversion_safe:
  assumes "c_string m n" and "s \<le> n" and "e \<le> n"
  shows "stays n (date_conversion f m s e t)"
proof -
  have names: "list_all (\<lambda>s. length s = 3 \<and> NUL \<notin> set s) days"
    "list_all (\<lambda>s. length s = 3 \<and> NUL \<notin> set s) months"
    by code_simp+
  obtain am pm where "c_strncmp c_tolower m s (c_lit ''AM'') 0 2 = Inr am"
    "c_strncmp c_tolower m s (c_lit ''PM'') 0 2 = Inr pm"
    using strncmp_safe [OF assms(1) _ assms(2), of "''AM''" 0 2]
      strncmp_safe [OF assms(1) _ assms(2), of "''PM''" 0 2] by auto
  then show ?thesis
    using conv_name_safe [OF assms names(1)] conv_name_safe [OF assms names(2)]
      conv_number_safe [OF assms(1,2)] assms(2,3)
    by (auto simp: date_conversion_def int_op_def stays_def)
qed

definition full_format :: "block \<Rightarrow> nat \<Rightarrow> bool" where
  "full_format fmt k \<longleftrightarrow> c_string fmt k \<and>
     (k = 0 \<or> fmt ! (k - 1) \<noteq> Some CHR ''%'')"

lemma date_loop_safe:
  assumes "c_string m n" and "full_format fmt k"
  shows "s \<le> n \<Longrightarrow> e \<le> n \<Longrightarrow> i \<le> k \<Longrightarrow>
    (\<exists>r d. date_loop m fmt s e i t = Inr (r, d)) \<or> date_loop m fmt s e i t = Inl IntOverflow"
proof (induction "k - i" arbitrary: s e i t rule: less_induct)
  case less
  have fs: "c_string fmt k" using assms(2) by (simp add: full_format_def)
  obtain c where c: "blk_read m s = Inr c" "c = NUL \<longleftrightarrow> s = n"
    using c_string_read [OF assms(1) less.prems(1)] by blast
  obtain f where f: "blk_read fmt i = Inr f" "f = NUL \<longleftrightarrow> i = k"
    using c_string_read [OF fs less.prems(3)] by blast
  show ?case
  proof (cases "c = NUL \<or> f = NUL")
    case True
    then show ?thesis using c(1) f(1) by (subst (1 2) date_loop.simps) auto
  next
    case False
    define j where "j = (if f = CHR ''%'' then Suc i else i)"
    have "f = CHR ''%'' \<Longrightarrow> Suc i < k"
      using assms(2) f less.prems(3) False
      by (cases "Suc i = k") (auto simp: full_format_def blk_read_Inr_iff)
    then have j: "i \<le> j" "j < k" using f(2) less.prems(3) False by (auto simp: j_def)
    obtain g where g: "blk_read fmt j = Inr g" "g \<noteq> NUL"
      using c_string_read [OF fs, of j] j(2) by auto
    define r where "r = (if f = CHR ''%'' then date_conversion g m s e t else Inr (Goes s e t))"
    have run: "date_loop m fmt s e i t = bindE r (after_conversion m fmt j g)"
      using c(1) f(1) g(1) False
      by (subst date_loop.simps) (auto simp: r_def j_def after_conversion_def split: date_step.splits intro!: bindE_cong)
    have "stays n r"
      using date_conversion_safe [OF assms(1) less.prems(1,2)] less.prems(1,2)
      by (simp add: r_def stays_def)
    then consider (ov) "r = Inl IntOverflow" | (fl) d where "r = Inr (Fails d)"
      | (go) s' e' t' where "r = Inr (Goes s' e' t')" "e' \<le> n" "s' \<le> n \<or> e' = n"
      by (auto simp: stays_def split: sum.splits date_step.splits)
    then show ?thesis
    proof cases
      case go
      obtain x where x: "blk_read m e' = Inr x" "x = NUL \<longleftrightarrow> e' = n"
        using c_string_read [OF assms(1) go(2)] by blast
      show ?thesis
      proof (cases "x = NUL")
        case True
        then show ?thesis using run go(1) x(1) by (simp add: after_conversion)
      next
        case False
        then have s': "s' \<le> n" using x(2) go(3) by blast
        then obtain c' where c': "blk_read m s' = Inr c'" "c' = NUL \<longleftrightarrow> s' = n"
          using c_string_read [OF assms(1)] by blast
        let ?s = "if g = c' then Suc s' else s'"
        have "?s \<le> n" using c'(2) g(2) s' by auto
        then show ?thesis
          using less.hyps [of "Suc j" ?s e' t'] j go(1,2) run x(1) False c'(1)
          by (simp add: after_conversion)
      qed
    qed (use run in \<open>simp_all add: after_conversion\<close>)
  qed
qed

lemma date_head_fails:
  fixes d mon :: nat and rest :: string
  defines "m \<equiv> c_lit (two d @ '' '' @ months ! mon @ CHR '' '' # rest)"
  assumes "mon < 12" and "mon \<noteq> 1"
  shows "date_loop m (c_lit MBOX_DATE_FORMAT) 5 2 5 t = Inr (0, t\<lparr>tm_year := 0\<rparr>)"
proof -
  obtain a b c where w: "months ! mon = [a, b, c]" using month_letters [OF assms(2)] by blast
  have m: "m = c_lit (digit (d div 10) # digit d # CHR '' '' # a # b # c # CHR '' '' # rest)"
    unfolding m_def by (simp add: two_def w)
  have c: "\<not> c_isspace c" "\<not> c_isdigit c" "c \<noteq> NUL" "c \<noteq> CHR '' ''" "c \<noteq> CHR ''-''" "c \<noteq> CHR ''+''"
    using third_letter [OF assms(2)] by (auto simp: w)
  have r: "blk_read m 2 = Inr CHR '' ''" "blk_read m 5 = Inr c"
    by (simp_all add: m blk_read_lit)
  have "c_strtol m 5 = Inr (0, 5)" using c r by (simp add: c_strtol_def)
  then show ?thesis
    unfolding MBOX_DATE_FORMAT_def using c r
    by (simp add: date_loop_char date_loop_conv after_conversion date_conversion_def
        conv_number_def blk_read_lit)
qed

lemma date_loop_done:
  "blk_read m s = Inr c \<Longrightarrow> blk_read fmt i = Inr NUL \<Longrightarrow> date_loop m fmt s e i t = Inr (1, t)"
  by (subst date_loop.simps) simp

lemmas date_run = date_loop_char date_loop_conv date_loop_done after_conversion date_conversion_def
  conv_number_def conv_name_def c_strtol_def days_def months_def blk_read_lit c_strncmp_step
  c_isdigit_def c_isspace_def byte_def c_tolower_def chr_of_def mboxDateStringToStruct_def

section \<open>The offset of the zone\<close>

definition tm_of :: "mboxDate \<Rightarrow> c_tm" where
  "tm_of d = \<lparr>c_sec = tm_sec d, c_min = tm_min d, c_hour = tm_hour d, c_mday = tm_mday d,
     c_mon = tm_mon d, c_year = tm_year d - 1900\<rparr>"

definition zone_seconds :: "int \<Rightarrow> int" where
  "zone_seconds z = (if z = -1 then 0 else sgn z * ((\<bar>z\<bar> div 100) * 3600 + (\<bar>z\<bar> mod 100) * 60))"

text \<open>\<open>mktime\<close> on a machine whose zone is UTC: the seconds since the Epoch, as POSIX defines them.\<close>

definition utc_mktime :: "c_tm \<Rightarrow> int" where
  "utc_mktime t =
     (let y = c_year t; full = y + 1900;
          leap = full mod 4 = 0 \<and> (full mod 100 \<noteq> 0 \<or> full mod 400 = 0);
          yday = [0, 31, 59, 90, 120, 151, 181, 212, 243, 273, 304, 334] ! nat (c_mon t)
                 + (if leap \<and> c_mon t > 1 then 1 else 0) + c_mday t - 1
      in c_sec t + c_min t * 60 + c_hour t * 3600 + yday * 86400 + (y - 70) * 31536000
         + ((y - 69) div 4) * 86400 - ((y - 1) div 100) * 86400 + ((y + 299) div 400) * 86400)"

section \<open>The test suite of the repository\<close>

definition dateTests :: "(string \<times> string \<times> nat) list" where
  "dateTests =
    [(''Mon, 27 Feb 2023 07:30:00 +0000 (UTC)'', ''%a, %d %b %Y %H:%M:%S %z'', 1677483000000),
     (''Mon, 27 Feb 2023 14:37:33 -0800'', ''%a, %d %b %Y %H:%M:%S %z'', 1677537453000),
     (''Fri, 25 Feb 2023 05:30:47 -0500 (EST)'', ''%a, %d %b %Y %H:%M:%S %z'', 1677321047000),
     (''Mon, 27 Feb 2023 19:36:54 -0600 (CST)'', ''%a, %d %b %Y %H:%M:%S %z'', 1677548214000),
     (''Mon, 27 Feb 2023 19:36:54'', ''%a, %d %b %Y %H:%M:%S %z'', 1677526614000),
     (''27 Feb 2023 19:36:54'', ''%d %b %Y %H:%M:%S %z'', 1677526614000),
     (''Fri Feb 24 15:13:20 +0000 2023'', ''%a %b %d %H:%M:%S %z %Y'', 1677251600000)]"

text \<open>The loop of the suite: \<open>None\<close> when it exits with an error.\<close>

fun date_tests_loop ::
  "(c_tm \<Rightarrow> int) \<Rightarrow> (string \<times> string \<times> nat) list \<Rightarrow> int \<Rightarrow> c_error + int option" where
  "date_tests_loop mktime [] passed = Inr (Some passed)"
| "date_tests_loop mktime ((date, fmt, stamp) # ts) passed =
     bindE (mboxDateStringToStruct (c_lit date) (c_lit fmt)) (\<lambda>(ok, d).
     bindE (mboxDateStructToUnix mktime d) (\<lambda>u.
     bindE (long_op (u * 1000)) (\<lambda>a1.
     if a1 mod 2 ^ 64 \<noteq> int stamp then Inr None
     else date_tests_loop mktime ts (passed + ok + 1))))"

definition dateTestSuite :: "(c_tm \<Rightarrow> int) \<Rightarrow> c_error + bool" where
  "dateTestSuite mktime =
     bindE (date_tests_loop mktime dateTests 0) (\<lambda>r.
     Inr (r = Some (int (length dateTests) * 2)))"

text \<open>What the parser makes of each of them.\<close>

definition date_in_feb :: "int \<Rightarrow> int \<Rightarrow> int \<Rightarrow> int \<Rightarrow> int \<Rightarrow> int \<Rightarrow> mboxDate" where
  "date_in_feb w d H M S z = \<lparr>tm_sec = S, tm_min = M, tm_hour = H, tm_mday = d, tm_mon = 1,
     tm_year = 2023, tm_wday = w, tm_yday = -1, tm_isdst = -1, tm_zone_diff = z\<rparr>"

lemma date_tests_parse:
  "mboxDateStringToStruct (c_lit ''Mon, 27 Feb 2023 07:30:00 +0000 (UTC)'') (c_lit ''%a, %d %b %Y %H:%M:%S %z'') =
     Inr (1, date_in_feb (1) 27 7 30 0 (0))"
  "mboxDateStringToStruct (c_lit ''Mon, 27 Feb 2023 14:37:33 -0800'') (c_lit ''%a, %d %b %Y %H:%M:%S %z'') =
     Inr (1, date_in_feb (1) 27 14 37 33 (-800))"
  "mboxDateStringToStruct (c_lit ''Fri, 25 Feb 2023 05:30:47 -0500 (EST)'') (c_lit ''%a, %d %b %Y %H:%M:%S %z'') =
     Inr (1, date_in_feb (5) 25 5 30 47 (-500))"
  "mboxDateStringToStruct (c_lit ''Mon, 27 Feb 2023 19:36:54 -0600 (CST)'') (c_lit ''%a, %d %b %Y %H:%M:%S %z'') =
     Inr (1, date_in_feb (1) 27 19 36 54 (-600))"
  "mboxDateStringToStruct (c_lit ''Mon, 27 Feb 2023 19:36:54'') (c_lit ''%a, %d %b %Y %H:%M:%S %z'') =
     Inr (1, date_in_feb (1) 27 19 36 54 (-1))"
  "mboxDateStringToStruct (c_lit ''27 Feb 2023 19:36:54'') (c_lit ''%d %b %Y %H:%M:%S %z'') =
     Inr (1, date_in_feb (-1) 27 19 36 54 (-1))"
  "mboxDateStringToStruct (c_lit ''Fri Feb 24 15:13:20 +0000 2023'') (c_lit ''%a %b %d %H:%M:%S %z %Y'') =
     Inr (1, date_in_feb (5) 24 15 13 20 (0))"
  by (simp_all add: date_run date_in_feb_def unset_date_def)

section \<open>Properties\<close>

text \<open>
  C21. A date in the format of the mails is read field by field when its month is February. With
  any other month the parser fails after the month, because it steps over two letters of the
  name, which is right only where the format's own letter \<open>b\<close> matches the third.
\<close>

theorem mboxDateStringToStruct_february:
  assumes "d < 100" and "mon < 12" and "y < 10000" and "H < 100" and "M < 100" and "S < 100"
    and "\<bar>z\<bar> < 10000"
  shows "mboxDateStringToStruct (c_lit (date_text d mon y H M S z)) (c_lit MBOX_DATE_FORMAT) =
     Inr (if mon = 1
          then (1, unset_date\<lparr>tm_mday := int d, tm_mon := 1, tm_year := int y, tm_hour := int H,
                 tm_min := int M, tm_sec := int S, tm_zone_diff := z\<rparr>)
          else (0, unset_date\<lparr>tm_mday := int d, tm_mon := int mon, tm_year := 0\<rparr>))"
proof -
  define rest where "rest = four y @ '' '' @ two H @ '':'' @ two M @ '':'' @ two S @ '' '' @ zone_text z"
  have date: "date_text d mon y H M S z = two d @ '' '' @ months ! mon @ CHR '' '' # rest"
    by (simp add: date_text_def rest_def)
  have "rest \<noteq> []" "NUL \<notin> set rest"
    by (auto simp: rest_def two_def four_def zone_text_def)
  note head = date_head [OF assms(1,2) this, folded date] date_head_fails [OF assms(2), of d rest, folded date]
  show ?thesis
    using head date_tail [OF assms(3-7), of d] by (auto simp: mboxDateStringToStruct_def)
qed

theorem mboxDateStringToStruct_february_witness:
  "mboxDateStringToStruct (c_lit (date_text 27 1 2023 14 37 33 (-800))) (c_lit MBOX_DATE_FORMAT) =
     Inr (1, unset_date\<lparr>tm_mday := 27, tm_mon := 1, tm_year := 2023, tm_hour := 14,
       tm_min := 37, tm_sec := 33, tm_zone_diff := -800\<rparr>) \<and>
   mboxDateStringToStruct (c_lit (date_text 27 2 2023 14 37 33 (-800))) (c_lit MBOX_DATE_FORMAT) =
     Inr (0, unset_date\<lparr>tm_mday := 27, tm_mon := 2, tm_year := 0\<rparr>)"
  using mboxDateStringToStruct_february [of 27 1 2023 14 37 33 "-800"]
    mboxDateStringToStruct_february [of 27 2 2023 14 37 33 "-800"] by simp

text \<open>
  C31. Whatever the text of a date, the parser reads nothing outside it or outside the format,
  as long as no \<open>%\<close> ends the format; it always returns, or an \<open>int\<close> overflows where \<open>PM\<close>
  adds twelve hours.
\<close>

theorem mboxDateStringToStruct_in_bounds:
  assumes "c_string m n" and "full_format fmt k"
  shows "(\<exists>r d. mboxDateStringToStruct m fmt = Inr (r, d)) \<or>
     mboxDateStringToStruct m fmt = Inl IntOverflow"
  unfolding mboxDateStringToStruct_def by (rule date_loop_safe [OF assms]) simp_all

theorem mboxDateStringToStruct_in_bounds_witness:
  "(\<exists>r d. mboxDateStringToStruct (c_lit ''5 jan'') (c_lit MBOX_DATE_FORMAT) = Inr (r, d)) \<or>
     mboxDateStringToStruct (c_lit ''5 jan'') (c_lit MBOX_DATE_FORMAT) = Inl IntOverflow"
proof -
  have "c_string (c_lit ''5 jan'') 5" "full_format (c_lit MBOX_DATE_FORMAT) 20"
    by (simp_all add: full_format_def c_string_def c_lit_def MBOX_DATE_FORMAT_def)
  then show ?thesis by (rule mboxDateStringToStruct_in_bounds)
qed

text \<open>
  The conversion to seconds takes the offset of the zone, read as hours and minutes, off
  what \<open>mktime\<close> says of the local fields; an offset of minus one minute counts as none.
\<close>

theorem mboxDateStructToUnix_offset:
  assumes "\<bar>mktime (tm_of d)\<bar> < 2 ^ 62" and "\<bar>tm_zone_diff d\<bar> < 10000"
    and "1900 - 2 ^ 31 \<le> tm_year d" and "tm_year d < 2 ^ 31"
  shows "mboxDateStructToUnix mktime d = Inr (mktime (tm_of d) - zone_seconds (tm_zone_diff d))"
proof -
  define z where "z = \<bar>tm_zone_diff d\<bar>"
  define hs where "hs = z div 100 * 3600"
  define ms where "ms = z mod 100 * 60"
  define u where "u = mktime (tm_of d)"
  have "0 \<le> z" "z div 100 \<le> 99" "0 \<le> z div 100" using assms(2) by (simp_all add: z_def)
  then have hs: "0 \<le> hs" "hs \<le> 356400" by (simp_all add: hs_def)
  have ms: "0 \<le> ms" "ms \<le> 5940" using pos_mod_bound [of 100 z] by (simp_all add: ms_def)
  have ops: "int_op (tm_year d - 1900) = Inr (tm_year d - 1900)" "int_op z = Inr z"
    "int_op hs = Inr hs"
    using assms(2-4) hs by (simp_all add: z_def int_op_def)
  have longs: "long_op (u + hs) = Inr (u + hs)" "long_op (u + hs + ms) = Inr (u + hs + ms)"
    "long_op (u - hs) = Inr (u - hs)" "long_op (u - hs - ms) = Inr (u - hs - ms)"
    using assms(1) hs ms unfolding u_def [symmetric] long_op_def by (simp_all, linarith+)
  have run: "mboxDateStructToUnix mktime d =
      (if tm_zone_diff d \<noteq> 0 \<and> tm_zone_diff d \<noteq> -1
       then if tm_zone_diff d < -1 then Inr (u + hs + ms) else Inr (u - hs - ms) else Inr u)"
    using ops longs unfolding mboxDateStructToUnix_def z_def [symmetric]
    by (simp add: tm_of_def u_def hs_def ms_def Let_def)
  show ?thesis
    unfolding run u_def [symmetric] zone_seconds_def z_def [symmetric] hs_def [symmetric]
      ms_def [symmetric]
    by (simp add: sgn_if hs_def ms_def z_def)
qed

theorem mboxDateStructToUnix_offset_witness:
  "mboxDateStructToUnix utc_mktime (unset_date\<lparr>tm_mday := 27, tm_mon := 1, tm_year := 2023,
     tm_hour := 14, tm_min := 37, tm_sec := 33, tm_zone_diff := -800\<rparr>) = Inr 1677537453"
proof -
  define d where "d = unset_date\<lparr>tm_mday := 27, tm_mon := 1, tm_year := 2023,
     tm_hour := 14, tm_min := 37, tm_sec := 33, tm_zone_diff := -800\<rparr>"
  have v: "utc_mktime (tm_of d) = 1677508653" unfolding d_def by code_simp
  have "mboxDateStructToUnix utc_mktime d = Inr (utc_mktime (tm_of d) - zone_seconds (tm_zone_diff d))"
    by (rule mboxDateStructToUnix_offset) (simp_all add: v, simp_all add: d_def)
  then show ?thesis by (simp add: v) (simp add: d_def zone_seconds_def)
qed

text \<open>
  The test suite of the dates passes on a machine in UTC: each of its seven dates is read
  and gives its stamp. All of them are in February.
\<close>

theorem dateTestSuite_passes: "dateTestSuite utc_mktime = Inr True"
  by (simp add: dateTestSuite_def dateTests_def date_tests_parse mboxDateStructToUnix_def
      date_in_feb_def utc_mktime_def long_op_def)

end
