(* ===== verification/Mbox_HeaderParser.thy ===== *)
theory Mbox_HeaderParser
  imports Mbox_Headers Mbox_Encode
begin

text \<open>
  The parser of the headers of a mail, \<open>mboxParseEmailHeaders\<close> of \<open>src/src/mbox-parser.c\<close>. The
  buffer that is parsed only has its offset changed, so its loops move an index over its block.
\<close>

section \<open>Scanning\<close>

definition isLine :: "mboxChar \<Rightarrow> bool" where
  "isLine ch \<longleftrightarrow> ch = CR \<or> ch = LF"

text \<open>\<open>while (P(data[i])) i++\<close>.\<close>

function scan_while :: "(mboxChar \<Rightarrow> bool) \<Rightarrow> block \<Rightarrow> nat \<Rightarrow> c_error + nat" where
  "scan_while P m i =
     bindE (blk_read m i) (\<lambda>c. if P c then scan_while P m (Suc i) else Inr i)"
  by pat_completeness auto
termination
  by (relation "measure (\<lambda>(P, m, i). length m - i)") (auto simp: outcome_simps)

text \<open>\<open>while (data[i] != stop) { if (keep(data[i])) mboxBufPutChar(dst, data[i]); i++; }\<close>.\<close>

function copy_until ::
  "mboxChar \<Rightarrow> (mboxChar \<Rightarrow> bool) \<Rightarrow> block \<Rightarrow> nat \<Rightarrow> mboxBuf \<Rightarrow> c_error + (nat \<times> mboxBuf)" where
  "copy_until stop keep m i dst =
     bindE (blk_read m i) (\<lambda>c.
     if c = stop then Inr (i, dst)
     else bindE (if keep c then mboxBufPutChar dst c else Inr dst) (\<lambda>dst.
          copy_until stop keep m (Suc i) dst))"
  by pat_completeness auto
termination
  by (relation "measure (\<lambda>(stop, keep, m, i, dst). length m - i)") (auto simp: outcome_simps)

declare scan_while.simps [simp del] copy_until.simps [simp del]

lemma copy_until_moves: "copy_until stop keep m i dst = Inr (j, d) \<Longrightarrow> i \<le> j \<and> j < length m"
proof (induction stop keep m i dst rule: copy_until.induct)
  case (1 stop keep m i dst)
  then show ?case
    by (subst (asm) (2) copy_until.simps) (fastforce simp: outcome_simps split: if_splits)
qed

fun match_text :: "block \<Rightarrow> nat \<Rightarrow> mboxChar list \<Rightarrow> c_error + bool" where
  "match_text m i [] = Inr True"
| "match_text m i (c # cs) =
     bindE (blk_read m i) (\<lambda>d. if d = c then match_text m (Suc i) cs else Inr False)"

definition mboxBufMatchFromLine :: "mboxBuf \<Rightarrow> c_error + bool" where
  "mboxBufMatchFromLine buf = match_text (buf_data buf) (buf_offset buf) ''From ''"

section \<open>The headers\<close>

text \<open>The value of a header, which goes on over the lines that begin with a space or a tab.\<close>

function parse_value :: "block \<Rightarrow> nat \<Rightarrow> mboxBuf \<Rightarrow> c_error + (nat \<times> mboxBuf)" where
  "parse_value m i value =
     bindE (copy_until LF (\<lambda>ch. ch \<noteq> CR \<and> ch \<noteq> TAB) m i value) (\<lambda>(i, value).
     bindE (blk_read m (Suc i)) (\<lambda>c.
     if c = CHR '' '' \<or> c = TAB then parse_value m (Suc i) value else Inr (Suc i, value)))"
  by pat_completeness auto
termination
  by (relation "measure (\<lambda>(m, i, value). length m - i)")
    (auto simp: outcome_simps dest!: copy_until_moves)

declare parse_value.simps [simp del]

lemma parse_value_moves: "parse_value m i v = Inr (j, v') \<Longrightarrow> i < j \<and> j < length m"
proof (induction m i v rule: parse_value.induct)
  case (1 m i v)
  then show ?case
    by (subst (asm) (2) parse_value.simps)
      (fastforce simp: outcome_simps dest!: copy_until_moves split: if_splits)
qed

text \<open>The line before the headers: its text stays in \<open>key\<close>.\<close>

definition parse_from_line ::
  "mboxBuf \<Rightarrow> (mboxBuf, mboxBuf) rbheap \<Rightarrow> mboxBuf mboxRBTree \<Rightarrow> mboxBuf \<Rightarrow> nat \<Rightarrow>
     c_error + ((mboxBuf, mboxBuf) rbheap \<times> mboxBuf mboxRBTree \<times> mboxBuf \<times> nat)" where
  "parse_from_line buf h headers key i =
     bindE (mboxBufMatchFromLine (buf\<lparr>buf_offset := i\<rparr>)) (\<lambda>from.
     if \<not> from then Inr (h, headers, key, i)
     else bindE (copy_until LF (\<lambda>ch. ch \<noteq> CR) (buf_data buf) i key) (\<lambda>(i, key).
          bindE (mboxBufDupRaw (c_lit ''__FROM_LINE__'') 0 13 14) (\<lambda>k.
          bindE (mboxBufDup key) (\<lambda>v.
          bindE (mboxRBTreeInsert h headers (Some k) (Some v)) (\<lambda>(h, headers).
          Inr (h, headers, key, Suc i))))))"

lemma parse_from_line_moves:
  "parse_from_line buf h headers key i = Inr (h', t', k', j) \<Longrightarrow> i \<le> j"
  by (auto simp: parse_from_line_def outcome_simps dest!: copy_until_moves split: if_splits)

definition store_header ::
  "(mboxBuf, mboxBuf) rbheap \<Rightarrow> mboxBuf mboxRBTree \<Rightarrow> mboxBuf \<Rightarrow> mboxBuf \<Rightarrow>
     c_error + ((mboxBuf, mboxBuf) rbheap \<times> mboxBuf mboxRBTree)" where
  "store_header h headers key value =
     bindE (mboxBufIsMimeEncoded value) (\<lambda>mime.
     if mime
     then bindE (mboxBufDecodeMimeEncoded value) (\<lambda>decoded.
          bindE (mboxBufDup key) (\<lambda>k. mboxRBTreeInsert h headers (Some k) (Some decoded)))
     else bindE (mboxBufDup key) (\<lambda>k. bindE (mboxBufDup value) (\<lambda>v.
          mboxRBTreeInsert h headers (Some k) (Some v))))"

function skip_lines :: "mboxBuf \<Rightarrow> nat \<Rightarrow> c_error + nat" where
  "skip_lines buf i =
     bindE (mboxBufGetChar (buf\<lparr>buf_offset := i\<rparr>)) (\<lambda>c.
     if isLine c then skip_lines buf (Suc i) else Inr i)"
  by pat_completeness auto
termination
  by (relation "measure (\<lambda>(buf, i). length (buf_data buf) - i)")
    (auto simp: outcome_simps mboxBufGetChar_def isLine_def split: if_splits)

declare skip_lines.simps [simp del]

text \<open>The loop over the headers: it ends at the end of the buffer or at an empty line.\<close>

function header_loop ::
  "mboxBuf \<Rightarrow> (mboxBuf, mboxBuf) rbheap \<Rightarrow> mboxBuf mboxRBTree \<Rightarrow> mboxBuf \<Rightarrow> mboxBuf \<Rightarrow> nat \<Rightarrow>
     c_error + ((mboxBuf, mboxBuf) rbheap \<times> mboxBuf mboxRBTree \<times> nat)" where
  "header_loop buf h headers key value i =
     (if \<not> i < buf_len buf then Inr (h, headers, i)
      else bindE (parse_from_line buf h headers key i) (\<lambda>(h, headers, key, i).
           bindE (copy_until CHR '':'' (\<lambda>ch. True) (buf_data buf) i key) (\<lambda>(i, key).
           bindE (parse_value (buf_data buf) (i + 2) value) (\<lambda>(i, value).
           bindE (store_header h headers key value) (\<lambda>(h, headers).
           bindE (mboxBufSlice key 0 0 0) (\<lambda>key.
           bindE (mboxBufSlice value 0 0 0) (\<lambda>value.
           bindE (mboxBufGetChar (buf\<lparr>buf_offset := i\<rparr>)) (\<lambda>c.
           if isLine c then bindE (skip_lines buf i) (\<lambda>i. Inr (h, headers, i))
           else header_loop buf h headers key value i))))))))"
  by pat_completeness auto
termination
proof (relation "measure (\<lambda>(buf, h, headers, key, value, i). length (buf_data buf) - i)", goal_cases)
  case (2 buf h headers key v i x xa y xb ya xc yb xd yc xe ye xf yf)
  then show ?case
    by (auto dest!: parse_from_line_moves copy_until_moves parse_value_moves)
qed simp

declare header_loop.simps [simp del]

definition mboxParseEmailHeaders ::
  "(mboxBuf, mboxBuf) rbheap \<Rightarrow> mboxBuf \<Rightarrow>
     c_error + ((mboxBuf, mboxBuf) rbheap \<times> mboxBuf mboxRBTree \<times> mboxBuf)" where
  "mboxParseEmailHeaders h buf =
     (let key = mboxBufAlloc 3000; value = mboxBufAlloc 3000; (h, headers) = header_tree h
      in bindE (scan_while isLine (buf_data buf) (buf_offset buf)) (\<lambda>i.
         bindE (header_loop buf h headers key value i) (\<lambda>(h, headers, i).
         Inr (h, headers, buf\<lparr>buf_offset := i\<rparr>))))"

section \<open>Text in a block\<close>

definition text_at :: "block \<Rightarrow> nat \<Rightarrow> mboxChar list \<Rightarrow> bool" where
  "text_at m i t \<longleftrightarrow> i + length t \<le> length m \<and> take (length t) (drop i m) = map Some t"

lemma text_at_Nil [simp]: "text_at m i [] \<longleftrightarrow> i \<le> length m"
  by (auto simp: text_at_def)

lemma text_at_Cons [simp]: "text_at m i (c # t) \<longleftrightarrow> blk_read m i = Inr c \<and> text_at m (Suc i) t"
proof (cases "i < length m")
  case True
  then show ?thesis
    by (auto simp: text_at_def blk_read_Inr_iff Cons_nth_drop_Suc [symmetric])
qed (auto simp: text_at_def blk_read_Inr_iff)

lemma text_at_le: "text_at m i t \<Longrightarrow> i + length t \<le> length m"
  by (simp add: text_at_def)

lemma text_at_append [simp]: "text_at m i (s @ t) \<longleftrightarrow> text_at m i s \<and> text_at m (i + length s) t"
  by (induction s arbitrary: i) (auto dest: text_at_le)

lemma buf_rep_text: "buf_rep b s \<Longrightarrow> text_at (buf_data b) 0 s"
  by (simp add: buf_rep_def text_at_def)

section \<open>What the loops do\<close>

lemma scan_while_text:
  "text_at m i t \<Longrightarrow> list_all P t \<Longrightarrow> blk_read m (i + length t) = Inr c \<Longrightarrow> \<not> P c \<Longrightarrow>
   scan_while P m i = Inr (i + length t)"
  by (induction t arbitrary: i) (simp_all add: scan_while.simps [of P m])

text \<open>Room for \<open>n\<close> more characters.\<close>

definition roomy :: "mboxBuf \<Rightarrow> nat \<Rightarrow> bool" where
  "roomy b n \<longleftrightarrow> buf_capacity b + 256 * n \<le> PTRDIFF_MAX"

lemma copy_until_text:
  assumes "text_at m i t" and "stop \<notin> set t" and "blk_read m (i + length t) = Inr stop"
    and "buf_rep dst s" and "roomy dst (length t + n)"
  shows "\<exists>d. copy_until stop keep m i dst = Inr (i + length t, d) \<and>
     buf_rep d (s @ filter keep t) \<and> roomy d n \<and> (buf_term dst \<or> filter keep t \<noteq> [] \<longrightarrow> buf_term d)"
  using assms
proof (induction t arbitrary: i dst s)
  case Nil
  then show ?case by (simp add: copy_until.simps [of stop keep m i])
next
  case (Cons c t)
  have c: "blk_read m i = Inr c" "c \<noteq> stop" using Cons.prems(1,2) by auto
  obtain d where d: "(if keep c then mboxBufPutChar dst c else Inr dst) = Inr d"
    "buf_rep d (s @ filter keep [c])" "roomy d (length t + n)"
    "buf_term dst \<or> keep c \<longrightarrow> buf_term d"
  proof (cases "keep c")
    case True
    have "buf_capacity dst + 256 \<le> PTRDIFF_MAX" using Cons.prems(5) by (simp add: roomy_def)
    then obtain d where "mboxBufPutChar dst c = Inr d" "buf_rep d (s @ [c])" "buf_term d"
      "buf_capacity d \<le> buf_capacity dst + 256"
      using mboxBufPutChar_rep [OF Cons.prems(4)] by blast
    then show ?thesis using True Cons.prems(5) by (intro that [of d]) (auto simp: roomy_def)
  next
    case False
    then show ?thesis using Cons.prems(4,5) by (intro that [of dst]) (auto simp: roomy_def)
  qed
  obtain d' where "copy_until stop keep m (Suc i) d = Inr (Suc i + length t, d')"
    "buf_rep d' ((s @ filter keep [c]) @ filter keep t)" "roomy d' n"
    "buf_term d \<or> filter keep t \<noteq> [] \<longrightarrow> buf_term d'"
    using Cons.IH [OF _ _ _ d(2,3), of "Suc i"] Cons.prems(1-3) by auto
  then show ?case using c d by (auto simp: copy_until.simps [of stop keep m i])
qed

lemma match_text_text: "text_at m i t \<Longrightarrow> length p \<le> length t \<Longrightarrow> match_text m i p = Inr (take (length p) t = p)"
proof (induction p arbitrary: i t)
  case (Cons c p)
  then obtain d t' where "t = d # t'" by (cases t) auto
  then show ?case using Cons by auto
qed simp

lemma match_text_stops:
  "text_at m i t \<Longrightarrow> length t < length p \<Longrightarrow> t \<noteq> take (length t) p \<Longrightarrow> match_text m i p = Inr False"
proof (induction p arbitrary: i t)
  case (Cons c p)
  then obtain d t' where "t = d # t'" by (cases t) auto
  then show ?case using Cons by auto
qed simp

section \<open>Values over several lines\<close>

definition kept :: "mboxChar list \<Rightarrow> mboxChar list" where
  "kept = filter (\<lambda>ch. ch \<noteq> CR \<and> ch \<noteq> TAB)"

definition folded :: "mboxChar list list \<Rightarrow> mboxChar list" where
  "folded ls = concat (map (\<lambda>l. l @ [LF]) ls)"

definition goes_on :: "mboxChar \<Rightarrow> bool" where
  "goes_on c \<longleftrightarrow> c = CHR '' '' \<or> c = TAB"

definition lines_ok :: "mboxChar list list \<Rightarrow> bool" where
  "lines_ok ls \<longleftrightarrow> ls \<noteq> [] \<and> list_all (\<lambda>l. LF \<notin> set l) ls \<and>
     list_all (\<lambda>l. l \<noteq> [] \<and> goes_on (hd l)) (tl ls)"

lemma parse_value_text:
  assumes "text_at m i (folded ls)" and "lines_ok ls" and "blk_read m (i + length (folded ls)) = Inr c"
    and "\<not> goes_on c" and "buf_rep v s" and "roomy v (length (folded ls) + n)"
  shows "\<exists>d. parse_value m i v = Inr (i + length (folded ls), d) \<and>
     buf_rep d (s @ kept (concat ls)) \<and> roomy d n \<and>
     (buf_term v \<or> kept (concat ls) \<noteq> [] \<longrightarrow> buf_term d)"
  using assms
proof (induction ls arbitrary: i v s)
  case Nil
  then show ?case by (simp add: lines_ok_def)
next
  case (Cons l ls)
  let ?j = "i + length l"
  let ?r = "length (folded ls)"
  have f: "folded (l # ls) = l @ LF # folded ls" by (simp add: folded_def)
  have "roomy v (length l + (?r + n))" using Cons.prems(6) by (simp add: f roomy_def)
  then obtain d where d: "copy_until LF (\<lambda>ch. ch \<noteq> CR \<and> ch \<noteq> TAB) m i v = Inr (?j, d)"
    "buf_rep d (s @ kept l)" "roomy d (?r + n)" "buf_term v \<or> kept l \<noteq> [] \<longrightarrow> buf_term d"
    using copy_until_text [of m i l LF v s "?r + n" "\<lambda>ch. ch \<noteq> CR \<and> ch \<noteq> TAB"] Cons.prems(1,2,5)
    by (auto simp: f lines_ok_def kept_def)
  show ?case
  proof (cases ls)
    case Nil
    then have r: "blk_read m (Suc ?j) = Inr c" using Cons.prems(3) by (simp add: folded_def)
    have "roomy d n" using d(3) by (simp add: roomy_def)
    then show ?thesis
      using d r Cons.prems(4) Nil
      by (subst parse_value.simps) (simp add: goes_on_def folded_def)
  next
    case (Cons l' ls')
    then obtain x where x: "blk_read m (Suc ?j) = Inr x" "goes_on x"
      using Cons.prems(1,2) by (cases l') (auto simp: f lines_ok_def folded_def)
    have "lines_ok ls" using Cons.prems(2) Cons by (auto simp: lines_ok_def)
    then obtain e where e: "parse_value m (Suc ?j) d = Inr (Suc ?j + ?r, e)"
      "buf_rep e ((s @ kept l) @ kept (concat ls))" "roomy e n"
      "buf_term d \<or> kept (concat ls) \<noteq> [] \<longrightarrow> buf_term e"
      using Cons.IH [of "Suc ?j" d "s @ kept l"] Cons.prems(1,3,4) d(2,3) by (auto simp: f add.assoc)
    have "parse_value m i v = parse_value m (Suc ?j) d"
      using d(1) x by (subst parse_value.simps) (simp add: goes_on_def)
    then show ?thesis using e d(4) by (auto simp: f kept_def)
  qed
qed

section \<open>The tree of the headers that were read\<close>

text \<open>The names and the values in the tree, as text; the first of each name is kept.\<close>

definition has_name :: "(mboxChar list \<times> mboxChar list) list \<Rightarrow> mboxChar list \<Rightarrow> bool" where
  "has_name es k \<longleftrightarrow> list_ex (\<lambda>(k', v). ci k k' = 0) es"

definition add_name ::
  "(mboxChar list \<times> mboxChar list) list \<Rightarrow> mboxChar list \<times> mboxChar list \<Rightarrow>
     (mboxChar list \<times> mboxChar list) list" where
  "add_name es e = (if has_name es (fst e) then es else es @ [e])"

definition bytes_of :: "mboxBuf void_ptr \<times> mboxBuf void_ptr \<Rightarrow> mboxChar list \<times> mboxChar list" where
  "bytes_of e = (key_bytes (the (fst e)), key_bytes (the (snd e)))"

definition headers_are ::
  "(mboxBuf, mboxBuf) rbheap \<Rightarrow> mboxBuf mboxRBTree \<Rightarrow> (mboxChar list \<times> mboxChar list) list \<Rightarrow> bool" where
  "headers_are h t es \<longleftrightarrow> (\<exists>T. header_rep h t T \<and> bytes_of ` set (entries T) = set es \<and>
     (\<forall>v \<in> snd ` set (entries T). \<exists>b. v = Some b \<and> buf_rep b (key_bytes b)) \<and> t_size t = length es)"

lemma has_header_name:
  assumes "header_rep h t T" and "bytes_of ` set (entries T) = set es"
  shows "has_header (entries T) k = has_name es (key_bytes k)"
proof -
  have "(case k' of None \<Rightarrow> False | Some b \<Rightarrow> same_header k b) \<longleftrightarrow>
      ci (key_bytes k) (fst (bytes_of (k', v))) = 0" if "(k', v) \<in> set (entries T)" for k' v
  proof -
    have "k' \<in> header_keys" using header_repD(3) [OF assms(1)] that by force
    then show ?thesis by (auto simp: header_keys_def same_header_def bytes_of_def)
  qed
  then have "has_header (entries T) k \<longleftrightarrow> (\<exists>e \<in> set (entries T). ci (key_bytes k) (fst (bytes_of e)) = 0)"
    by (fastforce simp: has_header_def list_ex_iff)
  also have "\<dots> \<longleftrightarrow> (\<exists>e \<in> bytes_of ` set (entries T). ci (key_bytes k) (fst e) = 0)"
    by simp
  finally show ?thesis by (force simp: assms(2) has_name_def list_ex_iff)
qed

lemma insert_name:
  assumes "headers_are h t es" and "buf_rep k kb" and "buf_rep v vb" and "Suc (length es) < SIZE_MOD"
  shows "\<exists>h' t'. mboxRBTreeInsert h t (Some k) (Some v) = Inr (h', t') \<and>
     headers_are h' t' (add_name es (kb, vb))"
proof -
  obtain T where T: "header_rep h t T" "bytes_of ` set (entries T) = set es"
    "\<forall>v \<in> snd ` set (entries T). \<exists>b. v = Some b \<and> buf_rep b (key_bytes b)" "t_size t = length es"
    using assms(1) by (auto simp: headers_are_def)
  note k = buf_rep_key [OF assms(2)]
  have has: "has_header (entries T) k = has_name es kb" using has_header_name [OF T(1,2), of k] k by simp
  show ?thesis
  proof (cases "has_name es kb")
    case True
    then show ?thesis
      using header_insert_again [OF T(1), of k] k has assms(1) by (auto simp: add_name_def)
  next
    case False
    then obtain h' t' T' where i: "mboxRBTreeInsert h t (Some k) (Some v) = Inr (h', t')"
      "header_rep h' t' T'" "set (entries T') = insert (Some k, Some v) (set (entries T))"
      "t_size t' = Suc (t_size t)"
      using header_insert_new [OF T(1), of k "Some v"] k has assms(4) T(4) by auto
    have "bytes_of (Some k, Some v) = (kb, vb)"
      using k buf_rep_key [OF assms(3)] by (simp add: bytes_of_def)
    then have "headers_are h' t' (es @ [(kb, vb)])"
      using i T(2-4) assms(3) buf_rep_key [OF assms(3)] unfolding headers_are_def
      by (intro exI [of _ T']) simp
    then show ?thesis using i(1) False by (auto simp: add_name_def)
  qed
qed

lemma strncmp_text:
  assumes "text_at m i p" and "text_at m' j (s @ [NUL])" and "NUL \<notin> set p" and "NUL \<notin> set s"
  shows "\<exists>r. c_strncmp id m i m' j (length p) = Inr r \<and> (r = 0 \<longleftrightarrow> take (length p) s = p)"
  using assms
proof (induction p arbitrary: i j s)
  case (Cons c p)
  show ?case
  proof (cases s)
    case Nil
    then show ?thesis using Cons.prems by (auto simp: c_strncmp_step)
  next
    case (Cons d s')
    then show ?thesis
      using Cons.IH [of "Suc i" "Suc j" s'] Cons.prems by (auto simp: c_strncmp_step)
  qed
qed simp

lemma is_mime_no:
  assumes "buf_rep v s" and "buf_term v" and "NUL \<notin> set s" and "take 10 s \<noteq> MIME_PREFIX"
  shows "mboxBufIsMimeEncoded v = Inr False"
proof -
  have "text_at (buf_data v) 0 (s @ [NUL])"
    using buf_rep_text [OF assms(1)] assms(2) buf_repD(1) [OF assms(1)]
    by (auto simp: buf_term_def blk_read_def)
  moreover have "text_at (c_lit MIME_PREFIX) 0 MIME_PREFIX" by (simp add: text_at_def c_lit_def)
  moreover have "NUL \<notin> set MIME_PREFIX" by (simp add: MIME_PREFIX_def)
  ultimately obtain r where "c_strncmp id (c_lit MIME_PREFIX) 0 (buf_data v) 0 10 = Inr r" "r \<noteq> 0"
    using strncmp_text [of "c_lit MIME_PREFIX" 0 MIME_PREFIX "buf_data v" 0 s] assms(3,4) by auto
  then show ?thesis by (simp add: mboxBufIsMimeEncoded_def)
qed

section \<open>The loop over the headers\<close>

text \<open>A header: its name, and the lines of its value.\<close>

definition hdr_text :: "mboxChar list \<times> mboxChar list list \<Rightarrow> mboxChar list" where
  "hdr_text e = fst e @ '': '' @ folded (snd e)"

definition hdr_entry :: "mboxChar list \<times> mboxChar list list \<Rightarrow> mboxChar list \<times> mboxChar list" where
  "hdr_entry e = (fst e, kept (concat (snd e)))"

definition hdr_ok :: "mboxChar list \<times> mboxChar list list \<Rightarrow> bool" where
  "hdr_ok e \<longleftrightarrow> (let k = fst e; v = kept (concat (snd e)) in
     CHR '':'' \<notin> set k \<and> take 5 k \<noteq> ''From '' \<and>
     (k \<noteq> [] \<longrightarrow> \<not> goes_on (hd k) \<and> \<not> isLine (hd k)) \<and>
     lines_ok (snd e) \<and> v \<noteq> [] \<and> NUL \<notin> set v \<and> take 10 v \<noteq> MIME_PREFIX)"

lemma match_text_false:
  "text_at m i (a @ [c]) \<Longrightarrow> c \<notin> set p \<Longrightarrow> length a < length p \<Longrightarrow> match_text m i p = Inr False"
proof (induction p arbitrary: i a)
  case (Cons d p)
  then show ?case by (cases a) auto
qed simp

lemma no_from_line:
  assumes "hdr_ok e" and "text_at m i (hdr_text e)"
  shows "match_text m i ''From '' = Inr False"
proof (cases "length (fst e) < 5")
  case True
  then show ?thesis
    using match_text_false [of m i "fst e" "CHR '':''" "''From ''"] assms(2) text_at_le [OF assms(2)]
    by (simp add: hdr_text_def)
next
  case False
  moreover have "take (length ''From '') (fst e) \<noteq> ''From ''"
    using assms(1) by (simp add: hdr_ok_def Let_def numeral_eq_Suc)
  ultimately show ?thesis
    using match_text_text [of m i "fst e" "''From ''"] assms(2)
    by (simp add: hdr_text_def del: match_text.simps)
qed

lemma slice_0:
  assumes "buf_rep b s"
  shows "\<exists>b'. mboxBufSlice b 0 0 0 = Inr b' \<and> buf_rep b' [] \<and> buf_term b' \<and>
     buf_capacity b' = buf_capacity b"
  using mboxBufSlice_rep [OF assms, of 0 0] by (auto simp: mboxBufSlice_def outcome_simps)

lemma length_kept_le: "length (kept (concat ls)) \<le> length (folded ls)"
proof (induction ls)
  case (Cons l ls)
  have "length (kept (concat (l # ls))) = length (kept l) + length (kept (concat ls))"
    "length (folded (l # ls)) = length l + 1 + length (folded ls)" "length (kept l) \<le> length l"
    by (simp_all add: kept_def folded_def)
  then show ?case using Cons.IH by linarith
qed (simp add: kept_def)

text \<open>One round of the loop, on a header.\<close>

lemma header_round:
  assumes "headers_are h t es" and "Suc (length es) < SIZE_MOD"
    and "hdr_ok e" and "text_at m i (hdr_text e)" and "blk_read m (i + length (hdr_text e)) = Inr c"
    and "\<not> goes_on c" and "buf_rep key kp" and "buf_rep v []"
    and "roomy key (length (hdr_text e) + n)" and "roomy v (length (hdr_text e) + n)"
    and "length kp + length (hdr_text e) + 10 \<le> PTRDIFF_MAX"
  shows "\<exists>key1 v1 h' t' key' v'.
     copy_until CHR '':'' (\<lambda>ch. True) m i key = Inr (i + length (fst e), key1) \<and>
     parse_value m (i + length (fst e) + 2) v = Inr (i + length (hdr_text e), v1) \<and>
     store_header h t key1 v1 = Inr (h', t') \<and>
     headers_are h' t' (add_name es (kp @ fst e, snd (hdr_entry e))) \<and>
     mboxBufSlice key1 0 0 0 = Inr key' \<and> mboxBufSlice v1 0 0 0 = Inr v' \<and>
     buf_rep key' [] \<and> buf_rep v' [] \<and> roomy key' n \<and> roomy v' n"
proof -
  let ?k = "fst e" and ?v = "kept (concat (snd e))"
  have ok: "CHR '':'' \<notin> set ?k" "lines_ok (snd e)" "?v \<noteq> []" "NUL \<notin> set ?v" "take 10 ?v \<noteq> MIME_PREFIX"
    using assms(3) by (simp_all add: hdr_ok_def Let_def)
  have tx: "text_at m i ?k" "blk_read m (i + length ?k) = Inr CHR '':''"
    "text_at m (i + length ?k + 2) (folded (snd e))"
    "length (hdr_text e) = length ?k + 2 + length (folded (snd e))"
    using assms(4) by (auto simp: hdr_text_def)
  have rk: "roomy key (length ?k + (2 + length (folded (snd e)) + n))"
    using assms(9) tx(4) by (simp add: add.assoc)
  obtain key1 where key1: "copy_until CHR '':'' (\<lambda>ch. True) m i key = Inr (i + length ?k, key1)"
    "buf_rep key1 (kp @ ?k)" "roomy key1 (2 + length (folded (snd e)) + n)"
    using copy_until_text [OF tx(1) ok(1) tx(2) assms(7) rk, of "\<lambda>ch. True"] by auto
  have rv: "roomy v (length (folded (snd e)) + (length ?k + 2 + n))"
    using assms(10) tx(4) by (simp add: add.commute add.left_commute)
  have rc: "blk_read m (i + length ?k + 2 + length (folded (snd e))) = Inr c"
    using assms(5) tx(4) by (simp add: add.assoc)
  obtain v1 where v1: "parse_value m (i + length ?k + 2) v = Inr (i + length (hdr_text e), v1)"
    "buf_rep v1 ?v" "roomy v1 (length ?k + 2 + n)" "buf_term v1"
    using parse_value_text [OF tx(3) ok(2) rc assms(6,8) rv] ok(3) tx(4) by (auto simp: add.assoc)
  have len: "length (kp @ ?k) + 10 \<le> PTRDIFF_MAX" using assms(11) tx(4) by simp
  have lv: "length ?v + 10 \<le> PTRDIFF_MAX"
    using length_kept_le [of "snd e"] assms(11) tx(4) by simp
  obtain k where k: "mboxBufDup key1 = Inr k" "buf_rep k (kp @ ?k)"
    using mboxBufDup_rep [OF key1(2) len] by blast
  obtain w where w: "mboxBufDup v1 = Inr w" "buf_rep w ?v"
    using mboxBufDup_rep [OF v1(2) lv] by blast
  obtain h' t' where st: "store_header h t key1 v1 = Inr (h', t')"
    "headers_are h' t' (add_name es (kp @ ?k, ?v))"
    using insert_name [OF assms(1) k(2) w(2) assms(2)] is_mime_no [OF v1(2,4) ok(4,5)] k(1) w(1)
    by (auto simp: store_header_def)
  obtain key' where key': "mboxBufSlice key1 0 0 0 = Inr key'" "buf_rep key' []" "buf_capacity key' = buf_capacity key1"
    using slice_0 [OF key1(2)] by blast
  obtain v' where v': "mboxBufSlice v1 0 0 0 = Inr v'" "buf_rep v' []" "buf_capacity v' = buf_capacity v1"
    using slice_0 [OF v1(2)] by blast
  show ?thesis
    using key1(1,3) v1(1,3) st key' v' by (auto simp: hdr_entry_def roomy_def)
qed
lemma skip_lines_text:
  assumes "text_at (buf_data b) i t" and "list_all isLine t" and "blk_read (buf_data b) (i + length t) = Inr c"
    and "\<not> isLine c" and "i + length t \<le> buf_len b"
  shows "skip_lines b i = Inr (i + length t)"
  using assms
proof (induction t arbitrary: i)
  case Nil
  then show ?case by (simp add: skip_lines.simps [of b i] mboxBufGetChar_def)
next
  case (Cons x t)
  then have "skip_lines b (Suc i) = Inr (Suc i + length t)" by (intro Cons.IH) auto
  then show ?case using Cons.prems by (simp add: skip_lines.simps [of b i] mboxBufGetChar_def)
qed

definition hdrs_text :: "(mboxChar list \<times> mboxChar list list) list \<Rightarrow> mboxChar list" where
  "hdrs_text hs = concat (map hdr_text hs)"

text \<open>
  The entries that are put into the tree when \<open>key\<close> holds \<open>kp\<close> before the first header: it
  stands before the name of that header.
\<close>

fun hdr_entries :: "mboxChar list \<Rightarrow> (mboxChar list \<times> mboxChar list list) list \<Rightarrow>
    (mboxChar list \<times> mboxChar list) list" where
  "hdr_entries kp [] = []"
| "hdr_entries kp (e # hs) = (kp @ fst e, snd (hdr_entry e)) # map hdr_entry hs"

lemma hdr_entries_Nil: "hdr_entries [] hs = map hdr_entry hs"
  by (cases hs) (auto simp: hdr_entry_def)

lemma length_add_name: "length (add_name es e) \<le> Suc (length es)"
  by (simp add: add_name_def)

lemma hdr_text_starts:
  assumes "hdr_ok e" and "text_at m i (hdr_text e)"
  shows "\<exists>c. blk_read m i = Inr c \<and> \<not> goes_on c \<and> \<not> isLine c"
proof (cases "fst e")
  case Nil
  then show ?thesis using assms(2) by (simp add: hdr_text_def goes_on_def isLine_def)
next
  case (Cons c k)
  then show ?thesis using assms by (simp add: hdr_text_def hdr_ok_def Let_def)
qed

lemma header_loop_text:
  assumes "hs \<noteq> []" and "list_all hdr_ok hs"
    and "text_at (buf_data b) i (hdrs_text hs @ eol)" and "eol \<noteq> []" and "list_all isLine eol"
    and "blk_read (buf_data b) (i + length (hdrs_text hs) + length eol) = Inr c" and "\<not> isLine c"
    and "i + length (hdrs_text hs) + length eol \<le> buf_len b"
    and "headers_are h t es" and "length es + length hs < SIZE_MOD"
    and "buf_rep key kp" and "buf_rep v []"
    and "roomy key (length (hdrs_text hs))" and "roomy v (length (hdrs_text hs))"
    and "length kp + length (hdrs_text hs) + 10 \<le> PTRDIFF_MAX"
    and "parse_from_line b h t key i = Inr (h, t, key, i)"
  shows "\<exists>h' t'. header_loop b h t key v i = Inr (h', t', i + length (hdrs_text hs) + length eol) \<and>
     headers_are h' t' (foldl add_name es (hdr_entries kp hs))"
  using assms
proof (induction hs arbitrary: i h t es key v kp)
  case (Cons e hs)
  let ?m = "buf_data b" and ?rest = "hdrs_text hs"
  have tx: "hdrs_text (e # hs) = hdr_text e @ ?rest" by (simp add: hdrs_text_def)
  let ?j = "i + length (hdr_text e)"
  have e: "hdr_ok e" "text_at ?m i (hdr_text e)" "text_at ?m ?j (?rest @ eol)"
    using Cons.prems(2,3) by (simp_all add: tx)
  obtain x where x: "blk_read ?m ?j = Inr x" "\<not> goes_on x" "isLine x \<longleftrightarrow> hs = []"
  proof (cases hs)
    case Nil
    then show ?thesis
      using that e(3) Cons.prems(4,5) by (cases eol) (auto simp: hdrs_text_def isLine_def goes_on_def)
  next
    case (Cons e' hs')
    then have "hdr_ok e'" "text_at ?m ?j (hdr_text e')"
      using Cons.prems(2) e(3) by (simp_all add: hdrs_text_def)
    then show ?thesis using hdr_text_starts [of e'] that Cons by blast
  qed
  have "Suc (length es) < SIZE_MOD" using Cons.prems(10) by simp
  moreover have "roomy key (length (hdr_text e) + length ?rest)" "roomy v (length (hdr_text e) + length ?rest)"
    using Cons.prems(13,14) by (simp_all add: tx)
  moreover have "length kp + length (hdr_text e) + 10 \<le> PTRDIFF_MAX" using Cons.prems(15) by (simp add: tx)
  ultimately obtain key1 v1 h' t' key' v' where r:
    "copy_until CHR '':'' (\<lambda>ch. True) ?m i key = Inr (i + length (fst e), key1)"
    "parse_value ?m (i + length (fst e) + 2) v = Inr (?j, v1)"
    "store_header h t key1 v1 = Inr (h', t')"
    "headers_are h' t' (add_name es (kp @ fst e, snd (hdr_entry e)))"
    "mboxBufSlice key1 0 0 0 = Inr key'" "mboxBufSlice v1 0 0 0 = Inr v'"
    "buf_rep key' []" "buf_rep v' []" "roomy key' (length ?rest)" "roomy v' (length ?rest)"
    using header_round [OF Cons.prems(9) _ e(1,2) x(1,2) Cons.prems(11,12)] by blast
  have jb: "?j + length ?rest + length eol \<le> buf_len b" using Cons.prems(8) by (simp add: tx)
  have lt: "i < buf_len b" using jb Cons.prems(4) by (cases eol) auto
  have run: "header_loop b h t key v i =
      (if isLine x then bindE (skip_lines b ?j) (\<lambda>i. Inr (h', t', i)) else header_loop b h' t' key' v' ?j)"
    using lt Cons.prems(16) r x(1) jb by (subst header_loop.simps) (simp add: mboxBufGetChar_def)
  show ?case
  proof (cases hs)
    case Nil
    then have "skip_lines b ?j = Inr (?j + length eol)"
      using skip_lines_text [of b ?j eol c] e(3) Cons.prems(5,6,7) jb by (simp add: hdrs_text_def tx)
    then show ?thesis using run x(3) r(4) Nil by (simp add: tx) (simp add: hdrs_text_def)
  next
    case (Cons e' hs')
    have ok': "list_all hdr_ok hs" "hdr_ok e'" using Cons.prems(2) Cons by simp_all
    have "text_at ?m ?j (hdr_text e')" using e(3) Cons by (simp add: hdrs_text_def)
    then have "match_text ?m ?j ''From '' = Inr False" by (rule no_from_line [OF ok'(2)])
    then have nf: "parse_from_line b h' t' key' ?j = Inr (h', t', key', ?j)"
      by (simp add: parse_from_line_def mboxBufMatchFromLine_def del: match_text.simps)
    have sz: "length (add_name es (kp @ fst e, snd (hdr_entry e))) + length hs < SIZE_MOD"
      using length_add_name [of es "(kp @ fst e, snd (hdr_entry e))"] Cons.prems(10) by simp
    have rc: "blk_read ?m (?j + length ?rest + length eol) = Inr c"
      using Cons.prems(6) by (simp add: tx add.assoc)
    have rl: "length ([] :: mboxChar list) + length ?rest + 10 \<le> PTRDIFF_MAX"
      using Cons.prems(15) by (simp add: tx)
    have ne: "hs \<noteq> []" using Cons by simp
    obtain h2 t2 where "header_loop b h' t' key' v' ?j = Inr (h2, t2, ?j + length ?rest + length eol)"
      "headers_are h2 t2 (foldl add_name (add_name es (kp @ fst e, snd (hdr_entry e))) (hdr_entries [] hs))"
      using Cons.IH [OF ne ok'(1) e(3) Cons.prems(4,5) rc Cons.prems(7) jb r(4) sz r(7,8,9,10) rl nf]
      by blast
    moreover have "hdr_entries kp (e # hs) = (kp @ fst e, snd (hdr_entry e)) # hdr_entries [] hs"
      by (simp add: hdr_entries_Nil)
    ultimately show ?thesis using run x(3) ne by (simp add: tx add.assoc del: hdr_entries.simps)
  qed
qed simp

lemma scan_lines_none: "blk_read m i = Inr c \<Longrightarrow> \<not> isLine c \<Longrightarrow> scan_while isLine m i = Inr i"
  by (simp add: scan_while.simps [of isLine m i])

text \<open>The line before the headers; \<open>no line\<close> is the empty text.\<close>

definition from_text :: "mboxChar list option \<Rightarrow> mboxChar list" where
  "from_text f = (case f of None \<Rightarrow> [] | Some l \<Rightarrow> l @ [LF])"

definition from_key :: "mboxChar list option \<Rightarrow> mboxChar list" where
  "from_key f = (case f of None \<Rightarrow> [] | Some l \<Rightarrow> filter (\<lambda>ch. ch \<noteq> CR) l)"

definition from_entries :: "mboxChar list option \<Rightarrow> (mboxChar list \<times> mboxChar list) list" where
  "from_entries f = (case f of None \<Rightarrow> [] | Some l \<Rightarrow> [(''__FROM_LINE__'', from_key f)])"

definition from_ok_line :: "mboxChar list option \<Rightarrow> bool" where
  "from_ok_line f \<longleftrightarrow> (case f of None \<Rightarrow> True | Some l \<Rightarrow> take 5 l = ''From '' \<and> LF \<notin> set l)"

lemma header_loop_same:
  "parse_from_line b h t key i = parse_from_line b h' t' key' j \<Longrightarrow> i < buf_len b \<Longrightarrow> j < buf_len b \<Longrightarrow>
   header_loop b h t key v i = header_loop b h' t' key' v j"
  by (subst (1 2) header_loop.simps) simp

lemma parse_from_line_text:
  assumes "headers_are h t es" and "Suc (length es) < SIZE_MOD" and "take 5 l = ''From ''" and "LF \<notin> set l"
    and "text_at (buf_data b) i (l @ [LF])" and "buf_rep key []" and "roomy key (length l + n)"
    and "length l + 10 \<le> PTRDIFF_MAX"
  shows "\<exists>h' t' key'. parse_from_line b h t key i = Inr (h', t', key', Suc (i + length l)) \<and>
     headers_are h' t' (add_name es (''__FROM_LINE__'', filter (\<lambda>ch. ch \<noteq> CR) l)) \<and>
     buf_rep key' (filter (\<lambda>ch. ch \<noteq> CR) l) \<and> roomy key' n"
proof -
  let ?f = "filter (\<lambda>ch. ch \<noteq> CR) l"
  have tx: "text_at (buf_data b) i l" "blk_read (buf_data b) (i + length l) = Inr LF"
    using assms(5) by auto
  have "5 \<le> length l" using arg_cong [OF assms(3), of length] by simp
  then have m: "match_text (buf_data b) i ''From '' = Inr True"
    using match_text_text [OF tx(1), of "''From ''"] assms(3)
    by (simp add: numeral_eq_Suc del: match_text.simps)
  obtain key' where key': "copy_until LF (\<lambda>ch. ch \<noteq> CR) (buf_data b) i key = Inr (i + length l, key')"
    "buf_rep key' ?f" "roomy key' n"
    using copy_until_text [OF tx(1) assms(4) tx(2) assms(6,7), of "\<lambda>ch. ch \<noteq> CR"] by auto
  have "length ?f + 10 \<le> PTRDIFF_MAX" using length_filter_le [of "\<lambda>ch. ch \<noteq> CR" l] assms(8) by linarith
  then obtain v where v: "mboxBufDup key' = Inr v" "buf_rep v ?f" using mboxBufDup_rep [OF key'(2)] by blast
  define L where "L = ''__FROM_LINE__''"
  have L: "length L = 13" by (simp add: L_def)
  have "\<exists>k. mboxBufDupRaw (c_lit L) 0 (length L) 14 = Inr k \<and> buf_rep k L"
    using mboxBufDupRaw_rep [of 0 L "c_lit L" 14] L by (auto simp: c_lit_def)
  then obtain k where k: "mboxBufDupRaw (c_lit ''__FROM_LINE__'') 0 13 14 = Inr k"
    "buf_rep k ''__FROM_LINE__''"
    unfolding L by (auto simp: L_def)
  obtain h' t' where "mboxRBTreeInsert h t (Some k) (Some v) = Inr (h', t')"
    "headers_are h' t' (add_name es (''__FROM_LINE__'', ?f))"
    using insert_name [OF assms(1) k(2) v(2) assms(2)] by blast
  then show ?thesis
    using m key' k(1) v(1) by (simp add: parse_from_line_def mboxBufMatchFromLine_def del: match_text.simps)
qed

lemma headers_are_new:
  assumes "0 < rh_fresh h" and "header_tree h = (h0, t0)"
  shows "headers_are h0 t0 []"
  using header_tree_rep [OF assms] unfolding headers_are_def by (intro exI [of _ Lf]) simp

text \<open>The headers of a mail, with or without the line before them, between line breaks and what follows.\<close>

lemma mboxParseEmailHeaders_text:
  assumes rep: "buf_rep b (pre @ from_text f @ hdrs_text hs @ eol @ body)" and "buf_term b" and "buf_offset b = 0"
    and "from_ok_line f" and "hs \<noteq> []" and "list_all hdr_ok hs" and "eol \<noteq> []" and "list_all isLine eol"
    and "body \<noteq> [] \<longrightarrow> \<not> isLine (hd body)" and "buf_len b < 2 ^ 50" and "0 < rh_fresh h" and "list_all isLine pre"
  shows "\<exists>h' t'. mboxParseEmailHeaders h b =
       Inr (h', t', b\<lparr>buf_offset := length (pre @ from_text f @ hdrs_text hs @ eol)\<rparr>) \<and>
     headers_are h' t' (foldl add_name [] (from_entries f @ hdr_entries (from_key f) hs))"
proof -
  let ?m = "buf_data b" and ?F = "from_text f" and ?H = "hdrs_text hs"
  define i where "i = length pre + length ?F"
  obtain h0 t0 where n: "header_tree h = (h0, t0)" by fastforce
  have h0: "headers_are h0 t0 []" by (rule headers_are_new [OF assms(11) n])
  have len: "buf_len b = length pre + length ?F + length ?H + length eol + length body"
    using buf_repD(1) [OF rep] by simp
  note tx = buf_rep_text [OF rep]
  obtain c where c: "blk_read ?m (i + length ?H + length eol) = Inr c" "\<not> isLine c"
  proof (cases body)
    case Nil
    have "?m ! buf_len b = Some NUL" "buf_len b < length ?m" using assms(2) by (auto simp: buf_term_def)
    then show ?thesis using that [of NUL] len Nil by (simp add: blk_read_def isLine_def i_def)
  next
    case (Cons x body')
    then show ?thesis using that [of x] tx assms(9) by (simp add: i_def add.assoc)
  qed
  have he: "text_at ?m i (?H @ eol)" using tx by (simp add: i_def add.assoc)
  obtain e hs' where hs: "hs = e # hs'" using assms(5) by (cases hs) auto
  have e: "hdr_ok e" "text_at ?m i (hdr_text e)" using assms(6) he by (simp_all add: hs hdrs_text_def)
  have big: "length ?F + length ?H + length eol < 2 ^ 50" using len assms(10) by simp
  have lH: "length hs \<le> length ?H"
    unfolding hdrs_text_def by (induction hs) (auto simp: hdr_text_def)
  let ?key = "mboxBufAlloc 3000"
  have key: "buf_rep ?key []" "buf_capacity ?key = 3010"
    using mboxBufAlloc_rep [of 3000] by (simp_all add: mboxBufAlloc_def Let_def)
  have room: "roomy ?key k" if "k < 2 ^ 51" for k using that key(2) by (simp add: roomy_def)
  have iE: "i < buf_len b" "length pre < buf_len b" using len assms(7) by (cases eol; simp add: i_def)+
  have nf: "match_text ?m i ''From '' = Inr False" by (rule no_from_line [OF e])
  have ieol: "i + length ?H + length eol \<le> buf_len b" using len by (simp add: i_def)
  obtain h1 t1 key1 where first: "parse_from_line b h0 t0 ?key (length pre) = Inr (h1, t1, key1, i)"
    "headers_are h1 t1 (foldl add_name [] (from_entries f))" "buf_rep key1 (from_key f)"
    "roomy key1 (length ?H)"
  proof (cases f)
    case None
    then have "parse_from_line b h0 t0 ?key (length pre) = Inr (h0, t0, ?key, length pre)"
      using nf by (simp add: parse_from_line_def mboxBufMatchFromLine_def i_def from_text_def del: match_text.simps)
    then show ?thesis
      using that h0 key(1) room [of "length ?H"] big None
      by (simp add: from_entries_def from_key_def i_def from_text_def)
  next
    case (Some l)
    have "roomy ?key (length l + length ?H)" using big Some by (intro room) (simp add: from_text_def)
    moreover have "take 5 l = ''From ''" "LF \<notin> set l" using assms(4) Some by (simp_all add: from_ok_line_def)
    moreover have "text_at ?m (length pre) (l @ [LF])" using tx Some by (auto simp: from_text_def dest: text_at_le)
    moreover have "length l + 10 \<le> PTRDIFF_MAX" using big Some by (simp add: from_text_def)
    ultimately obtain h' t' key' where "parse_from_line b h0 t0 ?key (length pre) = Inr (h', t', key', Suc (length pre + length l))"
      "headers_are h' t' (add_name [] (''__FROM_LINE__'', filter (\<lambda>ch. ch \<noteq> CR) l))"
      "buf_rep key' (filter (\<lambda>ch. ch \<noteq> CR) l)" "roomy key' (length ?H)"
      using parse_from_line_text [OF h0 _ _ _ _ key(1), of l b "length pre" "length ?H"] by auto
    then show ?thesis
      using that [of h' t' key'] Some by (simp add: from_text_def from_entries_def from_key_def i_def)
  qed
  have again: "parse_from_line b h1 t1 key1 i = Inr (h1, t1, key1, i)"
    using nf by (simp add: parse_from_line_def mboxBufMatchFromLine_def del: match_text.simps)
  have sz: "length (foldl add_name [] (from_entries f)) + length hs < SIZE_MOD"
    using lH big by (cases f) (simp_all add: from_entries_def add_name_def has_name_def)
  have kl: "length (from_key f) + length ?H + 10 \<le> PTRDIFF_MAX"
  proof -
    have "length (from_key f) \<le> length ?F"
      by (cases f) (auto simp: from_key_def from_text_def intro: le_SucI)
    then show ?thesis using big by simp
  qed
  obtain h2 t2 where loop: "header_loop b h1 t1 key1 ?key i = Inr (h2, t2, i + length ?H + length eol)"
    "headers_are h2 t2 (foldl add_name (foldl add_name [] (from_entries f)) (hdr_entries (from_key f) hs))"
    using header_loop_text [OF assms(5,6) he assms(7,8) c ieol first(2) sz first(3) key(1) first(4) _ kl again]
      room [of "length ?H"] big by auto
  have "header_loop b h0 t0 ?key ?key (length pre) = header_loop b h1 t1 key1 ?key i"
    using first(1) again iE by (intro header_loop_same) auto
  moreover have "scan_while isLine ?m 0 = Inr (length pre)"
  proof -
    obtain d where "blk_read ?m (length pre) = Inr d" "\<not> isLine d"
    proof (cases f)
      case None
      then show ?thesis using that hdr_text_starts [OF e] by (auto simp: i_def from_text_def)
    next
      case (Some l)
      then obtain l' where "l = CHR ''F'' # l'" using assms(4) by (cases l) (auto simp: from_ok_line_def)
      then show ?thesis using that tx Some by (auto simp: from_text_def isLine_def)
    qed
    then show ?thesis using scan_while_text [of ?m 0 pre isLine] tx assms(12) by simp
  qed
  ultimately show ?thesis
    using loop assms(3) n by (simp add: mboxParseEmailHeaders_def i_def add.assoc)
qed

section \<open>The sender of a mail with a line before its headers\<close>

lemma add_name_subset: "set (foldl add_name es xs) \<subseteq> set es \<union> set xs"
proof (induction xs arbitrary: es)
  case (Cons x xs)
  have "set (add_name es x) \<subseteq> insert x (set es)" by (auto simp: add_name_def)
  then show ?case using Cons [of "add_name es x"] by auto
qed simp

lemma add_name_keeps: "set es \<subseteq> set (foldl add_name es xs)"
proof (induction xs arbitrary: es)
  case (Cons x xs)
  have "set es \<subseteq> set (add_name es x)" by (auto simp: add_name_def)
  then show ?case using Cons [of "add_name es x"] by auto
qed simp

lemma has_name_iff: "has_name es k \<longleftrightarrow> (\<exists>e \<in> set es. ci k (fst e) = 0)"
  by (simp add: has_name_def list_ex_iff split_beta)

lemma add_name_shadowed:
  assumes "e \<in> set es" and "\<forall>x \<in> set xs. ci k (fst x) = 0 \<longrightarrow> ci (fst x) (fst e) = 0"
    and "x \<in> set (foldl add_name es xs)" and "ci k (fst x) = 0"
  shows "x \<in> set es"
  using assms
proof (induction xs arbitrary: es)
  case (Cons y xs)
  have "e \<in> set (add_name es y)" using Cons.prems(1) by (simp add: add_name_def)
  then have "x \<in> set (add_name es y)"
    using Cons.IH [of "add_name es y"] Cons.prems(2,3,4) by simp
  then consider "x \<in> set es" | "x = y" "\<not> has_name es (fst y)"
    by (auto simp: add_name_def split: if_splits)
  then show ?case
  proof cases
    case 2
    then have "ci (fst y) (fst e) = 0" using Cons.prems(2,4) by simp
    then show ?thesis using 2(2) Cons.prems(1) by (auto simp: has_name_iff)
  qed
qed simp

lemma ci_from: "ci ''From'' k = 0 \<Longrightarrow> length k \<le> 4 \<Longrightarrow> ci k (''From'' @ z) = 0"
  using ci_swap [of "''From''" k]
  by (cases k; cases "tl k"; cases "tl (tl k)"; cases "tl (tl (tl k))") (auto split: if_splits)

lemma from_key_starts: "take 5 l = ''From '' \<Longrightarrow> \<exists>z. from_key (Some l) = ''From'' @ z"
proof -
  assume "take 5 l = ''From ''"
  then obtain r where "l = ''From '' @ r" by (metis append_take_drop_id)
  then show ?thesis by (simp add: from_key_def)
qed

lemma from_line_name: "ci ''From'' ''__FROM_LINE__'' \<noteq> 0" "ci (''From'' @ z) ''__FROM_LINE__'' \<noteq> 0"
  by (simp_all add: c_tolower_def byte_def chr_of_def)

lemma get_name:
  assumes "headers_are h t es" and "0 \<le> i" and "i < 8" and "key_bytes (mboxExpectedHeaders ! nat i) = k"
    and "e \<in> set es" and "ci k (fst e) = 0" and "\<And>x. x \<in> set es \<Longrightarrow> ci k (fst x) = 0 \<Longrightarrow> x = e"
  shows "\<exists>v. mboxHeadersGet h t i = Inr (Some v) \<and> key_bytes v = snd e"
proof -
  let ?h = "mboxExpectedHeaders ! nat i"
  obtain T where T: "header_rep h t T" "bytes_of ` set (entries T) = set es"
    "\<forall>v \<in> snd ` set (entries T). \<exists>b. v = Some b \<and> buf_rep b (key_bytes b)"
    using assms(1) by (auto simp: headers_are_def)
  have "nat i \<in> set [0..<8]" using assms(2,3) by auto
  then have ok: "key_ok ?h" "nat i < length mboxExpectedHeaders"
    by (auto simp: mboxExpectedHeaders_def key_ok_name upt_rec)
  have "has_name es k" using assms(5,6) by (auto simp: has_name_iff)
  then have "has_header (entries T) ?h" using has_header_name [OF T(1,2)] assms(4) by simp
  then obtain v b where v: "mboxRBTreeGet h t (Some ?h) = Inr v" "(Some b, v) \<in> set (entries T)"
    "same_header ?h b"
    using header_get [OF T(1) ok(1)] by blast
  have "bytes_of (Some b, v) \<in> set es" using v(2) T(2) by blast
  moreover have "ci k (fst (bytes_of (Some b, v))) = 0"
    using v(3) assms(4) by (simp add: same_header_def bytes_of_def)
  ultimately have "bytes_of (Some b, v) = e" by (rule assms(7))
  moreover have "v \<noteq> None" using v(2) T(3) by force
  ultimately show ?thesis using v(1) ok(2) assms(2) by (auto simp: mboxHeadersGet_def bytes_of_def)
qed

section \<open>Properties\<close>

text \<open>
  C6. A mail whose headers are well formed, each with a value that may go on over several lines,
  ended by an empty line, is read into a tree that holds exactly the first header of each name
  with its value, lines joined and carriage returns and tabs left out; the buffer is left at
  the first character of the body.
\<close>

theorem mboxParseEmailHeaders_correct:
  assumes "buf_rep b (hdrs_text hs @ eol @ body)" and "buf_term b" and "buf_offset b = 0"
    and "hs \<noteq> []" and "list_all hdr_ok hs" and "eol \<noteq> []" and "list_all isLine eol"
    and "body \<noteq> [] \<longrightarrow> \<not> isLine (hd body)" and "buf_len b < 2 ^ 50" and "0 < rh_fresh h"
  shows "\<exists>h' t'. mboxParseEmailHeaders h b =
       Inr (h', t', b\<lparr>buf_offset := length (hdrs_text hs @ eol)\<rparr>) \<and>
     headers_are h' t' (foldl add_name [] (map hdr_entry hs))"
  using mboxParseEmailHeaders_text [of b "[]" None hs eol body h] assms
  by (simp add: from_text_def from_entries_def from_key_def from_ok_line_def hdr_entries_Nil)

definition text_buf :: "string \<Rightarrow> mboxBuf" where
  "text_buf s = \<lparr>buf_data = c_lit s, buf_offset = 0, buf_len = length s, buf_capacity = length s\<rparr>"

lemma text_buf_simps [simp]: "buf_offset (text_buf s) = 0" "buf_len (text_buf s) = length s"
  by (simp_all add: text_buf_def)

lemma text_buf_rep: "length s < 100 \<Longrightarrow> buf_rep (text_buf s) s \<and> buf_term (text_buf s)"
  by (simp add: text_buf_def buf_rep_def buf_term_def c_lit_def nth_append)

theorem mboxParseEmailHeaders_correct_witness:
  "\<exists>h' t' b'. mboxParseEmailHeaders no_nodes
       (text_buf (''To: a'' @ [CR, LF] @ ''Cc: b'' @ [LF] @ '' c'' @ [LF, LF] @ ''Hi'')) = Inr (h', t', b') \<and>
     buf_offset b' = 17 \<and>
     headers_are h' t' [(''To'', ''a''), (''Cc'', ''b c'')]"
proof -
  let ?hs = "[(''To'', [''a'' @ [CR]]), (''Cc'', [''b'', '' c''])]"
  let ?s = "hdrs_text ?hs @ [LF] @ ''Hi''"
  have s: "?s = ''To: a'' @ [CR, LF] @ ''Cc: b'' @ [LF] @ '' c'' @ [LF, LF] @ ''Hi''"
    by (simp add: hdrs_text_def hdr_text_def folded_def)
  have e: "foldl add_name [] (map hdr_entry ?hs) = [(''To'', ''a''), (''Cc'', ''b c'')]"
    by (simp add: hdr_entry_def kept_def add_name_def has_name_def c_tolower_def byte_def chr_of_def)
  have ok: "list_all hdr_ok ?hs"
    by (simp add: hdr_ok_def Let_def kept_def lines_ok_def goes_on_def isLine_def MIME_PREFIX_def)
  show ?thesis
    using mboxParseEmailHeaders_correct [of "text_buf ?s" ?hs "[LF]" "''Hi''" no_nodes]
      text_buf_rep [of ?s] ok unfolding s e
    by (auto simp: isLine_def no_nodes_def hdrs_text_def hdr_text_def folded_def)
qed

text \<open>
  C25. When the line \<open>From \<close> of the mailbox stands before the headers, as in every message the
  library reads, the parser keeps its text in front of the name of the first header. That name
  then begins with \<open>From\<close> and hides the real header of the sender: what the library finds as
  the sender is the value of the first header, whatever that is.
\<close>

theorem mboxParseEmailHeaders_loses_sender:
  assumes "buf_rep b (l @ LF # hdrs_text (e # hs) @ eol @ body)" and "buf_term b" and "buf_offset b = 0"
    and "take 5 l = ''From ''" and "LF \<notin> set l" and "list_all hdr_ok (e # hs)" and "eol \<noteq> []"
    and "list_all isLine eol" and "body \<noteq> [] \<longrightarrow> \<not> isLine (hd body)" and "buf_len b < 2 ^ 50"
    and "0 < rh_fresh h"
    and "\<forall>e' \<in> set hs. ci ''From'' (fst e') = 0 \<longrightarrow> length (fst e') \<le> 4"
  shows "\<exists>h' t' b'. mboxParseEmailHeaders h b = Inr (h', t', b') \<and>
     (\<exists>v. mboxHeadersGet h' t' 3 = Inr (Some v) \<and> key_bytes v = snd (hdr_entry e))"
proof -
  obtain h' t' where p: "mboxParseEmailHeaders h b =
       Inr (h', t', b\<lparr>buf_offset := length (from_text (Some l) @ hdrs_text (e # hs) @ eol)\<rparr>)"
     "headers_are h' t' (foldl add_name [] (from_entries (Some l) @ hdr_entries (from_key (Some l)) (e # hs)))"
    using mboxParseEmailHeaders_text [of b "[]" "Some l" "e # hs" eol body h] assms(1-11)
    by (auto simp: from_text_def from_ok_line_def)
  obtain z where z: "from_key (Some l) = ''From'' @ z" using from_key_starts [OF assms(4)] by blast
  define x where "x = (from_key (Some l) @ fst e, snd (hdr_entry e))"
  define start where "start = [(''__FROM_LINE__'', from_key (Some l)), x]"
  define es where "es = foldl add_name start (map hdr_entry hs)"
  have ns: "foldl add_name [] (from_entries (Some l) @ [x]) = start"
    using from_line_name(2) by (simp add: from_entries_def add_name_def has_name_def start_def x_def z)
  then have are: "headers_are h' t' es"
    using p(2) by (simp add: es_def x_def)
  have mem: "x \<in> set es" using add_name_keeps [of start] by (auto simp: es_def start_def)
  have zero: "ci ''From'' (fst x) = 0" by (simp add: x_def z)
  have uniq: "y = x" if "y \<in> set es" "ci ''From'' (fst y) = 0" for y
  proof -
    have "y \<in> set start"
    proof (rule add_name_shadowed [of x start "map hdr_entry hs" "''From''"])
      show "\<forall>y \<in> set (map hdr_entry hs). ci ''From'' (fst y) = 0 \<longrightarrow> ci (fst y) (fst x) = 0"
        using assms(12) ci_from by (auto simp: hdr_entry_def x_def z)
    qed (use that in \<open>simp_all add: es_def start_def\<close>)
    then show ?thesis using that(2) from_line_name(1) by (auto simp: start_def)
  qed
  have kb: "key_bytes (mboxExpectedHeaders ! nat 3) = ''From''" by (simp add: mboxExpectedHeaders_def)
  have "\<exists>v. mboxHeadersGet h' t' 3 = Inr (Some v) \<and> key_bytes v = snd x"
    by (rule get_name [OF are _ _ kb mem zero]) (simp, simp, rule uniq)
  then show ?thesis using p(1) unfolding x_def snd_conv by blast
qed

theorem mboxParseEmailHeaders_loses_sender_witness:
  "\<exists>h' t' b'. mboxParseEmailHeaders no_nodes (text_buf (''From 12@xxx'' @ [LF] @ ''X-GM: 7'' @ [LF] @ ''From: al'' @ [LF, LF] @ ''Hi'')) =
       Inr (h', t', b') \<and> (\<exists>v. mboxHeadersGet h' t' 3 = Inr (Some v) \<and> key_bytes v = ''7'')"
proof -
  let ?hs = "[(''From'', [''al''])]" and ?e = "(''X-GM'', [''7''])"
  let ?s = "''From 12@xxx'' @ LF # hdrs_text (?e # ?hs) @ [LF] @ ''Hi''"
  have s: "?s = ''From 12@xxx'' @ [LF] @ ''X-GM: 7'' @ [LF] @ ''From: al'' @ [LF, LF] @ ''Hi''"
    by (simp add: hdrs_text_def hdr_text_def folded_def)
  have ok: "list_all hdr_ok (?e # ?hs)"
    by (simp add: hdr_ok_def Let_def kept_def lines_ok_def goes_on_def isLine_def MIME_PREFIX_def)
  show ?thesis
    using mboxParseEmailHeaders_loses_sender [of "text_buf ?s" "''From 12@xxx''" ?e ?hs "[LF]" "''Hi''" no_nodes]
      text_buf_rep [of ?s] ok unfolding s
    by (auto simp: isLine_def no_nodes_def hdr_entry_def kept_def)
qed

end
