(* ===== verification/Mbox_IO.thy ===== *)
theory Mbox_IO
  imports Mbox_Buf
begin

text \<open>
  The file contexts of \<open>src/src/mbox-io.c\<close>: their record, opening and closing, reading
  into the buffer of the context and writing. The system calls are parameters: \<open>pread\<close>
  gives the bytes it read or nothing on an error, the calls that change the file system are
  given the world they act on and return the new one.
\<close>

section \<open>The context and its operations\<close>

definition MBOX_IO_FSYNC_ERR :: int where "MBOX_IO_FSYNC_ERR = -5"
definition MBOX_IO_NO_WRITE :: int where "MBOX_IO_NO_WRITE = -4"
definition MBOX_IO_WRITE_ERR :: int where "MBOX_IO_WRITE_ERR = -3"
definition MBOX_IO_EOF :: int where "MBOX_IO_EOF = -2"
definition MBOX_IO_READ_ERR :: int where "MBOX_IO_READ_ERR = -1"
definition MBOX_IO_OK :: int where "MBOX_IO_OK = 0"
definition MBOX_IO_READ_SIZE :: nat where "MBOX_IO_READ_SIZE = 300000"

lemmas io_codes = MBOX_IO_FSYNC_ERR_def MBOX_IO_NO_WRITE_def MBOX_IO_WRITE_ERR_def
  MBOX_IO_EOF_def MBOX_IO_READ_ERR_def MBOX_IO_OK_def

record mboxIOCtx =
  io_fd :: int
  io_err :: int
  io_offset :: nat
  io_start_offset :: int
  io_end_offset :: int
  io_file_offset :: int
  io_file_size :: nat
  io_buf :: mboxBuf

definition mboxIOSetFd :: "mboxIOCtx \<Rightarrow> int \<Rightarrow> mboxIOCtx" where
  "mboxIOSetFd io fd = io\<lparr>io_fd := fd\<rparr>"

definition mboxIOSetStartOffset :: "mboxIOCtx \<Rightarrow> int \<Rightarrow> mboxIOCtx" where
  "mboxIOSetStartOffset io off = io\<lparr>io_start_offset := off\<rparr>"

definition mboxIOSetEndOffset :: "mboxIOCtx \<Rightarrow> int \<Rightarrow> mboxIOCtx" where
  "mboxIOSetEndOffset io off = io\<lparr>io_end_offset := off\<rparr>"

definition mboxIOSetOffset :: "mboxIOCtx \<Rightarrow> nat \<Rightarrow> mboxIOCtx" where
  "mboxIOSetOffset io off = io\<lparr>io_offset := off\<rparr>"

definition mboxIOSetFileOffset :: "mboxIOCtx \<Rightarrow> int \<Rightarrow> mboxIOCtx" where
  "mboxIOSetFileOffset io off = io\<lparr>io_file_offset := off\<rparr>"

definition mboxIOSetFileSize :: "mboxIOCtx \<Rightarrow> nat \<Rightarrow> mboxIOCtx" where
  "mboxIOSetFileSize io sz = io\<lparr>io_file_size := sz\<rparr>"

definition mboxIONew :: "int \<Rightarrow> nat \<Rightarrow> mboxIOCtx" where
  "mboxIONew fd file_size =
     \<lparr>io_fd = fd, io_err = MBOX_IO_OK, io_offset = 0, io_start_offset = 0, io_end_offset = 0,
      io_file_offset = 0, io_file_size = file_size, io_buf = mboxBufAlloc MBOX_IO_READ_SIZE\<rparr>"

text \<open>\<open>access\<close> with \<open>F_OK\<close> returns 0 or -1.\<close>

definition mboxIOExists :: "(string \<Rightarrow> int) \<Rightarrow> string \<Rightarrow> bool" where
  "mboxIOExists access path \<longleftrightarrow> access path \<noteq> -1"

text \<open>
  \<open>open\<close> gives a file descriptor or -1, \<open>fstat\<close> the size of the file or nothing. When
  \<open>fstat\<close> fails the descriptor stays open.
\<close>

definition mboxIOOpen ::
  "('w \<Rightarrow> string \<Rightarrow> int \<Rightarrow> int \<Rightarrow> int \<times> 'w) \<Rightarrow> ('w \<Rightarrow> int \<Rightarrow> nat option) \<Rightarrow>
   'w \<Rightarrow> string \<Rightarrow> int \<Rightarrow> int \<Rightarrow> mboxIOCtx option \<times> 'w" where
  "mboxIOOpen open fstat w name perms mode =
     (case open w name perms mode of (fd, w) \<Rightarrow>
      if fd = -1 then (None, w)
      else (case fstat w fd of
             None \<Rightarrow> (None, w)
           | Some st_size \<Rightarrow> (Some (mboxIONew fd st_size), w)))"

text \<open>
  Closing releases the context, but only when its descriptor is valid: the second result
  says whether the memory was released.
\<close>

definition mboxIOClose :: "('w \<Rightarrow> int \<Rightarrow> 'w) \<Rightarrow> 'w \<Rightarrow> mboxIOCtx option \<Rightarrow> 'w \<times> bool" where
  "mboxIOClose close w ioctx =
     (case ioctx of
        None \<Rightarrow> (w, False)
      | Some io \<Rightarrow> if io_fd io \<noteq> -1 then (close w (io_fd io), True) else (w, False))"

type_synonym pread = "int \<Rightarrow> nat \<Rightarrow> int \<Rightarrow> mboxChar list option"

definition mboxIORead ::
  "pread \<Rightarrow> mboxIOCtx \<Rightarrow> nat \<Rightarrow> nat \<Rightarrow> int \<Rightarrow> c_error + (int \<times> mboxIOCtx)" where
  "mboxIORead pread ioctx sz at offset =
     (let io = ioctx\<lparr>io_buf := snd (mboxBufExtendBufferIfNeeded (io_buf ioctx) sz),
                     io_err := MBOX_IO_OK\<rparr>
      in case pread (io_fd io) sz offset of
           None \<Rightarrow> Inr (-1, io\<lparr>io_err := MBOX_IO_READ_ERR\<rparr>)
         | Some bs \<Rightarrow>
             if bs = [] then Inr (0, io\<lparr>io_err := MBOX_IO_EOF\<rparr>)
             else bindE (blk_copy (buf_data (io_buf io)) at (map Some bs) 0 (length bs)) (\<lambda>d.
                  bindE (mboxBufSetLen (io_buf io\<lparr>buf_data := d\<rparr>)
                          (size_add at (length bs))) (\<lambda>b.
                  Inr (int (length bs), io\<lparr>io_buf := b\<rparr>))))"

text \<open>
  \<open>pwrite\<close> is given the bytes to write; its result is how many it wrote, or -1. An error of
  an earlier call stays in the context when a write succeeds.
\<close>

type_synonym 'w pwrite = "'w \<Rightarrow> int \<Rightarrow> mboxChar list \<Rightarrow> int \<Rightarrow> int \<times> 'w"

definition mboxIOWrite ::
  "'w pwrite \<Rightarrow> 'w \<Rightarrow> mboxIOCtx \<Rightarrow> block \<Rightarrow> nat \<Rightarrow> int \<Rightarrow> c_error + (int \<times> mboxIOCtx \<times> 'w)" where
  "mboxIOWrite pwrite w ioctx buf sz offset =
     bindE (blk_bytes buf 0 sz) (\<lambda>bs.
     case pwrite w (io_fd ioctx) bs offset of (wbytes, w) \<Rightarrow>
     if wbytes = 0 then Inr (wbytes, ioctx\<lparr>io_err := MBOX_IO_NO_WRITE\<rparr>, w)
     else if wbytes < 0 then Inr (wbytes, ioctx\<lparr>io_err := MBOX_IO_WRITE_ERR\<rparr>, w)
     else Inr (wbytes, ioctx, w))"

definition mboxIOWriteBuf ::
  "'w pwrite \<Rightarrow> 'w \<Rightarrow> mboxIOCtx \<Rightarrow> nat \<Rightarrow> int \<Rightarrow> c_error + (int \<times> mboxIOCtx \<times> 'w)" where
  "mboxIOWriteBuf pwrite w ioctx sz offset =
     mboxIOWrite pwrite w ioctx (buf_data (io_buf ioctx)) sz offset"

definition mboxIOFsync :: "('w \<Rightarrow> int \<Rightarrow> int \<times> 'w) \<Rightarrow> 'w \<Rightarrow> mboxIOCtx \<Rightarrow> int \<times> mboxIOCtx \<times> 'w" where
  "mboxIOFsync fsync w ioctx =
     (case fsync w (io_fd ioctx) of (err, w) \<Rightarrow>
      let io = ioctx\<lparr>io_err := if err \<noteq> 0 then MBOX_IO_FSYNC_ERR else MBOX_IO_OK\<rparr>
      in (io_err io, io, w))"

section \<open>Reading\<close>

text \<open>
  What \<open>pread\<close> promises for a regular file of content \<open>F\<close>: at an offset in the file it
  returns bytes from there on, at least one and no more than asked for, at or after the end
  none.
\<close>

definition reads_file :: "pread \<Rightarrow> int \<Rightarrow> mboxChar list \<Rightarrow> bool" where
  "reads_file pread fd F \<longleftrightarrow>
     (\<forall>size off. 0 < size \<longrightarrow> 0 \<le> off \<longrightarrow>
        (\<exists>k. pread fd size off = Some (take k (drop (nat off) F)) \<and> 0 < k \<and> k \<le> size))"

definition file_pread :: "mboxChar list \<Rightarrow> pread" where
  "file_pread F fd sz off = (if off < 0 then None else Some (take sz (drop (nat off) F)))"

lemma reads_file_pread: "reads_file (file_pread F) fd F"
  by (auto simp: reads_file_def file_pread_def)

lemma grown_term: "grown b add b' \<Longrightarrow> buf_rep b s \<Longrightarrow> buf_term b \<Longrightarrow> buf_term b'"
  by (auto simp: grown_def buf_term_def nth_realloc dest: buf_repD(5))

text \<open>A read puts what it reads behind the first \<open>k\<close> bytes of the buffer.\<close>

lemma mboxIORead_at:
  assumes rep: "buf_rep (io_buf io) s" and k: "k \<le> length s"
    and cap: "length s < buf_capacity (io_buf io)" "buf_capacity (io_buf io) + max 256 sz \<le> PTRDIFF_MAX"
    and sz: "sz < 2 ^ 32" "length bs \<le> sz"
    and rd: "pread (io_fd io) sz off = Some bs"
  obtains b' where
    "mboxIORead pread io sz k off =
       Inr (int (length bs), io\<lparr>io_buf := b', io_err := if bs = [] then MBOX_IO_EOF else MBOX_IO_OK\<rparr>)"
    "buf_rep b' (if bs = [] then s else take k s @ bs)" "buf_term (io_buf io) \<or> bs \<noteq> [] \<longrightarrow> buf_term b'"
    "buf_offset b' = buf_offset (io_buf io)"
    "k + length bs < buf_capacity b'" "length s < buf_capacity b'"
    "buf_capacity b' \<le> max (buf_capacity (io_buf io)) (length s + 1 + sz + max 256 sz)"
proof -
  define g where "g = snd (mboxBufExtendBufferIfNeeded (io_buf io) sz)"
  have gr: "grown (io_buf io) sz g"
    unfolding g_def by (rule mboxBufExtendBufferIfNeeded_grown [OF rep sz(1) cap(2)])
  have g: "buf_rep g s" "buf_term (io_buf io) \<longrightarrow> buf_term g"
    using grown_rep [OF gr rep cap(2)] grown_term [OF gr rep] by auto
  have len: "length s + sz < buf_capacity g"
    "buf_capacity g \<le> max (buf_capacity (io_buf io)) (length s + 1 + sz + max 256 sz)"
    using gr buf_repD(1) [OF rep] cap(1) by (auto simp: grown_def)
  show thesis
  proof (cases "bs = []")
    case True
    then have "mboxIORead pread io sz k off =
        Inr (int (length bs), io\<lparr>io_buf := g, io_err := MBOX_IO_EOF\<rparr>)"
      using rd by (simp add: mboxIORead_def Let_def g_def [symmetric])
    then show thesis
      using True g len k grown_offset [OF gr] by (intro that [of g]) auto
  next
    case False
    define d where "d = take k (buf_data g) @ take (length bs) (drop 0 (map Some bs)) @
        drop (k + length bs) (buf_data g)"
    define b' where "b' = g\<lparr>buf_data := d[k + length bs := Some NUL], buf_len := k + length bs\<rparr>"
    have fits: "k + length bs < length (buf_data g)"
      using len k sz(2) buf_repD(4) [OF g(1)] by simp
    have "buf_rep b' (take k s @ bs)" "buf_term b'"
      by (rule rep_overwrite [OF g(1) k fits, of "length bs" 0 "map Some bs"]; simp add: b'_def d_def)+
    moreover have "mboxIORead pread io sz k off =
        Inr (int (length bs), io\<lparr>io_buf := b', io_err := MBOX_IO_OK\<rparr>)"
      using rd False fits buf_repD(6) [OF g(1)]
      by (simp add: mboxIORead_def Let_def g_def [symmetric] blk_copy_def
          mboxBufSetLen_def blk_write_def b'_def d_def)
    ultimately show thesis
      using False len k sz(2) grown_offset [OF gr]
      by (intro that [of b']) (auto simp: b'_def)
  qed
qed

text \<open>A read at the end of the content of the buffer appends what it reads.\<close>

lemma mboxIORead_appends:
  assumes rep: "buf_rep (io_buf io) s" "buf_term (io_buf io)"
    and cap: "length s < buf_capacity (io_buf io)" "buf_capacity (io_buf io) + max 256 sz \<le> PTRDIFF_MAX"
    and sz: "0 < sz" "sz < 2 ^ 32" and rd: "reads_file pread (io_fd io) F"
  obtains b' bs where
    "mboxIORead pread io sz (length s) (int p) =
       Inr (int (length bs), io\<lparr>io_buf := b', io_err := if bs = [] then MBOX_IO_EOF else MBOX_IO_OK\<rparr>)"
    "buf_rep b' (s @ bs)" "buf_term b'" "buf_offset b' = buf_offset (io_buf io)"
    "length (s @ bs) < buf_capacity b'"
    "buf_capacity b' \<le> max (buf_capacity (io_buf io)) (length s + 1 + sz + max 256 sz)"
    "bs = take (length bs) (drop p F)" "bs = [] \<longleftrightarrow> length F \<le> p"
proof -
  obtain k where k: "pread (io_fd io) sz (int p) = Some (take k (drop p F))" "0 < k" "k \<le> sz"
    using rd sz(1) unfolding reads_file_def by (metis nat_int of_nat_0_le_iff)
  define bs where "bs = take k (drop p F)"
  have bs: "length bs \<le> sz" "bs = take (length bs) (drop p F)" "bs = [] \<longleftrightarrow> length F \<le> p"
    using k(2,3) by (auto simp: bs_def min_def)
  obtain b' where b': "mboxIORead pread io sz (length s) (int p) =
       Inr (int (length bs), io\<lparr>io_buf := b', io_err := if bs = [] then MBOX_IO_EOF else MBOX_IO_OK\<rparr>)"
    "buf_rep b' (if bs = [] then s else take (length s) s @ bs)" "buf_term (io_buf io) \<or> bs \<noteq> [] \<longrightarrow> buf_term b'"
    "buf_offset b' = buf_offset (io_buf io)"
    "length s + length bs < buf_capacity b'" "length s < buf_capacity b'"
    "buf_capacity b' \<le> max (buf_capacity (io_buf io)) (length s + 1 + sz + max 256 sz)"
    by (rule mboxIORead_at [where pread = pread and io = io and sz = sz and off = "int p",
          OF rep(1) order_refl [of "length s"] cap sz(2) bs(1) k(1) [folded bs_def]])
  then show thesis using rep(2) bs(2,3) by (intro that [of bs b']) (auto split: if_splits)
qed

end
