(* ===== verification/Mbox_Reader.thy ===== *)
theory Mbox_Reader
  imports Mbox_HeaderParser Mbox_IO
begin

text \<open>
  The reader of \<open>src/src/mbox-parser.c\<close>, which cuts a mailbox into messages: the parser
  contexts, the search of the first message, of the end of the headers and of the line that
  begins the next message, and \<open>mboxParserCtxGetNextMessage\<close> that puts them together. A
  loop that reads from the file is given a number of rounds, \<open>fuel\<close>; it is
  \<open>Diverges\<close> when they are used up. The theorems either give a number that is enough or
  show that none is.
\<close>

section \<open>The parser contexts\<close>

definition MBOX_PARSE_DONE :: int where "MBOX_PARSE_DONE = 1"

record mboxParserCtx =
  pc_id :: int
  pc_err :: int
  pc_parsed :: nat
  pc_ioctx :: mboxIOCtx

record mboxIOMsg =
  msg_buf :: mboxBuf
  msg_start :: nat
  msg_end :: nat

definition mboxParserCtxInit :: "mboxParserCtx \<Rightarrow> int \<Rightarrow> int \<Rightarrow> nat \<Rightarrow> mboxParserCtx" where
  "mboxParserCtxInit ctx id' readfd file_size =
     ctx\<lparr>pc_id := id', pc_parsed := 0, pc_err := MBOX_IO_OK, pc_ioctx := mboxIONew readfd file_size\<rparr>"

text \<open>\<open>raw\<close> is what the fresh memory holds; no field of it is kept.\<close>

definition mboxParserCtxNew :: "mboxParserCtx \<Rightarrow> int \<Rightarrow> int \<Rightarrow> nat \<Rightarrow> mboxParserCtx" where
  "mboxParserCtxNew raw id' readfd file_size = mboxParserCtxInit raw id' readfd file_size"

section \<open>The start of the first message\<close>

definition mboxIsFromLine :: "block \<Rightarrow> nat \<Rightarrow> c_error + bool" where
  "mboxIsFromLine m i = match_text m i (LF # ''From '')"

text \<open>The search through a buffer, for a line break and \<open>From \<close> or for \<open>From \<close> alone.\<close>

function find_start :: "mboxChar list \<Rightarrow> block \<Rightarrow> nat \<Rightarrow> nat \<Rightarrow> c_error + nat option" where
  "find_start p m len idx =
     (if idx < len
      then bindE (match_text m idx p) (\<lambda>found.
           if found then Inr (Some idx) else find_start p m len (Suc idx))
      else Inr None)"
  by pat_completeness auto
termination
  by (relation "measure (\<lambda>(p, m, len, idx). len - idx)") auto

declare find_start.simps [simp del]

fun seek_start_loop :: "pread \<Rightarrow> nat \<Rightarrow> mboxIOCtx \<Rightarrow> int \<Rightarrow> c_error + mboxIOCtx" where
  "seek_start_loop pread 0 io offset = Inl Diverges"
| "seek_start_loop pread (Suc fuel) io offset =
     (let offset = (if offset - int MBOX_IO_READ_SIZE < 0 then 0 else offset - int MBOX_IO_READ_SIZE)
      in bindE (mboxIORead pread io MBOX_IO_READ_SIZE 0 offset) (\<lambda>(rbytes, io).
         if rbytes = 0 \<or> io_err io \<noteq> 0 then Inr io
         else bindE (find_start (if io_file_offset io \<noteq> 0 then LF # ''From '' else ''From '')
                      (buf_data (io_buf io)) (buf_len (io_buf io)) 0) (\<lambda>found.
              case found of
                Some idx \<Rightarrow> Inr (io\<lparr>io_start_offset := offset + int idx\<rparr>)
              | None \<Rightarrow> seek_start_loop pread fuel io offset)))"

definition mboxParserCtxSeekStart :: "pread \<Rightarrow> nat \<Rightarrow> mboxParserCtx \<Rightarrow> c_error + mboxParserCtx" where
  "mboxParserCtxSeekStart pread fuel ctx =
     (let io = pc_ioctx ctx
      in bindE (seek_start_loop pread fuel io (io_file_offset io)) (\<lambda>io.
         bindE (mboxBufSetLen (io_buf io) 0) (\<lambda>b.
         Inr (ctx\<lparr>pc_ioctx := io\<lparr>io_buf := b\<lparr>buf_offset := 0\<rparr>,
                                  io_file_offset := io_start_offset io\<rparr>\<rparr>))))"

section \<open>The next line that begins a message\<close>

text \<open>To the next line break, or to the end of what was read.\<close>

function scan_line :: "block \<Rightarrow> nat \<Rightarrow> nat \<Rightarrow> c_error + nat" where
  "scan_line m len i =
     (if i < len
      then bindE (blk_read m i) (\<lambda>c. if c = LF then Inr i else scan_line m len (Suc i))
      else Inr i)"
  by pat_completeness auto
termination
  by (relation "measure (\<lambda>(m, len, i). len - i)") auto

declare scan_line.simps [simp del]

definition io_set_off :: "mboxIOCtx \<Rightarrow> nat \<Rightarrow> mboxIOCtx" where
  "io_set_off io i = io\<lparr>io_buf := io_buf io\<lparr>buf_offset := i\<rparr>\<rparr>"

fun seek_from_loop :: "pread \<Rightarrow> nat \<Rightarrow> mboxIOCtx \<Rightarrow> c_error + (int \<times> mboxIOCtx)" where
  "seek_from_loop pread 0 io = Inl Diverges"
| "seek_from_loop pread (Suc fuel) io =
     bindE (scan_line (buf_data (io_buf io)) (buf_len (io_buf io)) (buf_offset (io_buf io))) (\<lambda>i.
     bindE (mboxIsFromLine (buf_data (io_buf io)) i) (\<lambda>isfrom.
     let io = io_set_off io i; len = buf_len (io_buf io)
     in if isfrom then Inr (1, io_set_off io (size_add i 1))
        else if size_add i 10 \<ge> len
        then if io_file_offset io > io_end_offset io then Inr (0, io)
             else bindE (mboxIORead pread io MBOX_IO_READ_SIZE len (io_file_offset io)) (\<lambda>(rbytes, io).
                  if rbytes = 0 \<and> io_err io = MBOX_IO_EOF then Inr (1, io)
                  else if io_err io \<noteq> 0 then Inr (io_err io, io)
                  else seek_from_loop pread fuel
                         (io_set_off (io\<lparr>io_file_offset := io_file_offset io + rbytes\<rparr>)
                           (size_add (size_sub i 1) 1)))
        else seek_from_loop pread fuel (io_set_off io (size_add i 1))))"

definition mboxParserCtxSeekNextFromLine ::
  "pread \<Rightarrow> nat \<Rightarrow> mboxParserCtx \<Rightarrow> c_error + (int \<times> mboxParserCtx)" where
  "mboxParserCtxSeekNextFromLine pread fuel ctx =
     bindE (seek_from_loop pread fuel (pc_ioctx ctx)) (\<lambda>(r, io). Inr (r, ctx\<lparr>pc_ioctx := io\<rparr>))"

section \<open>The end of the headers\<close>

lemma scan_while_moves: "scan_while P m i = Inr j \<Longrightarrow> i \<le> j \<and> j < length m \<and> (\<exists>c. m ! j = Some c \<and> \<not> P c)"
proof (induction P m i rule: scan_while.induct)
  case (1 P m i)
  then show ?case
    by (subst (asm) (2) scan_while.simps) (fastforce simp: outcome_simps split: if_splits)
qed

function can_parse_loop :: "block \<Rightarrow> nat \<Rightarrow> nat \<Rightarrow> c_error + (bool \<times> nat)" where
  "can_parse_loop m len i =
     (if i < len
      then bindE (scan_while (\<lambda>c. c \<noteq> LF \<and> c \<noteq> NUL) m i) (\<lambda>i.
           bindE (blk_read m i) (\<lambda>c1.
           if c1 = NUL then Inr (False, i)
           else bindE (blk_read m (Suc i)) (\<lambda>c2.
           if c2 = NUL then Inr (False, i)
           else bindE (blk_read m (i + 2)) (\<lambda>c3.
           if c1 = LF \<and> c2 = LF then Inr (True, i + 2)
           else if c1 = LF \<and> c2 = CR \<and> c3 = LF then Inr (True, i + 3)
           else can_parse_loop m len (Suc i)))))
      else Inr (False, i))"
  by pat_completeness auto
termination
  by (relation "measure (\<lambda>(m, len, i). length m - i)") (auto dest: scan_while_moves)

declare can_parse_loop.simps [simp del]

definition mboxBufCanParseHeaders :: "mboxBuf \<Rightarrow> c_error + (bool \<times> mboxBuf)" where
  "mboxBufCanParseHeaders buf =
     bindE (can_parse_loop (buf_data buf) (buf_len buf) (buf_offset buf)) (\<lambda>(r, i).
     Inr (r, buf\<lparr>buf_offset := i\<rparr>))"

fun seek_headers_loop :: "pread \<Rightarrow> nat \<Rightarrow> mboxIOCtx \<Rightarrow> c_error + (bool \<times> mboxIOCtx)" where
  "seek_headers_loop pread 0 io = Inl Diverges"
| "seek_headers_loop pread (Suc fuel) io =
     bindE (mboxBufCanParseHeaders (io_buf io)) (\<lambda>(r, b).
     let io = io\<lparr>io_buf := b\<rparr>
     in if r then Inr (True, io)
        else bindE (blk_read (buf_data b) 0) (\<lambda>c.
             if c = NUL \<or> size_add (buf_offset b) 1 \<ge> buf_len b
             then bindE (mboxIORead pread io MBOX_IO_READ_SIZE (buf_len b) (io_file_offset io)) (\<lambda>(rbytes, io).
                  if rbytes = 0 \<or> io_err io \<noteq> 0 then Inr (False, io)
                  else seek_headers_loop pread fuel
                         (io\<lparr>io_file_offset := io_file_offset io + rbytes\<rparr>))
             else seek_headers_loop pread fuel io))"

definition mboxParserCtxSeekHeaders ::
  "pread \<Rightarrow> nat \<Rightarrow> mboxParserCtx \<Rightarrow> c_error + (bool \<times> mboxParserCtx)" where
  "mboxParserCtxSeekHeaders pread fuel ctx =
     bindE (seek_headers_loop pread fuel (pc_ioctx ctx)) (\<lambda>(r, io). Inr (r, ctx\<lparr>pc_ioctx := io\<rparr>))"

section \<open>One message\<close>

text \<open>What was parsed is dropped from the buffer, the rest moved to its start.\<close>

definition move_along :: "mboxBuf \<Rightarrow> c_error + mboxBuf" where
  "move_along buf =
     (let newlen = size_sub (buf_len buf) (buf_offset buf)
      in bindE (if newlen \<noteq> 0 then mboxBufSlice buf (buf_offset buf) 0 newlen else Inr buf) (\<lambda>b.
         bindE (mboxBufSetLen b newlen) (\<lambda>b. Inr (mboxBufSetOffset b 0))))"

text \<open>
  \<open>offset >= end_offset\<close> compares a \<open>size_t\<close> with a \<open>ssize_t\<close>, which is converted.
\<close>

definition mboxParserCtxGetNextMessage ::
  "pread \<Rightarrow> nat \<Rightarrow> mboxParserCtx \<Rightarrow> c_error + (mboxIOMsg option \<times> mboxParserCtx)" where
  "mboxParserCtxGetNextMessage pread fuel ctx =
     (let msg_start = io_offset (pc_ioctx ctx)
      in bindE (move_along (io_buf (pc_ioctx ctx))) (\<lambda>b.
         bindE (mboxParserCtxSeekHeaders pread fuel (ctx\<lparr>pc_ioctx := (pc_ioctx ctx)\<lparr>io_buf := b\<rparr>\<rparr>)) (\<lambda>(r, ctx).
         if \<not> r then Inr (None, ctx)
         else bindE (mboxParserCtxSeekNextFromLine pread fuel ctx) (\<lambda>(r, ctx).
         if r \<noteq> 1 then Inr (None, ctx)
         else let io = pc_ioctx ctx; buf = io_buf io;
                  io = io\<lparr>io_offset := size_add (io_offset io) (buf_offset buf)\<rparr>;
                  ctx = ctx\<lparr>pc_ioctx := io,
                            pc_err := (if int (io_offset io) \<ge> io_end_offset io mod 2 ^ 64 \<or> io_err io = MBOX_IO_EOF
                                       then MBOX_PARSE_DONE else pc_err ctx)\<rparr>
              in bindE (mboxBufDupRaw (buf_data buf) 0 (buf_offset buf) (buf_offset buf)) (\<lambda>full_msg.
                 Inr (Some \<lparr>msg_buf = full_msg, msg_start = msg_start, msg_end = io_offset io\<rparr>,
                      ctx\<lparr>pc_parsed := size_add (pc_parsed ctx) 1\<rparr>))))))"

text \<open>
  The job of a thread of the I/O pool: all messages of its part of the file, in the order in
  which they are handed to the parse pool.
\<close>

fun mboxParserCtxGetNextMessageCallback ::
  "pread \<Rightarrow> nat \<Rightarrow> mboxParserCtx \<Rightarrow> c_error + (mboxIOMsg list \<times> mboxParserCtx)" where
  "mboxParserCtxGetNextMessageCallback pread 0 ctx = Inl Diverges"
| "mboxParserCtxGetNextMessageCallback pread (Suc fuel) ctx =
     bindE (mboxParserCtxGetNextMessage pread fuel ctx) (\<lambda>(msg, ctx).
     case msg of
       None \<Rightarrow> Inr ([], ctx)
     | Some m \<Rightarrow>
         if pc_err ctx = MBOX_PARSE_DONE then Inr ([m], ctx)
         else bindE (mboxParserCtxGetNextMessageCallback pread fuel ctx) (\<lambda>(ms, ctx).
              Inr (m # ms, ctx)))"

section \<open>Messages in a text\<close>

text \<open>
  Where the headers of a text end, as the place behind the first empty line, and where the
  next message begins, as the place of the first line break before \<open>From \<close>.
\<close>

function header_end :: "mboxChar list \<Rightarrow> nat \<Rightarrow> nat option" where
  "header_end R i =
     (if length R \<le> i then None
      else if take 2 (drop i R) = [LF, LF] then Some (i + 2)
      else if take 3 (drop i R) = [LF, CR, LF] then Some (i + 3)
      else header_end R (Suc i))"
  by pat_completeness auto
termination
  by (relation "measure (\<lambda>(R, i). length R - i)") auto

function next_from :: "mboxChar list \<Rightarrow> nat \<Rightarrow> nat option" where
  "next_from R i =
     (if length R \<le> i then None
      else if take 6 (drop i R) = LF # ''From '' then Some i
      else next_from R (Suc i))"
  by pat_completeness auto
termination
  by (relation "measure (\<lambda>(R, i). length R - i)") auto

declare header_end.simps [simp del] next_from.simps [simp del]

lemma header_end_bounds: "header_end R i = Some h \<Longrightarrow> i + 2 \<le> h \<and> h \<le> length R"
proof (induction R i rule: header_end.induct)
  case (1 R i)
  have "take 2 (drop i R) = [LF, LF] \<Longrightarrow> i + 2 \<le> length R"
    "take 3 (drop i R) = [LF, CR, LF] \<Longrightarrow> i + 3 \<le> length R"
    by (drule arg_cong [of _ _ length], simp)+
  then show ?case
    using 1 by (simp add: header_end.simps [of R i] split: if_splits)
qed

lemma next_from_bounds:
  "next_from R i = Some n \<Longrightarrow> i \<le> n \<and> n + 6 \<le> length R \<and> take 6 (drop n R) = LF # ''From ''"
proof (induction R i rule: next_from.induct)
  case (1 R i)
  have "take 6 (drop i R) = LF # ''From '' \<Longrightarrow> i + 6 \<le> length R"
    by (drule arg_cong [of _ _ length]) simp
  then show ?case
    using 1 by (subst (asm) (2) next_from.simps) (fastforce split: if_splits)
qed

lemma take_hd_neq: "i < length R \<Longrightarrow> R ! i \<noteq> LF \<Longrightarrow> take (Suc n) (drop i R) \<noteq> LF # xs"
  by (simp add: Cons_nth_drop_Suc [symmetric])

lemma header_end_skip:
  assumes "i < length R" and "R ! i \<noteq> LF"
  shows "header_end R i = header_end R (Suc i)"
  using assms take_hd_neq [OF assms, of 1] take_hd_neq [OF assms, of 2]
  by (simp add: header_end.simps [of R i] numeral_2_eq_2 numeral_3_eq_3)

lemma next_from_skip:
  assumes "i < length R" and "R ! i \<noteq> LF"
  shows "next_from R i = next_from R (Suc i)"
  using assms take_hd_neq [OF assms, of 5]
  by (simp add: next_from.simps [of R i])

lemma skip_to:
  assumes "\<And>i. i < length R \<Longrightarrow> R ! i \<noteq> LF \<Longrightarrow> f i = f (Suc i)"
    and "i \<le> j" and "j \<le> length R" and "\<forall>k. i \<le> k \<and> k < j \<longrightarrow> R ! k \<noteq> LF"
  shows "f i = f j"
  using assms(2-4)
proof (induction "j - i" arbitrary: i)
  case (Suc d)
  then have "f (Suc i) = f j" by (intro Suc.hyps(1)) auto
  moreover have "f i = f (Suc i)" using Suc.prems Suc.hyps(2) by (intro assms(1)) auto
  ultimately show ?case by simp
qed simp

section \<open>What the searches find\<close>

lemma match_text_ended:
  "text_at m i (t @ [NUL]) \<Longrightarrow> NUL \<notin> set p \<Longrightarrow> match_text m i p = Inr (take (length p) t = p)"
proof (induction p arbitrary: i t)
  case (Cons c p)
  then show ?case by (cases t) auto
qed simp

lemma text_at_drop: "text_at m 0 t \<Longrightarrow> i \<le> length t \<Longrightarrow> text_at m i (drop i t)"
  using text_at_append [of m 0 "take i t" "drop i t"] by (simp add: min_absorb2)

definition holds :: "block \<Rightarrow> mboxChar list \<Rightarrow> bool" where
  "holds m s \<longleftrightarrow> text_at m 0 (s @ [NUL]) \<and> NUL \<notin> set s"

lemma holds_at: "holds m s \<Longrightarrow> i \<le> length s \<Longrightarrow> text_at m i (drop i s @ [NUL])"
  using text_at_drop [of m "s @ [NUL]" i] by (simp add: holds_def)

lemma holds_read: "holds m s \<Longrightarrow> i < length s \<Longrightarrow> blk_read m i = Inr (s ! i)"
  using holds_at [of m s i] by (simp add: Cons_nth_drop_Suc [symmetric])

lemma holds_end: "holds m s \<Longrightarrow> blk_read m (length s) = Inr NUL"
  using holds_at [of m s "length s"] by simp

lemma holds_nth: "holds m s \<Longrightarrow> i < length s \<Longrightarrow> s ! i \<noteq> NUL"
  unfolding holds_def by (metis nth_mem)

lemma holds_buf: "buf_rep b s \<Longrightarrow> buf_term b \<Longrightarrow> NUL \<notin> set s \<Longrightarrow> holds (buf_data b) s"
  using buf_rep_text [of b s] buf_repD(1) [of b s]
  by (simp add: holds_def buf_term_def blk_read_Inr_iff)

lemma mboxIsFromLine_text:
  "holds m s \<Longrightarrow> i \<le> length s \<Longrightarrow> mboxIsFromLine m i = Inr (take 6 (drop i s) = LF # ''From '')"
  using match_text_ended [OF holds_at, of m s i "LF # ''From ''"]
  by (simp add: mboxIsFromLine_def eval_nat_numeral del: match_text.simps)

lemma line_end:
  assumes "i \<le> length s"
  obtains j where "i \<le> j" "j \<le> length s" "\<forall>k. i \<le> k \<and> k < j \<longrightarrow> s ! k \<noteq> LF" "j < length s \<longrightarrow> s ! j = LF"
proof -
  let ?j = "i + length (takeWhile (\<lambda>c. c \<noteq> LF) (drop i s))"
  have le: "length (takeWhile (\<lambda>c. c \<noteq> LF) (drop i s)) \<le> length s - i"
    by (metis length_drop length_takeWhile_le)
  have "s ! k \<noteq> LF" if "i \<le> k" "k < ?j" for k
  proof -
    have "takeWhile (\<lambda>c. c \<noteq> LF) (drop i s) ! (k - i) = s ! k"
      using that le assms by (simp add: takeWhile_nth)
    moreover have "takeWhile (\<lambda>c. c \<noteq> LF) (drop i s) ! (k - i) \<in> set (takeWhile (\<lambda>c. c \<noteq> LF) (drop i s))"
      using that by (intro nth_mem) simp
    ultimately show ?thesis by (metis set_takeWhileD)
  qed
  moreover have "s ! ?j = LF" if "?j < length s"
    using that nth_length_takeWhile [of "\<lambda>c. c \<noteq> LF" "drop i s"] by simp
  ultimately show thesis using le assms by (intro that [of ?j]) auto
qed

lemma scan_line_text:
  assumes "holds m s" and "i \<le> j" and "j \<le> length s"
    and "\<forall>k. i \<le> k \<and> k < j \<longrightarrow> s ! k \<noteq> LF" and "j < length s \<longrightarrow> s ! j = LF"
  shows "scan_line m (length s) i = Inr j"
  using assms(2-)
proof (induction "j - i" arbitrary: i)
  case 0
  then show ?case using holds_read [OF assms(1), of i] by (simp add: scan_line.simps)
next
  case (Suc d)
  then have "scan_line m (length s) (Suc i) = Inr j" by (intro Suc.hyps(1)) auto
  then show ?case
    using Suc.hyps(2) Suc.prems holds_read [OF assms(1), of i] by (simp add: scan_line.simps [of m _ i])
qed

lemma scan_while_NL_text:
  assumes "holds m s" and "i \<le> j" and "j \<le> length s"
    and "\<forall>k. i \<le> k \<and> k < j \<longrightarrow> s ! k \<noteq> LF" and "j < length s \<longrightarrow> s ! j = LF"
  shows "scan_while (\<lambda>c. c \<noteq> LF \<and> c \<noteq> NUL) m i = Inr j"
  using assms(2-)
proof (induction "j - i" arbitrary: i)
  case 0
  then show ?case
    using holds_read [OF assms(1), of i] holds_end [OF assms(1)]
    by (cases "i = length s") (subst scan_while.simps, simp)+
next
  case (Suc d)
  then have "scan_while (\<lambda>c. c \<noteq> LF \<and> c \<noteq> NUL) m (Suc i) = Inr j" by (intro Suc.hyps(1)) auto
  then show ?case
    using Suc.hyps(2) Suc.prems holds_read [OF assms(1), of i] holds_nth [OF assms(1), of i]
    by (simp add: scan_while.simps [of _ m i])
qed

section \<open>The headers are found\<close>

text \<open>
  A buffer holds a prefix \<open>s\<close> of a text \<open>R\<close>. Its search gives the end of the headers when
  that is in the prefix, and otherwise stops near the end of the prefix without passing it.
  An empty line with a carriage return must not be cut by the end of the prefix.
\<close>

definition blank_split :: "mboxChar list \<Rightarrow> nat \<Rightarrow> bool" where
  "blank_split R y \<longleftrightarrow> 2 \<le> y \<and> take 3 (drop (y - 2) R) = [LF, CR, LF]"

definition nosplit :: "mboxChar list \<Rightarrow> mboxChar list \<Rightarrow> bool" where
  "nosplit R s \<longleftrightarrow> \<not> blank_split R (length s)"

lemma blank_split_drop: "blank_split (drop k R) y \<Longrightarrow> blank_split R (k + y)"
  unfolding blank_split_def drop_drop by (metis add.commute diff_add_assoc trans_le_add2)

lemma nosplit_Nil [simp]: "nosplit R []"
  by (simp add: nosplit_def blank_split_def)

lemma prefix_nth: "s = take (length s) R \<Longrightarrow> i < length s \<Longrightarrow> s ! i = R ! i"
  by (metis nth_take)

lemma prefix_len: "s = take (length s) R \<Longrightarrow> length s \<le> length R"
  by (metis length_take min.cobounded1)

lemma drop2: "Suc i < length R \<Longrightarrow> drop i R = R ! i # R ! Suc i # drop (i + 2) R"
  by (simp add: Cons_nth_drop_Suc)

lemma header_end_at:
  assumes "i + 2 \<le> length R"
  shows "header_end R i =
     (if R ! i = LF \<and> R ! Suc i = LF then Some (i + 2)
      else if i + 3 \<le> length R \<and> R ! i = LF \<and> R ! Suc i = CR \<and> R ! (i + 2) = LF then Some (i + 3)
      else header_end R (Suc i))"
proof -
  have d: "drop i R = R ! i # R ! Suc i # drop (i + 2) R" using assms by (intro drop2) simp
  have "take 2 (drop i R) = [R ! i, R ! Suc i]" by (simp add: d)
  moreover have "take 3 (drop i R) = [LF, CR, LF] \<longleftrightarrow>
      i + 3 \<le> length R \<and> R ! i = LF \<and> R ! Suc i = CR \<and> R ! (i + 2) = LF"
  proof (cases "i + 3 \<le> length R")
    case True
    then have "drop (i + 2) R = R ! (i + 2) # drop (i + 3) R"
      by (simp add: Cons_nth_drop_Suc eval_nat_numeral)
    then show ?thesis using True by (simp add: d eval_nat_numeral)
  next
    case False
    then have "length (take 3 (drop i R)) \<noteq> length [LF, CR, LF]" by simp
    then show ?thesis using False by metis
  qed
  ultimately show ?thesis using assms by (subst header_end.simps) simp
qed

lemma can_parse_loop_within:
  assumes "holds m s" and "s = take (length s) R" and "i \<le> length s" and "nosplit R s"
    and "header_end R i = r" and "length s \<le> L"
  shows "(\<exists>h. r = Some h \<and> h \<le> length s \<and> can_parse_loop m L i = Inr (True, h)) \<or>
    ((\<forall>h. r = Some h \<longrightarrow> length s < h) \<and>
     (\<exists>i'. can_parse_loop m L i = Inr (False, i') \<and> i \<le> i' \<and> i' \<le> length s \<and>
       length s \<le> i' + 1 \<and> header_end R i' = r))"
  using assms(3,5)
proof (induction "length s - i" arbitrary: i rule: less_induct)
  case less
  note len = prefix_len [OF assms(2)] and nth = prefix_nth [OF assms(2)]
  have st: "can_parse_loop m L i =
     (if i < L
      then bindE (scan_while (\<lambda>c. c \<noteq> LF \<and> c \<noteq> NUL) m i) (\<lambda>i.
           bindE (blk_read m i) (\<lambda>c1.
           if c1 = NUL then Inr (False, i)
           else bindE (blk_read m (Suc i)) (\<lambda>c2.
           if c2 = NUL then Inr (False, i)
           else bindE (blk_read m (i + 2)) (\<lambda>c3.
           if c1 = LF \<and> c2 = LF then Inr (True, i + 2)
           else if c1 = LF \<and> c2 = CR \<and> c3 = LF then Inr (True, i + 3)
           else can_parse_loop m L (Suc i)))))
      else Inr (False, i))" by (rule can_parse_loop.simps)
  show ?case
  proof (cases "i < length s")
    case False
    then have "i = length s" using less.prems(1) by simp
    moreover have "scan_while (\<lambda>c. c \<noteq> LF \<and> c \<noteq> NUL) m (length s) = Inr (length s)"
      by (rule scan_while_NL_text [OF assms(1)]) auto
    ultimately show ?thesis using less.prems header_end_bounds [of R i] st holds_end [OF assms(1)]
      by (cases "i < L") force+
  next
    case True
    obtain j where j: "i \<le> j" "j \<le> length s" "\<forall>k. i \<le> k \<and> k < j \<longrightarrow> s ! k \<noteq> LF"
      "j < length s \<longrightarrow> s ! j = LF" using line_end [OF less.prems(1)] by blast
    have sc: "scan_while (\<lambda>c. c \<noteq> LF \<and> c \<noteq> NUL) m i = Inr j"
      by (rule scan_while_NL_text [OF assms(1) j])
    have "\<forall>k. i \<le> k \<and> k < j \<longrightarrow> R ! k \<noteq> LF" using j(2,3) nth by simp
    then have hj: "header_end R j = r"
      using skip_to [of R "header_end R" i j] header_end_skip j(1,2) len less.prems(2) by simp
    have hb: "\<forall>h. r = Some h \<longrightarrow> j + 2 \<le> h" using header_end_bounds [of R j] hj by blast
    consider "j = length s" | "j < length s" "Suc j = length s" | "Suc j < length s"
      using j(2) by linarith
    then show ?thesis
    proof cases
      case 1
      then show ?thesis using st True assms(6) sc holds_end [OF assms(1)] hb hj j(1) by (intro disjI2) force
    next
      case 2
      then show ?thesis
        using st True assms(6) sc holds_end [OF assms(1)] holds_read [OF assms(1), of j] j hb hj by (intro disjI2) force
    next
      case 3
      then have r: "blk_read m j = Inr LF" "blk_read m (Suc j) = Inr (s ! Suc j)" "s ! Suc j \<noteq> NUL"
        "R ! j = LF" "R ! Suc j = s ! Suc j" "s ! j = LF"
        using holds_read [OF assms(1), of j] holds_read [OF assms(1), of "Suc j"]
          holds_nth [OF assms(1), of "Suc j"] j(4) nth [of j] nth [of "Suc j"] by auto
      obtain c3 where c3: "blk_read m (j + 2) = Inr c3"
          "j + 2 < length s \<longrightarrow> c3 = R ! (j + 2)" "j + 2 = length s \<longrightarrow> c3 = NUL"
        using 3 holds_read [OF assms(1), of "j + 2"] holds_end [OF assms(1)] nth
        by (cases "j + 2 = length s") auto
      have go: "can_parse_loop m L i =
          (if s ! Suc j = LF then Inr (True, j + 2)
           else if s ! Suc j = CR \<and> c3 = LF then Inr (True, j + 3)
           else can_parse_loop m L (Suc j))"
        using st True assms(6) sc r(1-3) c3(1) by simp
      have ends: "header_end R j =
          (if s ! Suc j = LF then Some (j + 2)
           else if j + 3 \<le> length R \<and> s ! Suc j = CR \<and> R ! (j + 2) = LF then Some (j + 3)
           else header_end R (Suc j))"
        using header_end_at [of j R] 3 len r(4-6) by simp
      show ?thesis
      proof (cases "s ! Suc j = LF")
        case True
        then show ?thesis using go ends hj 3 by simp
      next
        case nl: False
        have "\<not> (s ! Suc j = CR \<and> j + 3 \<le> length R \<and> R ! (j + 2) = LF)" if "j + 2 = length s"
        proof
          assume *: "s ! Suc j = CR \<and> j + 3 \<le> length R \<and> R ! (j + 2) = LF"
          then have "drop j R = R ! j # R ! Suc j # R ! (j + 2) # drop (j + 3) R"
            using Cons_nth_drop_Suc [of j R] Cons_nth_drop_Suc [of "Suc j" R] Cons_nth_drop_Suc [of "j + 2" R]
            by (simp add: eval_nat_numeral)
          then have "blank_split R (length s)"
            using * that [symmetric] r(4,5) by (simp add: blank_split_def eval_nat_numeral)
          then show False using assms(4) by (simp add: nosplit_def)
        qed
        then have eq: "(j + 3 \<le> length R \<and> s ! Suc j = CR \<and> R ! (j + 2) = LF) =
            (s ! Suc j = CR \<and> c3 = LF)"
          using c3(2,3) 3 len by (cases "j + 2 < length s") auto
        show ?thesis
        proof (cases "s ! Suc j = CR \<and> c3 = LF")
          case True
          then have "j + 2 < length s" using c3(3) 3 by (cases "j + 2 = length s") auto
          then show ?thesis using True nl go ends hj eq by simp
        next
          case False
          then have "header_end R (Suc j) = r" using ends eq nl hj by auto
          moreover have "length s - Suc j < length s - i" "Suc j \<le> length s" using 3 j(1) by simp_all
          ultimately consider (found) h where "r = Some h" "h \<le> length s"
               "can_parse_loop m L (Suc j) = Inr (True, h)"
            | (more) i' where "\<forall>h. r = Some h \<longrightarrow> length s < h"
               "can_parse_loop m L (Suc j) = Inr (False, i')"
               "Suc j \<le> i'" "i' \<le> length s" "length s \<le> i' + 1" "header_end R i' = r"
            using less.hyps by blast
          moreover have "can_parse_loop m L i = can_parse_loop m L (Suc j)"
            using go False nl by auto
          ultimately show ?thesis using j(1) by cases simp_all
        qed
      qed
    qed
  qed
qed

lemmas can_parse_loop_text = can_parse_loop_within [OF _ _ _ _ _ order_refl]

section \<open>The state while a message is read\<close>

text \<open>Where the reads end that begin at \<open>x\<close> and go on one behind the other.\<close>

inductive_set read_ends :: "pread \<Rightarrow> int \<Rightarrow> nat \<Rightarrow> nat set" for pread fd x where
  read_ends_start: "x \<in> read_ends pread fd x"
| read_ends_step: "y \<in> read_ends pread fd x \<Longrightarrow> pread fd MBOX_IO_READ_SIZE (int y) = Some bs \<Longrightarrow>
    y + length bs \<in> read_ends pread fd x"

text \<open>None of them ends within an empty line, between its carriage return and its line break.\<close>

definition blank_lines_whole :: "pread \<Rightarrow> int \<Rightarrow> mboxChar list \<Rightarrow> nat \<Rightarrow> bool" where
  "blank_lines_whole pread fd F x \<longleftrightarrow> (\<forall>y \<in> read_ends pread fd x. x < y \<longrightarrow> \<not> blank_split F y)"

text \<open>
  The message begins at \<open>pos\<close> of the file \<open>F\<close>; the buffer holds the part \<open>s\<close> of it
  that was read, and the next read goes on behind it.
\<close>

definition reading :: "pread \<Rightarrow> mboxChar list \<Rightarrow> nat \<Rightarrow> mboxChar list \<Rightarrow> mboxIOCtx \<Rightarrow> bool" where
  "reading pread F pos s io \<longleftrightarrow>
     buf_rep (io_buf io) s \<and> buf_term (io_buf io) \<and> buf_offset (io_buf io) \<le> length s \<and>
     length s < buf_capacity (io_buf io) \<and> buf_capacity (io_buf io) \<le> length F + 600001 \<and>
     pos \<le> length F \<and> s = take (length s) (drop pos F) \<and> nosplit (drop pos F) s \<and>
     io_file_offset io = int (pos + length s) \<and> io_err io = MBOX_IO_OK \<and>
     blank_lines_whole pread (io_fd io) F (pos + length s)"

text \<open>The same, whether or not the reads cut an empty line.\<close>

definition reads_on :: "mboxChar list \<Rightarrow> nat \<Rightarrow> mboxChar list \<Rightarrow> mboxIOCtx \<Rightarrow> bool" where
  "reads_on F pos s io \<longleftrightarrow>
     buf_rep (io_buf io) s \<and> buf_term (io_buf io) \<and> buf_offset (io_buf io) \<le> length s \<and>
     length s < buf_capacity (io_buf io) \<and> buf_capacity (io_buf io) \<le> length F + 600001 \<and>
     pos \<le> length F \<and> s = take (length s) (drop pos F) \<and>
     io_file_offset io = int (pos + length s) \<and> io_err io = MBOX_IO_OK"

lemma reading_reads_on:
  "reading pread F pos s io \<longleftrightarrow> reads_on F pos s io \<and> nosplit (drop pos F) s \<and>
     blank_lines_whole pread (io_fd io) F (pos + length s)"
  unfolding reading_def reads_on_def by blast

text \<open>What is asked of the file: its reads return its bytes, and it has no zero byte.\<close>

definition mail_file :: "pread \<Rightarrow> int \<Rightarrow> mboxChar list \<Rightarrow> bool" where
  "mail_file pread fd F \<longleftrightarrow> reads_file pread fd F \<and> NUL \<notin> set F \<and> length F < 2 ^ 60"

definition io_frame :: "mboxIOCtx \<Rightarrow> mboxIOCtx \<Rightarrow> bool" where
  "io_frame io io' \<longleftrightarrow> io_fd io' = io_fd io \<and> io_offset io' = io_offset io \<and>
     io_end_offset io' = io_end_offset io \<and> io_start_offset io' = io_start_offset io \<and>
     io_file_size io' = io_file_size io"

lemma io_frame_refl [simp]: "io_frame io io" by (simp add: io_frame_def)

lemma io_frame_trans [trans]: "io_frame a b \<Longrightarrow> io_frame b c \<Longrightarrow> io_frame a c"
  by (simp add: io_frame_def)

lemma io_frame_fields [simp]:
  "io_frame io (io'\<lparr>io_buf := b\<rparr>) = io_frame io io'" "io_frame io (io'\<lparr>io_err := e\<rparr>) = io_frame io io'"
  "io_frame io (io'\<lparr>io_file_offset := p\<rparr>) = io_frame io io'"
  "io_frame (io\<lparr>io_buf := b\<rparr>) io' = io_frame io io'" "io_frame (io\<lparr>io_err := e\<rparr>) io' = io_frame io io'"
  "io_frame (io\<lparr>io_file_offset := p\<rparr>) io' = io_frame io io'"
  by (simp_all add: io_frame_def)

lemma io_frame_set_off [simp]:
  "io_frame io (io_set_off io' i) = io_frame io io'" "io_frame (io_set_off io i) io' = io_frame io io'"
  by (simp_all add: io_set_off_def)

lemma reading_set_off [simp]:
  "buf_offset (io_buf (io_set_off io i)) = i" "buf_data (io_buf (io_set_off io i)) = buf_data (io_buf io)"
  "buf_len (io_buf (io_set_off io i)) = buf_len (io_buf io)"
  "io_file_offset (io_set_off io i) = io_file_offset io" "io_end_offset (io_set_off io i) = io_end_offset io"
  "io_err (io_set_off io i) = io_err io" "io_fd (io_set_off io i) = io_fd io"
  "io_set_off (io_set_off io i) j = io_set_off io j"
  by (simp_all add: io_set_off_def)

lemma reading_off: "reading pread F pos s io \<Longrightarrow> i \<le> length s \<Longrightarrow> reading pread F pos s (io_set_off io i)"
  by (simp add: reading_def io_set_off_def)

lemma reads_on_simps:
  assumes "reads_on F pos s io" and "mail_file pread (io_fd io) F"
  shows "buf_len (io_buf io) = length s" "holds (buf_data (io_buf io)) s" "length s \<le> length F - pos"
    "length s < 2 ^ 60" "buf_offset (io_buf io) \<le> length s" "io_file_offset io = int (pos + length s)"
    "pos + length s \<le> length F"
proof -
  have s: "s = take (length s) (drop pos F)" using assms(1) by (simp add: reads_on_def)
  have "set s \<subseteq> set F" by (subst s) (meson order_trans set_drop_subset set_take_subset)
  then have "NUL \<notin> set s" using assms(2) by (auto simp: mail_file_def)
  then show "holds (buf_data (io_buf io)) s" using assms(1) by (simp add: holds_buf reads_on_def)
  show "length s \<le> length F - pos" using prefix_len [OF s] by simp
  moreover have "pos \<le> length F" "length F < 2 ^ 60"
    using assms by (simp_all add: mail_file_def reads_on_def)
  ultimately show "length s < 2 ^ 60" "pos + length s \<le> length F" by linarith+
  show "buf_len (io_buf io) = length s" using assms(1) by (simp add: reads_on_def buf_repD)
  show "buf_offset (io_buf io) \<le> length s" "io_file_offset io = int (pos + length s)"
    using assms(1) by (simp_all add: reads_on_def)
qed

lemmas reading_simps = reads_on_simps [OF conjunct1 [OF iffD1 [OF reading_reads_on]]]

lemma read_ends_trans: "z \<in> read_ends pread fd y \<Longrightarrow> y \<in> read_ends pread fd x \<Longrightarrow> z \<in> read_ends pread fd x"
  by (induction rule: read_ends.induct) (auto intro: read_ends.intros)

lemma IORead_ends:
  "mboxIORead pread io MBOX_IO_READ_SIZE at (int x) = Inr (int k, io') \<Longrightarrow> 0 < k \<Longrightarrow>
   x + k \<in> read_ends pread (io_fd io) x"
  by (auto simp: mboxIORead_def Let_def outcome_simps intro!: read_ends.intros split: if_splits option.splits)

lemma read_ends_ge: "y \<in> read_ends pread fd x \<Longrightarrow> x \<le> y"
  by (induction rule: read_ends.induct) auto

lemma blank_lines_whole_no_CR: "CR \<notin> set F \<Longrightarrow> blank_lines_whole pread fd F x"
proof -
  assume "CR \<notin> set F"
  then have "CR \<notin> set (take 3 (drop (y - 2) F))" for y by (meson in_set_dropD in_set_takeD)
  then have "\<not> blank_split F y" for y by (metis blank_split_def list.set_intros)
  then show ?thesis by (simp add: blank_lines_whole_def)
qed

lemma blank_lines_whole_step:
  assumes "blank_lines_whole pread fd F x" and "y \<in> read_ends pread fd x"
  shows "blank_lines_whole pread fd F y"
  using assms read_ends_trans read_ends_ge unfolding blank_lines_whole_def by (metis order_le_less_trans)

lemma reads_on_more:
  assumes io: "reads_on F pos s io" and fl: "mail_file pread (io_fd io) F"
  obtains b' bs where
    "mboxIORead pread io MBOX_IO_READ_SIZE (length s) (int (pos + length s)) =
       Inr (int (length bs), io\<lparr>io_buf := b', io_err := if bs = [] then MBOX_IO_EOF else MBOX_IO_OK\<rparr>)"
    "buf_rep b' (s @ bs)" "buf_term b'" "buf_offset b' = buf_offset (io_buf io)"
    "bs = [] \<longleftrightarrow> s = drop pos F"
    "reads_on F pos (s @ bs)
       (io\<lparr>io_buf := b', io_err := MBOX_IO_OK, io_file_offset := int (pos + length s) + int (length bs)\<rparr>)"
proof -
  have rd: "reads_file pread (io_fd io) F" "length F < 2 ^ 60" using fl by (simp_all add: mail_file_def)
  have cap: "length s < buf_capacity (io_buf io)" "buf_capacity (io_buf io) \<le> length F + 600001"
    and rep: "buf_rep (io_buf io) s" "buf_term (io_buf io)"
    using io by (simp_all add: reads_on_def)
  note sm = reads_on_simps [OF io fl]
  have sz: "0 < MBOX_IO_READ_SIZE" "MBOX_IO_READ_SIZE < 2 ^ 32"
    "buf_capacity (io_buf io) + max 256 MBOX_IO_READ_SIZE \<le> PTRDIFF_MAX"
    using cap(2) rd(2) by (simp_all add: MBOX_IO_READ_SIZE_def)
  obtain b' bs where b: "mboxIORead pread io MBOX_IO_READ_SIZE (length s) (int (pos + length s)) =
       Inr (int (length bs), io\<lparr>io_buf := b', io_err := if bs = [] then MBOX_IO_EOF else MBOX_IO_OK\<rparr>)"
    "buf_rep b' (s @ bs)" "buf_term b'" "buf_offset b' = buf_offset (io_buf io)"
    "length (s @ bs) < buf_capacity b'"
    "buf_capacity b' \<le> max (buf_capacity (io_buf io))
       (length s + 1 + MBOX_IO_READ_SIZE + max 256 MBOX_IO_READ_SIZE)"
    "bs = take (length bs) (drop (pos + length s) F)" "bs = [] \<longleftrightarrow> length F \<le> pos + length s"
    by (rule mboxIORead_appends [OF rep cap(1) sz(3,1,2) rd(1), of "pos + length s"])
  have s: "s = take (length s) (drop pos F)" using io by (simp add: reads_on_def)
  have sbs: "s @ bs = take (length (s @ bs)) (drop pos F)"
    using s b(7) take_add [of "length s" "length bs" "drop pos F"] by (simp add: add.commute)
  have "s = drop pos F \<longleftrightarrow> length s = length F - pos"
    using s by (metis length_drop order_refl take_all)
  then have all: "length F \<le> pos + length s \<longleftrightarrow> s = drop pos F" using sm(3,7) by linarith
  have "buf_capacity b' \<le> length F + 600001"
    using b(6) cap(2) sm(3) by (simp add: MBOX_IO_READ_SIZE_def)
  then have "reads_on F pos (s @ bs)
       (io\<lparr>io_buf := b', io_err := MBOX_IO_OK, io_file_offset := int (pos + length s) + int (length bs)\<rparr>)"
    using b(2-5) sm(5,7) sbs [symmetric] by (simp add: reads_on_def add.assoc)
  then show thesis using b(1-4,8) all by (intro that [of bs b']) auto
qed

lemma reading_more:
  assumes io: "reading pread F pos s io" and fl: "mail_file pread (io_fd io) F"
  obtains b' bs where
    "mboxIORead pread io MBOX_IO_READ_SIZE (length s) (int (pos + length s)) =
       Inr (int (length bs), io\<lparr>io_buf := b', io_err := if bs = [] then MBOX_IO_EOF else MBOX_IO_OK\<rparr>)"
    "buf_rep b' (s @ bs)" "buf_term b'" "buf_offset b' = buf_offset (io_buf io)"
    "bs = [] \<longleftrightarrow> s = drop pos F"
    "reading pread F pos (s @ bs)
       (io\<lparr>io_buf := b', io_err := MBOX_IO_OK, io_file_offset := int (pos + length s) + int (length bs)\<rparr>)"
proof -
  have io': "reads_on F pos s io" "nosplit (drop pos F) s"
    and whole: "blank_lines_whole pread (io_fd io) F (pos + length s)"
    using io by (simp_all add: reading_reads_on)
  obtain b' bs where b: "mboxIORead pread io MBOX_IO_READ_SIZE (length s) (int (pos + length s)) =
       Inr (int (length bs), io\<lparr>io_buf := b', io_err := if bs = [] then MBOX_IO_EOF else MBOX_IO_OK\<rparr>)"
    "buf_rep b' (s @ bs)" "buf_term b'" "buf_offset b' = buf_offset (io_buf io)"
    "bs = [] \<longleftrightarrow> s = drop pos F"
    "reads_on F pos (s @ bs)
       (io\<lparr>io_buf := b', io_err := MBOX_IO_OK, io_file_offset := int (pos + length s) + int (length bs)\<rparr>)"
    by (rule reads_on_more [OF io'(1) fl])
  have more: "pos + length (s @ bs) \<in> read_ends pread (io_fd io) (pos + length s)"
  proof (cases "bs = []")
    case False
    then show ?thesis using IORead_ends [OF b(1)] by (simp add: add.assoc)
  qed (simp add: read_ends_start)
  have "nosplit (drop pos F) (s @ bs)"
  proof (cases "bs = []")
    case False
    then have "\<not> blank_split F (pos + length (s @ bs))" using whole more by (simp add: blank_lines_whole_def)
    then show ?thesis using blank_split_drop by (auto simp: nosplit_def)
  qed (use io'(2) in simp)
  moreover have "blank_lines_whole pread (io_fd io) F (pos + length (s @ bs))"
    by (rule blank_lines_whole_step [OF whole more])
  ultimately show thesis using b by (intro that [of bs b']) (auto simp: reading_reads_on)
qed

text \<open>
  The reader gives up when a read ends behind the end of its part and it is still looking within
  the last ten bytes of what it has: \<open>reads_clear\<close> says that none of the reads to come ends in the ten
  bytes behind the end.
\<close>

definition reads_clear :: "pread \<Rightarrow> mboxIOCtx \<Rightarrow> bool" where
  "reads_clear pread io \<longleftrightarrow> (\<forall>y \<in> read_ends pread (io_fd io) (nat (io_file_offset io)).
     int y \<le> io_end_offset io \<or> io_end_offset io + 10 \<le> int y)"

lemma reads_clear_step:
  assumes "reads_clear pread io" and "io_frame io io'"
    and "nat (io_file_offset io') \<in> read_ends pread (io_fd io) (nat (io_file_offset io))"
  shows "reads_clear pread io'"
  using assms read_ends_trans by (fastforce simp: reads_clear_def io_frame_def)

lemma reads_clear_here: "reads_clear pread io \<Longrightarrow> io_file_offset io = int x \<Longrightarrow>
    int x \<le> io_end_offset io \<or> io_end_offset io + 10 \<le> int x"
  unfolding reads_clear_def by (metis nat_int read_ends_start)

lemma reads_clear_set_off [simp]: "reads_clear pread (io_set_off io i) = reads_clear pread io"
  by (simp add: reads_clear_def)

lemma reads_clear_after:
  assumes "mboxIORead pread io1 MBOX_IO_READ_SIZE at (int x) = Inr (int (length bs), io')" and "bs \<noteq> []"
    and "io_frame io io2" and "io_file_offset io = int x"
    and "io_fd io1 = io_fd io" and "io_file_offset io2 = int x + int (length bs)"
  shows "reads_clear pread io \<longrightarrow> reads_clear pread io2"
proof
  assume "reads_clear pread io"
  moreover have "x + length bs \<in> read_ends pread (io_fd io) x"
    using IORead_ends [OF assms(1)] assms(2,5) by simp
  ultimately show "reads_clear pread io2"
    using assms(3,4,6) by (intro reads_clear_step [of pread io io2]) (simp_all add: nat_int_add)
qed

lemma read_ends_in_file:
  assumes "reads_file pread fd F" and "x \<le> length F" and "y \<in> read_ends pread fd x"
  shows "y \<le> length F"
  using assms(3,2)
proof (induction rule: read_ends.induct)
  case (read_ends_step y bs)
  obtain k where "pread fd MBOX_IO_READ_SIZE (int y) = Some (take k (drop y F))"
    using assms(1) unfolding reads_file_def by (metis nat_int of_nat_0_le_iff MBOX_IO_READ_SIZE_def zero_less_numeral)
  then show ?case using read_ends_step by auto
qed

section \<open>The searches over a file\<close>

lemma reading_set_buf: "io\<lparr>io_buf := io_buf io\<lparr>buf_offset := i\<rparr>\<rparr> = io_set_off io i"
  by (simp add: io_set_off_def)

lemma seek_headers_finds:
  assumes "reading pread F pos s io" and "mail_file pread (io_fd io) F"
    and "header_end (drop pos F) (buf_offset (io_buf io)) = Some h"
    and "length F - pos - length s < fuel"
  shows "\<exists>s' io'. seek_headers_loop pread fuel io = Inr (True, io') \<and> reading pread F pos s' io' \<and>
     buf_offset (io_buf io') = h \<and> io_frame io io' \<and> (reads_clear pread io \<longrightarrow> reads_clear pread io')"
  using assms
proof (induction fuel arbitrary: s io)
  case (Suc fuel)
  note sm = reading_simps [OF Suc.prems(1,2)]
  have pre: "s = take (length s) (drop pos F)" "nosplit (drop pos F) s"
    using Suc.prems(1) by (simp_all add: reading_def)
  consider (found) "h \<le> length s"
      "can_parse_loop (buf_data (io_buf io)) (length s) (buf_offset (io_buf io)) = Inr (True, h)"
    | (more) i where "length s < h"
      "can_parse_loop (buf_data (io_buf io)) (length s) (buf_offset (io_buf io)) = Inr (False, i)"
      "i \<le> length s" "length s \<le> i + 1" "header_end (drop pos F) i = Some h"
    using can_parse_loop_text [OF sm(2) pre(1) sm(5) pre(2) Suc.prems(3)] by auto
  then show ?case
  proof cases
    case found
    then have "seek_headers_loop pread (Suc fuel) io = Inr (True, io_set_off io h)"
      using sm(1) by (simp add: mboxBufCanParseHeaders_def reading_set_buf)
    then show ?thesis using reading_off [OF Suc.prems(1) found(1)]
      by (intro exI [of _ s] exI [of _ "io_set_off io h"]) simp
  next
    case more
    define io1 where "io1 = io_set_off io i"
    have io1: "reading pread F pos s io1" unfolding io1_def by (rule reading_off [OF Suc.prems(1) more(3)])
    have fl1: "mail_file pread (io_fd io1) F" using Suc.prems(2) by (simp add: io1_def)
    obtain b' bs where rd: "mboxIORead pread io1 MBOX_IO_READ_SIZE (length s) (int (pos + length s)) =
       Inr (int (length bs), io1\<lparr>io_buf := b', io_err := if bs = [] then MBOX_IO_EOF else MBOX_IO_OK\<rparr>)"
      "buf_rep b' (s @ bs)" "buf_term b'" "buf_offset b' = buf_offset (io_buf io1)" "bs = [] \<longleftrightarrow> s = drop pos F"
      "reading pread F pos (s @ bs)
       (io1\<lparr>io_buf := b', io_err := MBOX_IO_OK, io_file_offset := int (pos + length s) + int (length bs)\<rparr>)"
      by (rule reading_more [OF io1 fl1])
    define io2 where "io2 = io1\<lparr>io_buf := b', io_err := MBOX_IO_OK,
        io_file_offset := int (pos + length s) + int (length bs)\<rparr>"
    have "length s < length (drop pos F)" using more(1) header_end_bounds [OF more(5)] by simp
    then have bs: "bs \<noteq> []" "length F - pos - length s > 0" using rd(5) by auto
    then have fu: "length F - pos - length (s @ bs) < fuel" using Suc.prems(4) by (cases bs) auto
    obtain c where c: "blk_read (buf_data (io_buf io)) 0 = Inr c"
      using holds_read [OF sm(2), of 0] holds_end [OF sm(2)] by (cases s) auto
    have "seek_headers_loop pread (Suc fuel) io = seek_headers_loop pread fuel io2"
      using more(2-4) sm(1,4,6) c rd(1) bs(1)
      by (simp add: mboxBufCanParseHeaders_def reading_set_buf io1_def [symmetric] io2_def io_codes)
        (simp add: io1_def io_set_off_def)
    moreover have "\<exists>s' io'. seek_headers_loop pread fuel io2 = Inr (True, io') \<and> reading pread F pos s' io' \<and>
     buf_offset (io_buf io') = h \<and> io_frame io2 io' \<and> (reads_clear pread io2 \<longrightarrow> reads_clear pread io')"
      using rd(4,6) more(5) Suc.prems(2) fu
      by (intro Suc.IH [of "s @ bs"]) (auto simp: io2_def io1_def)
    moreover have fr: "io_frame io io2" by (simp add: io2_def io1_def)
    moreover have "reads_clear pread io \<longrightarrow> reads_clear pread io2"
      by (rule reads_clear_after [OF rd(1) bs(1) fr sm(6)]) (simp_all add: io2_def io1_def)
    ultimately show ?thesis using io_frame_trans by fastforce
  qed
qed simp

lemma prefix_six:
  assumes "s = take (length s) R" and "j + 6 \<le> length s"
  shows "take 6 (drop j s) = take 6 (drop j R)"
proof -
  have "take 6 (drop j s) = take 6 (drop j (take (length s) R))" using assms(1) by simp
  also have "\<dots> = take 6 (drop j R)" using assms(2) by (simp add: drop_take min_def)
  finally show ?thesis .
qed

text \<open>
  The search of the next message goes on from line to line. Nearer than ten bytes to the end
  of what was read it reads on, so the message it looks for has to have ten bytes more.
\<close>

lemma seek_from_finds:
  assumes "reading pread F pos s io" and "mail_file pread (io_fd io) F"
    and "next_from (drop pos F) (buf_offset (io_buf io)) = Some n" and "n + 10 \<le> length F - pos"
    and "int (pos + n) \<le> io_end_offset io" and "reads_clear pread io"
    and "(length F - pos - length s) + (length F - pos - buf_offset (io_buf io)) < fuel"
  shows "\<exists>s' io'. seek_from_loop pread fuel io = Inr (1, io') \<and> reading pread F pos s' io' \<and>
     buf_offset (io_buf io') = n + 1 \<and> io_frame io io' \<and> reads_clear pread io'"
  using assms
proof (induction fuel arbitrary: s io)
  case (Suc fuel)
  note sm = reading_simps [OF Suc.prems(1,2)]
  define R where "R = drop pos F"
  have pre: "s = take (length s) R" using Suc.prems(1) by (simp add: reading_def R_def)
  note nth = prefix_nth [OF pre]
  obtain j where j: "buf_offset (io_buf io) \<le> j" "j \<le> length s"
    "\<forall>k. buf_offset (io_buf io) \<le> k \<and> k < j \<longrightarrow> s ! k \<noteq> LF" "j < length s \<longrightarrow> s ! j = LF"
    using line_end [OF sm(5)] by blast
  have sc: "scan_line (buf_data (io_buf io)) (length s) (buf_offset (io_buf io)) = Inr j"
    by (rule scan_line_text [OF sm(2) j])
  have "\<forall>k. buf_offset (io_buf io) \<le> k \<and> k < j \<longrightarrow> R ! k \<noteq> LF" using j(2,3) nth by simp
  then have nj: "next_from R j = Some n"
    using skip_to [of R "next_from R" "buf_offset (io_buf io)" j] next_from_skip j(1,2) sm(3) Suc.prems(3)
    by (simp add: R_def)
  note nb = next_from_bounds [OF nj]
  have lenR: "length R = length F - pos" by (simp add: R_def)
  note fl = mboxIsFromLine_text [OF sm(2) j(2)]
  define io1 where "io1 = io_set_off io j"
  have io1: "reading pread F pos s io1" unfolding io1_def by (rule reading_off [OF Suc.prems(1) j(2)])
  show ?case
  proof (cases "take 6 (drop j s) = LF # ''From ''")
    case True
    then have len: "j + 6 \<le> length s" by (drule_tac arg_cong [of _ _ length]) simp
    have "take 6 (drop j R) = LF # ''From ''"
      using True prefix_six [OF pre len] by simp
    moreover have "j < length R" using len sm(3) lenR by simp
    ultimately have "n = j" using nj by (simp add: next_from.simps [of R j])
    then have "seek_from_loop pread (Suc fuel) io = Inr (1, io_set_off io (n + 1))"
      using sc fl True sm(1,4) len by (simp add: Let_def)
    then show ?thesis using reading_off [OF Suc.prems(1), of "n + 1"] len \<open>n = j\<close> Suc.prems(6)
      by (intro exI [of _ s] exI [of _ "io_set_off io (n + 1)"]) simp
  next
    case False
    have nj2: "n = j \<Longrightarrow> length s < j + 6"
      using False nb prefix_six [OF pre, of j] by (cases "j + 6 \<le> length s") auto
    have go: "seek_from_loop pread (Suc fuel) io =
       (if length s \<le> j + 10
        then if io_file_offset io > io_end_offset io then Inr (0, io1)
             else bindE (mboxIORead pread io1 MBOX_IO_READ_SIZE (length s) (io_file_offset io)) (\<lambda>(rbytes, io).
                  if rbytes = 0 \<and> io_err io = MBOX_IO_EOF then Inr (1, io)
                  else if io_err io \<noteq> 0 then Inr (io_err io, io)
                  else seek_from_loop pread fuel
                         (io_set_off (io\<lparr>io_file_offset := io_file_offset io + rbytes\<rparr>)
                           (size_add (size_sub j 1) 1)))
        else seek_from_loop pread fuel (io_set_off io (j + 1)))"
      using sc fl False sm(1,4) j(2) by (simp add: Let_def io1_def)
    show ?thesis
    proof (cases "length s \<le> j + 10")
      case True
      have "length s \<noteq> length R" using True nj2 nb Suc.prems(4) lenR by (cases "n = j") auto
      then have short: "s \<noteq> R" "length s < length R" using sm(3) lenR by auto
      have "length s < n + 10" using True nj2 nb(1) by (cases "n = j") auto
      then have "int (pos + length s) < io_end_offset io + 10" using Suc.prems(5) by linarith
      then have le: "\<not> io_file_offset io > io_end_offset io"
        using reads_clear_here [OF Suc.prems(6) sm(6)] sm(6) by linarith
      have fl1: "mail_file pread (io_fd io1) F" using Suc.prems(2) by (simp add: io1_def)
      obtain b' bs where rd: "mboxIORead pread io1 MBOX_IO_READ_SIZE (length s) (int (pos + length s)) =
         Inr (int (length bs), io1\<lparr>io_buf := b', io_err := if bs = [] then MBOX_IO_EOF else MBOX_IO_OK\<rparr>)"
        "buf_rep b' (s @ bs)" "buf_term b'" "buf_offset b' = buf_offset (io_buf io1)" "bs = [] \<longleftrightarrow> s = drop pos F"
        "reading pread F pos (s @ bs)
         (io1\<lparr>io_buf := b', io_err := MBOX_IO_OK, io_file_offset := int (pos + length s) + int (length bs)\<rparr>)"
        by (rule reading_more [OF io1 fl1])
      define io2 where "io2 = io1\<lparr>io_buf := b', io_err := MBOX_IO_OK,
          io_file_offset := int (pos + length s) + int (length bs)\<rparr>"
      have bs: "bs \<noteq> []" using rd(5) short by (simp add: R_def)
      have off: "size_add (size_sub j 1) 1 = j"
        using j(2) sm(4) by (cases "j = 0") (simp add: size_add_def size_sub_def, simp)
      have io2: "io_set_off io2 j = io2" using rd(4) by (simp add: io2_def io1_def io_set_off_def)
      have fu: "length F - pos - length (s @ bs) + (length F - pos - j) < fuel"
        using bs Suc.prems(7) short j(1) lenR by (cases bs) auto
      have fr: "io_frame io io2" by (simp add: io2_def io1_def)
      have "reads_clear pread io \<longrightarrow> reads_clear pread io2"
        by (rule reads_clear_after [OF rd(1) bs fr sm(6)]) (simp_all add: io2_def io1_def)
      then have clear: "reads_clear pread io2" using Suc.prems(6) by simp
      have "seek_from_loop pread (Suc fuel) io = seek_from_loop pread fuel io2"
        using go True le rd(1) bs sm(6) off io2
        by (simp add: io_codes io2_def) (simp add: io1_def)
      moreover have "\<exists>s' io'. seek_from_loop pread fuel io2 = Inr (1, io') \<and> reading pread F pos s' io' \<and>
          buf_offset (io_buf io') = n + 1 \<and> io_frame io2 io' \<and> reads_clear pread io'"
        using rd(4,6) nj Suc.prems(2,4,5) fu clear
        by (intro Suc.IH [of "s @ bs"]) (auto simp: io2_def io1_def R_def)
      ultimately show ?thesis using fr io_frame_trans by fastforce
    next
      case no: False
      then have "n \<noteq> j" using nj2 by auto
      then have nj1: "next_from R (j + 1) = Some n"
        using nj by (simp add: next_from.simps [of R j] split: if_splits)
      have "\<exists>s' io'. seek_from_loop pread fuel (io_set_off io (j + 1)) = Inr (1, io') \<and>
          reading pread F pos s' io' \<and> buf_offset (io_buf io') = n + 1 \<and> io_frame (io_set_off io (j + 1)) io' \<and>
          reads_clear pread io'"
        using nj1 Suc.prems(2,4,5,6,7) no j(1) sm(3) reading_off [OF Suc.prems(1), of "j + 1"]
        by (intro Suc.IH [of s]) (auto simp: R_def)
      then show ?thesis using go no by simp
    qed
  qed
qed simp

section \<open>One message after the other\<close>

text \<open>
  Between two messages: what was parsed is still in front of the buffer, \<open>pos\<close> is where the
  next message begins.
\<close>

definition at_mail :: "pread \<Rightarrow> mboxChar list \<Rightarrow> nat \<Rightarrow> mboxIOCtx \<Rightarrow> bool" where
  "at_mail pread F pos io \<longleftrightarrow> io_offset io = pos \<and>
     (\<exists>s o'. buf_rep (io_buf io) (o' @ s) \<and> buf_term (io_buf io) \<and> buf_offset (io_buf io) = length o' \<and>
       length (o' @ s) < buf_capacity (io_buf io) \<and> buf_capacity (io_buf io) \<le> length F + 600001 \<and>
       pos \<le> length F \<and> s = take (length s) (drop pos F) \<and> nosplit (drop pos F) s \<and>
       io_file_offset io = int (pos + length s) \<and> io_err io = MBOX_IO_OK \<and>
       blank_lines_whole pread (io_fd io) F (pos + length s))"

lemma mboxBufSetLen_rep:
  assumes "buf_rep b s" and "n \<le> length s"
  shows "\<exists>b'. mboxBufSetLen b n = Inr b' \<and> buf_rep b' (take n s) \<and> buf_term b' \<and>
     buf_offset b' = buf_offset b \<and> buf_capacity b' = buf_capacity b"
proof -
  have "take n (buf_data b) = take n (take (length s) (buf_data b))" using assms(2) by simp
  then have "take n (buf_data b) = map Some (take n s)"
    using buf_repD(3) [OF assms(1)] by (simp add: take_map)
  then show ?thesis
    using assms buf_repD [OF assms(1)]
    by (simp add: mboxBufSetLen_def blk_write_def buf_rep_def buf_term_def)
qed

lemma move_along_rep:
  assumes "buf_rep b (o' @ s)" and "buf_term b" and "buf_offset b = length o'"
  shows "\<exists>b'. move_along b = Inr b' \<and> buf_rep b' s \<and> buf_term b' \<and> buf_offset b' = 0 \<and>
     buf_capacity b' = buf_capacity b"
proof -
  have len: "size_sub (buf_len b) (buf_offset b) = length s"
    using assms(1,3) buf_repD(1,2,6) [OF assms(1)] by simp
  obtain b1 where b1: "(if length s \<noteq> 0 then mboxBufSlice b (buf_offset b) 0 (length s) else Inr b) = Inr b1"
    "buf_rep b1 (if s = [] then o' @ s else s)" "buf_capacity b1 = buf_capacity b"
  proof (cases "s = []")
    case False
    obtain b' where "mboxBufSlice b (length o') 0 (length s) = Inr b'"
      "buf_rep b' (take (length s) (drop (length o') (o' @ s)))"
      using mboxBufSlice_rep [OF assms(1), of "length o'" "length s"] by auto
    then show thesis using False assms(3)
      by (intro that [of b']) (auto simp: mboxBufSlice_def outcome_simps)
  qed (use assms(1) in \<open>auto intro: that [of b]\<close>)
  obtain b2 where b2: "mboxBufSetLen b1 (length s) = Inr b2" "buf_rep b2 s" "buf_term b2"
    "buf_capacity b2 = buf_capacity b1"
    using mboxBufSetLen_rep [OF b1(2), of "length s"] by (cases "s = []") auto
  have "move_along b = Inr (mboxBufSetOffset b2 0)"
    by (simp only: move_along_def Let_def len b1(1) b2(1) bindE.simps)
  then show ?thesis using b1(3) b2(2-4) by (simp add: mboxBufSetOffset_def)
qed

lemma move_along_reading:
  assumes "at_mail pread F pos io"
  shows "\<exists>b s. move_along (io_buf io) = Inr b \<and> reading pread F pos s (io\<lparr>io_buf := b\<rparr>) \<and> buf_offset b = 0"
proof -
  obtain s o' where s: "buf_rep (io_buf io) (o' @ s)" "buf_term (io_buf io)" "buf_offset (io_buf io) = length o'"
    "length (o' @ s) < buf_capacity (io_buf io)" "buf_capacity (io_buf io) \<le> length F + 600001"
    "pos \<le> length F" "s = take (length s) (drop pos F)" "nosplit (drop pos F) s"
    "io_file_offset io = int (pos + length s)" "io_err io = MBOX_IO_OK"
    "blank_lines_whole pread (io_fd io) F (pos + length s)"
    using assms unfolding at_mail_def by blast
  obtain b where "move_along (io_buf io) = Inr b" "buf_rep b s" "buf_term b" "buf_offset b = 0"
     "buf_capacity b = buf_capacity (io_buf io)"
    using move_along_rep [OF s(1-3)] by blast
  then show ?thesis using s(4-6,8-11) s(7) [symmetric]
    by (intro exI [of _ b] exI [of _ s]) (simp add: reading_def)
qed

text \<open>The bound of the rounds that a file needs.\<close>

definition enough :: "mboxChar list \<Rightarrow> nat" where
  "enough F = 2 * length F + 1"

lemma reading_at_mail:
  assumes "reading pread F pos s io" and "n < length s" and "buf_offset (io_buf io) = n + 1"
  shows "at_mail pread F (pos + (n + 1)) (io\<lparr>io_offset := pos + (n + 1)\<rparr>)"
proof -
  have s: "s = take (length s) (drop pos F)" "nosplit (drop pos F) s" using assms(1) by (simp_all add: reading_def)
  define s' o' p where "s' = drop (n + 1) s" and "o' = take (n + 1) s" and "p = pos + (n + 1)"
  have s': "length s' = length s - (n + 1)" "length o' = n + 1" "o' @ s' = s"
    using assms(2) by (simp_all add: s'_def o'_def)
  have "s' = take (length s - (n + 1)) (drop p F)"
    unfolding s'_def p_def by (subst s(1)) (simp add: drop_take add.commute)
  then have "take (length s') (drop p F) = s'" using s'(1) by simp
  moreover have "nosplit (drop p F) s'"
    unfolding nosplit_def
  proof
    assume "blank_split (drop p F) (length s')"
    then have "blank_split (drop pos F) (n + 1 + length s')"
      using blank_split_drop [of "n + 1" "drop pos F" "length s'"] by (simp add: p_def add.commute add.left_commute)
    moreover have "n + 1 + length s' = length s" using s'(1) assms(2) by linarith
    ultimately show False using s(2) by (simp add: nosplit_def)
  qed
  moreover have "p \<le> length F" using assms(2) prefix_len [OF s(1)] by (simp add: p_def)
  moreover have "p + length s' = pos + length s" using assms(2) s'(1) by (simp add: p_def)
  moreover have "buf_rep (io_buf io) (o' @ s')" "length (o' @ s') < buf_capacity (io_buf io)"
    using assms(1) unfolding s'(3) by (simp_all add: reading_def)
  ultimately have "at_mail pread F p (io\<lparr>io_offset := p\<rparr>)"
    using assms(1,3) s'(2) unfolding at_mail_def
    by (intro conjI exI [of _ s'] exI [of _ o']) (simp_all add: reading_def flip: of_nat_add)
  then show ?thesis by (simp add: p_def)
qed

lemma GetNextMessage_finds:
  assumes "at_mail pread F pos (pc_ioctx ctx)" and "mail_file pread (io_fd (pc_ioctx ctx)) F"
    and "header_end (drop pos F) 0 = Some h" and "next_from (drop pos F) h = Some n"
    and "n + 10 \<le> length F - pos" and "int (pos + n) \<le> io_end_offset (pc_ioctx ctx)"
    and "io_end_offset (pc_ioctx ctx) < 2 ^ 62" and "enough F \<le> fuel" and "reads_clear pread (pc_ioctx ctx)"
  shows "\<exists>b ctx'. mboxParserCtxGetNextMessage pread fuel ctx =
       Inr (Some \<lparr>msg_buf = b, msg_start = pos, msg_end = pos + (n + 1)\<rparr>, ctx') \<and>
     buf_rep b (take (n + 1) (drop pos F)) \<and> buf_term b \<and> buf_offset b = 0 \<and>
     at_mail pread F (pos + (n + 1)) (pc_ioctx ctx') \<and>
     io_fd (pc_ioctx ctx') = io_fd (pc_ioctx ctx) \<and>
     io_end_offset (pc_ioctx ctx') = io_end_offset (pc_ioctx ctx) \<and> reads_clear pread (pc_ioctx ctx') \<and>
     pc_err ctx' = (if io_end_offset (pc_ioctx ctx) \<le> int (pos + (n + 1)) then MBOX_PARSE_DONE else pc_err ctx) \<and>
     pc_parsed ctx' = size_add (pc_parsed ctx) 1 \<and> pc_id ctx' = pc_id ctx"
proof -
  define io0 where "io0 = pc_ioctx ctx"
  obtain b s where b: "move_along (io_buf io0) = Inr b" "reading pread F pos s (io0\<lparr>io_buf := b\<rparr>)" "buf_offset b = 0"
    using move_along_reading assms(1) unfolding io0_def by blast
  define io1 where "io1 = io0\<lparr>io_buf := b\<rparr>"
  have fl: "mail_file pread (io_fd io1) F" using assms(2) by (simp add: io1_def io0_def)
  have e: "length F - pos - length s < fuel" using assms(8) by (simp add: enough_def)
  obtain s2 io2 where io2: "seek_headers_loop pread fuel io1 = Inr (True, io2)" "reading pread F pos s2 io2"
    "buf_offset (io_buf io2) = h" "io_frame io1 io2" "reads_clear pread io1 \<longrightarrow> reads_clear pread io2"
    using seek_headers_finds [OF b(2) [folded io1_def] fl _ e] assms(3) b(3) by (auto simp: io1_def)
  have fl2: "mail_file pread (io_fd io2) F" using fl io2(4) by (simp add: io_frame_def)
  have clear2: "reads_clear pread io2" using io2(5) assms(9) by (simp add: reads_clear_def io1_def io0_def)
  have e2: "length F - pos - length s2 + (length F - pos - buf_offset (io_buf io2)) < fuel"
    using assms(8) by (simp add: enough_def)
  have end2: "int (pos + n) \<le> io_end_offset io2"
    using assms(6) io2(4) by (simp add: io_frame_def io1_def io0_def)
  obtain s3 io3 where io3: "seek_from_loop pread fuel io2 = Inr (1, io3)" "reading pread F pos s3 io3"
    "buf_offset (io_buf io3) = n + 1" "io_frame io2 io3" "reads_clear pread io3"
    using seek_from_finds [OF io2(2) fl2 _ assms(5) end2 clear2 e2] assms(4) io2(3) by blast
  have fr: "io_frame io0 io3" using io2(4) io3(4) io_frame_trans [of io0 io2 io3] by (simp add: io1_def)
  have fl3: "mail_file pread (io_fd io3) F" using fl2 io3(4) by (simp add: io_frame_def)
  note sm = reading_simps [OF io3(2) fl3]
  have s3: "buf_rep (io_buf io3) s3" "s3 = take (length s3) (drop pos F)" "io_err io3 = MBOX_IO_OK"
    using io3(2) by (simp_all add: reading_def)
  have off: "io_offset io3 = pos" "io_end_offset io3 = io_end_offset (pc_ioctx ctx)"
    "io_fd io3 = io_fd (pc_ioctx ctx)"
    using fr assms(1) by (simp_all add: io_frame_def at_mail_def io0_def)
  have n: "n + 1 \<le> length s3" using sm(5) io3(3) by simp
  have t: "take (n + 1) s3 = take (n + 1) (drop pos F)" by (subst s3(2)) (use n in simp)
  have "take (n + 1) (buf_data (io_buf io3)) = map Some (take (n + 1) s3)"
    using buf_repD(3) [OF s3(1)] n by (metis min.absorb1 take_map take_take)
  then obtain m where m: "mboxBufDupRaw (buf_data (io_buf io3)) 0 (n + 1) (n + 1) = Inr m"
    "buf_rep m (take (n + 1) s3)" "buf_term m" "buf_offset m = 0"
    using mboxBufDupRaw_rep [of 0 "take (n + 1) s3" "buf_data (io_buf io3)" "n + 1"] n sm(4)
      buf_repD(2) [OF s3(1)] by auto
  have sz: "size_add pos (n + 1) = pos + (n + 1)" using n sm(7) fl3 by (simp add: mail_file_def)
  have md: "io_end_offset io0 mod 18446744073709551616 = io_end_offset io0"
    using assms(6,7) by (simp add: io0_def)
  have clear3: "reads_clear pread (io3\<lparr>io_offset := pos + (n + 1)\<rparr>)" using io3(5) by (simp add: reads_clear_def)
  have "io_offset io0 = pos" using assms(1) by (simp add: at_mail_def io0_def)
  moreover have at: "at_mail pread F (pos + (n + 1)) (io3\<lparr>io_offset := pos + (n + 1)\<rparr>)"
    using reading_at_mail [OF io3(2) _ io3(3)] n by simp
  ultimately show ?thesis
    using b(1) io2(1) io3(1,3) m t off sz at s3(3) clear3
    by (simp add: mboxParserCtxGetNextMessage_def mboxParserCtxSeekHeaders_def
        mboxParserCtxSeekNextFromLine_def Let_def md io0_def [symmetric] io1_def [symmetric] io_codes
        del: of_nat_add of_nat_Suc)
qed

section \<open>The last message\<close>

text \<open>
  The last message ends at the first line break of the last ten bytes, or at the end of the
  file when these have none: what follows is not given to anyone.
\<close>

function last_stop :: "mboxChar list \<Rightarrow> nat \<Rightarrow> nat" where
  "last_stop R i =
     (if length R \<le> i then length R
      else if R ! i = LF \<and> length R \<le> i + 10 then i
      else last_stop R (Suc i))"
  by pat_completeness auto
termination
  by (relation "measure (\<lambda>(R, i). length R - i)") auto

declare last_stop.simps [simp del]

lemma last_stop_skip:
  "i < length R \<Longrightarrow> R ! i \<noteq> LF \<Longrightarrow> last_stop R i = last_stop R (Suc i)"
  by (subst last_stop.simps) simp

lemma last_stop_end [simp]: "last_stop R (length R) = length R"
  by (simp add: last_stop.simps)

lemma last_stop_bounds:
  "i \<le> length R \<Longrightarrow> i \<le> last_stop R i \<and> last_stop R i \<le> length R \<and> length R \<le> last_stop R i + 10"
proof (induction R i rule: last_stop.induct)
  case (1 R i)
  show ?case
  proof (cases "length R \<le> i \<or> R ! i = LF \<and> length R \<le> i + 10")
    case True
    then show ?thesis using 1(2) by (auto simp: last_stop.simps [of R i])
  next
    case False
    then have "last_stop R i = last_stop R (Suc i)" by (auto simp: last_stop.simps [of R i])
    then show ?thesis using 1 False by auto
  qed
qed

lemma seek_headers_fails:
  assumes "reading pread F pos s io" and "mail_file pread (io_fd io) F"
    and "header_end (drop pos F) (buf_offset (io_buf io)) = None"
    and "length F - pos - length s < fuel"
  shows "\<exists>io'. seek_headers_loop pread fuel io = Inr (False, io') \<and> io_frame io io'"
  using assms
proof (induction fuel arbitrary: s io)
  case (Suc fuel)
  note sm = reading_simps [OF Suc.prems(1,2)]
  have pre: "s = take (length s) (drop pos F)" "nosplit (drop pos F) s"
    using Suc.prems(1) by (simp_all add: reading_def)
  obtain i where more: "can_parse_loop (buf_data (io_buf io)) (length s) (buf_offset (io_buf io)) = Inr (False, i)"
      "i \<le> length s" "length s \<le> i + 1" "header_end (drop pos F) i = None"
    using can_parse_loop_text [OF sm(2) pre(1) sm(5) pre(2) Suc.prems(3)] by auto
  define io1 where "io1 = io_set_off io i"
  have io1: "reading pread F pos s io1" unfolding io1_def by (rule reading_off [OF Suc.prems(1) more(2)])
  have fl1: "mail_file pread (io_fd io1) F" using Suc.prems(2) by (simp add: io1_def)
  obtain b' bs where rd: "mboxIORead pread io1 MBOX_IO_READ_SIZE (length s) (int (pos + length s)) =
     Inr (int (length bs), io1\<lparr>io_buf := b', io_err := if bs = [] then MBOX_IO_EOF else MBOX_IO_OK\<rparr>)"
    "buf_rep b' (s @ bs)" "buf_term b'" "buf_offset b' = buf_offset (io_buf io1)" "bs = [] \<longleftrightarrow> s = drop pos F"
    "reading pread F pos (s @ bs)
     (io1\<lparr>io_buf := b', io_err := MBOX_IO_OK, io_file_offset := int (pos + length s) + int (length bs)\<rparr>)"
    by (rule reading_more [OF io1 fl1])
  obtain c where c: "blk_read (buf_data (io_buf io)) 0 = Inr c"
    using holds_read [OF sm(2), of 0] holds_end [OF sm(2)] by (cases s) auto
  define io2 where "io2 = io1\<lparr>io_buf := b', io_err := MBOX_IO_OK,
      io_file_offset := int (pos + length s) + int (length bs)\<rparr>"
  have go: "seek_headers_loop pread (Suc fuel) io =
      (if bs = [] then Inr (False, io1\<lparr>io_buf := b', io_err := MBOX_IO_EOF\<rparr>) else seek_headers_loop pread fuel io2)"
    using more(1-3) sm(1,4,6) c rd(1)
    by (simp add: mboxBufCanParseHeaders_def reading_set_buf io1_def [symmetric] io2_def io_codes)
      (simp add: io1_def io_set_off_def io_codes)
  show ?case
  proof (cases "bs = []")
    case True
    then show ?thesis using go by (simp add: io1_def)
  next
    case False
    have "length s + length bs \<le> length F - pos"
      using reading_simps(3) [OF rd(6)] fl1 by simp
    then have fu: "length F - pos - length (s @ bs) < fuel" using Suc.prems(4) False by (cases bs) auto
    have "\<exists>io'. seek_headers_loop pread fuel io2 = Inr (False, io') \<and> io_frame io2 io'"
      using rd(4,6) more(4) Suc.prems(2) fu
      by (intro Suc.IH [of "s @ bs"]) (auto simp: io2_def io1_def)
    then show ?thesis using go False by (simp add: io2_def io1_def)
  qed
qed simp

lemma seek_from_ends:
  assumes "reading pread F pos s io" and "mail_file pread (io_fd io) F"
    and "next_from (drop pos F) (buf_offset (io_buf io)) = None"
    and "int (length F) \<le> io_end_offset io"
    and "(length F - pos - length s) + (length F - pos - buf_offset (io_buf io)) < fuel"
  shows "\<exists>io'. seek_from_loop pread fuel io = Inr (1, io') \<and> buf_rep (io_buf io') (drop pos F) \<and>
     buf_offset (io_buf io') = last_stop (drop pos F) (buf_offset (io_buf io)) \<and>
     io_err io' = MBOX_IO_EOF \<and> io_frame io io'"
  using assms
proof (induction fuel arbitrary: s io)
  case (Suc fuel)
  note sm = reading_simps [OF Suc.prems(1,2)]
  define R where "R = drop pos F"
  have pre: "s = take (length s) R" using Suc.prems(1) by (simp add: reading_def R_def)
  note nth = prefix_nth [OF pre]
  obtain j where j: "buf_offset (io_buf io) \<le> j" "j \<le> length s"
    "\<forall>k. buf_offset (io_buf io) \<le> k \<and> k < j \<longrightarrow> s ! k \<noteq> LF" "j < length s \<longrightarrow> s ! j = LF"
    using line_end [OF sm(5)] by blast
  have sc: "scan_line (buf_data (io_buf io)) (length s) (buf_offset (io_buf io)) = Inr j"
    by (rule scan_line_text [OF sm(2) j])
  have lenR: "length R = length F - pos" by (simp add: R_def)
  have noLF: "\<forall>k. buf_offset (io_buf io) \<le> k \<and> k < j \<longrightarrow> R ! k \<noteq> LF" using j(2,3) nth by simp
  then have nj: "next_from R j = None"
    using skip_to [of R "next_from R" "buf_offset (io_buf io)" j] next_from_skip j(1,2) sm(3) Suc.prems(3)
    by (simp add: R_def)
  have lj: "last_stop R (buf_offset (io_buf io)) = last_stop R j"
    using skip_to [of R "last_stop R" "buf_offset (io_buf io)" j] last_stop_skip j(1,2) sm(3) noLF lenR
    by simp
  note fl = mboxIsFromLine_text [OF sm(2) j(2)]
  define io1 where "io1 = io_set_off io j"
  have io1: "reading pread F pos s io1" unfolding io1_def by (rule reading_off [OF Suc.prems(1) j(2)])
  have no: "take 6 (drop j s) \<noteq> LF # ''From ''"
  proof
    assume *: "take 6 (drop j s) = LF # ''From ''"
    then have len: "j + 6 \<le> length s" by (drule_tac arg_cong [of _ _ length]) simp
    then have "take 6 (drop j R) = LF # ''From ''" using * prefix_six [OF pre len] by simp
    then show False using nj len sm(3) lenR by (simp add: next_from.simps [of R j])
  qed
  have go: "seek_from_loop pread (Suc fuel) io =
     (if length s \<le> j + 10
      then if io_file_offset io > io_end_offset io then Inr (0, io1)
           else bindE (mboxIORead pread io1 MBOX_IO_READ_SIZE (length s) (io_file_offset io)) (\<lambda>(rbytes, io).
                if rbytes = 0 \<and> io_err io = MBOX_IO_EOF then Inr (1, io)
                else if io_err io \<noteq> 0 then Inr (io_err io, io)
                else seek_from_loop pread fuel
                       (io_set_off (io\<lparr>io_file_offset := io_file_offset io + rbytes\<rparr>)
                         (size_add (size_sub j 1) 1)))
      else seek_from_loop pread fuel (io_set_off io (j + 1)))"
    using sc fl no sm(1,4) j(2) by (simp add: Let_def io1_def)
  show ?case
  proof (cases "length s \<le> j + 10")
    case True
    have le: "\<not> io_file_offset io > io_end_offset io" using Suc.prems(4) sm(6,7) by linarith
    have fl1: "mail_file pread (io_fd io1) F" using Suc.prems(2) by (simp add: io1_def)
    obtain b' bs where rd: "mboxIORead pread io1 MBOX_IO_READ_SIZE (length s) (int (pos + length s)) =
       Inr (int (length bs), io1\<lparr>io_buf := b', io_err := if bs = [] then MBOX_IO_EOF else MBOX_IO_OK\<rparr>)"
      "buf_rep b' (s @ bs)" "buf_term b'" "buf_offset b' = buf_offset (io_buf io1)" "bs = [] \<longleftrightarrow> s = drop pos F"
      "reading pread F pos (s @ bs)
       (io1\<lparr>io_buf := b', io_err := MBOX_IO_OK, io_file_offset := int (pos + length s) + int (length bs)\<rparr>)"
      by (rule reading_more [OF io1 fl1])
    show ?thesis
    proof (cases "bs = []")
      case end': True
      then have sR: "s = R" using rd(5) by (simp add: R_def)
      have "last_stop R j = j"
        using True j(2,4) unfolding sR by (cases "j < length R") (simp_all add: last_stop.simps [of R j])
      moreover have "seek_from_loop pread (Suc fuel) io = Inr (1, io1\<lparr>io_buf := b', io_err := MBOX_IO_EOF\<rparr>)"
        using go True le rd(1) sm(6) end' by simp
      ultimately show ?thesis using rd(2,4) lj end' sR by (simp add: R_def io1_def)
    next
      case False
      define io2 where "io2 = io1\<lparr>io_buf := b', io_err := MBOX_IO_OK,
          io_file_offset := int (pos + length s) + int (length bs)\<rparr>"
      have off: "size_add (size_sub j 1) 1 = j"
        using j(2) sm(4) by (cases "j = 0") (simp add: size_add_def size_sub_def, simp)
      have io2: "io_set_off io2 j = io2" using rd(4) by (simp add: io2_def io1_def io_set_off_def)
      have "length s + length bs \<le> length F - pos"
        using reading_simps(3) [OF rd(6)] fl1 by simp
      then have fu: "length F - pos - length (s @ bs) + (length F - pos - j) < fuel"
        using False Suc.prems(5) j(1) by (cases bs) auto
      have "seek_from_loop pread (Suc fuel) io = seek_from_loop pread fuel io2"
        using go True le rd(1) False sm(6) off io2
        by (simp add: io_codes io2_def) (simp add: io1_def)
      moreover have "\<exists>io'. seek_from_loop pread fuel io2 = Inr (1, io') \<and> buf_rep (io_buf io') R \<and>
          buf_offset (io_buf io') = last_stop R (buf_offset (io_buf io2)) \<and>
          io_err io' = MBOX_IO_EOF \<and> io_frame io2 io'"
        unfolding R_def using rd(4,6) nj Suc.prems(2,4) fu
        by (intro Suc.IH [of "s @ bs"]) (auto simp: io2_def io1_def R_def)
      moreover have "buf_offset (io_buf io2) = j" "\<And>x. io_frame io2 x = io_frame io x"
        using rd(4) by (simp_all add: io2_def io1_def)
      ultimately show ?thesis using lj by (simp add: R_def)
    qed
  next
    case False
    then have "j < length R" "s ! j = LF" using sm(3) lenR j by auto
    then have nj1: "next_from R (j + 1) = None" and lj1: "last_stop R j = last_stop R (j + 1)"
      using nj False sm(3) lenR
      by (simp_all add: next_from.simps [of R j] last_stop.simps [of R j] split: if_splits)
    have "\<exists>io'. seek_from_loop pread fuel (io_set_off io (j + 1)) = Inr (1, io') \<and> buf_rep (io_buf io') (drop pos F) \<and>
        buf_offset (io_buf io') = last_stop (drop pos F) (buf_offset (io_buf (io_set_off io (j + 1)))) \<and>
        io_err io' = MBOX_IO_EOF \<and> io_frame (io_set_off io (j + 1)) io'"
      using nj1 Suc.prems(2,4,5) False j(1) sm(3) reading_off [OF Suc.prems(1), of "j + 1"]
      by (intro Suc.IH [of s]) (auto simp: R_def)
    then show ?thesis using go False lj lj1 by (simp add: R_def)
  qed
qed simp

lemma GetNextMessage_last:
  assumes "at_mail pread F pos (pc_ioctx ctx)" and "mail_file pread (io_fd (pc_ioctx ctx)) F"
    and "header_end (drop pos F) 0 = Some h" and "next_from (drop pos F) h = None"
    and "int (length F) \<le> io_end_offset (pc_ioctx ctx)"
    and "enough F \<le> fuel"
  defines "n \<equiv> last_stop (drop pos F) h"
  shows "\<exists>b ctx'. mboxParserCtxGetNextMessage pread fuel ctx =
       Inr (Some \<lparr>msg_buf = b, msg_start = pos, msg_end = pos + n\<rparr>, ctx') \<and>
     buf_rep b (take n (drop pos F)) \<and> buf_term b \<and> buf_offset b = 0 \<and> pc_err ctx' = MBOX_PARSE_DONE \<and>
     pc_parsed ctx' = size_add (pc_parsed ctx) 1"
proof -
  define io0 where "io0 = pc_ioctx ctx"
  obtain b s where b: "move_along (io_buf io0) = Inr b" "reading pread F pos s (io0\<lparr>io_buf := b\<rparr>)" "buf_offset b = 0"
    using move_along_reading assms(1) unfolding io0_def by blast
  define io1 where "io1 = io0\<lparr>io_buf := b\<rparr>"
  have fl: "mail_file pread (io_fd io1) F" using assms(2) by (simp add: io1_def io0_def)
  have e: "length F - pos - length s < fuel" using assms(6) by (simp add: enough_def)
  obtain s2 io2 where io2: "seek_headers_loop pread fuel io1 = Inr (True, io2)" "reading pread F pos s2 io2"
    "buf_offset (io_buf io2) = h" "io_frame io1 io2"
    using seek_headers_finds [OF b(2) [folded io1_def] fl _ e] assms(3) b(3) by (auto simp: io1_def)
  have fl2: "mail_file pread (io_fd io2) F" using fl io2(4) by (simp add: io_frame_def)
  have e2: "length F - pos - length s2 + (length F - pos - buf_offset (io_buf io2)) < fuel"
    using assms(6) by (simp add: enough_def)
  have end2: "int (length F) \<le> io_end_offset io2"
    using assms(5) io2(4) by (simp add: io_frame_def io1_def io0_def)
  obtain io3 where io3: "seek_from_loop pread fuel io2 = Inr (1, io3)" "buf_rep (io_buf io3) (drop pos F)"
    "buf_offset (io_buf io3) = n" "io_err io3 = MBOX_IO_EOF" "io_frame io2 io3"
    unfolding n_def using seek_from_ends [OF io2(2) fl2 _ end2 e2] assms(4) io2(3) by auto
  have "io_frame io0 io3" using io2(4) io3(5) io_frame_trans [of io0 io2 io3] by (simp add: io1_def)
  then have off: "io_offset io3 = pos" "io_offset io0 = pos"
    using assms(1) by (simp_all add: io_frame_def at_mail_def io0_def)
  have pos: "pos \<le> length F" using assms(1) by (auto simp: at_mail_def)
  have n: "n \<le> length F - pos" "length F < 2 ^ 60"
    using last_stop_bounds [of h "drop pos F"] header_end_bounds [OF assms(3)] fl
    by (simp_all add: n_def mail_file_def)
  have "take n (buf_data (io_buf io3)) = map Some (take n (drop pos F))"
    using buf_repD(3) [OF io3(2)] n(1) by (metis length_drop min.absorb1 take_map take_take)
  moreover have "length (take n (drop pos F)) = n" using n(1) by simp
  moreover have "n < 2 ^ 60" using n by linarith
  ultimately obtain m where m: "mboxBufDupRaw (buf_data (io_buf io3)) 0 n n = Inr m"
    "buf_rep m (take n (drop pos F))" "buf_term m" "buf_offset m = 0"
    using mboxBufDupRaw_rep [of 0 "take n (drop pos F)" "buf_data (io_buf io3)" n] n
      buf_repD(2) [OF io3(2)] by auto
  have sz: "size_add pos n = pos + n" using n pos by simp
  show ?thesis
    using b(1) io2(1) io3(1,3,4) m off sz
    by (simp add: mboxParserCtxGetNextMessage_def mboxParserCtxSeekHeaders_def
        mboxParserCtxSeekNextFromLine_def Let_def io0_def [symmetric] io1_def [symmetric]
        del: of_nat_add of_nat_Suc)
qed

lemma GetNextMessage_none:
  assumes "at_mail pread F pos (pc_ioctx ctx)" and "mail_file pread (io_fd (pc_ioctx ctx)) F"
    and "header_end (drop pos F) 0 = None" and "enough F \<le> fuel"
  shows "\<exists>ctx'. mboxParserCtxGetNextMessage pread fuel ctx = Inr (None, ctx')"
proof -
  define io0 where "io0 = pc_ioctx ctx"
  obtain b s where b: "move_along (io_buf io0) = Inr b" "reading pread F pos s (io0\<lparr>io_buf := b\<rparr>)" "buf_offset b = 0"
    using move_along_reading assms(1) unfolding io0_def by blast
  define io1 where "io1 = io0\<lparr>io_buf := b\<rparr>"
  have fl: "mail_file pread (io_fd io1) F" using assms(2) by (simp add: io1_def io0_def)
  have e: "length F - pos - length s < fuel" using assms(4) by (simp add: enough_def)
  obtain io2 where "seek_headers_loop pread fuel io1 = Inr (False, io2)"
    using seek_headers_fails [OF b(2) [folded io1_def] fl _ e] assms(3) b(3) by (auto simp: io1_def)
  then show ?thesis using b(1)
    by (simp add: mboxParserCtxGetNextMessage_def mboxParserCtxSeekHeaders_def Let_def
        io0_def [symmetric] io1_def [symmetric])
qed

section \<open>All messages\<close>

text \<open>The messages of a mailbox, as the reader cuts it.\<close>

function mails :: "mboxChar list \<Rightarrow> mboxChar list list" where
  "mails R =
     (case header_end R 0 of
        None \<Rightarrow> []
      | Some h \<Rightarrow> (case next_from R h of
            None \<Rightarrow> [take (last_stop R h) R]
          | Some n \<Rightarrow> take (n + 1) R # mails (drop (n + 1) R)))"
  by pat_completeness auto
termination
  by (relation "measure length") (auto dest: next_from_bounds)

declare mails.simps [simp del]

text \<open>\<open>laid p ts ms\<close>: the messages have these contents, one after the other from \<open>p\<close> on.\<close>

fun laid :: "nat \<Rightarrow> mboxChar list list \<Rightarrow> mboxIOMsg list \<Rightarrow> bool" where
  "laid p [] ms \<longleftrightarrow> ms = []"
| "laid p (t # ts) [] \<longleftrightarrow> False"
| "laid p (t # ts) (m # ms) \<longleftrightarrow> buf_rep (msg_buf m) t \<and> buf_term (msg_buf m) \<and>
     buf_offset (msg_buf m) = 0 \<and> msg_start m = p \<and> msg_end m = p + length t \<and> laid (p + length t) ts ms"

text \<open>No line of a message begins within the last ten bytes.\<close>

definition room_at_end :: "mboxChar list \<Rightarrow> bool" where
  "room_at_end F \<longleftrightarrow> (\<forall>n < length F. take 6 (drop n F) = LF # ''From '' \<longrightarrow> n + 10 \<le> length F)"

lemma reads_clear_whole:
  assumes "at_mail pread F pos io" and "mail_file pread (io_fd io) F" and "int (length F) \<le> io_end_offset io"
  shows "reads_clear pread io"
proof -
  obtain s where "io_file_offset io = int (pos + length s)" "s = take (length s) (drop pos F)" "pos \<le> length F"
    using assms(1) unfolding at_mail_def by blast
  then have "nat (io_file_offset io) \<le> length F" using prefix_len [of s "drop pos F"] by simp
  then show ?thesis
    using read_ends_in_file assms(2,3) by (fastforce simp: reads_clear_def mail_file_def)
qed

lemma Callback_mails:
  assumes "at_mail pread F pos (pc_ioctx ctx)" and "mail_file pread (io_fd (pc_ioctx ctx)) F"
    and "room_at_end F" and "int (length F) \<le> io_end_offset (pc_ioctx ctx)"
    and "io_end_offset (pc_ioctx ctx) < 2 ^ 62" and "pc_err ctx \<noteq> MBOX_PARSE_DONE"
    and "enough F + (length F - pos) < fuel"
  shows "\<exists>ms ctx'. mboxParserCtxGetNextMessageCallback pread fuel ctx = Inr (ms, ctx') \<and>
     laid pos (mails (drop pos F)) ms"
  using assms
proof (induction fuel arbitrary: pos ctx)
  case (Suc fuel)
  have fu: "enough F \<le> fuel" using Suc.prems(7) by simp
  note nx = GetNextMessage_none [OF Suc.prems(1,2) _ fu] GetNextMessage_last [OF Suc.prems(1,2) _ _ Suc.prems(4) fu]
  define R where "R = drop pos F"
  consider (none) "header_end R 0 = None" | (last) h where "header_end R 0 = Some h" "next_from R h = None"
    | (more) h n where "header_end R 0 = Some h" "next_from R h = Some n"
    by (cases "header_end R 0") (auto dest: option.exhaust_sel)
  then show ?case
  proof cases
    case none
    then have "mails R = []" by (simp add: mails.simps [of R])
    then show ?thesis using nx(1) none by (auto simp: R_def)
  next
    case last
    then obtain b ctx' where "mboxParserCtxGetNextMessage pread fuel ctx =
       Inr (Some \<lparr>msg_buf = b, msg_start = pos, msg_end = pos + last_stop R h\<rparr>, ctx')"
       "buf_rep b (take (last_stop R h) R)" "buf_term b" "buf_offset b = 0" "pc_err ctx' = MBOX_PARSE_DONE"
      using nx(2) by (auto simp: R_def)
    moreover have "last_stop R h \<le> length R"
      using last_stop_bounds header_end_bounds [OF last(1)] by blast
    ultimately show ?thesis using last by (simp add: mails.simps [of R] flip: R_def)
  next
    case more
    note nb = next_from_bounds [OF more(2)]
    have "n + 6 \<le> length F - pos" using nb by (simp add: R_def)
    then have "pos + n < length F" by linarith
    moreover have "take 6 (drop (pos + n) F) = LF # ''From ''" using nb by (simp add: R_def add.commute)
    ultimately have n10: "pos + n + 10 \<le> length F" using Suc.prems(3) by (auto simp: room_at_end_def)
    then have b1: "n + 10 \<le> length F - pos" and b2: "int (pos + n) \<le> io_end_offset (pc_ioctx ctx)"
      using Suc.prems(4) by linarith+
    have clear: "reads_clear pread (pc_ioctx ctx)" by (rule reads_clear_whole [OF Suc.prems(1,2,4)])
    obtain b ctx' where g: "mboxParserCtxGetNextMessage pread fuel ctx =
       Inr (Some \<lparr>msg_buf = b, msg_start = pos, msg_end = pos + (n + 1)\<rparr>, ctx')"
     "buf_rep b (take (n + 1) R)" "buf_term b" "buf_offset b = 0" "at_mail pread F (pos + (n + 1)) (pc_ioctx ctx')"
     "io_fd (pc_ioctx ctx') = io_fd (pc_ioctx ctx)" "io_end_offset (pc_ioctx ctx') = io_end_offset (pc_ioctx ctx)"
     "pc_err ctx' = (if io_end_offset (pc_ioctx ctx) \<le> int (pos + (n + 1)) then MBOX_PARSE_DONE else pc_err ctx)"
      using GetNextMessage_finds [OF Suc.prems(1,2) more [unfolded R_def] b1 b2 Suc.prems(5) fu clear]
      unfolding R_def by blast
    have err: "pc_err ctx' \<noteq> MBOX_PARSE_DONE" using g(8) n10 Suc.prems(4,6) by auto
    have fu2: "enough F + (length F - (pos + (n + 1))) < fuel" using Suc.prems(7) n10 by linarith
    obtain ms ctx2 where "mboxParserCtxGetNextMessageCallback pread fuel ctx' = Inr (ms, ctx2)"
      "laid (pos + (n + 1)) (mails (drop (pos + (n + 1)) F)) ms"
      using Suc.IH [OF g(5) _ Suc.prems(3) _ _ err fu2] Suc.prems(2,4,5) g(6,7) by auto
    moreover have "mails R = take (n + 1) R # mails (drop (n + 1) R)"
      using more by (simp add: mails.simps [of R])
    moreover have "length (take (n + 1) R) = n + 1" using nb by simp
    moreover have "drop (n + 1) R = drop (pos + (n + 1)) F" by (simp add: R_def add.commute)
    ultimately show ?thesis using g(1-4) err unfolding R_def [symmetric] by simp
  qed
qed simp

section \<open>The start\<close>

lemma find_start_text:
  assumes "holds m s" and "NUL \<notin> set p" and "i \<le> length s"
  shows "find_start p m (length s) i =
     Inr (find (\<lambda>k. take (length p) (drop k s) = p) [i..<length s])"
  using assms(3)
proof (induction "length s - i" arbitrary: i)
  case 0
  then show ?case by (simp add: find_start.simps)
next
  case (Suc d)
  then have "[i..<length s] = i # [Suc i..<length s]" by (simp add: upt_conv_Cons)
  moreover have "i < length s" using Suc.hyps(2) by simp
  ultimately show ?case
    using Suc match_text_ended [OF holds_at [OF assms(1)] assms(2), of i]
    by (subst find_start.simps) simp
qed

text \<open>A context before its first read, or after some in which no message began.\<close>

definition unread :: "nat \<Rightarrow> mboxIOCtx \<Rightarrow> bool" where
  "unread c io \<longleftrightarrow> (\<exists>s. buf_rep (io_buf io) s \<and> length s < buf_capacity (io_buf io) \<and> length s \<le> c) \<and>
     buf_capacity (io_buf io) \<le> c + 600001 \<and> io_file_offset io = 0"

lemma seek_start_step:
  assumes "unread c io" and "pread (io_fd io) MBOX_IO_READ_SIZE 0 = Some bs" and "bs \<noteq> []"
    and "NUL \<notin> set bs" and "length bs \<le> MBOX_IO_READ_SIZE" and "length bs \<le> c" and "c \<le> 2 ^ 60"
  obtains io' where
    "seek_start_loop pread (Suc fuel) io 0 =
       (case find (\<lambda>k. take 5 (drop k bs) = ''From '') [0..<length bs] of
          Some idx \<Rightarrow> Inr (io'\<lparr>io_start_offset := int idx\<rparr>)
        | None \<Rightarrow> seek_start_loop pread fuel io' 0)"
    "unread c io'" "buf_rep (io_buf io') bs" "io_err io' = MBOX_IO_OK" "io_frame io io'"
proof -
  obtain s where s: "buf_rep (io_buf io) s" "length s < buf_capacity (io_buf io)" "length s \<le> c"
    "buf_capacity (io_buf io) \<le> c + 600001" "io_file_offset io = 0"
    using assms(1) by (auto simp: unread_def)
  have room: "buf_capacity (io_buf io) + max 256 MBOX_IO_READ_SIZE \<le> PTRDIFF_MAX" "MBOX_IO_READ_SIZE < 2 ^ 32"
    using s(4) assms(7) by (simp_all add: MBOX_IO_READ_SIZE_def)
  obtain b' where b': "mboxIORead pread io MBOX_IO_READ_SIZE 0 0 =
       Inr (int (length bs), io\<lparr>io_buf := b', io_err := if bs = [] then MBOX_IO_EOF else MBOX_IO_OK\<rparr>)"
    "buf_rep b' (if bs = [] then s else take 0 s @ bs)" "buf_term (io_buf io) \<or> bs \<noteq> [] \<longrightarrow> buf_term b'"
    "buf_offset b' = buf_offset (io_buf io)"
    "0 + length bs < buf_capacity b'" "length s < buf_capacity b'"
    "buf_capacity b' \<le> max (buf_capacity (io_buf io)) (length s + 1 + MBOX_IO_READ_SIZE + max 256 MBOX_IO_READ_SIZE)"
    by (rule mboxIORead_at [where pread = pread and io = io and off = 0,
          OF s(1) le0 s(2) room(1,2) assms(5,2)])
  define io' where "io' = io\<lparr>io_buf := b', io_err := MBOX_IO_OK\<rparr>"
  have rep: "buf_rep b' bs" "buf_term b'" using b'(2,3) assms(3) by auto
  have hd: "holds (buf_data b') bs" by (rule holds_buf [OF rep assms(4)])
  have "find_start ''From '' (buf_data b') (length bs) 0 =
      Inr (find (\<lambda>k. take 5 (drop k bs) = ''From '') [0..<length bs])"
    using find_start_text [OF hd, of "''From ''" 0] by (simp add: eval_nat_numeral)
  moreover have pos: "0 < MBOX_IO_READ_SIZE" by (simp add: MBOX_IO_READ_SIZE_def)
  ultimately have "seek_start_loop pread (Suc fuel) io 0 =
       (case find (\<lambda>k. take 5 (drop k bs) = ''From '') [0..<length bs] of
          Some idx \<Rightarrow> Inr (io'\<lparr>io_start_offset := int idx\<rparr>)
        | None \<Rightarrow> seek_start_loop pread fuel io' 0)"
    using b'(1) assms(3) s(5) buf_repD(1) [OF rep(1)] pos
    by (simp add: Let_def MBOX_IO_OK_def io'_def split: option.splits)
  moreover have "unread c io'"
    using rep b'(5,7) s(3-5) assms(6) by (auto simp: unread_def io'_def MBOX_IO_READ_SIZE_def)
  ultimately show thesis using rep by (intro that [of io']) (simp_all add: io'_def)
qed

lemma unread_new: "0 < c \<Longrightarrow> unread c (mboxIONew fd sz)"
  using mboxBufAlloc_rep [of MBOX_IO_READ_SIZE]
  by (auto simp: unread_def mboxIONew_def MBOX_IO_READ_SIZE_def intro!: exI [of _ "[]"])

lemma seek_start_diverges:
  assumes "unread c io" and "pread (io_fd io) MBOX_IO_READ_SIZE 0 = Some bs" and "bs \<noteq> []"
    and "NUL \<notin> set bs" and "length bs \<le> MBOX_IO_READ_SIZE" and "length bs \<le> c" and "c \<le> 2 ^ 60"
    and "\<forall>k. take 5 (drop k bs) \<noteq> ''From ''"
  shows "seek_start_loop pread fuel io 0 = Inl Diverges"
  using assms(1,2)
proof (induction fuel arbitrary: io)
  case (Suc fuel)
  obtain io' where io': "seek_start_loop pread (Suc fuel) io 0 =
       (case find (\<lambda>k. take 5 (drop k bs) = ''From '') [0..<length bs] of
          Some idx \<Rightarrow> Inr (io'\<lparr>io_start_offset := int idx\<rparr>)
        | None \<Rightarrow> seek_start_loop pread fuel io' 0)"
    "unread c io'" "io_frame io io'"
    by (rule seek_start_step [where pread = pread and fuel = fuel, OF Suc.prems assms(3-7)])
  have "find (\<lambda>k. take 5 (drop k bs) = ''From '') [0..<length bs] = None"
    using assms(8) by (simp add: find_None_iff)
  then show ?case using io'(1) Suc.IH [OF io'(2)] Suc.prems(2) io'(3) by (simp add: io_frame_def)
qed simp

section \<open>What the messages are\<close>

lemma header_end_From:
  assumes "take 5 R = ''From ''" and "header_end R 0 = Some h"
  shows "5 \<le> h"
proof -
  have len: "5 \<le> length R" using assms(1) by (drule_tac arg_cong [of _ _ length]) simp
  have "take 5 R ! k \<noteq> LF" if "k < 5" for k
    using that unfolding assms(1) by (auto simp: less_Suc_eq eval_nat_numeral)
  then have "\<forall>k. 0 \<le> k \<and> k < 5 \<longrightarrow> R ! k \<noteq> LF" by simp
  then have "header_end R 5 = Some h"
    using skip_to [of R "header_end R" 0 5] header_end_skip len assms(2) by simp
  then show ?thesis using header_end_bounds by fastforce
qed

text \<open>Every message begins with its line, and together they are the file up to its last bytes.\<close>

lemma mails_content:
  "take 5 R = ''From '' \<Longrightarrow>
   (\<forall>t \<in> set (mails R). take 5 t = ''From '') \<and> concat (mails R) = take (length (concat (mails R))) R"
proof (induction R rule: mails.induct)
  case (1 R)
  consider (none) "header_end R 0 = None" | (last) h where "header_end R 0 = Some h" "next_from R h = None"
    | (more) h n where "header_end R 0 = Some h" "next_from R h = Some n"
    by (cases "header_end R 0") (auto dest: option.exhaust_sel)
  then show ?case
  proof cases
    case none
    then show ?thesis by (simp add: mails.simps [of R])
  next
    case last
    have "5 \<le> last_stop R h" using header_end_From [OF 1(2) last(1)] last_stop_bounds [of h R]
        header_end_bounds [OF last(1)] by simp
    then show ?thesis using last 1(2) by (simp add: mails.simps [of R] min_def)
  next
    case more
    note nb = next_from_bounds [OF more(2)]
    define R' where "R' = drop (n + 1) R"
    have ms: "mails R = take (n + 1) R # mails R'" using more by (simp add: mails.simps [of R] R'_def)
    have "drop n R = R ! n # R'" using nb by (simp add: R'_def Cons_nth_drop_Suc)
    then have "take 5 R' = ''From ''" using nb by (simp add: eval_nat_numeral)
    then have IH: "\<forall>t \<in> set (mails R'). take 5 t = ''From ''"
      "concat (mails R') = take (length (concat (mails R'))) R'"
      using 1(1) [OF more] by (auto simp: R'_def)
    have "5 \<le> n + 1" using header_end_From [OF 1(2) more(1)] nb by simp
    moreover have "take (n + 1) R @ take k R' = take (n + 1 + k) R" for k
      by (simp only: R'_def take_add)
    ultimately show ?thesis
      using IH nb 1(2) by (simp add: ms min_def) (metis add_Suc_right add_Suc_shift)
  qed
qed

text \<open>A search that begins at the start of a mailbox finds its first line.\<close>

lemma seek_start_at_first:
  assumes "mail_file pread fd F" and "take 5 F = ''From ''"
    and "pread fd MBOX_IO_READ_SIZE 0 = Some bs" and "5 \<le> length bs" and "0 < fuel"
  obtains ctx where "mboxParserCtxSeekStart pread fuel (mboxParserCtxNew raw id' fd (length F)) = Inr ctx"
    "pc_err ctx = MBOX_IO_OK" "io_fd (pc_ioctx ctx) = fd" "io_start_offset (pc_ioctx ctx) = 0"
    "io_offset (pc_ioctx ctx) = 0" "io_file_size (pc_ioctx ctx) = length F"
    "buf_rep (io_buf (pc_ioctx ctx)) []" "buf_offset (io_buf (pc_ioctx ctx)) = 0"
    "reads_on F 0 [] ((pc_ioctx ctx)\<lparr>io_end_offset := e\<rparr>)" "io_file_offset (pc_ioctx ctx) = 0"
proof -
  define io where "io = mboxIONew fd (length F)"
  have len: "length F < 2 ^ 60" "F \<noteq> []" using assms(1,2) by (auto simp: mail_file_def)
  obtain k where k: "bs = take k F" "0 < k" "k \<le> MBOX_IO_READ_SIZE"
    using assms(1,3) unfolding mail_file_def reads_file_def
    by (metis MBOX_IO_READ_SIZE_def drop0 nat_0 option.inject order_refl zero_less_numeral)
  have bs: "bs \<noteq> []" "NUL \<notin> set bs" "length bs \<le> MBOX_IO_READ_SIZE" "length bs \<le> length F"
    using assms(1,4) k by (auto simp: mail_file_def dest: in_set_takeD)
  have un: "unread (length F) io" using unread_new len(2) by (simp add: io_def)
  have fd: "io_fd io = fd" "io_offset io = 0" "io_start_offset io = 0" "io_file_offset io = 0"
    "io_file_size io = length F"
    by (simp_all add: io_def mboxIONew_def)
  obtain f where f: "fuel = Suc f" using assms(5) by (cases fuel) auto
  obtain io' where io': "seek_start_loop pread (Suc f) io 0 =
       (case find (\<lambda>k. take 5 (drop k bs) = ''From '') [0..<length bs] of
          Some idx \<Rightarrow> Inr (io'\<lparr>io_start_offset := int idx\<rparr>)
        | None \<Rightarrow> seek_start_loop pread f io' 0)"
    "unread (length F) io'" "buf_rep (io_buf io') bs" "io_err io' = MBOX_IO_OK" "io_frame io io'"
    by (rule seek_start_step [where pread = pread and fuel = f and io = io, unfolded fd(1),
          OF un assms(3) bs]) (use len in auto)
  have "take 5 bs = ''From ''" using assms(2,4) k by (metis length_take min.absorb1 min.boundedE take_take)
  then have "find (\<lambda>k. take 5 (drop k bs) = ''From '') [0..<length bs] = Some 0"
    using bs(1) by (simp add: upt_conv_Cons)
  then have loop: "seek_start_loop pread fuel io 0 = Inr (io'\<lparr>io_start_offset := 0\<rparr>)"
    using io'(1) f by simp
  obtain b where b: "mboxBufSetLen (io_buf io') 0 = Inr b" "buf_rep b []" "buf_term b"
    "buf_capacity b = buf_capacity (io_buf io')"
    using mboxBufSetLen_rep [OF io'(3), of 0] by auto
  define io2 where "io2 = io'\<lparr>io_start_offset := 0, io_buf := b\<lparr>buf_offset := 0\<rparr>, io_file_offset := 0\<rparr>"
  define ctx where "ctx = (mboxParserCtxNew raw id' fd (length F))\<lparr>pc_ioctx := io2\<rparr>"
  have seek: "mboxParserCtxSeekStart pread fuel (mboxParserCtxNew raw id' fd (length F)) = Inr ctx"
    using loop b(1) fd(4)
    by (simp add: mboxParserCtxSeekStart_def mboxParserCtxNew_def mboxParserCtxInit_def Let_def
        io_def ctx_def io2_def)
  have "buf_capacity b \<le> length F + 600001" "0 < buf_capacity b"
    using io'(2) b(4) by (auto simp: unread_def)
  moreover have rep: "buf_rep (b\<lparr>buf_offset := 0\<rparr>) []" using b(2) by (simp add: buf_rep_def)
  ultimately have "reads_on F 0 [] ((pc_ioctx ctx)\<lparr>io_end_offset := e\<rparr>)"
    using b(3) io'(4) by (simp add: reads_on_def ctx_def io2_def buf_term_def)
  with seek show thesis
    using io'(5) fd rep
    by (intro that [of ctx])
      (simp_all add: ctx_def io2_def io_frame_def mboxParserCtxNew_def mboxParserCtxInit_def)
qed

lemma seek_start_first:
  assumes "mail_file pread fd F" and "take 5 F = ''From ''"
    and "pread fd MBOX_IO_READ_SIZE 0 = Some bs" and "5 \<le> length bs" and "0 < fuel"
    and "blank_lines_whole pread fd F 0"
  obtains ctx where "mboxParserCtxSeekStart pread fuel (mboxParserCtxNew raw id' fd (length F)) = Inr ctx"
    "pc_err ctx = MBOX_IO_OK" "io_fd (pc_ioctx ctx) = fd" "io_start_offset (pc_ioctx ctx) = 0"
    "io_offset (pc_ioctx ctx) = 0" "io_file_size (pc_ioctx ctx) = length F"
    "at_mail pread F 0 ((pc_ioctx ctx)\<lparr>io_end_offset := e\<rparr>)" "io_file_offset (pc_ioctx ctx) = 0"
proof -
  obtain ctx where ctx: "mboxParserCtxSeekStart pread fuel (mboxParserCtxNew raw id' fd (length F)) = Inr ctx"
    "pc_err ctx = MBOX_IO_OK" "io_fd (pc_ioctx ctx) = fd" "io_start_offset (pc_ioctx ctx) = 0"
    "io_offset (pc_ioctx ctx) = 0" "io_file_size (pc_ioctx ctx) = length F"
    "buf_rep (io_buf (pc_ioctx ctx)) []" "buf_offset (io_buf (pc_ioctx ctx)) = 0"
    "reads_on F 0 [] ((pc_ioctx ctx)\<lparr>io_end_offset := e\<rparr>)" "io_file_offset (pc_ioctx ctx) = 0"
    by (rule seek_start_at_first [OF assms(1-5)])
  have "at_mail pread F 0 ((pc_ioctx ctx)\<lparr>io_end_offset := e\<rparr>)"
    using ctx(3,5,8,9) assms(6) by (auto simp: at_mail_def reads_on_def)
  then show thesis using ctx by (intro that [of ctx]) simp_all
qed

section \<open>The messages of a mailbox\<close>

text \<open>
  A message with the body \<open>body\<close>, as a mailbox has it: it begins with \<open>From \<close>, its first empty line ends
  the headers, and no line of the body but the first begins with \<open>From \<close>.
\<close>

definition mbox_mail :: "mboxChar list \<Rightarrow> mboxChar list \<Rightarrow> bool" where
  "mbox_mail t body \<longleftrightarrow> (\<exists>heads eol. t = heads @ eol @ body \<and> (eol = [LF, LF] \<or> eol = [LF, CR, LF]) \<and> take 5 heads = ''From '' \<and>
     (\<forall>i < length heads. take 2 (drop i t) \<noteq> [LF, LF] \<and> take 3 (drop i t) \<noteq> [LF, CR, LF]) \<and>
     (\<forall>k. take 6 (drop k body) \<noteq> LF # ''From ''))"

text \<open>The first line break of the last ten bytes, or the end when they have none.\<close>

definition last_break :: "mboxChar list \<Rightarrow> nat \<Rightarrow> bool" where
  "last_break t k \<longleftrightarrow> k \<le> length t \<and> length t \<le> k + 10 \<and> (k < length t \<longrightarrow> t ! k = LF) \<and>
     (\<forall>j < k. t ! j = LF \<longrightarrow> j + 10 < length t)"

text \<open>
  The messages \<open>ts\<close> of a mailbox, each but the last with a body that ends in a line break, and what is
  read of them: the last one up to its last break.
\<close>

definition mailbox :: "mboxChar list list \<Rightarrow> mboxChar list list \<Rightarrow> bool" where
  "mailbox ts rs \<longleftrightarrow> ts \<noteq> [] \<and> (\<forall>t \<in> set (butlast ts). \<exists>body. mbox_mail t body \<and> body \<noteq> [] \<and> last body = LF) \<and>
     (\<exists>body k. mbox_mail (last ts) body \<and> 10 \<le> length body \<and> last_break (last ts) k \<and>
        rs = butlast ts @ [take k (last ts)])"

lemma header_end_upto:
  "i \<le> j \<Longrightarrow> j \<le> length R \<Longrightarrow>
   \<forall>k. i \<le> k \<and> k < j \<longrightarrow> take 2 (drop k R) \<noteq> [LF, LF] \<and> take 3 (drop k R) \<noteq> [LF, CR, LF] \<Longrightarrow>
   header_end R i = header_end R j"
proof (induction "j - i" arbitrary: i)
  case (Suc d)
  then have "header_end R (Suc i) = header_end R j" by (intro Suc.hyps(1)) auto
  then show ?case using Suc.prems Suc.hyps(2) by (subst header_end.simps) auto
qed simp

lemma next_from_upto:
  "i \<le> j \<Longrightarrow> j \<le> length R \<Longrightarrow> \<forall>k. i \<le> k \<and> k < j \<longrightarrow> take 6 (drop k R) \<noteq> LF # ''From '' \<Longrightarrow>
   next_from R i = next_from R j"
proof (induction "j - i" arbitrary: i)
  case (Suc d)
  then have "next_from R (Suc i) = next_from R j" by (intro Suc.hyps(1)) auto
  then show ?case using Suc.prems Suc.hyps(2) by (subst next_from.simps) auto
qed simp

lemma mbox_mailD:
  assumes "mbox_mail t body"
  shows "take 5 (t @ r) = ''From ''" and "length body + 7 \<le> length t" and "body = drop (length t - length body) t"
    and "header_end (t @ r) 0 = Some (length t - length body)"
    and "\<forall>k. take 6 (drop k body) \<noteq> LF # ''From ''"
proof -
  obtain heads eol where t: "t = heads @ eol @ body" "eol = [LF, LF] \<or> eol = [LF, CR, LF]" "take 5 heads = ''From ''"
    "\<forall>i < length heads. take 2 (drop i t) \<noteq> [LF, LF] \<and> take 3 (drop i t) \<noteq> [LF, CR, LF]"
    "\<forall>k. take 6 (drop k body) \<noteq> LF # ''From ''"
    using assms unfolding mbox_mail_def by blast
  have len: "5 \<le> length heads" using t(3) by (drule_tac arg_cong [of _ _ length]) simp
  show "take 5 (t @ r) = ''From ''" "length body + 7 \<le> length t" "body = drop (length t - length body) t"
    "\<forall>k. take 6 (drop k body) \<noteq> LF # ''From ''"
    using t(1-3,5) len by auto
  have "take 2 (drop k (t @ r)) = take 2 (drop k t)" "take 3 (drop k (t @ r)) = take 3 (drop k t) \<or> length heads + length eol < k + 3"
    if "k < length heads" for k
    using that t(1,2) by auto
  moreover have "take 3 (drop k (t @ r)) \<noteq> [LF, CR, LF]" if "k < length heads" "length heads + length eol < k + 3" for k
    using that t(1,2) by (auto simp: less_Suc_eq_le)
  ultimately have "header_end (t @ r) 0 = header_end (t @ r) (length heads)"
    using t(1,4) by (intro header_end_upto) fastforce+
  also have "\<dots> = Some (length t - length body)"
    using t(1,2) by (subst header_end.simps) (auto simp: eval_nat_numeral)
  finally show "header_end (t @ r) 0 = Some (length t - length body)" .
qed

lemma next_from_mail:
  assumes "mbox_mail t body" and "body \<noteq> []" and "last body = LF" and "take 5 r = ''From ''"
  shows "next_from (t @ r) (length t - length body) = Some (length t - 1)"
proof -
  note D = mbox_mailD [OF assms(1)]
  have lb: "0 < length body" using assms(2) by simp
  have "last t = LF" using assms(2,3) D(2) lb by (metis D(3) drop_eq_Nil last_drop not_le)
  then have lt: "t ! (length t - 1) = LF" using D(2) lb last_conv_nth [of t] by fastforce
  have end': "drop (length t - 1) (t @ r) = LF # r"
  proof -
    have "drop (length t - 1) t = [LF]" using D(2) lt Cons_nth_drop_Suc [of "length t - 1" t] by simp
    then show ?thesis using D(2) by simp
  qed
  have "take 6 (drop k (t @ r)) \<noteq> LF # ''From ''" if k: "length t - length body \<le> k" "k < length t - 1" for k
  proof (cases "k + 6 \<le> length t")
    case True
    then have "take 6 (drop k (t @ r)) = take 6 (drop k t)" by simp
    also have "drop k t = drop (k - (length t - length body)) body"
      using k(1) by (subst D(3)) (simp add: add.commute)
    finally show ?thesis using D(5) by simp
  next
    case False
    have "drop k (t @ r) ! (length t - 1 - k) = (t @ r) ! (length t - 1)" using k(2) by (subst nth_drop) simp_all
    also have "length t - 1 < length t" using k(2) by linarith
    then have "(t @ r) ! (length t - 1) = LF" using lt by (simp only: nth_append if_True)
    finally have "drop k (t @ r) ! (length t - 1 - k) = LF" .
    moreover have "length t - 1 - k < 6" using False by linarith
    ultimately have "take 6 (drop k (t @ r)) ! (length t - 1 - k) = LF" by (simp only: nth_take)
    moreover have "0 < length t - 1 - k" "length t - 1 - k < 6" using False k(2) by linarith+
    moreover have "(LF # ''From '') ! m \<noteq> LF" if "0 < m" "m < 6" for m
      using that by (auto simp: less_Suc_eq numeral_eq_Suc)
    ultimately show ?thesis by metis
  qed
  moreover have "length t - length body \<le> length t - 1" using lb D(2) by linarith
  ultimately have "next_from (t @ r) (length t - length body) = next_from (t @ r) (length t - 1)"
    by (intro next_from_upto) auto
  also have "\<dots> = Some (length t - 1)"
    using end' assms(4) D(2) by (subst next_from.simps) (simp add: eval_nat_numeral)
  finally show ?thesis .
qed

lemma last_stop_break:
  assumes "last_break t k" and "i \<le> length t" and "i + 10 \<le> length t"
  shows "last_stop t i = k"
proof -
  have up: "i \<le> j \<Longrightarrow> j \<le> k \<Longrightarrow> last_stop t i = last_stop t j" for j
  proof (induction "j - i" arbitrary: i)
    case (Suc d)
    then have "last_stop t (Suc i) = last_stop t j" by (intro Suc.hyps(1)) auto
    moreover have "i < k" using Suc.hyps(2) Suc.prems(2) by linarith
    ultimately show ?case using assms(1) by (subst last_stop.simps) (force simp: last_break_def)
  qed simp
  have "i \<le> k" using assms(1,3) by (simp add: last_break_def)
  then have "last_stop t i = last_stop t k" by (intro up) simp_all
  also have "\<dots> = k" using assms(1) by (subst last_stop.simps) (auto simp: last_break_def)
  finally show ?thesis .
qed

lemma mails_mailbox: "mailbox ts rs \<Longrightarrow> mails (concat ts) = rs"
proof (induction ts arbitrary: rs)
  case (Cons t ts)
  show ?case
  proof (cases "ts = []")
    case True
    then obtain body k where b: "mbox_mail t body" "10 \<le> length body" "last_break t k" "rs = [take k t]"
      using Cons.prems by (auto simp: mailbox_def)
    note D = mbox_mailD [OF b(1)]
    have "take 6 (drop k t) \<noteq> LF # ''From ''" if "length t - length body \<le> k" for k
    proof -
      have "drop k t = drop (k - (length t - length body)) body" using that by (subst D(3)) (simp add: add.commute)
      then show ?thesis using D(5) by simp
    qed
    then have "next_from t (length t - length body) = next_from t (length t)" by (intro next_from_upto) auto
    also have "\<dots> = None" by (simp add: next_from.simps)
    finally have "next_from t (length t - length body) = None" .
    moreover have "last_stop t (length t - length body) = k" using b(2) D(2) by (intro last_stop_break [OF b(3)]) auto
    ultimately show ?thesis using True D(4) [of "[]"] b(4) by (simp add: mails.simps [of t])
  next
    case False
    then obtain body where b: "mbox_mail t body" "body \<noteq> []" "last body = LF"
      using Cons.prems by (auto simp: mailbox_def)
    have rs: "rs = t # tl rs" "mailbox ts (tl rs)"
      using Cons.prems False unfolding mailbox_def by (auto, blast)
    have "\<exists>t' r. concat ts = t' @ r \<and> (\<exists>body'. mbox_mail t' body')"
      using rs(2) by (cases ts) (auto simp: mailbox_def split: if_splits)
    then have "take 5 (concat ts) = ''From ''" using mbox_mailD(1) by fastforce
    then have nx: "next_from (t @ concat ts) (length t - length body) = Some (length t - 1)" by (rule next_from_mail [OF b])
    have len: "0 < length t" using mbox_mailD(2) [OF b(1)] by linarith
    have "mails (concat (t # ts)) = t # mails (concat ts)"
      using mbox_mailD(4) [OF b(1), of "concat ts"] nx len by (simp add: mails.simps [of "t @ concat ts"])
    then show ?thesis using Cons.IH [OF rs(2)] rs(1) by simp
  qed
qed (simp add: mailbox_def)

lemma mailbox_start: "mailbox ts rs \<Longrightarrow> take 5 (concat ts) = ''From ''"
proof -
  assume "mailbox ts rs"
  then have "\<exists>t body r. concat ts = t @ r \<and> mbox_mail t body"
    by (cases ts) (auto simp: mailbox_def split: if_splits)
  then obtain t body r where "concat ts = t @ r" "mbox_mail t body" by blast
  then show ?thesis using mbox_mailD(1) by simp
qed

lemma mailbox_room:
  assumes "mailbox ts rs"
  shows "room_at_end (concat ts)"
proof -
  obtain body where b: "mbox_mail (last ts) body" "10 \<le> length body" "ts \<noteq> []"
    using assms unfolding mailbox_def by blast
  note D = mbox_mailD [OF b(1)]
  define A where "A = concat (butlast ts) @ take (length (last ts) - length body) (last ts)"
  have "concat ts = concat (butlast ts) @ last ts" using b(3) by (metis append_butlast_last_id concat_append concat.simps append_Nil2)
  then have F: "concat ts = A @ body" using D(3) by (simp add: A_def) (metis append_take_drop_id)
  have "n + 10 \<le> length (concat ts)" if "take 6 (drop n (concat ts)) = LF # ''From ''" for n
  proof (rule ccontr)
    assume "\<not> n + 10 \<le> length (concat ts)"
    then have "drop n (concat ts) = drop (n - length A) body" using b(2) by (simp add: F)
    then show False using that D(5) by simp
  qed
  then show ?thesis by (simp add: room_at_end_def)
qed

section \<open>Properties\<close>

text \<open>
  C3. A mailbox read by one thread is cut into its messages. What is handed on is every message with
  all its bytes and its offsets in the file, one after the other, only that the last message ends at its
  first line break of the last ten bytes; the bytes behind it are lost. A mailbox is a sequence of messages
  that begin with \<open>From \<close>, each with an empty line behind its headers and a body that is not empty and ends in a line
  break, the last one with a body of ten bytes or more. The reads may return as few bytes as they like, but the
  first has to return five or more, and none may end between the carriage return and the line break of
  an empty line, which the reader would not see.
\<close>

theorem mboxParserCtx_reads_mailbox:
  assumes "mailbox ts rs" and "F = concat ts" and "mail_file pread fd F" and "blank_lines_whole pread fd F 0"
    and "pread fd MBOX_IO_READ_SIZE 0 = Some bs" and "5 \<le> length bs" and "3 * length F + 1 < fuel"
  shows "\<exists>ctx ms ctx'. mboxParserCtxSeekStart pread fuel (mboxParserCtxNew raw 0 fd (length F)) = Inr ctx \<and>
     mboxParserCtxGetNextMessageCallback pread fuel
       (ctx\<lparr>pc_ioctx := mboxIOSetEndOffset (pc_ioctx ctx) (int (length F))\<rparr>) = Inr (ms, ctx') \<and>
     laid 0 rs ms"
proof -
  have box: "room_at_end F" "take 5 F = ''From ''" "mails F = rs"
    using mailbox_room [OF assms(1)] mailbox_start [OF assms(1)] mails_mailbox [OF assms(1)] assms(2) by simp_all
  obtain ctx where ctx: "mboxParserCtxSeekStart pread fuel (mboxParserCtxNew raw 0 fd (length F)) = Inr ctx"
    "pc_err ctx = MBOX_IO_OK" "io_fd (pc_ioctx ctx) = fd"
    "at_mail pread F 0 ((pc_ioctx ctx)\<lparr>io_end_offset := int (length F)\<rparr>)"
    by (rule seek_start_first [where pread = pread and fuel = fuel and raw = raw and id' = 0 and e = "int (length F)",
          OF assms(3) box(2) assms(5,6) _ assms(4)]) (use assms(7) in auto)
  define ctx0 where "ctx0 = ctx\<lparr>pc_ioctx := mboxIOSetEndOffset (pc_ioctx ctx) (int (length F))\<rparr>"
  have c0: "at_mail pread F 0 (pc_ioctx ctx0)" "mail_file pread (io_fd (pc_ioctx ctx0)) F"
    "io_end_offset (pc_ioctx ctx0) = int (length F)" "pc_err ctx0 \<noteq> MBOX_PARSE_DONE" "length F < 2 ^ 60"
    using ctx(2-4) assms(3)
    by (simp_all add: ctx0_def mboxIOSetEndOffset_def MBOX_PARSE_DONE_def MBOX_IO_OK_def mail_file_def)
  then obtain ms ctx' where "mboxParserCtxGetNextMessageCallback pread fuel ctx0 = Inr (ms, ctx')"
    "laid 0 (mails F) ms"
    using Callback_mails [OF c0(1,2) box(1), of fuel] assms(7) by (auto simp: enough_def)
  then show ?thesis using ctx(1) box(3) by (intro exI [of _ ctx]) (auto simp: ctx0_def)
qed

text \<open>Two messages, the second with carriage returns, read ten bytes at a time.\<close>

definition short_pread :: "nat \<Rightarrow> mboxChar list \<Rightarrow> pread" where
  "short_pread n F fd sz off = file_pread F fd (min n sz) off"

definition crlf_mails :: "mboxChar list list" where
  "crlf_mails =
     [''From a'' @ [LF] @ ''K: v'' @ [LF, LF] @ ''hi'' @ [LF],
      ''From b'' @ [CR, LF] @ ''K: w'' @ [CR, LF, CR, LF] @ ''good bye!!'' @ [LF]]"

lemma read_ends_short:
  "y \<in> read_ends (short_pread n F) fd 0 \<Longrightarrow> 0 < n \<Longrightarrow> n \<le> MBOX_IO_READ_SIZE \<Longrightarrow> \<exists>k. y = min (n * k) (length F)"
proof (induction rule: read_ends.induct)
  case read_ends_start
  then show ?case by (intro exI [of _ 0]) simp
next
  case (read_ends_step y bs)
  then obtain k where k: "y = min (n * k) (length F)" by blast
  have "length bs = min n (length F - y)"
    using read_ends_step(2,5) by (auto simp: short_pread_def file_pread_def min_def)
  then have "y + length bs = min (n * Suc k) (length F)" using k by (auto simp: min_def)
  then show ?case by blast
qed

lemma reads_file_short: "0 < n \<Longrightarrow> reads_file (short_pread n F) fd F"
  unfolding reads_file_def short_pread_def file_pread_def by (auto intro!: exI [of _ "min n _"])

lemma mbox_mail_parts:
  assumes "take 5 heads = ''From ''" and "eol = [LF, LF] \<or> eol = [LF, CR, LF]"
    and "list_all (\<lambda>i. take 2 (drop i (heads @ eol @ body)) \<noteq> [LF, LF] \<and> take 3 (drop i (heads @ eol @ body)) \<noteq> [LF, CR, LF])
      [0..<length heads]"
    and "list_all (\<lambda>k. take 6 (drop k body) \<noteq> LF # ''From '') [0..<length body]"
  shows "mbox_mail (heads @ eol @ body) body"
proof -
  have "take 6 (drop k body) \<noteq> LF # ''From ''" for k
    using assms(4) by (cases "k < length body") (auto simp: list_all_iff)
  then show ?thesis using assms(1-3) unfolding mbox_mail_def
    by (intro exI [of _ heads] exI [of _ eol]) (simp add: list_all_iff)
qed

lemma mailbox_two:
  "mbox_mail a b \<Longrightarrow> b \<noteq> [] \<Longrightarrow> last b = LF \<Longrightarrow> mbox_mail c d \<Longrightarrow> 10 \<le> length d \<Longrightarrow> last_break c k \<Longrightarrow>
   mailbox [a, c] [a, take k c]"
  unfolding mailbox_def by auto

lemma crlf_mails_mailbox: "mailbox crlf_mails [crlf_mails ! 0, butlast (crlf_mails ! 1)]"
proof -
  have 1: "mbox_mail ((''From a'' @ [LF] @ ''K: v'') @ [LF, LF] @ ''hi'' @ [LF]) (''hi'' @ [LF])"
    by (rule mbox_mail_parts) code_simp+
  have 2: "mbox_mail ((''From b'' @ [CR, LF] @ ''K: w'' @ [CR]) @ [LF, CR, LF] @ ''good bye!!'' @ [LF]) (''good bye!!'' @ [LF])"
    by (rule mbox_mail_parts) code_simp+
  have "list_all (\<lambda>j. crlf_mails ! 1 ! j = LF \<longrightarrow> j + 10 < 27) [0..<26]" by code_simp
  then have 3: "last_break (crlf_mails ! 1) 26"
    by (auto simp: last_break_def list_all_iff) (simp_all add: crlf_mails_def)
  have t: "crlf_mails ! 0 = (''From a'' @ [LF] @ ''K: v'') @ [LF, LF] @ ''hi'' @ [LF]"
    "crlf_mails ! 1 = (''From b'' @ [CR, LF] @ ''K: w'' @ [CR]) @ [LF, CR, LF] @ ''good bye!!'' @ [LF]"
    "crlf_mails = [crlf_mails ! 0, crlf_mails ! 1]" "butlast (crlf_mails ! 1) = take 26 (crlf_mails ! 1)"
    by (simp_all add: crlf_mails_def)
  have "mailbox [crlf_mails ! 0, crlf_mails ! 1] [crlf_mails ! 0, take 26 (crlf_mails ! 1)]"
    by (rule mailbox_two [OF 1 [folded t(1)] _ _ 2 [folded t(2)] _ 3]) simp_all
  then show ?thesis using t(3,4) by simp
qed

theorem mboxParserCtx_reads_mailbox_witness:
  "\<forall>raw. \<exists>ctx ms ctx'. mboxParserCtxSeekStart (short_pread 10 (concat crlf_mails)) 200 (mboxParserCtxNew raw 0 3 43) = Inr ctx \<and>
     mboxParserCtxGetNextMessageCallback (short_pread 10 (concat crlf_mails)) 200
       (ctx\<lparr>pc_ioctx := mboxIOSetEndOffset (pc_ioctx ctx) 43\<rparr>) = Inr (ms, ctx') \<and>
     laid 0 [crlf_mails ! 0, butlast (crlf_mails ! 1)] ms"
proof -
  let ?F = "concat crlf_mails"
  have len: "length ?F = 43" by (simp add: crlf_mails_def)
  have "mail_file (short_pread 10 ?F) 3 ?F"
    using reads_file_short by (simp add: mail_file_def len) (simp add: crlf_mails_def)
  moreover have "blank_lines_whole (short_pread 10 ?F) 3 ?F 0"
  proof -
    have "\<not> blank_split ?F (min (10 * k) 43)" for k
    proof (cases "k \<le> 4")
      case True
      then have "k = 0 \<or> k = 1 \<or> k = 2 \<or> k = 3 \<or> k = 4" by linarith
      then show ?thesis by (auto simp: blank_split_def crlf_mails_def)
    next
      case False
      then have "min (10 * k) 43 = 43" by simp
      then show ?thesis by (simp add: blank_split_def crlf_mails_def)
    qed
    then show ?thesis using read_ends_short [of _ 10 ?F 3] len
      by (fastforce simp: blank_lines_whole_def MBOX_IO_READ_SIZE_def)
  qed
  ultimately show ?thesis
    using mboxParserCtx_reads_mailbox [OF crlf_mails_mailbox refl, of "short_pread 10 ?F" 3 "take 10 ?F" 200]
    unfolding len by (simp add: short_pread_def file_pread_def MBOX_IO_READ_SIZE_def len)
qed

section \<open>An empty line that a read cuts\<close>

lemma blank_split_nth:
  assumes "blank_split F y"
  shows "2 \<le> y" and "y < length F" and "F ! (y - 1) = CR" and "F ! y = LF" and "header_end F (y - 2) = Some (y + 1)"
proof -
  have y: "2 \<le> y" "take 3 (drop (y - 2) F) = [LF, CR, LF]" using assms by (simp_all add: blank_split_def)
  have l: "3 \<le> length (drop (y - 2) F)" using arg_cong [OF y(2), of length] by simp
  have "drop (y - 2) F ! i = [LF, CR, LF] ! i" if "i < 3" for i
    using arg_cong [OF y(2), of "\<lambda>x. x ! i"] that l by simp
  from this [of 1] this [of 2] have "F ! (y - 2 + 1) = CR" "F ! (y - 2 + 2) = LF" using l by simp_all
  moreover have "y - 2 + 1 = y - 1" "y - 2 + 2 = y" using y(1) by simp_all
  ultimately show "2 \<le> y" "y < length F" "F ! (y - 1) = CR" "F ! y = LF" using y(1) l by simp_all
  have "take 2 (drop (y - 2) F) = [LF, CR]" using arg_cong [OF y(2), of "take 2"] by simp
  then show "header_end F (y - 2) = Some (y + 1)" using y l by (subst header_end.simps) auto
qed

lemma header_end_append: "header_end R i = Some h \<Longrightarrow> header_end (R @ S) i = Some h"
proof (induction R i rule: header_end.induct)
  case (1 R i)
  note b = header_end_bounds [OF 1(2)]
  have i: "i < length R" using b by linarith
  show ?case
  proof (cases "take 2 (drop i R) = [LF, LF] \<or> take 3 (drop i R) = [LF, CR, LF]")
    case True
    then have "i + 2 \<le> length R \<and> (take 3 (drop i R) = [LF, CR, LF] \<longrightarrow> i + 3 \<le> length R)"
      by (auto dest!: arg_cong [of _ _ length])
    then show ?thesis using True 1(2) i
      by (subst header_end.simps, subst (asm) header_end.simps) (auto split: if_splits)
  next
    case False
    then have n: "header_end R (Suc i) = Some h" using 1(2) i by (subst (asm) header_end.simps) auto
    have "i + 3 \<le> length R" using header_end_bounds [OF n] by simp
    then have "header_end (R @ S) i = header_end (R @ S) (Suc i)"
      using False i by (subst header_end.simps) simp
    then show ?thesis using 1(1) n False i by simp
  qed
qed

lemma header_end_later: "i \<le> j \<Longrightarrow> header_end F j \<noteq> None \<Longrightarrow> header_end F i \<noteq> None"
proof (induction "j - i" arbitrary: i)
  case (Suc d)
  have "d = j - Suc i" "Suc i \<le> j" using Suc.hyps(2) by simp_all
  then have "header_end F (Suc i) \<noteq> None" using Suc.hyps(1) Suc.prems(2) by blast
  moreover have "i < length F"
    using Suc.prems(2) Suc.hyps(2) header_end_bounds [of F j] by (cases "header_end F j") auto
  ultimately show ?case by (simp add: header_end.simps [of F i])
qed simp

text \<open>One round of the search that does not find the end, and reads on.\<close>

lemma seek_headers_reads:
  assumes "reads_on F pos s io" and "mail_file pread (io_fd io) F"
    and "can_parse_loop (buf_data (io_buf io)) (length s) (buf_offset (io_buf io)) = Inr (False, i)"
    and "length s \<le> i + 1" and "i \<le> length s" and "s \<noteq> drop pos F"
  obtains bs io' where "seek_headers_loop pread (Suc fuel) io = seek_headers_loop pread fuel io'"
    "\<forall>xs. pread (io_fd io) MBOX_IO_READ_SIZE (int (pos + length s)) = Some xs \<longrightarrow> length bs = length xs"
    "bs \<noteq> []" "reads_on F pos (s @ bs) io'" "buf_offset (io_buf io') = i" "io_frame io io'"
proof -
  note sm = reads_on_simps [OF assms(1,2)]
  define io1 where "io1 = io_set_off io i"
  have io1: "reads_on F pos s io1" using assms(1,5) by (simp add: io1_def reads_on_def io_set_off_def)
  have fl1: "mail_file pread (io_fd io1) F" using assms(2) by (simp add: io1_def)
  obtain b' bs where rd: "mboxIORead pread io1 MBOX_IO_READ_SIZE (length s) (int (pos + length s)) =
     Inr (int (length bs), io1\<lparr>io_buf := b', io_err := if bs = [] then MBOX_IO_EOF else MBOX_IO_OK\<rparr>)"
    "buf_rep b' (s @ bs)" "buf_term b'" "buf_offset b' = buf_offset (io_buf io1)" "bs = [] \<longleftrightarrow> s = drop pos F"
    "reads_on F pos (s @ bs)
     (io1\<lparr>io_buf := b', io_err := MBOX_IO_OK, io_file_offset := int (pos + length s) + int (length bs)\<rparr>)"
    by (rule reads_on_more [OF io1 fl1])
  define io2 where "io2 = io1\<lparr>io_buf := b', io_err := MBOX_IO_OK,
      io_file_offset := int (pos + length s) + int (length bs)\<rparr>"
  obtain c where c: "blk_read (buf_data (io_buf io)) 0 = Inr c"
    using holds_read [OF sm(2), of 0] holds_end [OF sm(2)] by (cases s) auto
  have "seek_headers_loop pread (Suc fuel) io = seek_headers_loop pread fuel io2"
    using assms(3-5) sm(1,4,6) c rd(1,5) assms(6)
    by (simp add: mboxBufCanParseHeaders_def reading_set_buf io1_def [symmetric] io2_def io_codes)
      (simp add: io1_def io_set_off_def io_codes)
  moreover have "\<forall>xs. pread (io_fd io) MBOX_IO_READ_SIZE (int (pos + length s)) = Some xs \<longrightarrow> length bs = length xs"
    using rd(1,5) assms(6) by (auto simp: io1_def mboxIORead_def Let_def outcome_simps split: if_splits)
  ultimately show thesis using rd(4-6) assms(6) by (intro that [of io2 bs]) (simp_all add: io2_def io1_def)
qed

text \<open>
  C32. An empty line that ends in a carriage return and a line break is missed when a read ends between the
  two: the search has passed the line break before it by then, and does not come back. When no
  other empty line follows, the reader finds no end of the headers and hands on no message at all, though the file
  is one.
\<close>

theorem mboxParserCtx_misses_cut_line:
  assumes "mail_file pread fd F" and "take 5 F = ''From ''"
    and "pread fd MBOX_IO_READ_SIZE 0 = Some bs" and "5 \<le> length bs"
    and "blank_split F (length bs)" and "header_end F 0 = Some (length bs + 1)" and "header_end F (length bs) = None"
    and "enough F < fuel"
  shows "\<exists>ctx ctx'. mboxParserCtxSeekStart pread fuel (mboxParserCtxNew raw 0 fd (length F)) = Inr ctx \<and>
     mboxParserCtxGetNextMessageCallback pread fuel
       (ctx\<lparr>pc_ioctx := mboxIOSetEndOffset (pc_ioctx ctx) (int (length F))\<rparr>) = Inr ([], ctx') \<and>
     mails F \<noteq> []"
proof -
  let ?k = "length bs"
  note bl = blank_split_nth [OF assms(5)]
  obtain f where f: "fuel = Suc f" "enough F \<le> f" using assms(8) by (cases fuel) auto
  obtain g where g: "f = Suc g" "length F < g + ?k" using f(2) assms(4) by (cases f) (auto simp: enough_def)
  obtain ctx where ctx: "mboxParserCtxSeekStart pread fuel (mboxParserCtxNew raw 0 fd (length F)) = Inr ctx"
    "pc_err ctx = MBOX_IO_OK" "io_fd (pc_ioctx ctx) = fd" "io_offset (pc_ioctx ctx) = 0"
    "buf_rep (io_buf (pc_ioctx ctx)) []" "buf_offset (io_buf (pc_ioctx ctx)) = 0"
    "reads_on F 0 [] ((pc_ioctx ctx)\<lparr>io_end_offset := int (length F)\<rparr>)"
    by (rule seek_start_at_first [where pread = pread and fuel = fuel and raw = raw and id' = 0 and e = "int (length F)",
          OF assms(1-4)]) (use f in auto)
  define io0 where "io0 = (pc_ioctx ctx)\<lparr>io_end_offset := int (length F)\<rparr>"
  obtain b where b: "move_along (io_buf io0) = Inr b" "buf_rep b []" "buf_term b" "buf_offset b = 0"
     "buf_capacity b = buf_capacity (io_buf io0)"
    using move_along_rep [of "io_buf io0" "[]" "[]"] ctx(5-7) by (auto simp: io0_def reads_on_def)
  define io1 where "io1 = io0\<lparr>io_buf := b\<rparr>"
  have io1: "reads_on F 0 [] io1" "mail_file pread (io_fd io1) F" "io_fd io1 = fd"
    using ctx(3,7) b assms(1) by (simp_all add: io1_def io0_def reads_on_def)
  note sm = reads_on_simps [OF io1(1,2)]
  have "can_parse_loop (buf_data (io_buf io1)) (length []) (buf_offset (io_buf io1)) = Inr (False, 0)"
    using b(4) by (simp add: io1_def can_parse_loop.simps)
  then obtain bs1 io2 where io2: "seek_headers_loop pread (Suc g) io1 = seek_headers_loop pread g io2"
    "\<forall>xs. pread (io_fd io1) MBOX_IO_READ_SIZE (int (0 + length [])) = Some xs \<longrightarrow> length bs1 = length xs"
    "reads_on F 0 ([] @ bs1) io2" "buf_offset (io_buf io2) = 0" "io_frame io1 io2"
    by (rule seek_headers_reads [OF io1(1,2), where i = 0 and fuel = g]) (use assms(2) in auto)
  have bs1: "length bs1 = ?k" using io2(2) assms(3) io1(3) by simp
  have fl2: "mail_file pread (io_fd io2) F" using io1(2) io2(5) by (simp add: io_frame_def)
  have rd2: "reads_on F 0 bs1 io2" using io2(3) by simp
  have pre: "bs1 = take ?k F" using rd2 bs1 by (simp add: reads_on_def)
  note sm2 = reads_on_simps [OF rd2 fl2]
  have "header_end bs1 0 \<noteq> Some h" for h
    using header_end_append [of bs1 0 h "drop ?k F"] header_end_bounds [of bs1 0 h] assms(6) pre bs1 by auto
  then have "header_end bs1 0 = None" by auto
  moreover have "nosplit bs1 bs1"
    by (auto simp: nosplit_def blank_split_def dest: arg_cong [of _ _ length])
  ultimately obtain i where i: "can_parse_loop (buf_data (io_buf io2)) (length bs1) (buf_offset (io_buf io2)) = Inr (False, i)"
      "i \<le> length bs1" "length bs1 \<le> i + 1"
    using can_parse_loop_text [OF sm2(2) _ sm2(5), of bs1] io2(4) by auto
  have "Suc (?k - 1) = ?k" using bl(1) by simp
  then have "header_end F (?k - 1) = None" using header_end_skip [of "?k - 1" F] bl assms(7) by simp
  moreover have "i = ?k \<or> i = ?k - 1" using i(2,3) bs1 by linarith
  ultimately have none: "header_end F i = None" using assms(7) by blast
  obtain g2 where g2: "g = Suc g2" "length F - ?k < g2 + 1" using g(2) bl(2) by (cases g) auto
  have "bs1 \<noteq> drop 0 F" using bs1 bl(2) by auto
  then obtain bs2 io3 where io3: "seek_headers_loop pread (Suc g2) io2 = seek_headers_loop pread g2 io3"
    "bs2 \<noteq> []" "reads_on F 0 (bs1 @ bs2) io3" "buf_offset (io_buf io3) = i" "io_frame io2 io3"
    by (rule seek_headers_reads [OF rd2 fl2 i(1) i(3,2), where fuel = g2]) auto
  have later: "\<not> blank_split F y" if "?k < y" for y
  proof
    assume "blank_split F y"
    note y = blank_split_nth [OF this]
    have "?k \<le> y - 2" using that y(1,3) bl(4) by (cases "y = ?k + 1") auto
    then have "header_end F ?k \<noteq> None"
      using header_end_later [of ?k "y - 2" F] y(5) by simp
    then show False using assms(7) by simp
  qed
  have "reading pread F 0 (bs1 @ bs2) io3"
    using io3(2,3) later bs1 read_ends_ge
    by (fastforce simp: reading_reads_on nosplit_def blank_lines_whole_def)
  moreover have "mail_file pread (io_fd io3) F" using fl2 io3(5) by (simp add: io_frame_def)
  moreover have "length F - 0 - length (bs1 @ bs2) < g2" using g2 bs1 io3(2) bl(2) by (cases bs2) auto
  ultimately obtain io4 where "seek_headers_loop pread g2 io3 = Inr (False, io4)"
    using seek_headers_fails [of pread F 0 "bs1 @ bs2" io3 g2] none io3(4) by auto
  then have "seek_headers_loop pread f io1 = Inr (False, io4)" using io2(1) io3(1) g(1) g2(1) by simp
  then have "\<exists>ctx'. mboxParserCtxGetNextMessage pread f
      (ctx\<lparr>pc_ioctx := mboxIOSetEndOffset (pc_ioctx ctx) (int (length F))\<rparr>) = Inr (None, ctx')"
    using b(1) by (simp add: mboxParserCtxGetNextMessage_def mboxParserCtxSeekHeaders_def Let_def
        mboxIOSetEndOffset_def io0_def [symmetric] io1_def [symmetric])
  then have "\<exists>ctx'. mboxParserCtxGetNextMessageCallback pread fuel
      (ctx\<lparr>pc_ioctx := mboxIOSetEndOffset (pc_ioctx ctx) (int (length F))\<rparr>) = Inr ([], ctx')"
    by (auto simp: f(1))
  moreover have "mails F \<noteq> []" by (simp add: mails.simps [of F] assms(6) split: option.splits)
  ultimately show ?thesis using ctx(1) by blast
qed

definition cut_pread :: "nat \<Rightarrow> mboxChar list \<Rightarrow> pread" where
  "cut_pread k F fd sz off = (if off = 0 then Some (take (min k sz) F) else file_pread F fd sz off)"

lemma reads_file_cut: "0 < k \<Longrightarrow> reads_file (cut_pread k F) fd F"
  unfolding reads_file_def cut_pread_def by (auto simp: file_pread_def min_def intro: exI [of _ k])

theorem mboxParserCtx_misses_cut_line_witness:
  "\<forall>raw. \<exists>ctx ctx'. mboxParserCtxSeekStart (cut_pread 15 (crlf_mails ! 1)) 200 (mboxParserCtxNew raw 0 3 27) = Inr ctx \<and>
     mboxParserCtxGetNextMessageCallback (cut_pread 15 (crlf_mails ! 1)) 200
       (ctx\<lparr>pc_ioctx := mboxIOSetEndOffset (pc_ioctx ctx) 27\<rparr>) = Inr ([], ctx') \<and>
     mails (crlf_mails ! 1) \<noteq> []"
proof -
  let ?F = "crlf_mails ! 1"
  have F: "?F = ''From b'' @ [CR, LF] @ ''K: w'' @ [CR, LF, CR, LF] @ ''good bye!!'' @ [LF]" by (simp add: crlf_mails_def)
  have len: "length ?F = 27" unfolding F by simp
  have "header_end ?F 0 = Some 16" "header_end ?F 15 = None" "blank_split ?F 15"
    unfolding F by (simp_all add: header_end.simps blank_split_def eval_nat_numeral)
  moreover have "mail_file (cut_pread 15 ?F) 3 ?F"
    using reads_file_cut by (simp add: mail_file_def len) (simp add: crlf_mails_def)
  moreover have "take 5 ?F = ''From ''" unfolding F by simp
  ultimately show ?thesis
    using mboxParserCtx_misses_cut_line [of "cut_pread 15 ?F" 3 ?F "take 15 ?F" 200]
    unfolding len by (simp add: cut_pread_def MBOX_IO_READ_SIZE_def enough_def len del: One_nat_def)
qed

definition two_mails :: "mboxChar list" where
  "two_mails = ''From a'' @ [LF] @ ''K: v'' @ [LF, LF] @ ''hi'' @ [LF] @ ''From b'' @ [LF] @ ''K: w'' @ [LF, LF] @ ''bye'' @ [LF]"

text \<open>
  C23. When no message begins in the first part of a file that is read from its start, the search
  of the first message never ends: it reads the same part again and again.
\<close>

theorem mboxParserCtxSeekStart_hangs:
  assumes "pread fd MBOX_IO_READ_SIZE 0 = Some bs" and "bs \<noteq> []" and "length bs \<le> MBOX_IO_READ_SIZE"
    and "NUL \<notin> set bs" and "\<forall>k < length bs. take 5 (drop k bs) \<noteq> ''From ''"
  shows "mboxParserCtxSeekStart pread fuel (mboxParserCtxNew raw id' fd sz) = Inl Diverges"
proof -
  have "0 < length bs" "length bs \<le> 2 ^ 60" using assms(2,3) by (simp_all add: MBOX_IO_READ_SIZE_def)
  moreover have "io_fd (mboxIONew fd sz) = fd" "io_file_offset (mboxIONew fd sz) = 0"
    by (simp_all add: mboxIONew_def)
  moreover have "\<forall>k. take 5 (drop k bs) \<noteq> ''From ''"
    using assms(5) by (metis drop_all leI list.distinct(1) take_Nil)
  ultimately have "seek_start_loop pread fuel (mboxIONew fd sz) 0 = Inl Diverges"
    using seek_start_diverges [of "length bs" "mboxIONew fd sz" pread bs fuel] unread_new [of "length bs" fd sz] assms
    by simp
  then show ?thesis
    by (simp add: mboxParserCtxSeekStart_def mboxParserCtxNew_def mboxParserCtxInit_def Let_def mboxIONew_def)
qed

theorem mboxParserCtxSeekStart_hangs_witness:
  "\<forall>fuel raw. mboxParserCtxSeekStart (file_pread ''Subject: x'') fuel (mboxParserCtxNew raw 0 3 10) = Inl Diverges"
proof -
  have "\<forall>k < length ''Subject: x''. take 5 (drop k ''Subject: x'') \<noteq> ''From ''"
    by (auto simp: less_Suc_eq numeral_eq_Suc)
  then show ?thesis
    using mboxParserCtxSeekStart_hangs [of "file_pread ''Subject: x''" 3 "''Subject: x''" _ _ 0 10]
    by (simp add: file_pread_def MBOX_IO_READ_SIZE_def)
qed

text \<open>
  C24. A zero byte makes the search of the end of the headers run for ever, wherever it stands before the
  empty line that ends them, when the buffer has at least one byte behind it: the search stops at the zero,
  or at the line break before it, has more in its buffer, and begins again where it stopped.
\<close>

theorem mboxParserCtxSeekHeaders_hangs:
  assumes "buf_rep (io_buf (pc_ioctx ctx)) s" and "buf_offset (io_buf (pc_ioctx ctx)) \<le> p"
    and "p + 1 < length s" and "s ! p = NUL" and "0 < p" and "NUL \<notin> set (take p s)"
    and "header_end (take p s) (buf_offset (io_buf (pc_ioctx ctx))) = None"
  shows "mboxParserCtxSeekHeaders pread fuel ctx = Inl Diverges"
proof -
  let ?t = "take p s"
  have lt: "length ?t = p" using assms(3) by simp
  have "length (take 3 (drop (p - 2) ?t)) < 3" if "2 \<le> p" using that by simp
  then have whole: "nosplit ?t ?t" unfolding nosplit_def blank_split_def lt by (metis length_Cons less_irrefl list.size(3) numeral_3_eq_3)
  have "seek_headers_loop pread fuel io = Inl Diverges"
    if "buf_rep (io_buf io) s" "buf_offset (io_buf io) \<le> p" "header_end ?t (buf_offset (io_buf io)) = None" for io
    using that
  proof (induction fuel arbitrary: io)
    case (Suc fuel)
    note rep = Suc.prems(1)
    have len: "buf_len (io_buf io) = length s" "length s < SIZE_MOD" using buf_repD(1,2,6) [OF rep] by simp_all
    have "text_at (buf_data (io_buf io)) 0 (?t @ [NUL])"
    proof -
      have "?t @ [NUL] = take (Suc p) s" using assms(3,4) by (simp add: take_Suc_conv_app_nth)
      moreover have "s = take (Suc p) s @ drop (Suc p) s" by simp
      ultimately show ?thesis using buf_rep_text [OF rep] by (metis text_at_append)
    qed
    then have hd: "holds (buf_data (io_buf io)) ?t" using assms(6) by (simp add: holds_def)
    obtain i where i: "can_parse_loop (buf_data (io_buf io)) (length s) (buf_offset (io_buf io)) = Inr (False, i)"
       "i \<le> p" "header_end ?t i = None"
      using can_parse_loop_within [OF hd _ _ whole Suc.prems(3), of "length s"] Suc.prems(2) lt assms(3) by auto
    have "s \<noteq> []" using assms(3) by auto
    then have "blk_read (buf_data (io_buf io)) 0 = Inr (s ! 0)" "s ! 0 \<noteq> NUL"
      using holds_read [OF hd, of 0] holds_nth [OF hd, of 0] assms(5) by simp_all
    then have "seek_headers_loop pread (Suc fuel) io = seek_headers_loop pread fuel (io_set_off io i)"
      using i(1,2) assms(3) len by (simp add: mboxBufCanParseHeaders_def reading_set_buf Let_def)
    moreover have "seek_headers_loop pread fuel (io_set_off io i) = Inl Diverges"
      using rep i(2,3) by (intro Suc.IH) (auto simp: io_set_off_def)
    ultimately show ?case by simp
  qed simp
  then show ?thesis using assms(1,2,7) by (simp add: mboxParserCtxSeekHeaders_def)
qed

text \<open>A zero in the value of the second header.\<close>

theorem mboxParserCtxSeekHeaders_hangs_witness:
  "\<forall>fuel. mboxParserCtxSeekHeaders (file_pread []) fuel
     \<lparr>pc_id = 0, pc_err = 0, pc_parsed = 0,
      pc_ioctx = (mboxIONew 3 22)\<lparr>io_buf := text_buf (''From a'' @ [LF] @ ''A: x'' @ [LF] @ ''B: '' @ [NUL, LF, LF] @ ''hi'')\<rparr>\<rparr> =
     Inl Diverges"
proof -
  let ?s = "''From a'' @ [LF] @ ''A: x'' @ [LF] @ ''B: '' @ [NUL, LF, LF] @ ''hi''"
  let ?ctx = "\<lparr>pc_id = 0, pc_err = 0, pc_parsed = 0, pc_ioctx = (mboxIONew 3 22)\<lparr>io_buf := text_buf ?s\<rparr>\<rparr>"
  have "header_end (take 15 ?s) 0 = None" by (simp add: header_end.simps)
  then show ?thesis
    using mboxParserCtxSeekHeaders_hangs [of ?ctx ?s 15] text_buf_rep [of ?s] by simp
qed

end
