(* ===== verification/Mbox_Memory.thy ===== *)
theory Mbox_Memory
  imports Mbox_Prelude "HOL-Library.Word"
begin

unbundle bit_operations_syntax

text \<open>
  The memory pool of \<open>src/src/mbox-memory.c\<close> and the array of \<open>src/src/mbox-array.c\<close>. A
  pool is a block of memory cut into pieces of eight bytes, with a bit for each piece that is
  in use; a pointer into it is the distance from its start. The number of pieces an allocation
  has stands in the five bytes before the memory it returns.
\<close>

section \<open>The pool and its operations\<close>

definition MEM_BLOCK_SIZE :: nat where "MEM_BLOCK_SIZE = 8"
definition MEM_SIZE_INFO :: nat where "MEM_SIZE_INFO = 5"

record mboxMemPool =
  mp_data :: block
  mp_blocks :: nat
  mp_allocated :: nat
  mp_bitset :: "32 word list"

text \<open>The address \<open>ptr - MEM_SIZE_INFO\<close>, which may stand before the block.\<close>

definition size_info_at :: "nat \<Rightarrow> c_error + nat" where
  "size_info_at ptr = (if MEM_SIZE_INFO \<le> ptr then Inr (ptr - MEM_SIZE_INFO) else Inl OutOfBounds)"

definition low_byte :: "32 word \<Rightarrow> mboxChar" where
  "low_byte w = chr_of (unat (w AND 0xFF))"

definition mboxMemPoolSetBlockCount :: "block \<Rightarrow> nat \<Rightarrow> 32 word \<Rightarrow> c_error + block" where
  "mboxMemPoolSetBlockCount d ptr len =
     bindE (size_info_at ptr) (\<lambda>i.
     bindE (blk_write d i (low_byte (drop_bit 24 len))) (\<lambda>d.
     bindE (blk_write d (i + 1) (low_byte (drop_bit 16 len))) (\<lambda>d.
     bindE (blk_write d (i + 2) (low_byte (drop_bit 8 len))) (\<lambda>d.
     bindE (blk_write d (i + 3) (low_byte len)) (\<lambda>d.
     blk_write d (i + 4) NUL)))))"

definition byte_word :: "mboxChar \<Rightarrow> 32 word" where
  "byte_word c = of_nat (byte c)"

definition mboxMemPoolGetBlockCount :: "block \<Rightarrow> nat \<Rightarrow> c_error + 32 word" where
  "mboxMemPoolGetBlockCount d ptr =
     bindE (size_info_at ptr) (\<lambda>i.
     bindE (blk_read d i) (\<lambda>b0.
     bindE (blk_read d (i + 1)) (\<lambda>b1.
     bindE (blk_read d (i + 2)) (\<lambda>b2.
     bindE (blk_read d (i + 3)) (\<lambda>b3.
     Inr (push_bit 24 (byte_word b0) OR push_bit 16 (byte_word b1) OR
          push_bit 8 (byte_word b2) OR byte_word b3))))))"

text \<open>\<open>calloc\<close> of \<open>n\<close> words.\<close>

definition calloc_words :: "nat \<Rightarrow> 32 word list" where
  "calloc_words n = (if 4 * n \<le> PTRDIFF_MAX then replicate n 0 else [])"

definition mboxMemPoolNew :: "nat \<Rightarrow> mboxMemPool" where
  "mboxMemPoolNew block_count =
     \<lparr>mp_data = blk_malloc (block_count * MEM_BLOCK_SIZE mod SIZE_MOD), mp_blocks = block_count,
      mp_allocated = 0, mp_bitset = calloc_words (size_add block_count 31 div 32)\<rparr>"

text \<open>\<open>0xFFFFFFFFU >> (32 - block_count)\<close>, and setting and clearing the bit of one piece.\<close>

definition run_mask :: "32 word \<Rightarrow> c_error + 32 word" where
  "run_mask block_count =
     (let n = unat (32 - block_count)
      in if n < 32 then Inr (drop_bit n 0xFFFFFFFF) else Inl BadShift)"

definition set_piece :: "nat \<Rightarrow> 32 word list \<Rightarrow> c_error + 32 word list" where
  "set_piece j bs =
     bindE (list_at bs (j div 32)) (\<lambda>w. Inr (bs[j div 32 := w OR push_bit (j mod 32) 1]))"

definition clear_piece :: "nat \<Rightarrow> nat \<Rightarrow> 32 word list \<Rightarrow> c_error + 32 word list" where
  "clear_piece word' bit' bs =
     bindE (list_at bs word') (\<lambda>w. Inr (bs[word' := w AND NOT (push_bit bit' 1)]))"

text \<open>
  The search for the first piece whose run is free within its word. The counter is an
  \<open>int\<close>.
\<close>

function pool_loop :: "mboxMemPool \<Rightarrow> 32 word \<Rightarrow> 32 word \<Rightarrow> nat \<Rightarrow> c_error + (nat option \<times> mboxMemPool)" where
  "pool_loop p block_count mask' i =
     (if i < mp_blocks p
      then bindE (list_at (mp_bitset p) (i div 32)) (\<lambda>w.
           if w AND push_bit (i mod 32) mask' = 0
           then bindE (for_range i (i + unat block_count) set_piece (mp_bitset p)) (\<lambda>bs.
                bindE (int_op (int (i * MEM_BLOCK_SIZE))) (\<lambda>off.
                let ptr = MEM_SIZE_INFO + nat off
                in bindE (mboxMemPoolSetBlockCount (mp_data p) ptr block_count) (\<lambda>d.
                   Inr (Some ptr, p\<lparr>mp_bitset := bs, mp_data := d,
                                    mp_allocated := size_add (mp_allocated p) (unat block_count)\<rparr>))))
           else bindE (int_op (int i + 1)) (\<lambda>_. pool_loop p block_count mask' (Suc i)))
      else Inr (None, p))"
  by pat_completeness auto
termination
  by (relation "measure (\<lambda>(p, block_count, mask', i). mp_blocks p - i)") auto

declare pool_loop.simps [simp del]

definition blocks_for :: "nat \<Rightarrow> 32 word" where
  "blocks_for sz = of_nat (size_sub (size_add (size_add sz MEM_SIZE_INFO) MEM_BLOCK_SIZE) 1 div MEM_BLOCK_SIZE)"

definition mboxMemPoolAlloc :: "mboxMemPool \<Rightarrow> nat \<Rightarrow> c_error + (nat option \<times> mboxMemPool)" where
  "mboxMemPoolAlloc p sz =
     bindE (run_mask (blocks_for sz)) (\<lambda>mask'. pool_loop p (blocks_for sz) mask' 0)"

text \<open>
  The index of a piece is converted to \<open>int\<close>; its word is \<open>idx / 32\<close>, which rounds
  towards zero, its bit \<open>idx & 31\<close>.
\<close>

definition free_piece :: "nat \<Rightarrow> nat \<Rightarrow> 32 word list \<Rightarrow> c_error + 32 word list" where
  "free_piece ptr i bs =
     (let idx = int_of_long (int (ptr div MEM_BLOCK_SIZE + i)); bit' = nat (idx mod 32)
      in if idx \<le> -32 then Inl OutOfBounds
         else if idx < 0 then clear_piece 0 bit' bs
         else clear_piece (nat (idx div 32)) bit' bs)"

text \<open>The pieces are freed from the last to the first; \<open>int i = len - 1\<close> may be negative.\<close>

definition mboxMemPoolFree :: "mboxMemPool \<Rightarrow> nat \<Rightarrow> c_error + mboxMemPool" where
  "mboxMemPoolFree p ptr =
     bindE (mboxMemPoolGetBlockCount (mp_data p) ptr) (\<lambda>len.
     bindE (mboxMemPoolSetBlockCount (mp_data p) ptr 0) (\<lambda>d.
     let n = nat (to_int (unat (len - 1)) + 1)
     in bindE (for_range 0 n (\<lambda>k. free_piece ptr (n - 1 - k)) (mp_bitset p)) (\<lambda>bs.
        Inr (p\<lparr>mp_data := d, mp_allocated := size_sub (mp_allocated p) (unat len), mp_bitset := bs\<rparr>))))"

definition mboxMemPoolMemCount :: "mboxMemPool \<Rightarrow> nat" where
  "mboxMemPoolMemCount p = to_uint (mp_allocated p * MEM_BLOCK_SIZE mod SIZE_MOD)"

section \<open>The array\<close>

record mboxArray =
  arr_size :: nat
  arr_capacity :: nat
  arr_memsize :: nat
  arr_entries :: block

definition mboxArrayNew :: "nat \<Rightarrow> nat \<Rightarrow> mboxArray" where
  "mboxArrayNew memsize capacity =
     \<lparr>arr_size = 0, arr_capacity = capacity, arr_memsize = memsize,
      arr_entries = (if capacity * memsize \<le> PTRDIFF_MAX then replicate (capacity * memsize) (Some NUL) else [])\<rparr>"

definition mboxArraySet :: "mboxArray \<Rightarrow> nat \<Rightarrow> block \<Rightarrow> c_error + mboxArray" where
  "mboxArraySet a idx v =
     bindE (blk_copy (arr_entries a) (arr_memsize a * idx mod SIZE_MOD) v 0 (arr_memsize a)) (\<lambda>e.
     Inr (a\<lparr>arr_entries := e\<rparr>))"

definition mboxArrayPush :: "mboxArray \<Rightarrow> block \<Rightarrow> c_error + mboxArray" where
  "mboxArrayPush a v =
     bindE (blk_copy (arr_entries a) (arr_memsize a * arr_size a mod SIZE_MOD) v 0 (arr_memsize a)) (\<lambda>e.
     Inr (a\<lparr>arr_entries := e, arr_size := size_add (arr_size a) 1\<rparr>))"

text \<open>The place of an entry, or the null pointer.\<close>

definition mboxArrayGet :: "mboxArray \<Rightarrow> nat \<Rightarrow> nat option" where
  "mboxArrayGet a idx = (if idx < arr_size a then Some (arr_memsize a * idx mod SIZE_MOD) else None)"

section \<open>The pieces in use\<close>

definition held :: "32 word list \<Rightarrow> nat set" where
  "held bs = {j. j < 32 * length bs \<and> bit (bs ! (j div 32)) (j mod 32)}"

lemma piece_word: "(j :: nat) < 32 * n \<Longrightarrow> j div 32 < n"
  by (simp add: div_less_iff_less_mult mult.commute)

lemma same_piece: "(j :: nat) div 32 = i div 32 \<Longrightarrow> j mod 32 = i mod 32 \<Longrightarrow> j = i"
  by (metis div_mult_mod_eq)

lemma set_piece_held:
  assumes "j < 32 * length bs"
  shows "\<exists>bs'. set_piece j bs = Inr bs' \<and> length bs' = length bs \<and> held bs' = insert j (held bs)"
proof -
  have "j div 32 < length bs" by (rule piece_word [OF assms])
  then show ?thesis
    using assms same_piece [of _ j]
    by (auto simp: set_piece_def held_def nth_list_update bit_or_iff bit_exp_iff
        possible_bit_def split: if_splits)
qed

lemma clear_piece_held:
  assumes "j < 32 * length bs"
  shows "\<exists>bs'. clear_piece (j div 32) (j mod 32) bs = Inr bs' \<and> length bs' = length bs \<and> held bs' = held bs - {j}"
proof -
  have "j div 32 < length bs" by (rule piece_word [OF assms])
  then show ?thesis
    using assms same_piece [of _ j]
    by (auto simp: clear_piece_def held_def nth_list_update bit_and_iff bit_not_iff bit_exp_iff
        possible_bit_def split: if_splits)
qed

lemma run_mask_bits:
  assumes "0 < unat b" and "unat b \<le> 32"
  obtains m where "run_mask b = Inr m" "\<And>k. bit m k \<longleftrightarrow> k < unat b"
proof -
  have n: "unat (32 - b) = 32 - unat b"
    using assms(2) by (subst unat_sub) (simp_all add: word_le_nat_alt)
  have "bit (drop_bit (32 - unat b) (0xFFFFFFFF :: 32 word)) k \<longleftrightarrow> k < unat b" for k
  proof -
    have m1: "(0xFFFFFFFF :: 32 word) = - 1" by simp
    show ?thesis unfolding m1 using assms by (auto simp: bit_drop_bit_eq bit_mask_iff possible_bit_def)
  qed
  then show thesis using assms(1) n by (intro that [of "drop_bit (32 - unat b) 0xFFFFFFFF"]) (simp_all add: run_mask_def)
qed

lemma run_free_iff:
  fixes w m :: "32 word"
  assumes "\<And>k. bit m k \<longleftrightarrow> k < c" and "p < 32"
  shows "w AND push_bit p m = 0 \<longleftrightarrow> (\<forall>k < c. p + k < 32 \<longrightarrow> \<not> bit w (p + k))"
proof -
  have "w AND push_bit p m = 0 \<longleftrightarrow> (\<forall>x < 32. \<not> (bit w x \<and> p \<le> x \<and> x - p < c))"
    by (auto simp: bit_eq_iff bit_and_iff bit_push_bit_iff assms(1) possible_bit_def)
  also have "\<dots> \<longleftrightarrow> (\<forall>k < c. p + k < 32 \<longrightarrow> \<not> bit w (p + k))"
    by (metis add_diff_cancel_left' le_add1 le_add_diff_inverse)
  finally show ?thesis .
qed

section \<open>The number of pieces of an allocation\<close>

lemma byte_low_byte: "byte_word (low_byte w) = w AND 0xFF"
proof -
  have "w AND 0xFF = take_bit 8 w" by (simp add: take_bit_eq_mask mask_eq_decr_exp)
  then have "unat (w AND 0xFF) = take_bit 8 (unat w)" by (simp add: unsigned_take_bit_eq)
  then have "unat (w AND 0xFF) < 256" using take_bit_nat_less_exp [of 8 "unat w"] by simp
  then show ?thesis by (simp add: byte_word_def low_byte_def byte_chr_of)
qed

lemma bytes_of_word:
  "push_bit 24 (drop_bit 24 w AND 0xFF) OR push_bit 16 (drop_bit 16 w AND 0xFF) OR
   push_bit 8 (drop_bit 8 w AND 0xFF) OR (w AND 0xFF) = (w :: 32 word)"
proof -
  have m: "(0xFF :: 32 word) = mask 8" by (simp add: mask_eq_decr_exp)
  show ?thesis
    unfolding m
  proof (rule bit_word_eqI)
    fix n assume n: "n < LENGTH(32)"
    consider "n < 8" | "8 \<le> n" "n < 16" | "16 \<le> n" "n < 24" | "24 \<le> n" by linarith
    then show "bit (push_bit 24 (drop_bit 24 w AND mask 8) OR push_bit 16 (drop_bit 16 w AND mask 8) OR
        push_bit 8 (drop_bit 8 w AND mask 8) OR (w AND mask 8)) n = bit w n"
      using n by cases (auto simp: bit_or_iff bit_push_bit_iff bit_and_iff bit_drop_bit_eq bit_mask_iff
          possible_bit_def)
  qed
qed

lemma SetBlockCount_get:
  assumes "i + 5 \<le> length d"
  obtains d' where "mboxMemPoolSetBlockCount d (5 + i) len = Inr d'" "length d' = length d"
    "mboxMemPoolGetBlockCount d' (5 + i) = Inr len"
    "\<forall>x. x < i \<or> i + 5 \<le> x \<longrightarrow> d' ! x = d ! x"
proof -
  let ?d = "d[i := Some (low_byte (drop_bit 24 len)), i + 1 := Some (low_byte (drop_bit 16 len)),
    i + 2 := Some (low_byte (drop_bit 8 len)), i + 3 := Some (low_byte len), i + 4 := Some NUL]"
  have "mboxMemPoolSetBlockCount d (5 + i) len = Inr ?d"
    using assms by (simp add: mboxMemPoolSetBlockCount_def size_info_at_def MEM_SIZE_INFO_def blk_write_def)
  moreover have "mboxMemPoolGetBlockCount ?d (5 + i) = Inr len"
    using assms bytes_of_word [of len]
    by (simp add: mboxMemPoolGetBlockCount_def size_info_at_def MEM_SIZE_INFO_def blk_read_def byte_low_byte)
  ultimately show thesis by (intro that [of ?d]) auto
qed

section \<open>Allocation\<close>

definition pool_ok :: "mboxMemPool \<Rightarrow> bool" where
  "pool_ok p \<longleftrightarrow> length (mp_bitset p) = (mp_blocks p + 31) div 32 \<and>
     length (mp_data p) = 8 * mp_blocks p \<and> mp_blocks p < 2 ^ 28"

text \<open>A run of \<open>c\<close> pieces from \<open>i\<close> on, as far as it lies in the word of \<open>i\<close>, is free.\<close>

definition run_free :: "32 word list \<Rightarrow> nat \<Rightarrow> nat \<Rightarrow> bool" where
  "run_free bs c i \<longleftrightarrow> (\<forall>k < c. i mod 32 + k < 32 \<longrightarrow> i + k \<notin> held bs)"

lemma run_free_word:
  fixes m :: "32 word"
  assumes "i < 32 * length bs" and "\<And>k. bit m k \<longleftrightarrow> k < c"
  shows "(bs ! (i div 32)) AND push_bit (i mod 32) m = 0 \<longleftrightarrow> run_free bs c i"
proof -
  have "i + k \<in> held bs \<longleftrightarrow> bit (bs ! (i div 32)) (i mod 32 + k)" if k: "i mod 32 + k < 32" for k
  proof -
    have "i + k = 32 * (i div 32) + (i mod 32 + k)" by simp
    then have d: "(i + k) div 32 = i div 32" "(i + k) mod 32 = i mod 32 + k"
      using k by (metis add_0_right div_less div_mult_self4 mult.commute zero_neq_numeral)
        (metis k mod_less mod_mult_self4 \<open>i + k = 32 * (i div 32) + (i mod 32 + k)\<close>)
    moreover have "i + k < 32 * length bs"
      using piece_word [OF assms(1)] d(1) by (metis div_less_iff_less_mult mult.commute zero_less_numeral)
    ultimately show ?thesis by (simp add: held_def)
  qed
  then show ?thesis
    unfolding run_free_iff [OF assms(2) mod_less_divisor [OF zero_less_numeral]] run_free_def by blast
qed

lemma set_run_held:
  assumes "i + c \<le> 32 * length bs"
  shows "\<exists>bs'. for_range i (i + c) set_piece bs = Inr bs' \<and> length bs' = length bs \<and> held bs' = held bs \<union> {i..<i + c}"
proof -
  let ?P = "\<lambda>j s. length s = length bs \<and> held s = held bs \<union> {i..<j}"
  have "\<exists>s'. for_range i (i + c) set_piece bs = Inr s' \<and> ?P (i + c) s'"
  proof (rule for_range_total [where P = ?P])
    fix j s assume j: "i \<le> j" "j < i + c" "?P j s"
    then have "j < 32 * length s" using assms by simp
    then obtain s' where "set_piece j s = Inr s'" "length s' = length s" "held s' = insert j (held s)"
      using set_piece_held by blast
    then show "\<exists>s'. set_piece j s = Inr s' \<and> ?P (Suc j) s'" using j by auto
  qed auto
  then show ?thesis by blast
qed

lemma pool_loop_skips:
  assumes "pool_ok p" and "\<And>k. bit m k \<longleftrightarrow> k < unat b"
    and "i \<le> j" and "j \<le> mp_blocks p" and "\<forall>k. i \<le> k \<and> k < j \<longrightarrow> \<not> run_free (mp_bitset p) (unat b) k"
  shows "pool_loop p b m i = pool_loop p b m j"
  using assms(3,5)
proof (induction "j - i" arbitrary: i)
  case (Suc x)
  then have lt: "i < j" "i < mp_blocks p" "i < 32 * length (mp_bitset p)" "mp_blocks p < 2 ^ 28"
    using assms(1,4) by (auto simp: pool_ok_def)
  have "int_op (int i + 1) = Inr (int i + 1)" using lt(2,4) by (intro int_op_small) auto
  moreover have "\<not> run_free (mp_bitset p) (unat b) i" using Suc.prems lt(1) by simp
  ultimately have "pool_loop p b m i = pool_loop p b m (Suc i)"
    using lt run_free_word [OF lt(3) assms(2)] piece_word [OF lt(3)]
    by (subst pool_loop.simps) simp
  moreover have "x = j - Suc i" using Suc.hyps(2) by simp
  ultimately show ?case using Suc.hyps(1) [of "Suc i"] Suc.prems(2) lt(1) by simp
qed simp

lemma pool_loop_finds:
  assumes "pool_ok p" and "\<And>k. bit m k \<longleftrightarrow> k < unat b"
    and "i \<le> j" and "j < mp_blocks p" and "run_free (mp_bitset p) (unat b) j"
    and "\<forall>k. i \<le> k \<and> k < j \<longrightarrow> \<not> run_free (mp_bitset p) (unat b) k" and "j + unat b \<le> 32 * length (mp_bitset p)"
  shows "\<exists>p'. pool_loop p b m i = Inr (Some (5 + 8 * j), p') \<and> pool_ok p' \<and> mp_blocks p' = mp_blocks p \<and>
     held (mp_bitset p') = held (mp_bitset p) \<union> {j..<j + unat b} \<and>
     mp_allocated p' = size_add (mp_allocated p) (unat b) \<and>
     mboxMemPoolGetBlockCount (mp_data p') (5 + 8 * j) = Inr b"
proof -
  have lt: "j < 32 * length (mp_bitset p)" "mp_blocks p < 2 ^ 28"
    using assms(1,4) by (auto simp: pool_ok_def)
  obtain bs where bs: "for_range j (j + unat b) set_piece (mp_bitset p) = Inr bs"
    "length bs = length (mp_bitset p)" "held bs = held (mp_bitset p) \<union> {j..<j + unat b}"
    using set_run_held [OF assms(7)] by blast
  have "8 * j + 5 \<le> length (mp_data p)" using assms(1,4) by (simp add: pool_ok_def)
  then obtain d where d: "mboxMemPoolSetBlockCount (mp_data p) (5 + 8 * j) b = Inr d"
    "length d = length (mp_data p)" "mboxMemPoolGetBlockCount d (5 + 8 * j) = Inr b"
    using SetBlockCount_get by metis
  have "int (j * 8) < 2 ^ 31" using assms(4) lt(2) by simp
  then have "int_op (int (j * 8)) = Inr (int (j * 8))" by (intro int_op_small) auto
  then have "pool_loop p b m j = Inr (Some (5 + 8 * j), p\<lparr>mp_bitset := bs, mp_data := d,
      mp_allocated := size_add (mp_allocated p) (unat b)\<rparr>)"
    using assms(4,5) run_free_word [OF lt(1) assms(2)] piece_word [OF lt(1)] bs(1) d(1)
    by (subst pool_loop.simps) (simp add: MEM_BLOCK_SIZE_def MEM_SIZE_INFO_def nat_mult_distrib mult.commute)
  moreover have "pool_loop p b m i = pool_loop p b m j"
    by (rule pool_loop_skips [OF assms(1,2,3) less_imp_le [OF assms(4)] assms(6)])
  ultimately show ?thesis using assms(1) bs(2,3) d(2,3) by (simp add: pool_ok_def)
qed

text \<open>A run that goes on behind the last word of the bit set is marked all the same.\<close>

lemma set_run_overruns:
  assumes "j < hi" and "32 * length bs < hi"
  shows "for_range j hi set_piece bs = Inl OutOfBounds"
  using assms
proof (induction "hi - j" arbitrary: j bs)
  case (Suc x)
  show ?case
  proof (cases "j < 32 * length bs")
    case True
    then obtain bs' where bs': "set_piece j bs = Inr bs'" "length bs' = length bs"
      using set_piece_held by blast
    have "Suc j < hi" "x = hi - Suc j" using True Suc.prems Suc.hyps(2) by linarith+
    then show ?thesis using Suc.hyps(1) [of "Suc j" bs'] Suc.prems bs' by (simp del: for_range_step add: for_range.simps [of j])
  next
    case False
    then have "\<not> j div 32 < length bs" by (simp add: div_less_iff_less_mult mult.commute)
    then show ?thesis using Suc.prems(1) by (simp add: set_piece_def list_at_def)
  qed
qed simp

lemma pool_loop_overruns:
  assumes "pool_ok p" and "\<And>k. bit m k \<longleftrightarrow> k < unat b"
    and "j < mp_blocks p" and "run_free (mp_bitset p) (unat b) j"
    and "\<forall>k. i \<le> k \<and> k < j \<longrightarrow> \<not> run_free (mp_bitset p) (unat b) k" and "32 * length (mp_bitset p) < j + unat b"
    and "i \<le> j"
  shows "pool_loop p b m i = Inl OutOfBounds"
proof -
  have lt: "j < 32 * length (mp_bitset p)" using assms(1,3) by (auto simp: pool_ok_def)
  have "for_range j (j + unat b) set_piece (mp_bitset p) = Inl OutOfBounds"
    using assms(6) lt by (intro set_run_overruns) auto
  then have "pool_loop p b m j = Inl OutOfBounds"
    using assms(3,4) run_free_word [OF lt assms(2)] piece_word [OF lt]
    by (subst pool_loop.simps) (simp del: for_range_step)
  then show ?thesis using pool_loop_skips [OF assms(1,2,7) less_imp_le [OF assms(3)] assms(5)] by simp
qed

lemma pool_loop_none:
  assumes "pool_ok p" and "\<And>k. bit m k \<longleftrightarrow> k < unat b"
    and "\<forall>k < mp_blocks p. i \<le> k \<longrightarrow> \<not> run_free (mp_bitset p) (unat b) k"
  shows "pool_loop p b m i = Inr (None, p)"
proof (cases "i \<le> mp_blocks p")
  case True
  then have "pool_loop p b m i = pool_loop p b m (mp_blocks p)"
    using assms by (intro pool_loop_skips) auto
  then show ?thesis by (subst (asm) (2) pool_loop.simps) simp
qed (simp add: pool_loop.simps)

text \<open>The pieces that an allocation of up to 251 bytes takes: with its five bytes, rounded up.\<close>

definition pieces :: "nat \<Rightarrow> nat" where
  "pieces sz = (sz + 12) div 8"

lemma blocks_for_pieces:
  assumes "sz \<le> 251"
  shows "unat (blocks_for sz) = pieces sz" "0 < pieces sz" "pieces sz \<le> 32"
proof -
  have "size_sub (size_add (size_add sz 5) 8) 1 = sz + 12" using assms by simp
  moreover show "pieces sz \<le> 32" "0 < pieces sz" using assms by (simp_all add: pieces_def)
  ultimately show "unat (blocks_for sz) = pieces sz"
    by (simp add: blocks_for_def MEM_SIZE_INFO_def MEM_BLOCK_SIZE_def pieces_def unat_of_nat)
qed

lemma free_run:
  assumes "n \<le> c" and "j + c \<le> 32 * length bs" and "j + c < 2 ^ 31"
  shows "\<exists>bs'. for_range n c (\<lambda>k. free_piece (5 + 8 * j) (c - 1 - k)) bs = Inr bs' \<and> length bs' = length bs \<and>
     held bs' = held bs - {j..<j + (c - n)}"
proof -
  have step: "\<exists>s'. free_piece (5 + 8 * j) (c - 1 - k) s = Inr s' \<and> length s' = length s \<and>
     held s' = held s - {j + (c - 1 - k)}" if "k < c" "length s = length bs" for k s
  proof -
    define x where "x = j + (c - 1 - k)"
    have x: "x < 32 * length s" "x < 2 ^ 31" using that assms(2,3) by (simp_all add: x_def)
    have "(5 + 8 * j) div MEM_BLOCK_SIZE + (c - 1 - k) = x" by (simp add: MEM_BLOCK_SIZE_def x_def)
    then have "int_of_long (int ((5 + 8 * j) div MEM_BLOCK_SIZE + (c - 1 - k))) = int x"
      using x(2) by (simp only:) (rule int_of_long_small, simp_all)
    moreover have "nat (int x div 32) = x div 32" "nat (int x mod 32) = x mod 32"
      by (simp_all add: nat_div_distrib nat_mod_distrib)
    ultimately have "free_piece (5 + 8 * j) (c - 1 - k) s = clear_piece (x div 32) (x mod 32) s"
      by (simp only: free_piece_def Let_def) simp
    then show ?thesis using clear_piece_held [OF x(1)] by (simp add: x_def)
  qed
  let ?P = "\<lambda>k s. length s = length bs \<and> held s = held bs - {j + (c - k)..<j + (c - n)}"
  have "\<exists>s'. for_range n c (\<lambda>k. free_piece (5 + 8 * j) (c - 1 - k)) bs = Inr s' \<and> ?P c s'"
  proof (rule for_range_total [where P = ?P])
    fix k s assume k: "n \<le> k" "k < c" "?P k s"
    then obtain s' where "free_piece (5 + 8 * j) (c - 1 - k) s = Inr s'" "length s' = length s"
      "held s' = held s - {j + (c - 1 - k)}"
      using step by blast
    moreover have "{j + (c - Suc k)..<j + (c - n)} = insert (j + (c - 1 - k)) {j + (c - k)..<j + (c - n)}"
      using k(1,2) by auto
    ultimately show "\<exists>s'. free_piece (5 + 8 * j) (c - 1 - k) s = Inr s' \<and> ?P (Suc k) s'" using k by auto
  qed (use assms(1) in auto)
  then show ?thesis by auto
qed

section \<open>Properties of the pool and the array\<close>

text \<open>
  C33. An allocation of up to 251 bytes takes the first run of pieces that is free as far as it
  lies in the word of its first piece. When the run ends within the words of the bit set, all of it is marked
  and its length is recorded in front of the memory that is returned; the pieces of the
  run in the next word are not looked at, so one in use there is given out a second time, and so are pieces
  of the last word behind the end of the pool. When the run goes on behind the last word, which is what happens as soon
  as only its end is free, the code writes behind the bit set. It returns null, and changes nothing, only when there is no
  such run at all.
\<close>

theorem mboxMemPoolAlloc_first_fit:
  assumes "pool_ok p" and "sz \<le> 251"
  shows "(\<forall>j < mp_blocks p. run_free (mp_bitset p) (pieces sz) j \<longrightarrow>
      (\<forall>k < j. \<not> run_free (mp_bitset p) (pieces sz) k) \<longrightarrow>
      (if j + pieces sz \<le> 32 * length (mp_bitset p)
       then \<exists>p'. mboxMemPoolAlloc p sz = Inr (Some (5 + 8 * j), p') \<and> pool_ok p' \<and>
         held (mp_bitset p') = held (mp_bitset p) \<union> {j..<j + pieces sz} \<and>
         mp_allocated p' = size_add (mp_allocated p) (pieces sz) \<and>
         mboxMemPoolGetBlockCount (mp_data p') (5 + 8 * j) = Inr (of_nat (pieces sz))
       else mboxMemPoolAlloc p sz = Inl OutOfBounds)) \<and>
     ((\<forall>j < mp_blocks p. \<not> run_free (mp_bitset p) (pieces sz) j) \<longrightarrow> mboxMemPoolAlloc p sz = Inr (None, p))"
proof (rule conjI)
  note bf = blocks_for_pieces [OF assms(2)]
  obtain m where m: "run_mask (blocks_for sz) = Inr m" "\<And>k. bit m k \<longleftrightarrow> k < unat (blocks_for sz)"
    using run_mask_bits [of "blocks_for sz"] bf by metis
  have w: "blocks_for sz = of_nat (pieces sz)" by (simp flip: bf(1))
  have found: "\<exists>p'. mboxMemPoolAlloc p sz = Inr (Some (5 + 8 * j), p') \<and> pool_ok p' \<and>
         held (mp_bitset p') = held (mp_bitset p) \<union> {j..<j + pieces sz} \<and>
         mp_allocated p' = size_add (mp_allocated p) (pieces sz) \<and>
         mboxMemPoolGetBlockCount (mp_data p') (5 + 8 * j) = Inr (of_nat (pieces sz))"
    if "j < mp_blocks p" "run_free (mp_bitset p) (pieces sz) j"
      "\<forall>k < j. \<not> run_free (mp_bitset p) (pieces sz) k" "j + pieces sz \<le> 32 * length (mp_bitset p)" for j
    using pool_loop_finds [OF assms(1) m(2) le0 that(1)] that(2-4) m(1) bf(1) w
    by (auto simp: mboxMemPoolAlloc_def)
  have over: "mboxMemPoolAlloc p sz = Inl OutOfBounds"
    if "j < mp_blocks p" "run_free (mp_bitset p) (pieces sz) j"
      "\<forall>k < j. \<not> run_free (mp_bitset p) (pieces sz) k" "\<not> j + pieces sz \<le> 32 * length (mp_bitset p)" for j
    using pool_loop_overruns [OF assms(1) m(2) that(1) _ _ _ le0] that(2-4) m(1) bf(1)
    by (simp add: mboxMemPoolAlloc_def)
  show "\<forall>j < mp_blocks p. run_free (mp_bitset p) (pieces sz) j \<longrightarrow>
      (\<forall>k < j. \<not> run_free (mp_bitset p) (pieces sz) k) \<longrightarrow>
      (if j + pieces sz \<le> 32 * length (mp_bitset p)
       then \<exists>p'. mboxMemPoolAlloc p sz = Inr (Some (5 + 8 * j), p') \<and> pool_ok p' \<and>
         held (mp_bitset p') = held (mp_bitset p) \<union> {j..<j + pieces sz} \<and>
         mp_allocated p' = size_add (mp_allocated p) (pieces sz) \<and>
         mboxMemPoolGetBlockCount (mp_data p') (5 + 8 * j) = Inr (of_nat (pieces sz))
       else mboxMemPoolAlloc p sz = Inl OutOfBounds)"
    using found over by (simp split: if_split)
  show "(\<forall>j < mp_blocks p. \<not> run_free (mp_bitset p) (pieces sz) j) \<longrightarrow> mboxMemPoolAlloc p sz = Inr (None, p)"
    using pool_loop_none [OF assms(1) m(2)] m(1) bf(1) by (simp add: mboxMemPoolAlloc_def)
qed

text \<open>Pieces 0 to 29 and 32 are in use; an allocation of three pieces takes 30, 31 and 32.\<close>

definition crowded_pool :: mboxMemPool where
  "crowded_pool = (mboxMemPoolNew 64)\<lparr>mp_bitset := [mask 30, 1]\<rparr>"

lemma crowded_held: "k < 30 \<or> k = 32 \<Longrightarrow> k \<in> held (mp_bitset crowded_pool)"
  "k = 30 \<or> k = 31 \<Longrightarrow> k \<notin> held (mp_bitset crowded_pool)"
  by (auto simp: crowded_pool_def held_def bit_mask_iff possible_bit_def)

lemma crowded_ok: "pool_ok crowded_pool" "mp_blocks crowded_pool = 64" "length (mp_bitset crowded_pool) = 2"
  by (simp_all add: crowded_pool_def pool_ok_def mboxMemPoolNew_def MEM_BLOCK_SIZE_def)

lemma crowded_runs: "k < 30 \<Longrightarrow> 0 < c \<Longrightarrow> \<not> run_free (mp_bitset crowded_pool) c k"
  "run_free (mp_bitset crowded_pool) 3 30" "run_free (mp_bitset crowded_pool) 1 30"
proof -
  show "\<not> run_free (mp_bitset crowded_pool) c k" if "k < 30" "0 < c"
    using that crowded_held(1) [of k] unfolding run_free_def by (auto intro!: exI [of _ 0])
  show "run_free (mp_bitset crowded_pool) 3 30" "run_free (mp_bitset crowded_pool) 1 30"
    using crowded_held(2) by (auto simp: run_free_def less_Suc_eq numeral_3_eq_3)
qed

text \<open>All pieces but the last are in use; an allocation of two pieces writes behind the bit set.\<close>

definition full_pool :: mboxMemPool where
  "full_pool = (mboxMemPoolNew 32)\<lparr>mp_bitset := [mask 31]\<rparr>"

lemma full_ok: "pool_ok full_pool" "mp_blocks full_pool = 32" "length (mp_bitset full_pool) = 1"
  by (simp_all add: full_pool_def pool_ok_def mboxMemPoolNew_def MEM_BLOCK_SIZE_def)

lemma full_runs: "k < 31 \<Longrightarrow> \<not> run_free (mp_bitset full_pool) 2 k" "run_free (mp_bitset full_pool) 2 31"
proof -
  have h: "k < 31 \<Longrightarrow> k \<in> held (mp_bitset full_pool)" "31 \<notin> held (mp_bitset full_pool)" for k
    by (auto simp: full_pool_def held_def bit_mask_iff possible_bit_def)
  show "\<not> run_free (mp_bitset full_pool) 2 k" if "k < 31"
    using that h(1) [of k] unfolding run_free_def by (auto intro!: exI [of _ 0])
  show "run_free (mp_bitset full_pool) 2 31" using h(2) by (auto simp: run_free_def less_Suc_eq numeral_2_eq_2)
qed

theorem mboxMemPoolAlloc_first_fit_witness:
  "32 \<in> held (mp_bitset crowded_pool) \<and>
   (\<exists>p'. mboxMemPoolAlloc crowded_pool 12 = Inr (Some 245, p') \<and>
      held (mp_bitset p') = held (mp_bitset crowded_pool) \<union> {30, 31, 32}) \<and>
   mboxMemPoolAlloc full_pool 8 = Inl OutOfBounds"
proof (intro conjI)
  show "32 \<in> held (mp_bitset crowded_pool)" using crowded_held(1) by simp
  have pc: "pieces 12 = 3" "pieces 8 = 2" by (simp_all add: pieces_def)
  have "{30..<33} = {30, 31, 32 :: nat}" by auto
  moreover have "30 < mp_blocks crowded_pool" "\<forall>k < 30. \<not> run_free (mp_bitset crowded_pool) (pieces 12) k"
    "run_free (mp_bitset crowded_pool) (pieces 12) 30" "30 + pieces 12 \<le> 32 * length (mp_bitset crowded_pool)"
    using crowded_ok(2,3) crowded_runs by (simp_all add: pc)
  ultimately show "\<exists>p'. mboxMemPoolAlloc crowded_pool 12 = Inr (Some 245, p') \<and>
      held (mp_bitset p') = held (mp_bitset crowded_pool) \<union> {30, 31, 32}"
    using conjunct1 [OF mboxMemPoolAlloc_first_fit [OF crowded_ok(1), of 12], rule_format, of 30] by (auto simp: pc)
  have "31 < mp_blocks full_pool" "\<forall>k < 31. \<not> run_free (mp_bitset full_pool) (pieces 8) k"
    "run_free (mp_bitset full_pool) (pieces 8) 31" "\<not> 31 + pieces 8 \<le> 32 * length (mp_bitset full_pool)"
    using full_ok(2,3) full_runs by (simp_all add: pc)
  then show "mboxMemPoolAlloc full_pool 8 = Inl OutOfBounds"
    using conjunct1 [OF mboxMemPoolAlloc_first_fit [OF full_ok(1), of 8], rule_format, of 31] by simp
qed

text \<open>
  Freeing what was allocated gives back the pool: the same pieces are in use and the same
  number of them is counted, when all pieces of the run were free.
\<close>

theorem mboxMemPool_alloc_free:
  assumes "pool_ok p" and "sz \<le> 251" and "mboxMemPoolAlloc p sz = Inr (Some ptr, p')"
    and "j < mp_blocks p" and "\<forall>k < j. \<not> run_free (mp_bitset p) (pieces sz) k"
    and "\<forall>k < pieces sz. j + k \<notin> held (mp_bitset p)" and "j + pieces sz \<le> 32 * length (mp_bitset p)"
    and "mp_allocated p < 2 ^ 63"
  shows "\<exists>p''. mboxMemPoolFree p' ptr = Inr p'' \<and> pool_ok p'' \<and>
     held (mp_bitset p'') = held (mp_bitset p) \<and> mp_allocated p'' = mp_allocated p"
proof -
  note bf = blocks_for_pieces [OF assms(2)]
  define c where "c = pieces sz"
  obtain m where m: "run_mask (blocks_for sz) = Inr m" "\<And>k. bit m k \<longleftrightarrow> k < unat (blocks_for sz)"
    using run_mask_bits [of "blocks_for sz"] bf by metis
  have "run_free (mp_bitset p) (unat (blocks_for sz)) j" using assms(6) bf(1) by (simp add: run_free_def)
  then have p': "ptr = 5 + 8 * j" "pool_ok p'" "mp_blocks p' = mp_blocks p"
    "held (mp_bitset p') = held (mp_bitset p) \<union> {j..<j + c}" "mp_allocated p' = size_add (mp_allocated p) c"
    "mboxMemPoolGetBlockCount (mp_data p') (5 + 8 * j) = Inr (blocks_for sz)"
    using pool_loop_finds [OF assms(1) m(2) le0 assms(4)] assms(3,5,7) m(1) bf(1)
    by (auto simp: mboxMemPoolAlloc_def c_def)
  have c: "0 < c" "c \<le> 32" using bf by (simp_all add: c_def)
  have lt: "j < 2 ^ 28" "8 * j + 5 \<le> length (mp_data p')" "length (mp_bitset p') = length (mp_bitset p)"
    using assms(1,4) p'(2,3) by (simp_all add: pool_ok_def)
  obtain d where d: "mboxMemPoolSetBlockCount (mp_data p') (5 + 8 * j) 0 = Inr d" "length d = length (mp_data p')"
    using SetBlockCount_get [of "8 * j" "mp_data p'" 0] lt(2) by metis
  have "unat (blocks_for sz - 1) = c - 1"
    using bf(1) c by (subst unat_sub) (simp_all add: c_def word_le_nat_alt)
  then have n: "nat (to_int (unat (blocks_for sz - 1)) + 1) = c" using c by simp
  have "j + c < 2 ^ 31" using lt(1) c(2) by simp
  then obtain bs where bs: "for_range 0 c (\<lambda>k. free_piece (5 + 8 * j) (c - 1 - k)) (mp_bitset p') = Inr bs"
    "length bs = length (mp_bitset p')" "held bs = held (mp_bitset p') - {j..<j + c}"
    using free_run [of 0 c j "mp_bitset p'"] assms(7) lt(3) by (auto simp: c_def)
  have "held bs = held (mp_bitset p)"
    using bs(3) p'(4) assms(6) by (auto simp: c_def) (metis le_add_diff_inverse less_diff_conv2 nat_add_left_cancel_less)
  moreover have "size_sub (mp_allocated p') (unat (blocks_for sz)) = mp_allocated p"
    using p'(5) assms(8) c(2) bf(1) by (simp add: c_def)
  ultimately show ?thesis
    using p'(1,2,6) d n bs(1,2) by (simp add: mboxMemPoolFree_def Let_def pool_ok_def)
qed

theorem mboxMemPool_alloc_free_witness:
  "\<exists>p' p''. mboxMemPoolAlloc crowded_pool 3 = Inr (Some 245, p') \<and> mboxMemPoolFree p' 245 = Inr p'' \<and>
     held (mp_bitset p'') = held (mp_bitset crowded_pool)"
proof -
  have pc: "pieces 3 = 1" by (simp add: pieces_def)
  have u: "unat (blocks_for 3) = 1" using blocks_for_pieces(1) [of 3] pc by simp
  obtain m where m: "run_mask (blocks_for 3) = Inr m" "\<And>k. bit m k \<longleftrightarrow> k < unat (blocks_for 3)"
    by (rule run_mask_bits [of "blocks_for 3"]) (use u in auto)
  obtain p' where p': "mboxMemPoolAlloc crowded_pool 3 = Inr (Some 245, p')"
    using pool_loop_finds [OF crowded_ok(1) m(2) le0, of 30] crowded_ok(2,3) crowded_runs m(1) u
    by (auto simp: mboxMemPoolAlloc_def)
  have "mp_allocated crowded_pool = 0" by (simp add: crowded_pool_def mboxMemPoolNew_def)
  then show ?thesis
    using mboxMemPool_alloc_free [OF crowded_ok(1) _ p', of 30] crowded_ok(2,3) crowded_runs crowded_held(2) pc p'
    by auto
qed

text \<open>
  A value put at the end of an array is read back at its index, and the values before it are
  kept; in a full array the copy leaves the memory of the array, which never grows.
\<close>

theorem mboxArrayPush_get:
  assumes "length (arr_entries a) = arr_capacity a * arr_memsize a" and "arr_capacity a * arr_memsize a < 2 ^ 63"
    and "length v = arr_memsize a" and "0 < arr_memsize a"
  shows "(arr_size a < arr_capacity a \<longrightarrow>
      (\<exists>a'. mboxArrayPush a v = Inr a' \<and> arr_size a' = arr_size a + 1 \<and>
         (\<exists>at. mboxArrayGet a' (arr_size a) = Some at \<and> take (arr_memsize a) (drop at (arr_entries a')) = v \<and>
            take at (arr_entries a') = take at (arr_entries a)))) \<and>
     (arr_size a = arr_capacity a \<longrightarrow> mboxArrayPush a v = Inl OutOfBounds)"
proof -
  define k where "k = arr_memsize a * arr_size a"
  have full: "arr_memsize a * arr_size a < 2 ^ 63" if "arr_size a \<le> arr_capacity a"
    using that assms(2) by (metis mult.commute mult_le_mono1 order.strict_trans1)
  have "mboxArrayPush a v = Inl OutOfBounds" if "arr_size a = arr_capacity a"
    using that assms full by (simp add: mboxArrayPush_def blk_copy_def mult.commute)
  moreover have "\<exists>a'. mboxArrayPush a v = Inr a' \<and> arr_size a' = arr_size a + 1 \<and>
         (\<exists>at. mboxArrayGet a' (arr_size a) = Some at \<and> take (arr_memsize a) (drop at (arr_entries a')) = v \<and>
            take at (arr_entries a') = take at (arr_entries a))" if "arr_size a < arr_capacity a"
  proof -
    have "k + arr_memsize a = arr_memsize a * (arr_size a + 1)" by (simp add: k_def)
    also have "\<dots> \<le> arr_memsize a * arr_capacity a" using that by (intro mult_le_mono2) simp
    finally have fit: "k + arr_memsize a \<le> length (arr_entries a)" using assms(1) by (simp add: mult.commute)
    have k: "k < 2 ^ 63" using full that by (simp add: k_def)
    have "arr_size a \<le> k" using assms(4) by (simp add: k_def)
    then have sz: "size_add (arr_size a) 1 = arr_size a + 1" using k by simp
    define e where "e = take k (arr_entries a) @ v @ drop (k + arr_memsize a) (arr_entries a)"
    have "mboxArrayPush a v = Inr (a\<lparr>arr_entries := e, arr_size := arr_size a + 1\<rparr>)"
      using fit k sz assms(3) by (simp add: mboxArrayPush_def blk_copy_def k_def [symmetric] e_def)
    moreover have "mboxArrayGet (a\<lparr>arr_entries := e, arr_size := arr_size a + 1\<rparr>) (arr_size a) = Some k"
      using k by (simp add: mboxArrayGet_def k_def [symmetric])
    moreover have "take (arr_memsize a) (drop k e) = v" "take k e = take k (arr_entries a)"
      using fit assms(3) by (simp_all add: e_def)
    ultimately show ?thesis by auto
  qed
  ultimately show ?thesis by blast
qed

theorem mboxArrayPush_get_witness:
  "(\<exists>a'. mboxArrayPush (mboxArrayNew 2 1) [Some TAB, None] = Inr a' \<and> arr_size a' = 1 \<and>
     mboxArrayGet a' 0 = Some 0 \<and> arr_entries a' = [Some TAB, None] \<and>
     mboxArrayPush a' [Some TAB, None] = Inl OutOfBounds)"
proof -
  define a where "a = mboxArrayNew 2 1"
  have a: "arr_entries a = [Some NUL, Some NUL]" "arr_size a = 0" "arr_capacity a = 1" "arr_memsize a = 2"
    by (simp_all add: a_def mboxArrayNew_def) (simp add: numeral_2_eq_2)
  obtain a' where a': "mboxArrayPush a [Some TAB, None] = Inr a'" "arr_size a' = 1"
    using mboxArrayPush_get [of a "[Some TAB, None]"] a by auto
  then have "a' = a\<lparr>arr_entries := [Some TAB, None], arr_size := 1\<rparr>"
    using a by (auto simp: mboxArrayPush_def blk_copy_def)
  then show ?thesis
    using a' a mboxArrayPush_get [of a' "[Some TAB, None]"] unfolding a_def [symmetric]
    by (intro exI [of _ a']) (simp add: mboxArrayGet_def)
qed

end
