(* ===== verification/Mbox_Message.thy ===== *)
theory Mbox_Message
  imports Mbox_Msg Mbox_HeaderParser Mbox_Date Mbox_Reader
begin

text \<open>
  The summary of a message, \<open>mboxMsgLiteFromBuffer\<close> and \<open>mboxMsgLiteCreate\<close> of
  \<open>src/src/mbox-msg.c\<close>: its headers are parsed, the ones the library knows looked up and
  copied, the date converted to seconds and the beginning of the body copied.
\<close>

section \<open>Building a summary\<close>

definition MBOX_BUF_PREVIEW_LEN :: nat where "MBOX_BUF_PREVIEW_LEN = 420"

definition MBOX_HEADER_FROM_LINE :: int where "MBOX_HEADER_FROM_LINE = 0"
definition MBOX_HEADER_CONTENT_TYPE :: int where "MBOX_HEADER_CONTENT_TYPE = 1"
definition MBOX_HEADER_CONTENT_TRANSFER_ENCODING :: int where "MBOX_HEADER_CONTENT_TRANSFER_ENCODING = 2"
definition MBOX_HEADER_FROM :: int where "MBOX_HEADER_FROM = 3"
definition MBOX_HEADER_DATE :: int where "MBOX_HEADER_DATE = 4"
definition MBOX_HEADER_SUBJECT :: int where "MBOX_HEADER_SUBJECT = 6"
definition MBOX_HEADER_MSG_ID :: int where "MBOX_HEADER_MSG_ID = 7"

lemmas header_numbers = MBOX_HEADER_FROM_LINE_def MBOX_HEADER_FROM_def MBOX_HEADER_DATE_def
  MBOX_HEADER_SUBJECT_def MBOX_HEADER_MSG_ID_def

text \<open>\<open>raw\<close> is what the fresh memory holds: the member \<open>from_line\<close> is not set.\<close>

definition mboxMsgLiteNew :: "mboxMsgLite \<Rightarrow> mboxMsgLite" where
  "mboxMsgLiteNew raw = raw\<lparr>m_end := 0, m_start := 0, m_unix_timestamp := 0, m_date := None,
     m_from := None, m_msg_id := None, m_subject := None, m_preview := None\<rparr>"

text \<open>
  The date of a message in seconds: what the parser left in the structure is used whenever the
  hour is set.
\<close>

definition msg_timestamp :: "(c_tm \<Rightarrow> int) \<Rightarrow> mboxBuf option \<Rightarrow> c_error + int" where
  "msg_timestamp mktime date =
     (case date of
        None \<Rightarrow> Inr 0
      | Some b \<Rightarrow>
          bindE (mboxDateStringToStruct (buf_data b) (c_lit MBOX_DATE_FORMAT)) (\<lambda>(_, d).
          if tm_hour d \<noteq> -1 then mboxDateStructToUnix mktime d else Inr 0))"

text \<open>
  For a message without a sender the keys of its headers are printed, which is left out. The
  tree and what it holds are released at the end.
\<close>

definition mboxMsgLiteFromBuffer ::
  "(c_tm \<Rightarrow> int) \<Rightarrow> (mboxBuf, mboxBuf) rbheap \<Rightarrow> mboxBuf \<Rightarrow> int \<Rightarrow> int \<Rightarrow>
     c_error + ((mboxBuf, mboxBuf) rbheap \<times> mboxMsgLite \<times> mboxBuf)" where
  "mboxMsgLiteFromBuffer mktime h buf start_offset end_offset =
     bindE (mboxParseEmailHeaders h buf) (\<lambda>(h, headers, buf).
     bindE (mboxHeadersGet h headers MBOX_HEADER_FROM) (\<lambda>from.
     bindE (mboxHeadersGet h headers MBOX_HEADER_SUBJECT) (\<lambda>subject.
     bindE (mboxHeadersGet h headers MBOX_HEADER_DATE) (\<lambda>date.
     bindE (mboxHeadersGet h headers MBOX_HEADER_MSG_ID) (\<lambda>msg_id.
     bindE (mboxBufDupRaw (buf_data buf) (buf_offset buf) MBOX_BUF_PREVIEW_LEN MBOX_BUF_PREVIEW_LEN) (\<lambda>preview.
     bindE (mboxHeadersGet h headers MBOX_HEADER_FROM_LINE) (\<lambda>from_line.
     bindE (msg_timestamp mktime date) (\<lambda>unix_timestamp.
     bindE (mboxBufMaybeDup msg_id) (\<lambda>msg_id.
     bindE (mboxBufMaybeDup from) (\<lambda>from.
     bindE (mboxBufMaybeDup subject) (\<lambda>subject.
     bindE (mboxBufMaybeDup date) (\<lambda>date.
     bindE (mboxBufMaybeDup from_line) (\<lambda>from_line.
     bindE (mboxRBTreeRelease h (Some headers)) (\<lambda>h.
     Inr (h, \<lparr>m_msg_id = msg_id, m_from = from, m_subject = subject, m_date = date,
              m_preview = Some preview, m_from_line = from_line, m_unix_timestamp = unix_timestamp,
              m_start = nat (start_offset mod 2 ^ 64), m_end = nat (end_offset mod 2 ^ 64)\<rparr>, buf)))))))))))))))"

text \<open>The offsets of a read message are \<open>size_t\<close> and are converted to \<open>ssize_t\<close>.\<close>

definition to_ssize :: "nat \<Rightarrow> int" where
  "to_ssize n = (let m = n mod SIZE_MOD in if m < 2 ^ 63 then int m else int m - 2 ^ 64)"

definition mboxMsgLiteCreate ::
  "(c_tm \<Rightarrow> int) \<Rightarrow> (mboxBuf, mboxBuf) rbheap \<Rightarrow> mboxIOMsg \<Rightarrow>
     c_error + ((mboxBuf, mboxBuf) rbheap \<times> mboxMsgLite)" where
  "mboxMsgLiteCreate mktime h ctx =
     bindE (mboxMsgLiteFromBuffer mktime h (msg_buf ctx) (to_ssize (msg_start ctx)) (to_ssize (msg_end ctx)))
       (\<lambda>(h, msg, _). Inr (h, msg))"

section \<open>Fields of a summary\<close>

text \<open>A field holds a copy of the value of a header of that name, or null when there is none.\<close>

definition field_ok :: "(mboxChar list \<times> mboxChar list) list \<Rightarrow> mboxChar list \<Rightarrow> mboxBuf option \<Rightarrow> bool" where
  "field_ok es name fld \<longleftrightarrow>
     (case fld of
        None \<Rightarrow> \<not> has_name es name
      | Some b \<Rightarrow> \<exists>e \<in> set es. ci name (fst e) = 0 \<and> buf_rep b (snd e) \<and> length (snd e) + 10 \<le> PTRDIFF_MAX)"

lemma headers_get_field:
  assumes "headers_are h t es" and "0 \<le> i" and "i < 8" and "key_bytes (mboxExpectedHeaders ! nat i) = k"
    and "\<forall>e \<in> set es. length (snd e) + 10 \<le> PTRDIFF_MAX"
  shows "\<exists>v. mboxHeadersGet h t i = Inr v \<and> field_ok es k v"
proof -
  let ?h = "mboxExpectedHeaders ! nat i"
  obtain T where T: "header_rep h t T" "bytes_of ` set (entries T) = set es"
    "\<forall>v \<in> snd ` set (entries T). \<exists>b. v = Some b \<and> buf_rep b (key_bytes b)"
    using assms(1) by (auto simp: headers_are_def)
  have "nat i \<in> set [0..<8]" using assms(2,3) by auto
  then have ok: "key_ok ?h" "nat i < length mboxExpectedHeaders"
    by (auto simp: mboxExpectedHeaders_def key_ok_name upt_rec)
  obtain v where v: "mboxRBTreeGet h t (Some ?h) = Inr v"
     "(\<exists>b. (Some b, v) \<in> set (entries T) \<and> same_header ?h b) \<or> v = None \<and> \<not> has_header (entries T) ?h"
    using header_get [OF T(1) ok(1)] by blast
  have "field_ok es k v"
  proof (cases v)
    case None
    then have "\<not> has_header (entries T) ?h" using v(2) T(3) by force
    then show ?thesis using None has_header_name [OF T(1,2), of ?h] assms(4) by (simp add: field_ok_def)
  next
    case (Some d)
    then obtain b where b: "(Some b, v) \<in> set (entries T)" "same_header ?h b" using v(2) by auto
    have "bytes_of (Some b, v) \<in> set es" using b(1) T(2) by blast
    moreover have "ci k (fst (bytes_of (Some b, v))) = 0"
      using b(2) assms(4) by (simp add: same_header_def bytes_of_def)
    moreover have "buf_rep d (snd (bytes_of (Some b, v)))" using b(1) T(3) Some by (force simp: bytes_of_def)
    ultimately show ?thesis using Some assms(5) by (auto simp: field_ok_def)
  qed
  then show ?thesis using v(1) ok(2) assms(2) by (auto simp: mboxHeadersGet_def)
qed

lemma MaybeDup_field:
  assumes "field_ok es k v"
  shows "\<exists>v'. mboxBufMaybeDup v = Inr v' \<and> field_ok es k v'"
proof (cases v)
  case (Some b)
  then obtain e where e: "e \<in> set es" "ci k (fst e) = 0" "buf_rep b (snd e)" "length (snd e) + 10 \<le> PTRDIFF_MAX"
    using assms by (auto simp: field_ok_def)
  then obtain d where "mboxBufDup b = Inr d" "buf_rep d (snd e)" using mboxBufDup_rep by blast
  then show ?thesis using e Some by (auto simp: mboxBufMaybeDup_def field_ok_def)
qed (use assms in \<open>simp add: mboxBufMaybeDup_def\<close>)

lemma headers_release:
  assumes "headers_are h t es"
  shows "\<exists>h'. mboxRBTreeRelease h (Some t) = Inr h' \<and> 0 < rh_fresh h'"
proof -
  obtain T where T: "header_rep h t T" using assms by (auto simp: headers_are_def)
  show ?thesis using release_ok [OF header_repD(1) [OF T]] T by (auto simp: header_rep_def rb_tree_def rb_at_def)
qed

lemma known_names:
  "key_bytes (mboxExpectedHeaders ! nat MBOX_HEADER_FROM) = ''From''"
  "key_bytes (mboxExpectedHeaders ! nat MBOX_HEADER_SUBJECT) = ''Subject'' @ [NUL]"
  "key_bytes (mboxExpectedHeaders ! nat MBOX_HEADER_DATE) = ''Date''"
  "key_bytes (mboxExpectedHeaders ! nat MBOX_HEADER_MSG_ID) = ''Message-ID''"
  "key_bytes (mboxExpectedHeaders ! nat MBOX_HEADER_FROM_LINE) = ''__FROM_LINE__''"
  by (simp_all add: mboxExpectedHeaders_def header_numbers)

lemma length_folded: "length (concat ls) \<le> length (folded ls)"
  by (induction ls) (auto simp: folded_def)

lemma hdr_entries_values:
  "e \<in> set (hdr_entries kp hs) \<Longrightarrow> length (snd e) \<le> length (hdrs_text hs)"
proof (induction hs arbitrary: kp)
  case (Cons x hs)
  have "length (kept (concat (snd x))) \<le> length (concat (snd x))" by (simp add: kept_def)
  also have "\<dots> \<le> length (folded (snd x))" by (rule length_folded)
  finally have "length (snd (hdr_entry x)) \<le> length (hdr_text x)" by (simp add: hdr_entry_def hdr_text_def)
  then show ?case using Cons.IH [of "[]"] Cons.prems by (auto simp: hdrs_text_def hdr_entries_Nil)
qed simp

text \<open>The headers of a message, with the line of the mailbox or without.\<close>

definition mail_headers :: "mboxChar list option \<Rightarrow> (mboxChar list \<times> mboxChar list list) list \<Rightarrow>
    (mboxChar list \<times> mboxChar list) list" where
  "mail_headers f hs = foldl add_name [] (from_entries f @ hdr_entries (from_key f) hs)"

definition mail_text :: "mboxChar list option \<Rightarrow> (mboxChar list \<times> mboxChar list list) list \<Rightarrow>
    mboxChar list \<Rightarrow> mboxChar list" where
  "mail_text f hs eol = from_text f @ hdrs_text hs @ eol"

definition mail_ok :: "mboxChar list option \<Rightarrow> (mboxChar list \<times> mboxChar list list) list \<Rightarrow>
    mboxChar list \<Rightarrow> mboxChar list \<Rightarrow> bool" where
  "mail_ok f hs eol body \<longleftrightarrow> from_ok_line f \<and> hs \<noteq> [] \<and> list_all hdr_ok hs \<and> eol \<noteq> [] \<and>
     list_all isLine eol \<and> (body \<noteq> [] \<longrightarrow> \<not> isLine (hd body))"

lemma mail_headers_values:
  assumes "e \<in> set (mail_headers f hs)"
  shows "length (snd e) \<le> length (mail_text f hs eol)"
proof -
  have "e \<in> set (from_entries f) \<or> e \<in> set (hdr_entries (from_key f) hs)"
    using assms add_name_subset [of "[]" "from_entries f @ hdr_entries (from_key f) hs"]
    unfolding mail_headers_def by auto
  moreover have "length (snd e) \<le> length (from_text f)" if "e \<in> set (from_entries f)"
    using that by (auto simp: from_entries_def from_key_def from_text_def le_SucI split: option.splits)
  ultimately show ?thesis using hdr_entries_values [of e] by (force simp: mail_text_def)
qed

lemma mboxMsgLiteFromBuffer_parts:
  assumes "buf_rep b (pre @ mail_text f hs eol @ body)" and "buf_term b" and "buf_offset b = 0"
    and "mail_ok f hs eol body" and "buf_len b < 2 ^ 50" and "0 < rh_fresh h"
    and "list_all isLine pre"
  defines "es \<equiv> mail_headers f hs" and "n \<equiv> length (pre @ mail_text f hs eol)"
  shows "\<exists>h1 t1 sender subject date msg_id from_line. field_ok es ''From'' sender \<and>
     field_ok es (''Subject'' @ [NUL]) subject \<and> field_ok es ''Date'' date \<and> field_ok es ''Message-ID'' msg_id \<and>
     field_ok es ''__FROM_LINE__'' from_line \<and> headers_are h1 t1 es \<and>
     mboxMsgLiteFromBuffer mktime h b s e =
       bindE (mboxBufDupRaw (buf_data b) n MBOX_BUF_PREVIEW_LEN MBOX_BUF_PREVIEW_LEN) (\<lambda>preview.
       bindE (msg_timestamp mktime date) (\<lambda>ts.
       bindE (mboxBufMaybeDup msg_id) (\<lambda>msg_id.
       bindE (mboxBufMaybeDup sender) (\<lambda>from.
       bindE (mboxBufMaybeDup subject) (\<lambda>subject.
       bindE (mboxBufMaybeDup date) (\<lambda>date.
       bindE (mboxBufMaybeDup from_line) (\<lambda>from_line.
       bindE (mboxRBTreeRelease h1 (Some t1)) (\<lambda>h.
       Inr (h, \<lparr>m_msg_id = msg_id, m_from = from, m_subject = subject, m_date = date,
                m_preview = Some preview, m_from_line = from_line, m_unix_timestamp = ts,
                m_start = nat (s mod 2 ^ 64), m_end = nat (e mod 2 ^ 64)\<rparr>, b\<lparr>buf_offset := n\<rparr>)))))))))"
proof -
  obtain h1 t1 where p: "mboxParseEmailHeaders h b = Inr (h1, t1, b\<lparr>buf_offset := n\<rparr>)" "headers_are h1 t1 es"
    using mboxParseEmailHeaders_text [of b pre f hs eol body h] assms
    by (auto simp: mail_text_def mail_ok_def mail_headers_def)
  have "n \<le> buf_len b" using buf_repD(1) [OF assms(1)] by (simp add: n_def)
  then have val: "\<forall>e \<in> set es. length (snd e) + 10 \<le> PTRDIFF_MAX"
    using mail_headers_values [of _ f hs eol] assms(5) by (fastforce simp: es_def n_def)
  have get: "\<exists>v. mboxHeadersGet h1 t1 i = Inr v \<and> field_ok es (key_bytes (mboxExpectedHeaders ! nat i)) v"
    if "0 \<le> i" "i < 8" for i
    using headers_get_field [OF p(2) that refl val] .
  obtain sender where f: "mboxHeadersGet h1 t1 MBOX_HEADER_FROM = Inr sender" "field_ok es ''From'' sender"
    using get [of MBOX_HEADER_FROM] unfolding known_names by (auto simp: header_numbers)
  obtain subject where sb: "mboxHeadersGet h1 t1 MBOX_HEADER_SUBJECT = Inr subject" "field_ok es (''Subject'' @ [NUL]) subject"
    using get [of MBOX_HEADER_SUBJECT] unfolding known_names by (auto simp: header_numbers)
  obtain date where d: "mboxHeadersGet h1 t1 MBOX_HEADER_DATE = Inr date" "field_ok es ''Date'' date"
    using get [of MBOX_HEADER_DATE] unfolding known_names by (auto simp: header_numbers)
  obtain msg_id where mi: "mboxHeadersGet h1 t1 MBOX_HEADER_MSG_ID = Inr msg_id" "field_ok es ''Message-ID'' msg_id"
    using get [of MBOX_HEADER_MSG_ID] unfolding known_names by (auto simp: header_numbers)
  obtain from_line where fl: "mboxHeadersGet h1 t1 MBOX_HEADER_FROM_LINE = Inr from_line"
      "field_ok es ''__FROM_LINE__'' from_line"
    using get [of MBOX_HEADER_FROM_LINE] unfolding known_names by (auto simp: header_numbers)
  show ?thesis
    by (intro exI [of _ h1] exI [of _ t1] exI [of _ sender] exI [of _ subject] exI [of _ date]
        exI [of _ msg_id] exI [of _ from_line] conjI f(2) sb(2) d(2) mi(2) fl(2) p(2))
      (simp add: mboxMsgLiteFromBuffer_def p(1) f(1) sb(1) d(1) mi(1) fl(1))
qed

text \<open>What a summary holds of a message.\<close>

definition summarises :: "mboxChar list option \<Rightarrow> (mboxChar list \<times> mboxChar list list) list \<Rightarrow>
    mboxChar list \<Rightarrow> mboxMsgLite \<Rightarrow> bool" where
  "summarises f hs body msg \<longleftrightarrow>
     field_ok (mail_headers f hs) ''Date'' (m_date msg) \<and>
     field_ok (mail_headers f hs) ''From'' (m_from msg) \<and>
     field_ok (mail_headers f hs) (''Subject'' @ [NUL]) (m_subject msg) \<and>
     field_ok (mail_headers f hs) ''Message-ID'' (m_msg_id msg) \<and>
     field_ok (mail_headers f hs) ''__FROM_LINE__'' (m_from_line msg) \<and>
     (\<exists>preview. m_preview msg = Some preview \<and> buf_rep preview (take 420 body))"

lemma mboxMsgLiteFromBuffer_summarises:
  assumes "buf_rep b (pre @ mail_text f hs eol @ body)" and "buf_term b" and "buf_offset b = 0"
    and "mail_ok f hs eol body" and "buf_len b < 2 ^ 50" and "0 < rh_fresh h"
    and "420 \<le> length body" and "0 \<le> s" and "s < 2 ^ 63" and "0 \<le> e" and "e < 2 ^ 63"
    and "list_all isLine pre"
  shows "\<exists>h' msg date. mboxMsgLiteFromBuffer mktime h b s e =
       bindE (msg_timestamp mktime date) (\<lambda>ts. Inr (h', msg\<lparr>m_unix_timestamp := ts\<rparr>,
         b\<lparr>buf_offset := length (pre @ mail_text f hs eol)\<rparr>)) \<and>
     field_ok (mail_headers f hs) ''Date'' date \<and> summarises f hs body msg \<and>
     m_start msg = nat s \<and> m_end msg = nat e \<and> 0 < rh_fresh h'"
proof -
  define n where "n = length (pre @ mail_text f hs eol)"
  obtain h1 t1 sender subject date msg_id from_line where p: "field_ok (mail_headers f hs) ''From'' sender"
     "field_ok (mail_headers f hs) (''Subject'' @ [NUL]) subject" "field_ok (mail_headers f hs) ''Date'' date"
     "field_ok (mail_headers f hs) ''Message-ID'' msg_id" "field_ok (mail_headers f hs) ''__FROM_LINE__'' from_line"
     "headers_are h1 t1 (mail_headers f hs)"
     "mboxMsgLiteFromBuffer mktime h b s e =
       bindE (mboxBufDupRaw (buf_data b) n MBOX_BUF_PREVIEW_LEN MBOX_BUF_PREVIEW_LEN) (\<lambda>preview.
       bindE (msg_timestamp mktime date) (\<lambda>ts.
       bindE (mboxBufMaybeDup msg_id) (\<lambda>msg_id.
       bindE (mboxBufMaybeDup sender) (\<lambda>from.
       bindE (mboxBufMaybeDup subject) (\<lambda>subject.
       bindE (mboxBufMaybeDup date) (\<lambda>date.
       bindE (mboxBufMaybeDup from_line) (\<lambda>from_line.
       bindE (mboxRBTreeRelease h1 (Some t1)) (\<lambda>h.
       Inr (h, \<lparr>m_msg_id = msg_id, m_from = from, m_subject = subject, m_date = date,
                m_preview = Some preview, m_from_line = from_line, m_unix_timestamp = ts,
                m_start = nat (s mod 2 ^ 64), m_end = nat (e mod 2 ^ 64)\<rparr>, b\<lparr>buf_offset := n\<rparr>)))))))))"
    using mboxMsgLiteFromBuffer_parts [OF assms(1-6,12), of mktime s e] unfolding n_def by blast
  have "take (length (take 420 body)) (drop n (buf_data b)) = map Some (take 420 body)"
  proof -
    have "text_at (buf_data b) n body" using buf_rep_text [OF assms(1)] by (simp add: n_def)
    then have "take 420 (take (length body) (drop n (buf_data b))) = take 420 (map Some body)"
      by (simp add: text_at_def)
    then show ?thesis using assms(7) by (simp add: take_map)
  qed
  moreover have "n + length (take 420 body) \<le> length (buf_data b)"
    using buf_repD(1,2) [OF assms(1)] assms(7) by (simp add: n_def)
  ultimately obtain preview where pv: "mboxBufDupRaw (buf_data b) n MBOX_BUF_PREVIEW_LEN MBOX_BUF_PREVIEW_LEN = Inr preview"
      "buf_rep preview (take 420 body)"
    using mboxBufDupRaw_rep [of n "take 420 body" "buf_data b" 420] assms(7)
    by (auto simp: MBOX_BUF_PREVIEW_LEN_def)
  obtain sender' where f: "mboxBufMaybeDup sender = Inr sender'" "field_ok (mail_headers f hs) ''From'' sender'"
    using MaybeDup_field [OF p(1)] by blast
  obtain subject' where sb: "mboxBufMaybeDup subject = Inr subject'" "field_ok (mail_headers f hs) (''Subject'' @ [NUL]) subject'"
    using MaybeDup_field [OF p(2)] by blast
  obtain date' where d: "mboxBufMaybeDup date = Inr date'" "field_ok (mail_headers f hs) ''Date'' date'"
    using MaybeDup_field [OF p(3)] by blast
  obtain msg_id' where mi: "mboxBufMaybeDup msg_id = Inr msg_id'" "field_ok (mail_headers f hs) ''Message-ID'' msg_id'"
    using MaybeDup_field [OF p(4)] by blast
  obtain from_line' where fl: "mboxBufMaybeDup from_line = Inr from_line'"
      "field_ok (mail_headers f hs) ''__FROM_LINE__'' from_line'"
    using MaybeDup_field [OF p(5)] by blast
  obtain h2 where h2: "mboxRBTreeRelease h1 (Some t1) = Inr h2" "0 < rh_fresh h2" using headers_release [OF p(6)] by blast
  define msg where "msg = \<lparr>m_msg_id = msg_id', m_from = sender', m_subject = subject', m_date = date',
      m_preview = Some preview, m_from_line = from_line', m_unix_timestamp = 0,
      m_start = nat s, m_end = nat e\<rparr>"
  have md: "s mod 2 ^ 64 = s" "e mod 2 ^ 64 = e" using assms(8-11) by simp_all
  have "mboxMsgLiteFromBuffer mktime h b s e =
       bindE (msg_timestamp mktime date) (\<lambda>ts. Inr (h2, msg\<lparr>m_unix_timestamp := ts\<rparr>, b\<lparr>buf_offset := n\<rparr>))"
    unfolding p(7) md by (simp add: pv(1) f(1) sb(1) d(1) mi(1) fl(1) h2(1) msg_def)
  then show ?thesis using p(3) f(2) sb(2) d(2) mi(2) fl(2) pv(2) h2(2)
    by (intro exI [of _ h2] exI [of _ msg] exI [of _ date]) (simp add: msg_def n_def summarises_def)
qed

section \<open>Properties\<close>

text \<open>
  C22. The preview is made of 420 bytes, however few the message has left. For a message as the
  reader hands it over, in a block ten bytes longer than its text, with a body of less than
  410 bytes, building the summary reads outside the block.
\<close>

theorem mboxMsgLiteFromBuffer_overreads:
  assumes "buf_rep b (mail_text f hs eol @ body)" and "buf_term b" and "buf_offset b = 0"
    and "mail_ok f hs eol body" and "buf_len b < 2 ^ 50" and "0 < rh_fresh h"
    and "length (buf_data b) \<le> buf_len b + 10" and "length body < 410"
  shows "mboxMsgLiteFromBuffer mktime h b s e = Inl OutOfBounds"
proof -
  have "length (buf_data b) < length (mail_text f hs eol) + MBOX_BUF_PREVIEW_LEN"
    using assms(7,8) buf_repD(1) [OF assms(1)] by (simp add: MBOX_BUF_PREVIEW_LEN_def)
  then have "mboxBufDupRaw (buf_data b) (length (mail_text f hs eol)) MBOX_BUF_PREVIEW_LEN MBOX_BUF_PREVIEW_LEN =
      Inl OutOfBounds"
    by (simp add: mboxBufDupRaw_def Let_def blk_copy_def)
  then show ?thesis using mboxMsgLiteFromBuffer_parts [where pre = "[]", OF _ assms(2-6), of mktime s e] assms(1) by force
qed

lemma one_header_ok: "list_all hdr_ok [(''To'', [''a''])]"
  by (simp add: hdr_ok_def Let_def kept_def lines_ok_def goes_on_def isLine_def MIME_PREFIX_def)

lemma one_header_text: "mail_text None [(''To'', [''a''])] [LF] = ''To: a'' @ [LF, LF]"
  by (simp add: mail_text_def from_text_def hdrs_text_def hdr_text_def folded_def)

theorem mboxMsgLiteFromBuffer_overreads_witness:
  "\<forall>mktime. mboxMsgLiteFromBuffer mktime no_nodes (text_buf (''To: a'' @ [LF, LF] @ ''hi'')) 0 9 = Inl OutOfBounds"
proof -
  let ?s = "mail_text None [(''To'', [''a''])] [LF] @ ''hi''"
  have "mail_ok None [(''To'', [''a''])] [LF] ''hi''"
    using one_header_ok by (simp add: mail_ok_def from_ok_line_def isLine_def)
  then show ?thesis
    using mboxMsgLiteFromBuffer_overreads [of "text_buf ?s" None "[(''To'', [''a''])]" "[LF]" "''hi''" no_nodes]
      text_buf_rep [of ?s] by (simp add: one_header_text no_nodes_def text_buf_def)
qed



end
