(* ===== verification/Mbox_Index.thy ===== *)
theory Mbox_Index
  imports Mbox_Message Mbox_IO Mbox_Encode
begin

text \<open>
  The index files of \<open>src/src/mbox-index.c\<close>: the offsets of the messages of a mailbox are saved
  as lines of two numbers, read back into a list, grouped into batches for the worker pool, and
  the messages of a batch read and summarised. The system calls are a parameter, a record of
  functions on the state of the file system. A batch that was handed to the pool is a job; the
  jobs are run here one after the other.
\<close>

section \<open>System calls\<close>

record 'w sys =
  s_open :: "'w \<Rightarrow> string \<Rightarrow> int \<Rightarrow> int \<Rightarrow> int \<times> 'w"
  s_fstat :: "'w \<Rightarrow> int \<Rightarrow> nat option"
  s_pread :: "'w \<Rightarrow> pread"
  s_pwrite :: "'w pwrite"
  s_fsync :: "'w \<Rightarrow> int \<Rightarrow> int \<times> 'w"
  s_close :: "'w \<Rightarrow> int \<Rightarrow> 'w"

text \<open>The flags of \<open>open\<close> and the size of a stdio buffer, as on Linux.\<close>

definition O_RDONLY :: int where "O_RDONLY = 0"
definition O_SAVE :: int where "O_SAVE = 2 + 512 + 64"
definition MODE_0666 :: int where "MODE_0666 = 438"
definition BUFSIZ :: nat where "BUFSIZ = 8192"

section \<open>Saving\<close>

definition mboxListSortByStartOffset :: "mboxMsgLite list_cmp" where
  "mboxListSortByStartOffset d1 d2 =
     bindE (deref d1) (\<lambda>m1. bindE (deref d2) (\<lambda>m2.
     let start1 = to_ssize (m_start m1); start2 = to_ssize (m_start m2)
     in Inr (if start1 < start2 then -1 else if start1 = start2 then 0 else 1)))"

definition mboxIdxTryWrite :: "'w sys \<Rightarrow> 'w \<Rightarrow> mboxIOCtx \<Rightarrow> c_error + (int \<times> mboxIOCtx \<times> 'w)" where
  "mboxIdxTryWrite sys w ioctx =
     bindE (mboxIOWriteBuf (s_pwrite sys) w ioctx (buf_len (io_buf ioctx)) (io_file_offset ioctx))
       (\<lambda>(wbytes, io, w).
     if io_err io \<noteq> MBOX_IO_OK then Inr (io_err io, io, w)
     else case mboxIOFsync (s_fsync sys) w io of (_, io, w) \<Rightarrow>
       if io_err io \<noteq> MBOX_IO_OK then Inr (io_err io, io, w)
       else bindE (mboxBufSetLen (io_buf io) 0) (\<lambda>b.
            Inr (MBOX_IO_OK,
                 io\<lparr>io_file_offset := io_file_offset io + wbytes,
                    io_file_size := size_add (io_file_size io) (nat (wbytes mod 2 ^ 64)),
                    io_buf := mboxBufSetOffset b 0\<rparr>, w)))"

text \<open>What \<open>%zu\<close> prints.\<close>

fun fmt_zu :: "nat \<Rightarrow> string" where
  "fmt_zu n = (if n < 10 then [digit n] else fmt_zu (n div 10) @ [digit n])"

declare fmt_zu.simps [simp del]

definition idx_line :: "nat \<Rightarrow> nat \<Rightarrow> string" where
  "idx_line s e = fmt_zu s @ '' '' @ fmt_zu e @ [LF]"

fun save_loop ::
  "'w sys \<Rightarrow> nat \<Rightarrow> 'w \<Rightarrow> mboxIOCtx \<Rightarrow> mboxMsgLite lheap \<Rightarrow> ptr \<Rightarrow> c_error + (int \<times> mboxIOCtx \<times> 'w)" where
  "save_loop sys 0 w ioctx h node = Inr (MBOX_IO_OK, ioctx, w)"
| "save_loop sys (Suc left) w ioctx h node =
     bindE (ln_get h node) (\<lambda>n.
     bindE (deref (ln_data n)) (\<lambda>msg.
     bindE (mboxBufCatPrintf (io_buf ioctx) (''%zu %zu'' @ [LF]) (idx_line (m_start msg) (m_end msg))) (\<lambda>b.
     let io = ioctx\<lparr>io_buf := b\<rparr>
     in bindE (if buf_len b mod BUFSIZ = 0 then mboxIdxTryWrite sys w io else Inr (MBOX_IO_OK, io, w))
          (\<lambda>(r, io, w).
        if r \<noteq> MBOX_IO_OK then Inr (io_err io, io, w)
        else save_loop sys left w io h (ln_next n)))))"

text \<open>That the file could not be opened is not reported: the result is \<open>0\<close> then too.\<close>

definition mboxIdxSave ::
  "'w sys \<Rightarrow> 'w \<Rightarrow> string \<Rightarrow> mboxMsgLite lheap \<Rightarrow> mboxList \<Rightarrow>
     c_error + (int \<times> 'w \<times> mboxMsgLite lheap \<times> mboxList)" where
  "mboxIdxSave sys w filename h l =
     (if l_len l = 0 then Inr (0, w, h, l)
      else case mboxIOOpen (s_open sys) (s_fstat sys) w filename O_SAVE MODE_0666 of
        (None, w) \<Rightarrow> Inr (0, w, h, l)
      | (Some io, w) \<Rightarrow>
          bindE (mboxListQSort h l (Some mboxListSortByStartOffset)) (\<lambda>(h, l).
          bindE (save_loop sys (l_len l) w io h (l_root l)) (\<lambda>(err, io, w).
          bindE (if err = MBOX_IO_OK \<and> buf_len (io_buf io) > 0
                 then bindE (mboxIdxTryWrite sys w io) (\<lambda>(r, io, w).
                      Inr (if r \<noteq> MBOX_IO_OK then io_err io else MBOX_IO_OK, io, w))
                 else Inr (err, io, w)) (\<lambda>(err, io, w).
          Inr (err, fst (mboxIOClose (s_close sys) w (Some io)), h, l)))))"

section \<open>Loading\<close>

definition mboxIdxLineCount :: "mboxIOCtx \<Rightarrow> c_error + nat" where
  "mboxIdxLineCount ioctx =
     for_range 0 (buf_len (io_buf ioctx)) (\<lambda>i lines.
       bindE (blk_read (buf_data (io_buf ioctx)) i) (\<lambda>c.
       Inr (if c = LF then size_add lines 1 else lines))) 0"

text \<open>The result of the read is compared with a \<open>size_t\<close>.\<close>

definition loadIndexes :: "'w sys \<Rightarrow> 'w \<Rightarrow> string \<Rightarrow> c_error + (mboxIOCtx option \<times> 'w)" where
  "loadIndexes sys w idxfile =
     (case mboxIOOpen (s_open sys) (s_fstat sys) w idxfile O_RDONLY MODE_0666 of
        (None, w) \<Rightarrow> Inr (None, w)
      | (Some io, w) \<Rightarrow>
          bindE (mboxIORead (s_pread sys w) io (io_file_size io) 0 0) (\<lambda>(rbytes, io).
          if rbytes mod 2 ^ 64 \<noteq> int (io_file_size io)
          then Inr (None, fst (mboxIOClose (s_close sys) w (Some io)))
          else Inr (Some io, w)))"

text \<open>\<open>while (data[i] != stop) tmp[k++] = data[i++]\<close>, and the zero that ends \<open>tmp\<close>.\<close>

function read_field :: "mboxChar \<Rightarrow> block \<Rightarrow> nat \<Rightarrow> block \<Rightarrow> nat \<Rightarrow> c_error + (nat \<times> block \<times> nat)" where
  "read_field stop m i tmp k =
     bindE (blk_read m i) (\<lambda>c.
     if c = stop then Inr (i, tmp, k)
     else bindE (blk_write tmp k c) (\<lambda>tmp. read_field stop m (Suc i) tmp (Suc k)))"
  by pat_completeness auto
termination
  by (relation "measure (\<lambda>(stop, m, i, tmp, k). length m - i)") (auto simp: outcome_simps)

declare read_field.simps [simp del]

lemma read_field_moves: "read_field stop m i tmp k = Inr (j, t, n) \<Longrightarrow> i \<le> j \<and> j < length m"
proof (induction stop m i tmp k rule: read_field.induct)
  case (1 stop m i tmp k)
  then show ?case
    by (subst (asm) (2) read_field.simps) (fastforce simp: outcome_simps split: if_splits)
qed

definition c_atol :: "block \<Rightarrow> c_error + int" where
  "c_atol m = bindE (c_strtol m 0) (\<lambda>(n, _). Inr n)"

type_synonym idx_offsets = "int \<times> int"

function indexes_loop ::
  "block \<Rightarrow> nat \<Rightarrow> nat \<Rightarrow> block \<Rightarrow> block \<Rightarrow> idx_offsets lheap \<Rightarrow> mboxList \<Rightarrow>
     c_error + (nat \<times> idx_offsets lheap \<times> mboxList)" where
  "indexes_loop m len i tmpstart tmpend h l =
     (if i < len
      then bindE (read_field CHR '' '' m i tmpstart 0) (\<lambda>(i, tmpstart, startidx).
           bindE (read_field LF m (Suc i) tmpend 0) (\<lambda>(i, tmpend, endidx).
           bindE (blk_write tmpstart startidx NUL) (\<lambda>tmpstart.
           bindE (blk_write tmpend endidx NUL) (\<lambda>tmpend.
           bindE (c_atol tmpstart) (\<lambda>s.
           bindE (c_atol tmpend) (\<lambda>e.
           bindE (mboxListAddTail h l (Some (s, e))) (\<lambda>(h, l).
           indexes_loop m len (Suc i) tmpstart tmpend h l)))))))
      else Inr (i, h, l))"
  by pat_completeness auto
termination
  by (relation "measure (\<lambda>(m, len, i, ts, te, h, l). length m - i)") (auto dest!: read_field_moves)

declare indexes_loop.simps [simp del]

definition indexesToList ::
  "idx_offsets lheap \<Rightarrow> mboxIOCtx \<Rightarrow> c_error + (idx_offsets lheap \<times> mboxList \<times> mboxIOCtx)" where
  "indexesToList h ioctx =
     bindE (mboxIdxLineCount ioctx) (\<lambda>_.
     bindE (indexes_loop (buf_data (io_buf ioctx)) (buf_len (io_buf ioctx)) (buf_offset (io_buf ioctx))
              (blk_malloc 26) (blk_malloc 26) h (mboxListSetFreedata mboxListNew True)) (\<lambda>(i, h, l).
     Inr (h, l, io_set_off ioctx i)))"

section \<open>Batches\<close>

text \<open>
  The batches that are handed to the pool, in order. The body runs once before the length of the
  list is looked at; its rounds are bounded by \<open>fuel\<close>.
\<close>

fun batch_loop ::
  "nat \<Rightarrow> idx_offsets lheap \<Rightarrow> mboxList \<Rightarrow> mboxList \<Rightarrow> nat \<Rightarrow>
     c_error + (idx_offsets lheap \<times> mboxList \<times> mboxList list)" where
  "batch_loop 0 h indexes batch batch_bytes = Inl Diverges"
| "batch_loop (Suc fuel) h indexes batch batch_bytes =
     bindE (mboxListRemoveHead h indexes) (\<lambda>(offsets, h, indexes).
     bindE (deref offsets) (\<lambda>(s, e).
     let message_size = nat ((e - s) mod 2 ^ 64)
     in bindE (mboxListAddTail h batch offsets) (\<lambda>(h, batch).
        if size_add batch_bytes message_size < MBOX_IO_READ_SIZE
        then if l_len indexes > 0
             then batch_loop fuel h indexes batch (size_add batch_bytes message_size)
             else Inr (h, indexes, if l_len batch > 0 then [batch] else [])
        else if l_len indexes > 0
             then bindE (batch_loop fuel h indexes mboxListNew 0) (\<lambda>(h, indexes, jobs).
                  Inr (h, indexes, batch # jobs))
             else Inr (h, indexes, [batch]))))"

definition mboxIdxBatchLoad ::
  "idx_offsets lheap \<Rightarrow> mboxList \<Rightarrow> c_error + (idx_offsets lheap \<times> mboxList \<times> mboxList list)" where
  "mboxIdxBatchLoad h indexes = batch_loop (Suc (l_len indexes)) h indexes mboxListNew 0"

section \<open>The messages of a batch\<close>

record mboxIdxCtx =
  idx_mbox_fd :: int
  idx_msgs :: mboxList

text \<open>The heaps of the offsets, of the messages and of the header trees.\<close>

record idx_heaps =
  ih_offsets :: "idx_offsets lheap"
  ih_msgs :: "mboxMsgLite lheap"
  ih_headers :: "(mboxBuf, mboxBuf) rbheap"

text \<open>
  The buffer of a message is a pointer into the block that was read: what stands in that block
  from there on.
\<close>

fun messages_loop ::
  "(c_tm \<Rightarrow> int) \<Rightarrow> nat \<Rightarrow> block \<Rightarrow> int \<Rightarrow> idx_heaps \<Rightarrow> mboxIdxCtx \<Rightarrow> mboxList \<Rightarrow>
     c_error + (idx_heaps \<times> mboxIdxCtx \<times> mboxList)" where
  "messages_loop mktime 0 buf diff hs idxctx batch = Inl Diverges"
| "messages_loop mktime (Suc fuel) buf diff hs idxctx batch =
     bindE (mboxListRemoveHead (ih_offsets hs) batch) (\<lambda>(offset, ho, batch).
     bindE (deref offset) (\<lambda>(s, e).
     if s - diff < 0 \<or> int (length buf) < s - diff then Inl OutOfBounds
     else let tmp = \<lparr>buf_data = drop (nat (s - diff)) buf, buf_offset = 0,
                     buf_len = nat ((e - s) mod 2 ^ 64), buf_capacity = 0\<rparr>
       in bindE (mboxMsgLiteFromBuffer mktime (ih_headers hs) tmp s e) (\<lambda>(hh, msg, _).
          bindE (mboxListTSAddTail (ih_msgs hs) (idx_msgs idxctx) (Some msg)) (\<lambda>(hm, msgs).
          let hs = \<lparr>ih_offsets = ho, ih_msgs = hm, ih_headers = hh\<rparr>;
              idxctx = idxctx\<lparr>idx_msgs := msgs\<rparr>
          in if l_len batch > 0 then messages_loop mktime fuel buf diff hs idxctx batch
             else Inr (hs, idxctx, batch)))))"

text \<open>\<open>buf[rbytes] = '\\0'\<close> stands before the block when the read failed.\<close>

definition mboxIdxGetMessages ::
  "(c_tm \<Rightarrow> int) \<Rightarrow> pread \<Rightarrow> idx_heaps \<Rightarrow> mboxIdxCtx \<Rightarrow> mboxList \<Rightarrow> c_error + (idx_heaps \<times> mboxIdxCtx)" where
  "mboxIdxGetMessages mktime pread hs idxctx batch =
     bindE (ln_get (ih_offsets hs) (l_root batch)) (\<lambda>root.
     bindE (deref (ln_data root)) (\<lambda>(diff, _).
     bindE (ln_get (ih_offsets hs) (ln_prev root)) (\<lambda>tail.
     bindE (deref (ln_data tail)) (\<lambda>(_, e).
     let sz = nat ((e - diff) mod 2 ^ 64); buf = blk_malloc (size_add sz 10)
     in bindE (case pread (idx_mbox_fd idxctx) sz diff of
                 None \<Rightarrow> Inl OutOfBounds
               | Some bs \<Rightarrow> bindE (blk_copy buf 0 (map Some bs) 0 (length bs)) (\<lambda>buf.
                            blk_write buf (length bs) NUL)) (\<lambda>buf.
        bindE (messages_loop mktime (Suc (l_len batch)) buf diff hs idxctx batch) (\<lambda>(hs, idxctx, batch).
        bindE (mboxListRelease (ih_offsets hs) (Some batch)) (\<lambda>(ho, _).
        Inr (hs\<lparr>ih_offsets := ho\<rparr>, idxctx))))))))"

fun run_jobs ::
  "(c_tm \<Rightarrow> int) \<Rightarrow> pread \<Rightarrow> idx_heaps \<Rightarrow> mboxIdxCtx \<Rightarrow> mboxList list \<Rightarrow> c_error + (idx_heaps \<times> mboxIdxCtx)" where
  "run_jobs mktime pread hs idxctx [] = Inr (hs, idxctx)"
| "run_jobs mktime pread hs idxctx (b # bs) =
     bindE (mboxIdxGetMessages mktime pread hs idxctx b) (\<lambda>(hs, idxctx).
     run_jobs mktime pread hs idxctx bs)"

text \<open>
  With no worker the wait for the pool never returns. The descriptor of the mailbox is not
  compared with -1.
\<close>

definition mboxIdxLoad ::
  "(c_tm \<Rightarrow> int) \<Rightarrow> 'w sys \<Rightarrow> 'w \<Rightarrow> idx_heaps \<Rightarrow> string \<Rightarrow> string \<Rightarrow> nat \<Rightarrow>
     c_error + (mboxList option \<times> idx_heaps \<times> 'w)" where
  "mboxIdxLoad mktime sys w hs idxfile mboxfile thread_count =
     bindE (loadIndexes sys w idxfile) (\<lambda>(ioidx, w).
     case ioidx of
       None \<Rightarrow> Inr (None, hs, w)
     | Some io \<Rightarrow>
         let msgs = mboxListSetFreedata mboxListNew True
         in bindE (indexesToList (ih_offsets hs) io) (\<lambda>(ho, indexes, io).
            case mboxIOClose (s_close sys) w (Some io) of (w, _) \<Rightarrow>
            (case s_open sys w mboxfile O_RDONLY MODE_0666 of (fd, w) \<Rightarrow>
             bindE (mboxIdxBatchLoad ho indexes) (\<lambda>(ho, indexes, jobs).
             if thread_count = 0 then Inl Diverges
             else bindE (run_jobs mktime (s_pread sys w) (hs\<lparr>ih_offsets := ho\<rparr>)
                           \<lparr>idx_mbox_fd = fd, idx_msgs = msgs\<rparr> jobs) (\<lambda>(hs, idxctx).
                  let w = s_close sys w fd
                  in bindE (mboxListRelease (ih_offsets hs) (Some indexes)) (\<lambda>(ho, _).
                     Inr (Some (idx_msgs idxctx), hs\<lparr>ih_offsets := ho\<rparr>, w)))))))"

section \<open>The text of an index\<close>

lemma fmt_zu_text: "fmt_zu n \<noteq> []" "list_all c_isdigit (fmt_zu n)"
  by (induction n rule: fmt_zu.induct) (subst fmt_zu.simps; simp)+

lemma length_fmt_zu: "0 < k \<Longrightarrow> n < 10 ^ k \<Longrightarrow> length (fmt_zu n) \<le> k"
proof (induction n arbitrary: k rule: fmt_zu.induct)
  case (1 n)
  show ?case
  proof (cases "n < 10")
    case True
    then show ?thesis using "1.prems" by (subst fmt_zu.simps) simp
  next
    case False
    then obtain j where j: "k = Suc j" "0 < j" using "1.prems" by (cases k; cases "k - 1") auto
    then have "n div 10 < 10 ^ j" using "1.prems" by (auto simp: less_mult_imp_div_less)
    then show ?thesis using "1.IH" [OF False j(2)] False j(1) by (subst fmt_zu.simps) simp
  qed
qed

lemma scan_digits_text:
  "list_all c_isdigit ds \<Longrightarrow> text_at m i ds \<Longrightarrow> blk_read m (i + length ds) = Inr c \<Longrightarrow> \<not> c_isdigit c \<Longrightarrow>
   scan_digits m i acc = Inr (foldl (\<lambda>a d. 10 * a + (int (byte d) - 48)) acc ds, i + length ds)"
  by (induction ds arbitrary: i acc) auto

lemma fmt_zu_value: "foldl (\<lambda>a d. 10 * a + (int (byte d) - 48)) 0 (fmt_zu n) = int n"
proof (induction n rule: fmt_zu.induct)
  case (1 n)
  then show ?case using two_value [of n] by (subst fmt_zu.simps) (auto simp: zmod_int)
qed

lemma c_atol_fmt_zu:
  assumes "text_at m 0 (fmt_zu n)" and "blk_read m (length (fmt_zu n)) = Inr NUL" and "n < 2 ^ 63"
  shows "c_atol m = Inr (int n)"
proof -
  have nd: "\<not> c_isdigit NUL" using plain_char_facts by simp
  obtain d ds where d: "fmt_zu n = d # ds" "c_isdigit d"
    using fmt_zu_text [of n] by (cases "fmt_zu n") auto
  have r: "blk_read m 0 = Inr d" using assms(1) d(1) by simp
  have "\<not> c_isspace d" "d \<noteq> CHR ''-''" "d \<noteq> CHR ''+''"
    using d(2) by (auto simp: c_isdigit_def c_isspace_def byte_def)
  moreover have "scan_digits m 0 0 = Inr (int n, length (fmt_zu n))"
    using scan_digits_text [OF fmt_zu_text(2) assms(1), of NUL 0] assms(2) nd fmt_zu_value by simp
  ultimately show ?thesis
    using r assms(3) d(1) by (simp add: c_atol_def c_strtol_def)
qed

lemma read_field_text:
  "text_at m i s \<Longrightarrow> stop \<notin> set s \<Longrightarrow> blk_read m (i + length s) = Inr stop \<Longrightarrow> k + length s \<le> length tmp \<Longrightarrow>
   read_field stop m i tmp k =
     Inr (i + length s, take k tmp @ map Some s @ drop (k + length s) tmp, k + length s)"
proof (induction s arbitrary: i tmp k)
  case Nil
  then show ?case by (simp add: read_field.simps [of stop m i])
next
  case (Cons c s)
  have "read_field stop m i tmp k = read_field stop m (Suc i) (tmp[k := Some c]) (Suc k)"
    using Cons.prems by (subst read_field.simps) (auto simp: blk_write_def)
  then show ?case
    using Cons.IH [of "Suc i" "Suc k" "tmp[k := Some c]"] Cons.prems
    by (auto simp: take_Suc_conv_app_nth take_update_cancel)
qed

text \<open>A number read into a fresh array of 26 bytes and converted.\<close>

lemma field_number:
  assumes "text_at m i (fmt_zu n)" and "blk_read m (i + length (fmt_zu n)) = Inr stop" and "\<not> c_isdigit stop"
    and "n < 2 ^ 63" and "length tmp = 26"
  obtains t t' where "read_field stop m i tmp 0 = Inr (i + length (fmt_zu n), t, length (fmt_zu n))"
    "blk_write t (length (fmt_zu n)) NUL = Inr t'" "length t' = 26" "c_atol t' = Inr (int n)"
proof -
  define L where "L = length (fmt_zu n)"
  define t where "t = map Some (fmt_zu n) @ drop L tmp"
  have L: "L \<le> 19" unfolding L_def using assms(4) by (intro length_fmt_zu) auto
  have "stop \<notin> set (fmt_zu n)" using fmt_zu_text(2) [of n] assms(3) by (auto simp: list_all_iff)
  then have r: "read_field stop m i tmp 0 = Inr (i + L, t, L)"
    using read_field_text [OF assms(1) _ assms(2), of 0 tmp] L assms(5) by (simp add: L_def t_def)
  have lt: "length t = 26" using L assms(5) by (simp add: t_def L_def)
  then have w: "blk_write t L NUL = Inr (t[L := Some NUL])" using L by (simp add: blk_write_def)
  have "text_at (t[L := Some NUL]) 0 (fmt_zu n)"
    using lt L by (simp add: text_at_def t_def L_def)
  then have "c_atol (t[L := Some NUL]) = Inr (int n)"
    using lt L by (intro c_atol_fmt_zu [OF _ _ assms(4)]) (auto simp: blk_read_def L_def)
  then show thesis using that [of t "t[L := Some NUL]"] r w lt by (simp add: L_def)
qed

section \<open>Reading an index back\<close>

definition idx_text :: "(nat \<times> nat) list \<Rightarrow> string" where
  "idx_text ps = concat (map (\<lambda>(s, e). idx_line s e) ps)"

lemma idx_text_simps [simp]:
  "idx_text [] = []" "idx_text (p # ps) = idx_line (fst p) (snd p) @ idx_text ps"
  "idx_text (ps @ qs) = idx_text ps @ idx_text qs"
  by (simp_all add: idx_text_def split: prod.splits)

definition offsets_of :: "nat \<times> nat \<Rightarrow> idx_offsets" where
  "offsets_of p = (int (fst p), int (snd p))"

lemma indexes_loop_ok:
  assumes "text_at m i (idx_text ps)" and "len = i + length (idx_text ps)"
    and "\<forall>(s, e) \<in> set ps. s < 2 ^ 63 \<and> e < 2 ^ 63"
    and "length ts = 26" and "length te = 26"
    and "Mbox_List.holds h l xs" and "length xs + length ps < SIZE_MOD - 1"
  shows "\<exists>h' l'. indexes_loop m len i ts te h l = Inr (len, h', l') \<and>
     Mbox_List.holds h' l' (xs @ map (Some \<circ> offsets_of) ps)"
  using assms
proof (induction ps arbitrary: i ts te h l xs)
  case Nil
  then show ?case by (simp add: indexes_loop.simps)
next
  case (Cons p ps)
  obtain s e where p: "p = (s, e)" by fastforce
  define i1 where "i1 = i + length (fmt_zu s)"
  define i2 where "i2 = Suc i1 + length (fmt_zu e)"
  have nd: "\<not> c_isdigit CHR '' ''" "\<not> c_isdigit LF" by (auto simp: c_isdigit_def byte_def)
  have tx: "text_at m i (fmt_zu s)" "blk_read m i1 = Inr CHR '' ''"
    "text_at m (Suc i1) (fmt_zu e)" "blk_read m i2 = Inr LF" "text_at m (Suc i2) (idx_text ps)"
    using Cons.prems(1) by (simp_all add: p idx_line_def i1_def i2_def ac_simps)
  have len: "len = Suc i2 + length (idx_text ps)" "i < len"
    using Cons.prems(2) by (simp_all add: p idx_line_def i1_def i2_def)
  obtain t1 t1' where t1: "read_field CHR '' '' m i ts 0 = Inr (i1, t1, length (fmt_zu s))"
    "blk_write t1 (length (fmt_zu s)) NUL = Inr t1'" "length t1' = 26" "c_atol t1' = Inr (int s)"
    using field_number [OF tx(1) tx(2) [unfolded i1_def] nd(1) _ Cons.prems(4)] Cons.prems(3)
    by (auto simp: p i1_def)
  obtain t2 t2' where t2: "read_field LF m (Suc i1) te 0 = Inr (i2, t2, length (fmt_zu e))"
    "blk_write t2 (length (fmt_zu e)) NUL = Inr t2'" "length t2' = 26" "c_atol t2' = Inr (int e)"
    using field_number [OF tx(3) tx(4) [unfolded i2_def] nd(2) _ Cons.prems(5)] Cons.prems(3)
    by (auto simp: p i2_def)
  obtain h1 l1 where a: "mboxListAddTail h l (Some (int s, int e)) = Inr (h1, l1)"
    "Mbox_List.holds h1 l1 (xs @ [Some (int s, int e)])"
    using holds_push(2) [OF Cons.prems(6)] Cons.prems(7) by fastforce
  have "\<exists>h' l'. indexes_loop m len (Suc i2) t1' t2' h1 l1 = Inr (len, h', l') \<and>
      Mbox_List.holds h' l' ((xs @ [Some (int s, int e)]) @ map (Some \<circ> offsets_of) ps)"
    by (rule Cons.IH [OF tx(5) len(1) _ t1(3) t2(3) a(2)]) (use Cons.prems(3,7) in auto)
  then show ?case
    using len(2) t1 t2 a(1) by (subst indexes_loop.simps) (simp add: p offsets_of_def)
qed

lemma mboxIdxLineCount_returns:
  assumes "buf_rep (io_buf io) s"
  shows "\<exists>n. mboxIdxLineCount io = Inr n"
proof -
  have "\<exists>n. mboxIdxLineCount io = Inr n \<and> True"
    unfolding mboxIdxLineCount_def
    by (rule for_range_total [where P = "\<lambda>_ _. True"]) (use assms buf_repD(1) [OF assms] in auto)
  then show ?thesis by simp
qed

lemma indexesToList_ok:
  assumes "buf_rep (io_buf io) (idx_text ps)" and "buf_offset (io_buf io) = 0"
    and "\<forall>(s, e) \<in> set ps. s < 2 ^ 63 \<and> e < 2 ^ 63" and "length ps < SIZE_MOD - 1"
    and "\<forall>a \<ge> lh_fresh h. lh_cells h a = None"
  shows "\<exists>h' l'. indexesToList h io = Inr (h', l', io_set_off io (length (idx_text ps))) \<and>
     Mbox_List.holds h' l' (map (Some \<circ> offsets_of) ps)"
proof -
  have "list_rep h (mboxListSetFreedata mboxListNew True) []"
    using mboxListNew_rep [OF assms(5)] by (simp add: list_rep_def mboxListSetFreedata_def)
  then have "Mbox_List.holds h (mboxListSetFreedata mboxListNew True) []" by (auto simp: Mbox_List.holds_def)
  with indexes_loop_ok [OF buf_rep_text [OF assms(1)], of "length (idx_text ps)" "blk_malloc 26" "blk_malloc 26"]
  show ?thesis
    using mboxIdxLineCount_returns [OF assms(1)] buf_repD(1) [OF assms(1)] assms(2-4)
    by (fastforce simp: indexesToList_def)
qed

section \<open>Saving an index\<close>

text \<open>
  A file that is kept: \<open>content\<close> is what stands in it. It can be opened, emptied or not, its
  size is known, a read of all of it returns it, and what is written at its end is there
  afterwards.
\<close>

definition plain_file :: "'w sys \<Rightarrow> ('w \<Rightarrow> string) \<Rightarrow> string \<Rightarrow> int \<Rightarrow> bool" where
  "plain_file sys content name fd \<longleftrightarrow>
     fd \<noteq> -1 \<and>
     (\<forall>w. \<exists>w'. s_open sys w name O_SAVE MODE_0666 = (fd, w') \<and> content w' = []) \<and>
     (\<forall>w. \<exists>w'. s_open sys w name O_RDONLY MODE_0666 = (fd, w') \<and> content w' = content w) \<and>
     (\<forall>w. s_fstat sys w fd = Some (length (content w))) \<and>
     (\<forall>w. s_pread sys w fd (length (content w)) 0 = Some (content w)) \<and>
     (\<forall>w bs. bs \<noteq> [] \<longrightarrow> (\<exists>w'. s_pwrite sys w fd bs (int (length (content w))) = (int (length bs), w') \<and>
        content w' = content w @ bs)) \<and>
     (\<forall>w. \<exists>w'. s_fsync sys w fd = (0, w') \<and> content w' = content w) \<and>
     (\<forall>w. content (s_close sys w fd) = content w)"

lemma plain_fileD:
  assumes "plain_file sys content name fd"
  shows "fd \<noteq> -1"
    "\<exists>w'. s_open sys w name O_SAVE MODE_0666 = (fd, w') \<and> content w' = []"
    "\<exists>w'. s_open sys w name O_RDONLY MODE_0666 = (fd, w') \<and> content w' = content w"
    "s_fstat sys w fd = Some (length (content w))"
    "s_pread sys w fd (length (content w)) 0 = Some (content w)"
    "bs \<noteq> [] \<Longrightarrow> \<exists>w'. s_pwrite sys w fd bs (int (length (content w))) = (int (length bs), w') \<and>
       content w' = content w @ bs"
    "\<exists>w'. s_fsync sys w fd = (0, w') \<and> content w' = content w"
    "content (s_close sys w fd) = content w"
  using assms unfolding plain_file_def by blast+

lemma blk_bytes_rep: "buf_rep b s \<Longrightarrow> blk_bytes (buf_data b) 0 (length s) = Inr s"
  using buf_repD(2,3) [of b s] by (auto simp: blk_bytes_def o_def)

text \<open>What holds between two lines: \<open>out\<close> is what was written so far, to the file or to the buffer.\<close>

definition saving :: "('w \<Rightarrow> string) \<Rightarrow> int \<Rightarrow> nat \<Rightarrow> 'w \<Rightarrow> mboxIOCtx \<Rightarrow> string \<Rightarrow> bool" where
  "saving content fd cap w io out \<longleftrightarrow>
     io_fd io = fd \<and> io_err io = MBOX_IO_OK \<and> io_file_offset io = int (length (content w)) \<and>
     buf_capacity (io_buf io) \<le> cap \<and>
     (\<exists>s. buf_rep (io_buf io) s \<and> content w @ s = out)"

lemma mboxIdxTryWrite_ok:
  assumes "plain_file sys content name fd" and "saving content fd cap w io out" and "0 < buf_len (io_buf io)"
  shows "\<exists>io' w'. mboxIdxTryWrite sys w io = Inr (MBOX_IO_OK, io', w') \<and> saving content fd cap w' io' out \<and>
     content w' = out"
proof -
  note F = plain_fileD [OF assms(1)]
  obtain s where s: "io_fd io = fd" "io_err io = MBOX_IO_OK" "io_file_offset io = int (length (content w))"
    "buf_capacity (io_buf io) \<le> cap" "buf_rep (io_buf io) s" "content w @ s = out"
    using assms(2) by (auto simp: saving_def)
  have lo: "int (length out) = int (length (content w)) + int (length s)" using s(6) by auto
  have ne: "s \<noteq> []" "buf_len (io_buf io) = length s" using assms(3) buf_repD(1) [OF s(5)] by auto
  obtain w1 where w1: "s_pwrite sys w fd s (int (length (content w))) = (int (length s), w1)"
    "content w1 = content w @ s" using F(6) [OF ne(1)] by blast
  obtain w2 where w2: "s_fsync sys w1 fd = (0, w2)" "content w2 = content w1" using F(7) by blast
  obtain b where b: "mboxBufSetLen (io_buf io) 0 = Inr b" "buf_rep b []"
    "buf_capacity b = buf_capacity (io_buf io)" using mboxBufSetLen_rep [OF s(5), of 0] by auto
  show ?thesis
    using s ne w1 w2 b blk_bytes_rep [OF s(5)] lo
    by (simp add: mboxIdxTryWrite_def mboxIOWriteBuf_def mboxIOWrite_def mboxIOFsync_def saving_def
        mboxBufSetOffset_def)
qed

lemma length_idx_line: "s < 2 ^ 63 \<Longrightarrow> e < 2 ^ 63 \<Longrightarrow> length (idx_line s e) \<le> 40"
  using length_fmt_zu [of 19 s] length_fmt_zu [of 19 e] by (simp add: idx_line_def)

lemma idx_line_len: "4 \<le> length (idx_line s e)"
  using fmt_zu_text(1) [of s] fmt_zu_text(1) [of e]
  by (cases "fmt_zu s"; cases "fmt_zu e") (auto simp: idx_line_def)

definition msg_offsets :: "mboxMsgLite \<Rightarrow> nat \<times> nat" where
  "msg_offsets m = (m_start m, m_end m)"

lemma save_loop_ok:
  assumes "plain_file sys content name fd" and "dseg (lh_cells h) p cs n"
    and "map snd cs = map Some ms" and "\<forall>m \<in> set ms. m_start m < 2 ^ 63 \<and> m_end m < 2 ^ 63"
    and "saving content fd cap w io out" and "cap + 256 * length cs \<le> PTRDIFF_MAX"
  shows "\<exists>io' w'. save_loop sys (length cs) w io h (Some (first_of cs n)) = Inr (MBOX_IO_OK, io', w') \<and>
     saving content fd (cap + 256 * length cs) w' io' (out @ idx_text (map msg_offsets ms))"
  using assms(2-)
proof (induction cs arbitrary: p ms cap w io out)
  case Nil
  then show ?case by simp
next
  case (Cons c cs)
  obtain a v where c: "c = (a, v)" by fastforce
  obtain m ms' where ms: "ms = m # ms'" "v = Some m" "map snd cs = map Some ms'"
    using Cons.prems(2) by (cases ms) (auto simp: c)
  define lt where "lt = idx_line (m_start m) (m_end m)"
  have ln: "length lt \<le> 40" "4 \<le> length lt"
    using length_idx_line idx_line_len Cons.prems(3) by (auto simp: lt_def ms(1))
  obtain s where s: "io_fd io = fd" "io_err io = MBOX_IO_OK" "io_file_offset io = int (length (content w))"
    "buf_capacity (io_buf io) \<le> cap" "buf_rep (io_buf io) s" "content w @ s = out"
    using Cons.prems(4) by (auto simp: saving_def)
  obtain b where b: "mboxBufCatPrintf (io_buf io) (''%zu %zu'' @ [LF]) lt = Inr b" "buf_rep b (s @ lt)"
    "buf_capacity b \<le> buf_capacity (io_buf io) + 256"
    using mboxBufCatLen_rep [OF s(5), of lt "c_lit lt"] ln(1) s(4) Cons.prems(5)
    by (auto simp: mboxBufCatPrintf_is_CatLen max_def)
  define io1 where "io1 = io\<lparr>io_buf := b\<rparr>"
  have bl: "0 < buf_len b" using buf_repD(1) [OF b(2)] ln(2) by (cases lt) auto
  have sv: "saving content fd (cap + 256) w io1 (out @ lt)"
    using s b(2,3) by (auto simp: saving_def io1_def)
  have "\<exists>io2 w2. (if buf_len b mod BUFSIZ = 0 then mboxIdxTryWrite sys w io1 else Inr (MBOX_IO_OK, io1, w)) =
      Inr (MBOX_IO_OK, io2, w2) \<and> saving content fd (cap + 256) w2 io2 (out @ lt)"
    using mboxIdxTryWrite_ok [OF assms(1) sv] sv bl by (auto simp: io1_def)
  then obtain io2 w2 where t: "(if buf_len b mod BUFSIZ = 0 then mboxIdxTryWrite sys w io1 else Inr (MBOX_IO_OK, io1, w)) =
      Inr (MBOX_IO_OK, io2, w2)" "saving content fd (cap + 256) w2 io2 (out @ lt)" by blast
  obtain io' w' where r: "save_loop sys (length cs) w2 io2 h (Some (first_of cs n)) = Inr (MBOX_IO_OK, io', w')"
    "saving content fd (cap + 256 + 256 * length cs) w' io' ((out @ lt) @ idx_text (map msg_offsets ms'))"
    using Cons.IH [of a ms' "cap + 256" w2 io2 "out @ lt"] Cons.prems ms(3) t(2)
    by (auto simp: c ms(1) ac_simps)
  have node: "ln_get h (Some a) = Inr \<lparr>ln_data = Some m, ln_next = Some (first_of cs n), ln_prev = Some p\<rparr>"
    using Cons.prems(1) by (simp add: c ms(2))
  show ?case
    using node b(1) t(1) r
    by (simp add: c lt_def [symmetric] io1_def [symmetric] ms(1) msg_offsets_def [of m] ac_simps del: bindE_if)
qed

interpretation by_start: list_order mboxListSortByStartOffset msgs
  by unfold_locales (auto simp: mboxListSortByStartOffset_def Let_def split: if_splits)

lemma by_start_le: "m_start m < 2 ^ 63 \<Longrightarrow> m_start n < 2 ^ 63 \<Longrightarrow>
    by_start.le (Some m) (Some n) \<longleftrightarrow> m_start m \<le> m_start n"
  by (auto simp: by_start.le_def mboxListSortByStartOffset_def to_ssize_def Let_def)

lemma sort_for_saving:
  assumes "list_rep h l cs" and "\<not> l_locked l" and "map snd cs = map Some ms" and "ms \<noteq> []"
    and "\<forall>m \<in> set ms. m_start m < 2 ^ 63"
  obtains h' l' ms' cs' where "mboxListQSort h l (Some mboxListSortByStartOffset) = Inr (h', l')"
    "list_rep h' l' cs'" "map snd cs' = map Some ms'" "mset ms' = mset ms" "sorted (map m_start ms')"
    "length cs' = length cs"
proof (cases "2 \<le> length cs")
  case True
  have "set (map snd cs) \<subseteq> msgs" by (simp add: assms(3) msgs_def image_subset_iff)
  then obtain h' ys where q: "mboxListQSort h l (Some mboxListSortByStartOffset) = Inr (h', l)"
    "list_rep h' l (zip (map fst cs) ys)" "mset ys = mset (map snd cs)" "sorted_wrt by_start.le ys"
    using by_start.sort_ok [OF assms(1,2) True] by auto
  obtain ms' where ms': "ys = map Some ms'"
    using map_the_Some [of ys] mset_eq_setD [OF q(3)] by (auto simp: assms(3))
  have mm: "mset ms' = mset ms"
    using arg_cong [OF q(3), of "image_mset the"] by (simp add: ms' assms(3) multiset.map_comp o_def)
  have small: "\<forall>m \<in> set ms'. m_start m < 2 ^ 63" using assms(5) mset_eq_setD [OF mm] by simp
  have "sorted (map m_start ms')"
    using q(4) small unfolding ms' by (induction ms') (auto simp: by_start_le)
  moreover have "length ys = length cs" using mset_eq_length [OF q(3)] by simp
  ultimately show thesis
    using q(1,2) mm ms' by (intro that [of h' l "zip (map fst cs) ys" ms']) auto
next
  case False
  then obtain m where m: "ms = [m]"
    using assms(3,4) arg_cong [OF assms(3), of length] by (cases ms; cases "tl ms") auto
  have "mboxListQSort h l (Some mboxListSortByStartOffset) = Inr (h, l\<lparr>l_locked := True\<rparr>)"
    using False assms(2) list_repD(1) [OF assms(1)] by (simp add: mboxListQSort_def list_lock_def)
  then show thesis
    using assms(1,3) m by (intro that [of h "l\<lparr>l_locked := True\<rparr>" cs ms]) (auto simp: list_rep_def)
qed

lemma mboxIONew_rep: "buf_rep (io_buf (mboxIONew fd n)) []" "buf_capacity (io_buf (mboxIONew fd n)) = 300010"
  by (simp_all add: mboxIONew_def mboxBufAlloc_rep MBOX_IO_READ_SIZE_def)

lemma mboxIdxSave_ok:
  assumes "plain_file sys content name fd" and "list_rep h l cs" and "\<not> l_locked l"
    and "map snd cs = map Some ms" and "ms \<noteq> []"
    and "\<forall>m \<in> set ms. m_start m < 2 ^ 63 \<and> m_end m < 2 ^ 63" and "length ms < 2 ^ 40"
  obtains w' h' l' ms' where "mboxIdxSave sys w name h l = Inr (MBOX_IO_OK, w', h', l')"
    "mset ms' = mset ms" "sorted (map m_start ms')" "content w' = idx_text (map msg_offsets ms')"
proof -
  note F = plain_fileD [OF assms(1)]
  obtain h' l' ms' cs' where q: "mboxListQSort h l (Some mboxListSortByStartOffset) = Inr (h', l')"
    "list_rep h' l' cs'" "map snd cs' = map Some ms'" "mset ms' = mset ms" "sorted (map m_start ms')"
    "length cs' = length cs"
    by (rule sort_for_saving [OF assms(2-5)]) (use assms(6) in auto)
  have len: "length cs = length ms" "cs \<noteq> []" "cs' \<noteq> []"
    using arg_cong [OF assms(4), of length] assms(5) q(6) by auto
  obtain w1 where w1: "s_open sys w name O_SAVE MODE_0666 = (fd, w1)" "content w1 = []" using F(2) by blast
  define io where "io = mboxIONew fd (length (content w1))"
  have sv: "saving content fd 300010 w1 io []"
    using w1(2) mboxIONew_rep by (simp add: saving_def io_def) (simp add: mboxIONew_def)
  have small: "\<forall>m \<in> set ms'. m_start m < 2 ^ 63 \<and> m_end m < 2 ^ 63"
    using assms(6) mset_eq_setD [OF q(4)] by simp
  have cap: "300010 + 256 * length cs' \<le> PTRDIFF_MAX" using assms(7) q(6) len(1) by simp
  obtain io2 w2 where r: "save_loop sys (length cs') w1 io h' (Some (first_of cs' (first_of cs' 0))) = Inr (MBOX_IO_OK, io2, w2)"
    "saving content fd (300010 + 256 * length cs') w2 io2 (idx_text (map msg_offsets ms'))"
    using save_loop_ok [OF assms(1) list_repD(5) [OF q(2)] q(3) small sv cap] by auto
  define out where "out = idx_text (map msg_offsets ms')"
  have "\<exists>io3 w3. (if buf_len (io_buf io2) > 0 then mboxIdxTryWrite sys w2 io2 else Inr (MBOX_IO_OK, io2, w2)) =
      Inr (MBOX_IO_OK, io3, w3) \<and> content w3 = out \<and> io_fd io3 = fd \<and> io_err io3 = MBOX_IO_OK"
  proof (cases "buf_len (io_buf io2) > 0")
    case True
    then show ?thesis
      using mboxIdxTryWrite_ok [OF assms(1) r(2) True] by (auto simp: saving_def out_def)
  next
    case False
    then show ?thesis using r(2) by (auto simp: saving_def out_def dest: buf_repD(1))
  qed
  then obtain io3 w3 where t:
    "(if buf_len (io_buf io2) > 0 then mboxIdxTryWrite sys w2 io2 else Inr (MBOX_IO_OK, io2, w2)) = Inr (MBOX_IO_OK, io3, w3)"
    "content w3 = out" "io_fd io3 = fd" "io_err io3 = MBOX_IO_OK" by blast
  have root: "l_root l' = Some (first_of cs' (first_of cs' 0))" "l_len l' = length cs'" "l_len l \<noteq> 0"
    using list_repD(1,3) [OF q(2)] list_repD(1) [OF assms(2)] len by auto
  have "mboxIdxSave sys w name h l = Inr (MBOX_IO_OK, s_close sys w3 fd, h', l')"
    using root w1(1) F(1) F(4) q(1) r(1) t
    by (cases "buf_len (io_buf io2) > 0")
      (simp_all add: mboxIdxSave_def mboxIOOpen_def io_def [symmetric] mboxIOClose_def)
  then show thesis using q(4,5) t(2) F(8) by (intro that [of "s_close sys w3 fd" h' l' ms']) (auto simp: out_def)
qed

lemma loadIndexes_ok:
  assumes "plain_file sys content name fd" and "length (content w) < 2 ^ 32"
  obtains io w' where "loadIndexes sys w name = Inr (Some io, w')" "content w' = content w" "io_fd io = fd"
    "buf_rep (io_buf io) (content w)" "buf_offset (io_buf io) = 0"
proof -
  note F = plain_fileD [OF assms(1)]
  obtain w1 where w1: "s_open sys w name O_RDONLY MODE_0666 = (fd, w1)" "content w1 = content w" using F(3) by blast
  define io where "io = mboxIONew fd (length (content w))"
  have pr: "s_pread sys w1 (io_fd io) (length (content w)) 0 = Some (content w)"
    using F(5) [of w1] w1(2) by (simp add: io_def mboxIONew_def)
  obtain b where b: "mboxIORead (s_pread sys w1) io (length (content w)) 0 0 =
      Inr (int (length (content w)), io\<lparr>io_buf := b, io_err := if content w = [] then MBOX_IO_EOF else MBOX_IO_OK\<rparr>)"
    "buf_rep b (if content w = [] then [] else take 0 [] @ content w)"
    "buf_offset b = buf_offset (io_buf io)"
    by (rule mboxIORead_at [where pread = "s_pread sys w1" and io = io and s = "[]" and k = 0
          and sz = "length (content w)" and bs = "content w" and off = 0])
      (use mboxIONew_rep [of fd "length (content w)", folded io_def] assms(2) pr in auto)
  have sz: "io_file_size io = length (content w)" "buf_offset (io_buf io) = 0" "io_fd io = fd"
    by (simp_all add: io_def mboxIONew_def)
  have "loadIndexes sys w name = Inr (Some (io\<lparr>io_buf := b, io_err := if content w = [] then MBOX_IO_EOF else MBOX_IO_OK\<rparr>), w1)"
    using w1 F(1) F(4) b(1) sz(1) assms(2)
    by (simp add: loadIndexes_def mboxIOOpen_def flip: io_def)
  then show thesis
    using b(2,3) sz w1(2)
    by (intro that [of "io\<lparr>io_buf := b, io_err := if content w = [] then MBOX_IO_EOF else MBOX_IO_OK\<rparr>" w1]) (auto split: if_splits)
qed

section \<open>Batches\<close>

text \<open>
  Where a list of offsets is cut: a batch is closed with the message that brings its size to
  that of a read.
\<close>

definition msg_size :: "idx_offsets \<Rightarrow> nat" where
  "msg_size p = nat ((snd p - fst p) mod 2 ^ 64)"

fun cut_batches :: "idx_offsets list \<Rightarrow> nat \<Rightarrow> idx_offsets list \<Rightarrow> idx_offsets list list" where
  "cut_batches b n [] = (if b = [] then [] else [b])"
| "cut_batches b n (p # ps) =
     (if n + msg_size p < MBOX_IO_READ_SIZE then cut_batches (b @ [p]) (n + msg_size p) ps
      else (b @ [p]) # cut_batches [] 0 ps)"

lemma concat_cut_batches: "concat (cut_batches b n ps) = b @ ps"
  by (induction ps arbitrary: b n) auto

text \<open>A batch is full when it reaches the size of a read, and not before its last message.\<close>

definition batch_size :: "idx_offsets list \<Rightarrow> nat" where
  "batch_size b = sum_list (map msg_size b)"

lemma cut_batches_sizes:
  assumes "batch_size b = n" and "n < MBOX_IO_READ_SIZE"
  shows "\<forall>c \<in> set (cut_batches b n ps). c \<noteq> [] \<and> batch_size (butlast c) < MBOX_IO_READ_SIZE"
    and "\<forall>c \<in> set (butlast (cut_batches b n ps)). MBOX_IO_READ_SIZE \<le> batch_size c"
  using assms
proof (induction ps arbitrary: b n)
  case Nil
  {
    case 1
    have "batch_size (butlast b) \<le> batch_size b"
      by (cases b rule: rev_cases) (simp_all add: batch_size_def)
    then show ?case using 1 by auto
  next
    case 2
    then show ?case by simp
  }
next
  case (Cons p ps)
  {
    case 1
    then show ?case using Cons.IH(1) [of "b @ [p]"] Cons.IH(1) [of "[]" 0]
      by (auto simp: batch_size_def)
  next
    case 2
    then show ?case using Cons.IH(2) [of "b @ [p]"] Cons.IH(2) [of "[]" 0]
      by (auto simp: batch_size_def)
  }
qed

text \<open>Lists of one heap that share no cell.\<close>

fun lists_rep :: "'v lheap \<Rightarrow> mboxList list \<Rightarrow> 'v cells list \<Rightarrow> bool" where
  "lists_rep h [] [] \<longleftrightarrow> True"
| "lists_rep h (l # ls) (cs # css) \<longleftrightarrow>
     list_rep h l cs \<and> (\<forall>ds \<in> set css. fst ` set cs \<inter> fst ` set ds = {}) \<and> lists_rep h ls css"
| "lists_rep h _ _ \<longleftrightarrow> False"

lemma lists_rep_fresh: "lists_rep h ls css \<Longrightarrow> ds \<in> set css \<Longrightarrow> a \<in> fst ` set ds \<Longrightarrow> a < lh_fresh h"
proof (induction h ls css rule: lists_rep.induct)
  case (2 h l ls cs css)
  then show ?case by (cases "ds = cs") (auto dest: list_rep_fresh)
qed auto

text \<open>What a step that keeps to some cells leaves of the other lists.\<close>

lemma lists_rep_frame:
  "lists_rep h ls css \<Longrightarrow> frame cs h h' \<Longrightarrow> \<forall>ds \<in> set css. fst ` set cs \<inter> fst ` set ds = {} \<Longrightarrow>
   \<forall>a \<ge> lh_fresh h'. lh_cells h' a = None \<Longrightarrow> lists_rep h' ls css"
  by (induction h ls css rule: lists_rep.induct) (auto intro: list_rep_other)

lemma list_rep_outside: "list_rep h l cs \<Longrightarrow> \<forall>a \<ge> lh_fresh h. lh_cells h a = None"
  using list_repD(6) by blast

text \<open>One message moves from the index to the batch.\<close>

lemma move_message:
  assumes "lists_rep h (idx # batch # ls) (((a, v) # cs) # bs # css)"
    and "Suc (length cs) < SIZE_MOD" and "Suc (length bs) < SIZE_MOD"
  obtains h1 idx1 h2 batch2 b where "mboxListRemoveHead h idx = Inr (v, h1, idx1)"
    "mboxListAddTail h1 batch v = Inr (h2, batch2)"
    "lists_rep h2 (idx1 # batch2 # ls) (cs # (bs @ [(b, v)]) # css)"
proof -
  let ?all = "(a, v) # cs"
  have R: "list_rep h idx ?all" "list_rep h batch bs" "lists_rep h ls css"
    and D: "fst ` set ?all \<inter> fst ` set bs = {}" "\<forall>ds \<in> set css. fst ` set ?all \<inter> fst ` set ds = {}"
      "\<forall>ds \<in> set css. fst ` set bs \<inter> fst ` set ds = {}"
    using assms(1) by auto
  obtain h1 idx1 where r: "mboxListRemoveHead h idx = Inr (v, h1, idx1)" "list_rep h1 idx1 cs"
    "frame ?all h h1"
    using mboxListRemoveHead_rep [OF R(1) assms(2)] by blast
  have R1: "list_rep h1 batch bs" "lists_rep h1 ls css"
    using list_rep_other [OF r(3) R(2) D(1) list_rep_outside [OF r(2)]]
      lists_rep_frame [OF R(3) r(3) D(2) list_rep_outside [OF r(2)]] by auto
  obtain h2 batch2 where p: "mboxListAddTail h1 batch v = Inr (h2, batch2)"
    "list_rep h2 batch2 (bs @ [(lh_fresh h1, v)])" "frame bs h1 h2"
    using mboxListAddTail_rep [OF R1(1) assms(3)] by blast
  have d: "fst ` set cs \<inter> fst ` set bs = {}" "fst ` set bs \<inter> fst ` set cs = {}" using D(1) by auto
  have R2: "list_rep h2 idx1 cs" "lists_rep h2 ls css"
    using list_rep_other [OF p(3) r(2) d(2) list_rep_outside [OF p(2)]]
      lists_rep_frame [OF R1(2) p(3) D(3) list_rep_outside [OF p(2)]] by auto
  have new: "lh_fresh h1 \<notin> fst ` set cs" "\<forall>ds \<in> set css. lh_fresh h1 \<notin> fst ` set ds"
    using list_rep_fresh [OF r(2)] lists_rep_fresh [OF R1(2)] by (metis less_irrefl)+
  have "lists_rep h2 (idx1 # batch2 # ls) (cs # (bs @ [(lh_fresh h1, v)]) # css)"
    using R2 p(2) d D new by auto
  then show thesis using that r(1) p(1) by blast
qed

lemma lists_rep_front:
  "lists_rep h (ks @ l # ls) (dss @ cs # css) \<Longrightarrow> length ks = length dss \<Longrightarrow>
   lists_rep h (l # ks @ ls) (cs # dss @ css)"
  by (induction ks dss rule: list_induct2') (auto simp: Int_commute)

lemma batch_loop_ok:
  assumes "lists_rep h (idx # batch # ls) (cs # bs # css)" and "cs \<noteq> []" and "map snd cs = map Some ps"
    and "map snd bs = map Some b" and "length cs + length bs < SIZE_MOD - 1" and "length cs < fuel"
    and "n + sum_list (map msg_size ps) < SIZE_MOD"
  shows "\<exists>h' idx' jobs dss. batch_loop fuel h idx batch n = Inr (h', idx', jobs) \<and> l_len idx' = 0 \<and>
     map (map snd) dss = map (map Some) (cut_batches b n ps) \<and> length jobs = length dss \<and>
     lists_rep h' (idx' # jobs @ ls) ([] # dss @ css)"
  using assms
proof (induction fuel arbitrary: h idx batch ls cs bs css ps b n)
  case 0
  then show ?case by simp
next
  case (Suc fuel)
  obtain a v cs' where cs: "cs = (a, v) # cs'" using Suc.prems(2) by (cases cs) auto
  obtain p ps' where ps: "ps = p # ps'" "v = Some p" "map snd cs' = map Some ps'"
    using Suc.prems(3) by (cases ps) (auto simp: cs)
  have lens: "Suc (length cs') < SIZE_MOD" "Suc (length bs) < SIZE_MOD"
    using Suc.prems(5) by (simp_all add: cs)
  obtain h1 idx1 h2 batch2 x where m: "mboxListRemoveHead h idx = Inr (Some p, h1, idx1)"
    "mboxListAddTail h1 batch (Some p) = Inr (h2, batch2)"
    "lists_rep h2 (idx1 # batch2 # ls) (cs' # (bs @ [(x, Some p)]) # css)"
    by (rule move_message [OF Suc.prems(1) [unfolded cs ps(2)] lens])
  let ?bs = "bs @ [(x, Some p)]"
  have sz: "size_add n (msg_size p) = n + msg_size p" using Suc.prems(7) by (simp add: ps(1))
  have len: "l_len idx1 = length cs'" "l_len batch2 = Suc (length bs)" 
    using list_repD(1) [of h2 idx1 cs'] list_repD(1) [of h2 batch2 ?bs] m(3) by auto
  have b: "map snd ?bs = map Some (b @ [p])" using Suc.prems(4) by simp
  obtain s e where p: "p = (s, e)" by fastforce
  have unfold: "batch_loop (Suc fuel) h idx batch n =
      (if n + msg_size p < MBOX_IO_READ_SIZE
       then if 0 < length cs' then batch_loop fuel h2 idx1 batch2 (n + msg_size p) else Inr (h2, idx1, [batch2])
       else if 0 < length cs'
            then bindE (batch_loop fuel h2 idx1 mboxListNew 0) (\<lambda>(h, indexes, jobs). Inr (h, indexes, batch2 # jobs))
            else Inr (h2, idx1, [batch2]))"
    using m(1,2) len sz by (simp add: p msg_size_def Let_def)
  show ?case
  proof (cases "cs' = []")
    case True
    then have "ps' = []" "lists_rep h2 (idx1 # [batch2] @ ls) ([] # [?bs] @ css)" using ps(3) m(3) by auto
    then show ?thesis
      using unfold len(1) b True
      by (intro exI [of _ h2] exI [of _ idx1] exI [of _ "[batch2]"] exI [of _ "[?bs]"]) (auto simp: ps(1))
  next
    case False
    show ?thesis
    proof (cases "n + msg_size p < MBOX_IO_READ_SIZE")
      case True
      have "\<exists>h' idx' jobs dss. batch_loop fuel h2 idx1 batch2 (n + msg_size p) = Inr (h', idx', jobs) \<and> l_len idx' = 0 \<and>
         map (map snd) dss = map (map Some) (cut_batches (b @ [p]) (n + msg_size p) ps') \<and>
         length jobs = length dss \<and> lists_rep h' (idx' # jobs @ ls) ([] # dss @ css)"
        by (rule Suc.IH [OF m(3) False ps(3) b]) (use Suc.prems(5-7) in \<open>simp_all add: cs ps(1)\<close>)
      then show ?thesis using unfold True False by (simp add: ps(1))
    next
      case full: False
      have "list_rep h2 mboxListNew []"
        using m(3) by (intro mboxListNew_rep) (auto dest: list_rep_outside)
      then have "lists_rep h2 (idx1 # mboxListNew # batch2 # ls) (cs' # [] # ?bs # css)" using m(3) by auto
      from Suc.IH [OF this False ps(3), of "[]" 0]
      obtain h' idx' jobs dss where r: "batch_loop fuel h2 idx1 mboxListNew 0 = Inr (h', idx', jobs)" "l_len idx' = 0"
         "map (map snd) dss = map (map Some) (cut_batches [] 0 ps')" "length jobs = length dss"
         "lists_rep h' (idx' # jobs @ batch2 # ls) ([] # dss @ ?bs # css)"
        using Suc.prems(5-7) by (auto simp: cs ps(1))
      have "lists_rep h' (batch2 # jobs @ ls) (?bs # dss @ css)"
        using r(5) by (intro lists_rep_front [OF _ r(4)]) simp
      then have "lists_rep h' (idx' # (batch2 # jobs) @ ls) ([] # (?bs # dss) @ css)" using r(5) by simp
      then show ?thesis
        using unfold full False r(1-4) b
        by (intro exI [of _ h'] exI [of _ idx'] exI [of _ "batch2 # jobs"] exI [of _ "?bs # dss"]) (simp add: ps(1))
    qed
  qed
qed

lemma lists_rep_holds:
  "lists_rep h ls css \<Longrightarrow> list_all2 (Mbox_List.holds h) ls (map (map snd) css)"
  by (induction h ls css rule: lists_rep.induct) (auto simp: Mbox_List.holds_def)

lemma lists_rep_take: "lists_rep h (ks @ ls) (dss @ css) \<Longrightarrow> length ks = length dss \<Longrightarrow> lists_rep h ks dss"
  by (induction ks dss rule: list_induct2') auto

section \<open>Properties\<close>

text \<open>
  C9. The offsets are cut into batches in their order, each with at least one message. A batch
  stays below the size of a read without its last message, and every batch but the last reaches
  it.
\<close>

theorem mboxIdxBatchLoad_batches:
  assumes "Mbox_List.holds h indexes (map Some ps)" and "ps \<noteq> []" and "length ps < SIZE_MOD - 2"
    and "sum_list (map msg_size ps) < SIZE_MOD"
  shows "\<exists>h' indexes' jobs bss. mboxIdxBatchLoad h indexes = Inr (h', indexes', jobs) \<and> l_len indexes' = 0 \<and>
     list_all2 (Mbox_List.holds h') jobs (map (map Some) bss) \<and> concat bss = ps \<and>
     (\<forall>b \<in> set bss. b \<noteq> [] \<and> batch_size (butlast b) < MBOX_IO_READ_SIZE) \<and>
     (\<forall>b \<in> set (butlast bss). MBOX_IO_READ_SIZE \<le> batch_size b)"
proof -
  obtain cs where cs: "list_rep h indexes cs" "map snd cs = map Some ps" "cs \<noteq> []"
    using assms(1,2) unfolding Mbox_List.holds_def by (metis map_is_Nil_conv)
  have len: "l_len indexes = length cs" "length cs = length ps"
    using list_repD(1) [OF cs(1)] arg_cong [OF cs(2), of length] by auto
  have "lists_rep h (indexes # mboxListNew # []) (cs # [] # [])"
    using cs(1) mboxListNew_rep [OF list_rep_outside [OF cs(1)]] by simp
  from batch_loop_ok [OF this cs(3,2), of "[]" "Suc (length cs)" 0]
  obtain h' idx' jobs dss where r: "mboxIdxBatchLoad h indexes = Inr (h', idx', jobs)" "l_len idx' = 0"
     "map (map snd) dss = map (map Some) (cut_batches [] 0 ps)" "length jobs = length dss"
     "lists_rep h' (idx' # jobs) ([] # dss)"
    using assms(3,4) len by (auto simp: mboxIdxBatchLoad_def)
  have "list_all2 (Mbox_List.holds h') jobs (map (map Some) (cut_batches [] 0 ps))"
    using lists_rep_holds [of h' jobs dss] r(3,5) by simp
  then show ?thesis
    using r(1,2) concat_cut_batches [of "[]" 0 ps] cut_batches_sizes [of "[]" 0 ps]
    by (intro exI [of _ h'] exI [of _ idx'] exI [of _ jobs] exI [of _ "cut_batches [] 0 ps"])
      (simp add: batch_size_def MBOX_IO_READ_SIZE_def)
qed


theorem mboxIdxBatchLoad_batches_witness:
  "\<exists>h' indexes' jobs bss.
     mboxIdxBatchLoad \<lparr>lh_cells = [4 \<mapsto> \<lparr>ln_data = Some (0, 300000), ln_next = Some 5, ln_prev = Some 5\<rparr>,
         5 \<mapsto> \<lparr>ln_data = Some (300000, 300007), ln_next = Some 4, ln_prev = Some 4\<rparr>], lh_fresh = 6\<rparr> two_list =
       Inr (h', indexes', jobs) \<and> l_len indexes' = 0 \<and>
     list_all2 (Mbox_List.holds h') jobs (map (map Some) bss) \<and> concat bss = [(0, 300000), (300000, 300007)] \<and>
     (\<forall>b \<in> set bss. b \<noteq> [] \<and> batch_size (butlast b) < MBOX_IO_READ_SIZE) \<and>
     (\<forall>b \<in> set (butlast bss). MBOX_IO_READ_SIZE \<le> batch_size b)"
proof (rule mboxIdxBatchLoad_batches)
  show "Mbox_List.holds \<lparr>lh_cells = [4 \<mapsto> \<lparr>ln_data = Some (0, 300000), ln_next = Some 5, ln_prev = Some 5\<rparr>,
       5 \<mapsto> \<lparr>ln_data = Some (300000, 300007), ln_next = Some 4, ln_prev = Some 4\<rparr>], lh_fresh = 6\<rparr> two_list
      (map Some [(0::int, 300000::int), (300000, 300007)])"
    unfolding Mbox_List.holds_def
    by (rule exI [of _ "[(4, Some (0, 300000)), (5, Some (300000, 300007))]"])
      (simp add: list_rep_def ring_def two_list_def)
qed (simp_all add: msg_size_def)

text \<open>
  C8. An index that is saved is read back: the file holds a line for each message, in the order
  of where the messages start, and loading it gives the offsets of these lines. The system calls
  are those of a file that is kept.
\<close>

theorem mboxIdxSave_load_roundtrip:
  assumes "plain_file sys content name fd" and "list_rep h l cs" and "\<not> l_locked l"
    and "map snd cs = map Some ms" and "ms \<noteq> []"
    and "\<forall>m \<in> set ms. m_start m < 2 ^ 63 \<and> m_end m < 2 ^ 63" and "length (idx_text (map msg_offsets ms)) < 2 ^ 32"
    and "\<forall>a \<ge> lh_fresh ho. lh_cells ho a = None"
  shows "\<exists>w' h' l' ms'. mboxIdxSave sys w name h l = Inr (MBOX_IO_OK, w', h', l') \<and>
     mset ms' = mset ms \<and> sorted (map m_start ms') \<and> content w' = idx_text (map msg_offsets ms') \<and>
     (\<exists>io w'' io' ho' lo. loadIndexes sys w' name = Inr (Some io, w'') \<and>
        indexesToList ho io = Inr (ho', lo, io') \<and>
        Mbox_List.holds ho' lo (map (\<lambda>m. Some (int (m_start m), int (m_end m))) ms'))"
proof -
  have text_len: "length (idx_text ps) = sum_list (map (\<lambda>p. length (idx_line (fst p) (snd p))) ps)" for ps
    by (induction ps) auto
  have "4 * length ms \<le> length (idx_text (map msg_offsets ms))"
    by (induction ms) (auto intro: add_mono idx_line_len)
  then have n: "length ms < 2 ^ 30" using assms(7) by simp
  then obtain w' h' l' ms' where s: "mboxIdxSave sys w name h l = Inr (MBOX_IO_OK, w', h', l')"
    "mset ms' = mset ms" "sorted (map m_start ms')" "content w' = idx_text (map msg_offsets ms')"
    by (elim mboxIdxSave_ok [OF assms(1-6), rotated]) simp
  have "mset (map (\<lambda>m. length (idx_line (m_start m) (m_end m))) ms') =
      mset (map (\<lambda>m. length (idx_line (m_start m) (m_end m))) ms)" using s(2) by simp
  then have len: "length (content w') < 2 ^ 32" "length ms' = length ms"
    using assms(7) s(2) mset_eq_length [OF s(2)]
    by (simp_all add: s(4) text_len o_def msg_offsets_def flip: sum_mset_sum_list)
  obtain io w'' where l: "loadIndexes sys w' name = Inr (Some io, w'')"
    "buf_rep (io_buf io) (content w')" "buf_offset (io_buf io) = 0"
    by (rule loadIndexes_ok [OF assms(1) len(1)])
  have small: "\<forall>(s, e) \<in> set (map msg_offsets ms'). s < 2 ^ 63 \<and> e < 2 ^ 63"
    using assms(6) mset_eq_setD [OF s(2)] by (auto simp: msg_offsets_def)
  have "\<exists>ho' lo. indexesToList ho io = Inr (ho', lo, io_set_off io (length (content w'))) \<and>
      Mbox_List.holds ho' lo (map (Some \<circ> offsets_of) (map msg_offsets ms'))"
    using indexesToList_ok [OF l(2) [unfolded s(4)] l(3) small _ assms(8)] n len(2) by (simp add: s(4))
  then show ?thesis
    using s l(1) by (fastforce simp: offsets_of_def msg_offsets_def o_def)
qed

text \<open>A file system of one file.\<close>

definition one_file :: "string sys" where
  "one_file = \<lparr>s_open = (\<lambda>w n p m. (3, if p = O_SAVE then [] else w)), s_fstat = (\<lambda>w fd. Some (length w)),
     s_pread = file_pread, s_pwrite = (\<lambda>w fd bs off. (int (length bs), take (nat off) w @ bs)),
     s_fsync = (\<lambda>w fd. (0, w)), s_close = (\<lambda>w fd. w)\<rparr>"

lemma one_file_plain: "plain_file one_file id name 3"
  by (simp add: plain_file_def one_file_def file_pread_def O_SAVE_def O_RDONLY_def)

definition msg_span :: "nat \<Rightarrow> nat \<Rightarrow> mboxMsgLite" where
  "msg_span s e = (msg_at 0)\<lparr>m_start := s, m_end := e\<rparr>"

theorem mboxIdxSave_load_roundtrip_witness:
  "\<exists>w' h' l' ms'. mboxIdxSave one_file [] ''f'' (two_msgs (msg_span 12 30) (msg_span 0 12)) two_list =
       Inr (MBOX_IO_OK, w', h', l') \<and>
     mset ms' = mset [msg_span 12 30, msg_span 0 12] \<and> sorted (map m_start ms') \<and>
     id w' = idx_text (map msg_offsets ms') \<and>
     (\<exists>io w'' io' ho' lo. loadIndexes one_file w' ''f'' = Inr (Some io, w'') \<and>
        indexesToList \<lparr>lh_cells = (\<lambda>_. None), lh_fresh = 0\<rparr> io = Inr (ho', lo, io') \<and>
        Mbox_List.holds ho' lo (map (\<lambda>m. Some (int (m_start m), int (m_end m))) ms'))"
  by (rule mboxIdxSave_load_roundtrip [OF one_file_plain two_msgs_rep])
    (simp_all add: two_list_def msg_span_def msg_offsets_def idx_line_def fmt_zu.simps)

text \<open>
  C29. An empty index file makes loading dereference a null pointer, whatever the number of
  threads: the batches are cut by a loop that takes a message before it looks whether there is
  one.
\<close>

theorem mboxIdxLoad_empty_crashes:
  assumes "plain_file sys content idxfile fd" and "content w = []"
    and "\<forall>a \<ge> lh_fresh (ih_offsets hs). lh_cells (ih_offsets hs) a = None"
  shows "mboxIdxLoad mktime sys w hs idxfile mboxfile thread_count = Inl NullDeref"
proof -
  obtain io w'' where l: "loadIndexes sys w idxfile = Inr (Some io, w'')"
    "buf_rep (io_buf io) (content w)" "buf_offset (io_buf io) = 0"
    by (rule loadIndexes_ok [OF assms(1), of w]) (simp_all add: assms(2))
  obtain ho lo where i: "indexesToList (ih_offsets hs) io = Inr (ho, lo, io_set_off io 0)"
    "Mbox_List.holds ho lo []"
    using indexesToList_ok [of io "[]" "ih_offsets hs"] l(2,3) assms(2,3) by auto
  then have "mboxIdxBatchLoad ho lo = Inl NullDeref"
    using holds_pop_empty [OF i(2)] by (simp add: mboxIdxBatchLoad_def deref_def)
  then show ?thesis using l(1) i(1) by (simp add: mboxIdxLoad_def Let_def split: prod.splits)
qed

theorem mboxIdxLoad_empty_crashes_witness:
  "\<forall>hm hh. mboxIdxLoad (\<lambda>_. 0) one_file [] \<lparr>ih_offsets = \<lparr>lh_cells = (\<lambda>_. None), lh_fresh = 0\<rparr>,
       ih_msgs = hm, ih_headers = hh\<rparr> ''i'' ''m'' 4 = Inl NullDeref"
  by (intro allI, rule mboxIdxLoad_empty_crashes [OF one_file_plain]) simp_all

end
