(* ===== verification/Mbox_Worker.thy ===== *)
theory Mbox_Worker
  imports Mbox_List "HOL-Library.Multiset"
begin

text \<open>
  The worker pool of \<open>src/src/mbox-worker.c\<close>, as the steps of its threads: the workers and one
  client that makes the pool, hands it jobs and waits for them. What a thread does under a mutex
  is one step; a thread that waits for a condition sleeps until it is woken, by a signal or for no
  reason, and then looks at its condition again. A signal wakes at least one of the sleepers.
\<close>

section \<open>The state\<close>

text \<open>The field \<open>next\<close> of a job is set to null and never read.\<close>

record ('c, 'a) mboxWorkerJob =
  job_callback :: 'c
  job_argv :: 'a

text \<open>
  Where a worker is in \<open>mboxWorkerPoolMain\<close>: before it counts itself alive, before the semaphore,
  asleep on it, before it counts itself active, before it takes a job, in its callback, before it
  stops being active.
\<close>

datatype 'j worker_pc = WStart | WSem | WSemSleep | WCount | WDequeue | WRun 'j | WLeave

text \<open>
  What the client still does: jobs it enqueues and calls of \<open>mboxWorkerPoolWait\<close>. It is in
  \<open>mboxWorkerPoolNew\<close> until all threads are alive, and may sleep in a wait.
\<close>

datatype ('c, 'a) client_op = Enqueue 'c 'a | WaitAll

datatype client_pc = CNew | CRun | CAsleep

text \<open>
  The pool with its threads. The two lists at the end are a history: the jobs in the order in
  which they were taken from the queue, and those whose callback has returned.
\<close>

record ('c, 'a) mboxWorkerPool =
  wp_heap :: "('c, 'a) mboxWorkerJob lheap"
  wp_jobs :: mboxList
  wp_worker_count :: nat
  wp_alive_threads :: nat
  wp_active_threads :: nat
  wp_run :: int
  wp_sem_val :: int
  wp_workers :: "nat \<Rightarrow> ('c, 'a) mboxWorkerJob worker_pc"
  wp_client :: client_pc
  wp_script :: "('c, 'a) client_op list"
  wp_started :: "('c, 'a) mboxWorkerJob list"
  wp_finished :: "('c, 'a) mboxWorkerJob list"

section \<open>The operations\<close>

definition mboxWorkerJobNew :: "'c \<Rightarrow> 'a \<Rightarrow> ('c, 'a) mboxWorkerJob" where
  "mboxWorkerJobNew callback argv = \<lparr>job_callback = callback, job_argv = argv\<rparr>"

definition mboxSemNew :: int where
  "mboxSemNew = 0"

text \<open>The workers that a signal wakes, a set \<open>W\<close>, look at the semaphore again.\<close>

definition mboxSemaphoreSignal :: "nat set \<Rightarrow> ('c, 'a) mboxWorkerPool \<Rightarrow> ('c, 'a) mboxWorkerPool" where
  "mboxSemaphoreSignal W pool =
     pool\<lparr>wp_sem_val := 1, wp_workers := (\<lambda>i. if i \<in> W then WSem else wp_workers pool i)\<rparr>"

definition mboxSemaphoreWait :: "nat \<Rightarrow> ('c, 'a) mboxWorkerPool \<Rightarrow> ('c, 'a) mboxWorkerPool" where
  "mboxSemaphoreWait i pool =
     (if wp_sem_val pool \<noteq> 1 then pool\<lparr>wp_workers := (wp_workers pool)(i := WSemSleep)\<rparr>
      else pool\<lparr>wp_sem_val := 0, wp_workers := (wp_workers pool)(i := WCount)\<rparr>)"

definition mboxWorkerPoolEnqueue ::
  "nat set \<Rightarrow> ('c, 'a) mboxWorkerPool \<Rightarrow> 'c \<Rightarrow> 'a \<Rightarrow> c_error + ('c, 'a) mboxWorkerPool" where
  "mboxWorkerPoolEnqueue W pool callback argv =
     bindE (mboxListAddTail (wp_heap pool) (wp_jobs pool) (Some (mboxWorkerJobNew callback argv))) (\<lambda>(h, l).
     Inr (mboxSemaphoreSignal W (pool\<lparr>wp_heap := h, wp_jobs := l\<rparr>)))"

definition mboxWorkerPoolDequeue ::
  "nat set \<Rightarrow> ('c, 'a) mboxWorkerPool \<Rightarrow>
     c_error + (('c, 'a) mboxWorkerJob option \<times> ('c, 'a) mboxWorkerPool)" where
  "mboxWorkerPoolDequeue W pool =
     bindE (mboxListRemoveHead (wp_heap pool) (wp_jobs pool)) (\<lambda>(job, h, l).
     let pool = pool\<lparr>wp_heap := h, wp_jobs := l\<rparr>
     in Inr (job, if job \<noteq> None then mboxSemaphoreSignal W pool else pool))"

text \<open>One step of \<open>mboxWorkerPoolMain\<close>; a sleeping worker has none.\<close>

definition mboxWorkerPoolMain ::
  "nat set \<Rightarrow> nat \<Rightarrow> ('c, 'a) mboxWorkerPool \<Rightarrow> c_error + ('c, 'a) mboxWorkerPool" where
  "mboxWorkerPoolMain W i pool =
     (let goto = (\<lambda>pc pool. pool\<lparr>wp_workers := (wp_workers pool)(i := pc)\<rparr>)
      in case wp_workers pool i of
           WStart \<Rightarrow> Inr (goto WSem (pool\<lparr>wp_alive_threads := size_add (wp_alive_threads pool) 1\<rparr>))
         | WSem \<Rightarrow> Inr (mboxSemaphoreWait i pool)
         | WSemSleep \<Rightarrow> Inl Deadlock
         | WCount \<Rightarrow> Inr (goto WDequeue (pool\<lparr>wp_active_threads := size_add (wp_active_threads pool) 1\<rparr>))
         | WDequeue \<Rightarrow>
             bindE (mboxWorkerPoolDequeue W pool) (\<lambda>(job, pool).
             case job of
               None \<Rightarrow> Inr (goto WLeave pool)
             | Some j \<Rightarrow> Inr (goto (WRun j) (pool\<lparr>wp_started := wp_started pool @ [j]\<rparr>)))
         | WRun j \<Rightarrow> Inr (goto WLeave (pool\<lparr>wp_finished := wp_finished pool @ [j]\<rparr>))
         | WLeave \<Rightarrow>
             let active = size_sub (wp_active_threads pool) 1
             in Inr (goto WSem (pool\<lparr>wp_active_threads := active,
                       wp_client := (if active = 0 \<and> wp_client pool = CAsleep then CRun else wp_client pool)\<rparr>)))"

text \<open>
  The loop of \<open>mboxWorkerPoolWait\<close> looks at the queue and the active workers: it returns, or
  sleeps and is then still in the wait.
\<close>

definition mboxWorkerPoolWait :: "('c, 'a) mboxWorkerPool \<Rightarrow> ('c, 'a) mboxWorkerPool" where
  "mboxWorkerPoolWait pool =
     (if l_len (wp_jobs pool) \<noteq> 0 \<or> wp_active_threads pool \<noteq> 0 then pool\<lparr>wp_client := CAsleep\<rparr>
      else pool\<lparr>wp_script := tl (wp_script pool)\<rparr>)"

text \<open>The threads that were spawned have not run yet.\<close>

definition workerSpawn :: "('c, 'a) mboxWorkerPool \<Rightarrow> nat \<Rightarrow> ('c, 'a) mboxWorkerPool" where
  "workerSpawn pool worker_count = pool\<lparr>wp_worker_count := worker_count, wp_workers := (\<lambda>_. WStart)\<rparr>"

text \<open>
  The pool up to the loop that waits until all its threads are alive, made by a client that
  then goes on with \<open>script\<close>; \<open>h\<close> is the heap of the list of jobs.
\<close>

definition mboxWorkerPoolNew ::
  "('c, 'a) mboxWorkerJob lheap \<Rightarrow> nat \<Rightarrow> ('c, 'a) client_op list \<Rightarrow> ('c, 'a) mboxWorkerPool" where
  "mboxWorkerPoolNew h worker_count script =
     workerSpawn \<lparr>wp_heap = h, wp_jobs = mboxListNew, wp_worker_count = worker_count, wp_alive_threads = 0,
       wp_active_threads = 0, wp_run = 1, wp_sem_val = mboxSemNew, wp_workers = (\<lambda>_. WStart),
       wp_client = CNew, wp_script = script, wp_started = [], wp_finished = []\<rparr> worker_count"

text \<open>
  Stopping waits for a condition that only it signals, and then joins every worker. The threads
  were detached, so a join is not one the library defines, and none of them ever ends; that the
  joins return is assumed here.
\<close>

definition mboxWorkerPoolStop :: "('c, 'a) mboxWorkerPool \<Rightarrow> c_error + ('c, 'a) mboxWorkerPool" where
  "mboxWorkerPoolStop pool =
     (if wp_active_threads pool \<noteq> 0 then Inl Deadlock
      else Inr (pool\<lparr>wp_run := 0, wp_worker_count := 0\<rparr>))"

definition mboxWorkerPoolRelease ::
  "('c, 'a) mboxWorkerPool option \<Rightarrow> c_error + ('c, 'a) mboxWorkerJob lheap option" where
  "mboxWorkerPoolRelease pool =
     (case pool of
        None \<Rightarrow> Inr None
      | Some p \<Rightarrow>
          bindE (mboxWorkerPoolStop p) (\<lambda>p.
          bindE (mboxListRelease (wp_heap p) (Some (wp_jobs p))) (\<lambda>(h, _). Inr (Some h))))"

section \<open>The steps of the threads\<close>

definition client_step ::
  "nat set \<Rightarrow> ('c, 'a) mboxWorkerPool \<Rightarrow> c_error + ('c, 'a) mboxWorkerPool" where
  "client_step W pool =
     (case wp_client pool of
        CNew \<Rightarrow> Inr (pool\<lparr>wp_client := CRun\<rparr>)
      | CAsleep \<Rightarrow> Inl Deadlock
      | CRun \<Rightarrow>
          (case wp_script pool of
             [] \<Rightarrow> Inr pool
           | WaitAll # _ \<Rightarrow> Inr (mboxWorkerPoolWait pool)
           | Enqueue callback argv # s \<Rightarrow>
               mboxWorkerPoolEnqueue W (pool\<lparr>wp_script := s\<rparr>) callback argv))"

definition sleepers :: "('c, 'a) mboxWorkerPool \<Rightarrow> nat set" where
  "sleepers pool = {i. i < wp_worker_count pool \<and> wp_workers pool i = WSemSleep}"

definition woken :: "('c, 'a) mboxWorkerPool \<Rightarrow> nat set \<Rightarrow> bool" where
  "woken pool W \<longleftrightarrow> W \<subseteq> sleepers pool \<and> (sleepers pool \<noteq> {} \<longrightarrow> W \<noteq> {})"

text \<open>
  A step of a worker or of the client, which in \<open>mboxWorkerPoolNew\<close> goes on when all threads are
  alive; and a thread that wakes for no reason.
\<close>

inductive pool_step :: "('c, 'a) mboxWorkerPool \<Rightarrow> ('c, 'a) mboxWorkerPool \<Rightarrow> bool" where
  worker: "i < wp_worker_count p \<Longrightarrow> wp_workers p i \<noteq> WSemSleep \<Longrightarrow> woken p W \<Longrightarrow>
     mboxWorkerPoolMain W i p = Inr p' \<Longrightarrow> pool_step p p'"
| client: "(wp_client p = CNew \<and> wp_alive_threads p = wp_worker_count p) \<or>
     (wp_client p = CRun \<and> wp_script p \<noteq> []) \<Longrightarrow> woken p W \<Longrightarrow> client_step W p = Inr p' \<Longrightarrow> pool_step p p'"

inductive wakes_up :: "('c, 'a) mboxWorkerPool \<Rightarrow> ('c, 'a) mboxWorkerPool \<Rightarrow> bool" where
  "i \<in> sleepers p \<Longrightarrow> wakes_up p (p\<lparr>wp_workers := (wp_workers p)(i := WSem)\<rparr>)"
| "wp_client p = CAsleep \<Longrightarrow> wakes_up p (p\<lparr>wp_client := CRun\<rparr>)"

inductive pool_reach :: "('c, 'a) mboxWorkerPool \<Rightarrow> ('c, 'a) mboxWorkerPool \<Rightarrow> bool" for p0 where
  start: "pool_reach p0 p0"
| step: "pool_reach p0 p \<Longrightarrow> pool_step p p' \<Longrightarrow> pool_reach p0 p'"
| spurious: "pool_reach p0 p \<Longrightarrow> wakes_up p p' \<Longrightarrow> pool_reach p0 p'"
section \<open>Counting workers\<close>

lemma sum_upd:
  fixes f :: "'a \<Rightarrow> 'b :: comm_monoid_add"
  assumes "j < (n :: nat)"
  shows "(\<Sum>i<n. f ((w(j := x)) i)) + f (w j) = (\<Sum>i<n. f (w i)) + f x"
proof -
  have "(\<Sum>i<n. f (u i)) = f (u j) + (\<Sum>i \<in> {..<n} - {j}. f (u i))" for u
    using assms by (intro sum.remove) auto
  moreover have "(\<Sum>i \<in> {..<n} - {j}. f ((w(j := x)) i)) = (\<Sum>i \<in> {..<n} - {j}. f (w i))"
    by (rule sum.cong) auto
  ultimately show ?thesis by (simp add: ac_simps)
qed

text \<open>Waking workers changes a sum over the workers by what waking one of them changes.\<close>

lemma sum_woken:
  fixes f :: "'j worker_pc \<Rightarrow> 'b :: comm_monoid_add"
  assumes "W \<subseteq> {i. i < n \<and> w i = WSemSleep}" and "f WSem = f WSemSleep"
  shows "(\<Sum>i<n. f (if i \<in> W then WSem else w i)) = (\<Sum>i<n. f (w i))"
  using assms by (intro sum.cong) auto

definition counted :: "'j worker_pc \<Rightarrow> nat" where
  "counted pc = (case pc of WDequeue \<Rightarrow> 1 | WRun _ \<Rightarrow> 1 | WLeave \<Rightarrow> 1 | _ \<Rightarrow> 0)"

definition alive :: "'j worker_pc \<Rightarrow> nat" where
  "alive pc = (case pc of WStart \<Rightarrow> 0 | _ \<Rightarrow> 1)"

definition running :: "'j worker_pc \<Rightarrow> 'j multiset" where
  "running pc = (case pc of WRun j \<Rightarrow> {#j#} | _ \<Rightarrow> {#})"

lemma pc_simps [simp]:
  "counted WStart = 0" "counted WSem = 0" "counted WSemSleep = 0" "counted WCount = 0"
  "counted WDequeue = 1" "counted (WRun j) = 1" "counted WLeave = 1"
  "alive WStart = 0" "alive WSem = 1" "alive WSemSleep = 1" "alive WCount = 1"
  "alive WDequeue = 1" "alive (WRun j) = 1" "alive WLeave = 1"
  "running WStart = {#}" "running WSem = {#}" "running WSemSleep = {#}" "running WCount = {#}"
  "running WDequeue = {#}" "running (WRun j) = {#j#}" "running WLeave = {#}"
  by (simp_all add: counted_def alive_def running_def)

lemma sum_le_n: "(\<And>x. f x \<le> (1::nat)) \<Longrightarrow> (\<Sum>i<(n::nat). f (w i)) \<le> n"
  using sum_bounded_above [of "{..<n}" "\<lambda>i. f (w i)" 1] by simp

lemma sum_ge_one: "i < (n::nat) \<Longrightarrow> f (w i) \<le> (\<Sum>i<n. (f (w i) :: nat))"
  by (rule member_le_sum) auto

section \<open>The invariant\<close>

fun enqueues :: "('c, 'a) client_op list \<Rightarrow> ('c, 'a) mboxWorkerJob list" where
  "enqueues [] = []"
| "enqueues (WaitAll # s) = enqueues s"
| "enqueues (Enqueue callback argv # s) = mboxWorkerJobNew callback argv # enqueues s"

text \<open>
  The list of jobs is well formed, the two counters are the numbers of workers they stand for,
  the jobs that were taken are those that run and those that have returned.
\<close>

definition pool_ok ::
  "nat \<Rightarrow> ('c, 'a) mboxWorkerJob list \<Rightarrow> ('c, 'a) mboxWorkerJob list \<Rightarrow> ('c, 'a) mboxWorkerPool \<Rightarrow> bool" where
  "pool_ok n js q p \<longleftrightarrow>
     wp_worker_count p = n \<and> holds (wp_heap p) (wp_jobs p) (map Some q) \<and>
     wp_started p @ q @ enqueues (wp_script p) = js \<and>
     wp_alive_threads p = (\<Sum>i<n. alive (wp_workers p i)) \<and>
     wp_active_threads p = (\<Sum>i<n. counted (wp_workers p i)) \<and>
     mset (wp_started p) = mset (wp_finished p) + (\<Sum>i<n. running (wp_workers p i))"

text \<open>
  No wake-up is lost: a job in the queue has the semaphore up or a worker on its way to it, the
  semaphore is not up while all sleep, and the client does not sleep without a reason.
\<close>

definition pool_awake :: "nat \<Rightarrow> ('c, 'a) mboxWorkerJob list \<Rightarrow> ('c, 'a) mboxWorkerPool \<Rightarrow> bool" where
  "pool_awake n q p \<longleftrightarrow>
     (q \<noteq> [] \<longrightarrow> wp_sem_val p = 1 \<or> (\<exists>i<n. wp_workers p i = WCount \<or> wp_workers p i = WDequeue)) \<and>
     (wp_sem_val p = 1 \<longrightarrow> (\<exists>i<n. wp_workers p i \<noteq> WSemSleep)) \<and>
     (wp_client p = CAsleep \<longrightarrow> q \<noteq> [] \<or> wp_active_threads p \<noteq> 0)"

lemma pool_okD:
  assumes "pool_ok n js q p"
  shows "wp_worker_count p = n" "holds (wp_heap p) (wp_jobs p) (map Some q)"
    "wp_started p @ q @ enqueues (wp_script p) = js"
    "wp_alive_threads p = (\<Sum>i<n. alive (wp_workers p i))"
    "wp_active_threads p = (\<Sum>i<n. counted (wp_workers p i))"
    "mset (wp_started p) = mset (wp_finished p) + (\<Sum>i<n. running (wp_workers p i))"
  using assms by (auto simp: pool_ok_def)

lemma counters_bound:
  assumes "pool_ok n js q p"
  shows "wp_alive_threads p \<le> n" "wp_active_threads p \<le> n"
proof -
  have "alive pc \<le> 1" "counted pc \<le> 1" for pc :: "('a, 'b) mboxWorkerJob worker_pc" by (cases pc; simp)+
  then show "wp_alive_threads p \<le> n" "wp_active_threads p \<le> n"
    using pool_okD(4,5) [OF assms] by (simp_all add: sum_le_n)
qed

lemma mset_move:
  fixes A B F f r s :: "'a multiset"
  assumes "A + r = B + s" and "f + s = F + r"
  shows "A + f = B + F"
proof -
  have "(A + f) + (r + s) = (A + r) + (f + s)" by (simp add: ac_simps)
  also have "\<dots> = (B + F) + (r + s)" unfolding assms by (simp add: ac_simps)
  finally show ?thesis by (simp only: add_right_cancel)
qed

text \<open>A worker moves on, and the counters and the history follow.\<close>

lemma pool_ok_move:
  assumes "pool_ok n js q p" and "i < n"
    and "a + alive (wp_workers p i) = wp_alive_threads p + alive pc"
    and "c + counted (wp_workers p i) = wp_active_threads p + counted pc"
    and "mset f + running pc = mset (wp_finished p) + running (wp_workers p i)"
  shows "pool_ok n js q (p\<lparr>wp_alive_threads := a, wp_active_threads := c, wp_finished := f,
           wp_workers := (wp_workers p)(i := pc)\<rparr>)"
proof -
  have "(\<Sum>k<n. running (((wp_workers p)(i := pc)) k)) + mset f =
      (\<Sum>k<n. running (wp_workers p k)) + mset (wp_finished p)"
    by (rule mset_move [OF sum_upd [OF assms(2), of running "wp_workers p" pc] assms(5)])
  then show ?thesis
    using assms(1,3,4) sum_upd [OF assms(2), of counted "wp_workers p" pc] sum_upd [OF assms(2), of alive "wp_workers p" pc]
    by (simp add: pool_ok_def ac_simps)
qed

text \<open>The counters stay in the range of their type.\<close>

lemma counters_room:
  assumes "pool_ok n js q p" and "i < n" and "n < SIZE_MOD"
  shows "alive (wp_workers p i) = 0 \<Longrightarrow> Suc (wp_alive_threads p) < SIZE_MOD"
    and "counted (wp_workers p i) = 0 \<Longrightarrow> Suc (wp_active_threads p) < SIZE_MOD"
    and "counted (wp_workers p i) = 1 \<Longrightarrow> 1 \<le> wp_active_threads p \<and> wp_active_threads p < SIZE_MOD"
proof -
  have le: "alive pc \<le> 1" "counted pc \<le> 1" for pc :: "('a, 'b) mboxWorkerJob worker_pc" by (cases pc; simp)+
  note D = pool_okD(4,5) [OF assms(1)]
  show "Suc (wp_alive_threads p) < SIZE_MOD" if "alive (wp_workers p i) = 0"
    using sum_upd [OF assms(2), of alive "wp_workers p" WSem] sum_le_n [where f = alive and w = "(wp_workers p)(i := WSem)" and n = n, OF le(1)]
      that D(1) assms(3) by (simp del: fun_upd_apply)
  show "Suc (wp_active_threads p) < SIZE_MOD" if "counted (wp_workers p i) = 0"
    using sum_upd [OF assms(2), of counted "wp_workers p" WLeave] sum_le_n [where f = counted and w = "(wp_workers p)(i := WLeave)" and n = n, OF le(2)]
      that D(2) assms(3) by (simp del: fun_upd_apply)
  show "1 \<le> wp_active_threads p \<and> wp_active_threads p < SIZE_MOD" if "counted (wp_workers p i) = 1"
    using sum_ge_one [OF assms(2), of counted "wp_workers p"] that D(2) counters_bound(2) [OF assms(1)] assms(3) by simp
qed

lemma pool_ok_signal:
  assumes "pool_ok n js q p" and "W \<subseteq> sleepers p"
  shows "pool_ok n js q (mboxSemaphoreSignal W p)"
proof -
  have W: "W \<subseteq> {i. i < n \<and> wp_workers p i = WSemSleep}"
    using assms pool_okD(1) [OF assms(1)] by (simp add: sleepers_def)
  show ?thesis
    using assms(1) sum_woken [OF W, of counted] sum_woken [OF W, of alive] sum_woken [OF W, of running]
    by (simp add: pool_ok_def mboxSemaphoreSignal_def)
qed

lemma pool_ok_fields [simp]:
  "pool_ok n js q (p\<lparr>wp_client := c\<rparr>) \<longleftrightarrow> pool_ok n js q p"
  "pool_ok n js q (p\<lparr>wp_sem_val := v\<rparr>) \<longleftrightarrow> pool_ok n js q p"
  by (simp_all add: pool_ok_def)
lemma holds_len: "holds h l xs \<Longrightarrow> l_len l = length xs"
  by (auto simp: holds_def list_rep_def)

lemma enqueue_ok:
  assumes ok: "pool_ok n js q p" and s: "wp_script p = Enqueue callback argv # s" and W: "W \<subseteq> sleepers p"
    and len: "length js < SIZE_MOD - 1"
  obtains p' where "mboxWorkerPoolEnqueue W (p\<lparr>wp_script := s\<rparr>) callback argv = Inr p'"
    "pool_ok n js (q @ [mboxWorkerJobNew callback argv]) p'"
    "wp_sem_val p' = 1" "wp_script p' = s" "wp_client p' = wp_client p"
    "wp_workers p' = (\<lambda>i. if i \<in> W then WSem else wp_workers p i)"
proof -
  note D = pool_okD [OF ok]
  have "length q < SIZE_MOD - 1" using len arg_cong [OF D(3), of length] by simp
  then obtain h l where a: "mboxListAddTail (wp_heap p) (wp_jobs p) (Some (mboxWorkerJobNew callback argv)) = Inr (h, l)"
    "holds h l (map Some q @ [Some (mboxWorkerJobNew callback argv)])"
    using holds_push(2) [OF D(2), of "Some (mboxWorkerJobNew callback argv)"] by auto
  let ?p = "p\<lparr>wp_script := s, wp_heap := h, wp_jobs := l\<rparr>"
  have "pool_ok n js (q @ [mboxWorkerJobNew callback argv]) ?p"
    using ok a(2) s by (simp add: pool_ok_def)
  then have "pool_ok n js (q @ [mboxWorkerJobNew callback argv]) (mboxSemaphoreSignal W ?p)"
    by (rule pool_ok_signal) (use W in \<open>simp add: sleepers_def\<close>)
  then show thesis
    using a(1) by (intro that [of "mboxSemaphoreSignal W ?p"]) (auto simp: mboxWorkerPoolEnqueue_def mboxSemaphoreSignal_def)
qed

lemma dequeue_ok:
  assumes ok: "pool_ok n js q p" and i: "i < n" "wp_workers p i = WDequeue" and W: "W \<subseteq> sleepers p"
    and len: "length js < SIZE_MOD - 1"
  obtains p' where "mboxWorkerPoolMain W i p = Inr p'"
    "pool_ok n js (tl q) p'" "wp_script p' = wp_script p" "wp_client p' = wp_client p"
    "wp_active_threads p' = wp_active_threads p"
    "q \<noteq> [] \<longrightarrow> wp_sem_val p' = 1 \<and>
       wp_workers p' = (\<lambda>j. if j \<in> W then WSem else wp_workers p j)(i := WRun (hd q)) \<and>
       wp_started p' = wp_started p @ [hd q] \<and> wp_finished p' = wp_finished p"
    "q = [] \<longrightarrow> wp_sem_val p' = wp_sem_val p \<and> wp_workers p' = (wp_workers p)(i := WLeave) \<and>
       wp_started p' = wp_started p \<and> wp_finished p' = wp_finished p"
proof (cases q)
  case Nil
  note D = pool_okD [OF ok]
  have "mboxListRemoveHead (wp_heap p) (wp_jobs p) = Inr (None, wp_heap p, wp_jobs p)"
    using holds_pop_empty [of "wp_heap p" "wp_jobs p"] D(2) Nil by simp
  then have m: "mboxWorkerPoolMain W i p = Inr (p\<lparr>wp_workers := (wp_workers p)(i := WLeave)\<rparr>)"
    using i(2) by (simp add: mboxWorkerPoolMain_def mboxWorkerPoolDequeue_def)
  have "pool_ok n js q (p\<lparr>wp_workers := (wp_workers p)(i := WLeave)\<rparr>)"
    using pool_ok_move [OF ok i(1), of "wp_alive_threads p" WLeave "wp_active_threads p" "wp_finished p"] i(2) by simp
  then show thesis using Nil by (intro that [OF m]) auto
next
  case (Cons j q')
  note D = pool_okD [OF ok]
  have "length q' < SIZE_MOD - 1" using len arg_cong [OF D(3), of length] Cons by simp
  then obtain h l where a: "mboxListRemoveHead (wp_heap p) (wp_jobs p) = Inr (Some j, h, l)"
    "holds h l (map Some q')"
    using holds_pop_head [of "wp_heap p" "wp_jobs p" "Some j" "map Some q'"] D(2) Cons by auto
  let ?p = "p\<lparr>wp_heap := h, wp_jobs := l, wp_started := wp_started p @ [j], wp_workers := (wp_workers p)(i := WRun j)\<rparr>"
  have ok1: "pool_ok n js q' ?p"
    using ok a(2) Cons i sum_upd [OF i(1), of counted "wp_workers p" "WRun j"]
      sum_upd [OF i(1), of alive "wp_workers p" "WRun j"] sum_upd [OF i(1), of running "wp_workers p" "WRun j"]
    by (simp add: pool_ok_def)
  have iW: "i \<notin> W" using W i(2) by (auto simp: sleepers_def)
  have Ws: "W \<subseteq> sleepers ?p" using W iW by (auto simp: sleepers_def)
  have m: "mboxWorkerPoolMain W i p = Inr (mboxSemaphoreSignal W ?p)"
    using a(1) i(2) iW
    by (auto simp: mboxWorkerPoolMain_def mboxWorkerPoolDequeue_def mboxSemaphoreSignal_def Let_def fun_eq_iff)
  show thesis
    using m pool_ok_signal [OF ok1 Ws] Cons iW
    by (intro that [OF m]) (auto simp: mboxSemaphoreSignal_def fun_eq_iff)
qed

text \<open>What the other steps of a worker do.\<close>

lemma start_ok:
  assumes "pool_ok n js q p" and "i < n" and "n < SIZE_MOD" and "wp_workers p i = WStart"
  defines "p' \<equiv> p\<lparr>wp_alive_threads := Suc (wp_alive_threads p), wp_workers := (wp_workers p)(i := WSem)\<rparr>"
  shows "mboxWorkerPoolMain W i p = Inr p' \<and> pool_ok n js q p'"
  using assms(4) counters_room(1) [OF assms(1-3)]
    pool_ok_move [OF assms(1,2), of "Suc (wp_alive_threads p)" WSem "wp_active_threads p" "wp_finished p"]
  by (simp add: mboxWorkerPoolMain_def p'_def)

lemma sem_ok:
  assumes "pool_ok n js q p" and "i < n" and "wp_workers p i = WSem" and "pc = WSemSleep \<or> pc = WCount"
  shows "pool_ok n js q (p\<lparr>wp_sem_val := v, wp_workers := (wp_workers p)(i := pc)\<rparr>)"
  using pool_ok_move [OF assms(1,2), of "wp_alive_threads p" pc "wp_active_threads p" "wp_finished p"] assms(3,4)
  by (auto simp: pool_ok_def)

lemma count_ok:
  assumes "pool_ok n js q p" and "i < n" and "n < SIZE_MOD" and "wp_workers p i = WCount"
  defines "p' \<equiv> p\<lparr>wp_active_threads := Suc (wp_active_threads p), wp_workers := (wp_workers p)(i := WDequeue)\<rparr>"
  shows "mboxWorkerPoolMain W i p = Inr p' \<and> pool_ok n js q p'"
  using assms(4) counters_room(2) [OF assms(1-3)]
    pool_ok_move [OF assms(1,2), of "wp_alive_threads p" WDequeue "Suc (wp_active_threads p)" "wp_finished p"]
  by (simp add: mboxWorkerPoolMain_def p'_def)

lemma run_ok:
  assumes "pool_ok n js q p" and "i < n" and "wp_workers p i = WRun j"
  defines "p' \<equiv> p\<lparr>wp_finished := wp_finished p @ [j], wp_workers := (wp_workers p)(i := WLeave)\<rparr>"
  shows "mboxWorkerPoolMain W i p = Inr p' \<and> pool_ok n js q p'"
  using assms(3) pool_ok_move [OF assms(1,2), of "wp_alive_threads p" WLeave "wp_active_threads p" "wp_finished p @ [j]"]
  by (simp add: mboxWorkerPoolMain_def p'_def)

lemma leave_ok:
  assumes "pool_ok n js q p" and "i < n" and "n < SIZE_MOD" and "wp_workers p i = WLeave"
  defines "p' \<equiv> p\<lparr>wp_active_threads := wp_active_threads p - 1, wp_workers := (wp_workers p)(i := WSem),
      wp_client := (if wp_active_threads p - 1 = 0 \<and> wp_client p = CAsleep then CRun else wp_client p)\<rparr>"
  shows "mboxWorkerPoolMain W i p = Inr p' \<and> pool_ok n js q p'"
proof -
  have "1 \<le> wp_active_threads p" "size_sub (wp_active_threads p) 1 = wp_active_threads p - 1"
    using counters_room(3) [OF assms(1-3)] assms(4) by simp_all
  then show ?thesis
    using assms(4) pool_ok_move [OF assms(1,2), of "wp_alive_threads p" WSem "wp_active_threads p - 1" "wp_finished p"]
    by (simp add: mboxWorkerPoolMain_def p'_def)
qed
section \<open>Every step goes forward\<close>

text \<open>A number that every step makes smaller.\<close>

definition weight :: "'j worker_pc \<Rightarrow> nat" where
  "weight pc = (case pc of WStart \<Rightarrow> 2 | WSem \<Rightarrow> 1 | WSemSleep \<Rightarrow> 0 | WCount \<Rightarrow> 6 | WDequeue \<Rightarrow> 5
     | WRun _ \<Rightarrow> 4 | WLeave \<Rightarrow> 3)"

definition client_weight :: "client_pc \<Rightarrow> nat" where
  "client_weight c = (case c of CNew \<Rightarrow> 2 | CRun \<Rightarrow> 1 | CAsleep \<Rightarrow> 0)"

fun script_weight :: "nat \<Rightarrow> ('c, 'a) client_op list \<Rightarrow> nat" where
  "script_weight n [] = 0"
| "script_weight n (WaitAll # s) = Suc (script_weight n s)"
| "script_weight n (Enqueue _ _ # s) = 2 * n + 13 + script_weight n s"

definition pool_measure :: "('c, 'a) mboxWorkerPool \<Rightarrow> nat" where
  "pool_measure p =
     (\<Sum>i<wp_worker_count p. weight (wp_workers p i)) + (if wp_sem_val p = 1 then 6 else 0) +
     (wp_worker_count p + 6) * l_len (wp_jobs p) + client_weight (wp_client p) +
     script_weight (wp_worker_count p) (wp_script p)"

lemma weight_simps [simp]:
  "weight WStart = 2" "weight WSem = 1" "weight WSemSleep = 0" "weight WCount = 6" "weight WDequeue = 5"
  "weight (WRun j) = 4" "weight WLeave = 3" "client_weight CNew = 2" "client_weight CRun = 1"
  "client_weight CAsleep = 0"
  by (simp_all add: weight_def client_weight_def)

lemma weight_woken:
  assumes "W \<subseteq> {i. i < n \<and> w i = WSemSleep}"
  shows "(\<Sum>i<(n::nat). weight (if i \<in> W then WSem else w i)) \<le> (\<Sum>i<n. weight (w i)) + n"
proof -
  have "(\<Sum>i<n. weight (if i \<in> W then WSem else w i)) \<le> (\<Sum>i<n. weight (w i) + 1)"
    by (rule sum_mono) (use assms in auto)
  also have "\<dots> = (\<Sum>i<n. weight (w i)) + n" by (simp only: sum.distrib) simp
  finally show ?thesis .
qed

text \<open>What a step of a worker leaves.\<close>

definition advances :: "nat \<Rightarrow> ('c, 'a) mboxWorkerJob list \<Rightarrow> ('c, 'a) mboxWorkerPool \<Rightarrow> ('c, 'a) mboxWorkerPool \<Rightarrow> bool" where
  "advances n js p p' \<longleftrightarrow>
     (\<exists>q'. pool_ok n js q' p' \<and> pool_awake n q' p') \<and> pool_measure p' < pool_measure p"

lemma advancesI:
  "pool_ok n js q' p' \<Longrightarrow> pool_awake n q' p' \<Longrightarrow> pool_measure p' < pool_measure p \<Longrightarrow> advances n js p p'"
  by (auto simp: advances_def)

lemma awake_upd:
  assumes "pool_awake n q p" and "i < n" and "wp_workers p' = (wp_workers p)(i := pc)"
    and "wp_sem_val p' = wp_sem_val p" and "pc \<noteq> WSemSleep"
    and "pc = WDequeue \<or> (wp_workers p i \<noteq> WCount \<and> wp_workers p i \<noteq> WDequeue)"
    and "wp_client p' = CAsleep \<Longrightarrow> wp_client p = CAsleep \<and> (wp_active_threads p \<noteq> 0 \<longrightarrow> wp_active_threads p' \<noteq> 0)"
  shows "pool_awake n q p'"
proof -
  have "wp_sem_val p = 1 \<or> (\<exists>k<n. wp_workers p' k = WCount \<or> wp_workers p' k = WDequeue)" if "q \<noteq> []"
    using assms(1-3,6) that unfolding pool_awake_def by (metis fun_upd_apply)
  then show ?thesis
    using assms(1,2,4,5,7) by (auto simp: pool_awake_def assms(3))
qed

lemma worker_advances:
  assumes ok: "pool_ok n js q p" and aw: "pool_awake n q p" and n: "n < SIZE_MOD"
    and len: "length js < SIZE_MOD - 1" and i: "i < n" and nsl: "wp_workers p i \<noteq> WSemSleep" and W: "woken p W"
  shows "\<exists>p'. mboxWorkerPoolMain W i p = Inr p' \<and> advances n js p p'"
proof -
  note D = pool_okD [OF ok] and wt = sum_upd [OF i, of weight "wp_workers p"]
  have Ws: "W \<subseteq> sleepers p" using W by (simp add: woken_def)
  then have Wn: "W \<subseteq> {i. i < n \<and> wp_workers p i = WSemSleep}" using D(1) by (simp add: sleepers_def)
  show ?thesis
  proof (cases "wp_workers p i")
    case WStart
    then show ?thesis
      using start_ok [OF ok i n WStart, of W] wt [of WSem] D(1)
      by (intro exI conjI advancesI, blast, blast) (rule awake_upd [OF aw i, where pc = WSem], simp_all add: pool_measure_def)
  next
    case WSem
    show ?thesis
    proof (cases "wp_sem_val p = 1")
      case True
      then have m: "mboxWorkerPoolMain W i p = Inr (p\<lparr>wp_sem_val := 0, wp_workers := (wp_workers p)(i := WCount)\<rparr>)"
        using WSem by (simp add: mboxWorkerPoolMain_def mboxSemaphoreWait_def)
      have "pool_awake n q (p\<lparr>wp_sem_val := 0, wp_workers := (wp_workers p)(i := WCount)\<rparr>)"
        using aw i by (auto simp: pool_awake_def)
      then show ?thesis
        using m sem_ok [OF ok i WSem, of WCount 0] wt [of WCount] WSem D(1) True
        by (intro exI conjI advancesI) (auto simp: pool_measure_def)
    next
      case False
      then have m: "mboxWorkerPoolMain W i p = Inr (p\<lparr>wp_workers := (wp_workers p)(i := WSemSleep)\<rparr>)"
        using WSem by (simp add: mboxWorkerPoolMain_def mboxSemaphoreWait_def)
      have "wp_workers p k = WCount \<or> wp_workers p k = WDequeue \<Longrightarrow> k \<noteq> i" for k using WSem by auto
      then have "pool_awake n q (p\<lparr>wp_workers := (wp_workers p)(i := WSemSleep)\<rparr>)"
        using aw False unfolding pool_awake_def by simp metis
      then show ?thesis
        using m sem_ok [OF ok i WSem, of WSemSleep "wp_sem_val p"] wt [of WSemSleep] WSem D(1) False
        by (intro exI conjI advancesI) (auto simp: pool_measure_def)
    qed
  next
    case WSemSleep
    then show ?thesis using nsl by simp
  next
    case WCount
    then show ?thesis
      using count_ok [OF ok i n WCount, of W] wt [of WDequeue] D(1)
      by (intro exI conjI advancesI, blast, blast) (rule awake_upd [OF aw i, where pc = WDequeue], simp_all add: pool_measure_def)
  next
    case (WRun j)
    then show ?thesis
      using run_ok [OF ok i WRun, of W] wt [of WLeave] D(1)
      by (intro exI conjI advancesI, blast, blast) (rule awake_upd [OF aw i, where pc = WLeave], simp_all add: pool_measure_def)
  next
    case WLeave
    then show ?thesis
      using leave_ok [OF ok i n WLeave, of W] wt [of WSem] D(1) counters_room(3) [OF ok i n]
      by (intro exI conjI advancesI, blast, blast)
        (rule awake_upd [OF aw i, where pc = WSem], simp_all add: pool_measure_def split: if_splits)
  next
    case WDequeue
    obtain p' where p': "mboxWorkerPoolMain W i p = Inr p'"
      "pool_ok n js (tl q) p'" "wp_script p' = wp_script p" "wp_client p' = wp_client p"
      "wp_active_threads p' = wp_active_threads p"
      "q \<noteq> [] \<longrightarrow> wp_sem_val p' = 1 \<and>
         wp_workers p' = (\<lambda>j. if j \<in> W then WSem else wp_workers p j)(i := WRun (hd q)) \<and>
         wp_started p' = wp_started p @ [hd q] \<and> wp_finished p' = wp_finished p"
      "q = [] \<longrightarrow> wp_sem_val p' = wp_sem_val p \<and> wp_workers p' = (wp_workers p)(i := WLeave) \<and>
         wp_started p' = wp_started p \<and> wp_finished p' = wp_finished p"
      by (rule dequeue_ok [OF ok i WDequeue Ws len])
    have act: "wp_active_threads p \<noteq> 0" using counters_room(3) [OF ok i n] WDequeue by simp
    have lens: "l_len (wp_jobs p) = length q" "l_len (wp_jobs p') = length (tl q)" "wp_worker_count p' = n"
      using holds_len D(2) pool_okD(1,2) [OF p'(2)] by fastforce+
    have "pool_awake n (tl q) p'"
    proof (cases q)
      case Nil
      then show ?thesis using aw i act p'(4,5,7) by (auto simp: pool_awake_def)
    next
      case (Cons j q')
      then show ?thesis using i act p'(4,5,6) by (auto simp: pool_awake_def)
    qed
    moreover have "pool_measure p' < pool_measure p"
    proof (cases q)
      case Nil
      then show ?thesis
        using wt [of WLeave] WDequeue D(1) lens p'(3,4,7) by (simp add: pool_measure_def)
    next
      case (Cons j q')
      have "i \<notin> W" using Wn WDequeue by auto
      then show ?thesis
        using sum_upd [OF i, of weight "\<lambda>j. if j \<in> W then WSem else wp_workers p j" "WRun j"]
          weight_woken [OF Wn] WDequeue D(1) lens p'(3,4,6) Cons
        by (simp add: pool_measure_def)
    qed
    ultimately show ?thesis using p'(1,2) by (blast intro: advancesI)
  qed
qed

lemma client_advances:
  assumes ok: "pool_ok n js q p" and aw: "pool_awake n q p" and n: "0 < n"
    and len: "length js < SIZE_MOD - 1" and W: "woken p W"
    and rdy: "(wp_client p = CNew \<and> wp_alive_threads p = wp_worker_count p) \<or> (wp_client p = CRun \<and> wp_script p \<noteq> [])"
  shows "\<exists>p'. client_step W p = Inr p' \<and> advances n js p p'"
proof -
  note D = pool_okD [OF ok]
  have Ws: "W \<subseteq> sleepers p" using W by (simp add: woken_def)
  then have Wn: "W \<subseteq> {i. i < n \<and> wp_workers p i = WSemSleep}" using D(1) by (simp add: sleepers_def)
  show ?thesis
  proof (cases "wp_client p = CNew")
    case True
    then show ?thesis
      using ok aw by (auto simp: client_step_def advances_def pool_awake_def pool_measure_def)
  next
    case False
    then obtain c s where cl: "wp_client p = CRun" "wp_script p = c # s" using rdy by (cases "wp_script p") auto
    show ?thesis
    proof (cases c)
      case (Enqueue callback argv)
      obtain p' where p': "mboxWorkerPoolEnqueue W (p\<lparr>wp_script := s\<rparr>) callback argv = Inr p'"
        "pool_ok n js (q @ [mboxWorkerJobNew callback argv]) p'"
        "wp_sem_val p' = 1" "wp_script p' = s" "wp_client p' = wp_client p"
        "wp_workers p' = (\<lambda>i. if i \<in> W then WSem else wp_workers p i)"
        by (rule enqueue_ok [OF ok _ Ws len]) (simp_all add: cl Enqueue)
      have "\<exists>i<n. wp_workers p' i \<noteq> WSemSleep"
      proof (cases "W = {}")
        case True
        then have "wp_workers p 0 \<noteq> WSemSleep" using W n D(1) by (auto simp: woken_def sleepers_def)
        then show ?thesis using p'(6) n True by auto
      next
        case False
        then show ?thesis using p'(6) Wn by auto
      qed
      then have "pool_awake n (q @ [mboxWorkerJobNew callback argv]) p'" using p'(3) by (simp add: pool_awake_def)
      moreover have "l_len (wp_jobs p') = Suc (l_len (wp_jobs p))" "wp_worker_count p' = n"
        using holds_len [OF D(2)] holds_len [OF pool_okD(2) [OF p'(2)]] pool_okD(1) [OF p'(2)] by simp_all
      then have "pool_measure p' < pool_measure p"
        using weight_woken [OF Wn] p'(3-6) D(1) cl Enqueue by (simp add: pool_measure_def)
      ultimately show ?thesis
        using p'(1,2) cl Enqueue by (auto simp: client_step_def intro: advancesI)
    next
      case WaitAll
      then have st: "client_step W p = Inr (mboxWorkerPoolWait p)" using cl by (simp add: client_step_def)
      have "pool_ok n js q (mboxWorkerPoolWait p)"
        using ok cl WaitAll by (cases "l_len (wp_jobs p) \<noteq> 0 \<or> wp_active_threads p \<noteq> 0")
          (simp_all add: mboxWorkerPoolWait_def, simp add: pool_ok_def)
      moreover have "pool_awake n q (mboxWorkerPoolWait p)"
        using aw cl holds_len [OF D(2)] by (auto simp: mboxWorkerPoolWait_def pool_awake_def)
      moreover have "pool_measure (mboxWorkerPoolWait p) < pool_measure p"
        using cl WaitAll by (auto simp: mboxWorkerPoolWait_def pool_measure_def)
      ultimately have "advances n js p (mboxWorkerPoolWait p)" by (rule advancesI)
      then show ?thesis using st by blast
    qed
  qed
qed

lemma step_advances:
  assumes "pool_step p p'" and "pool_ok n js q p" and "pool_awake n q p" and "0 < n" and "n < SIZE_MOD"
    and "length js < SIZE_MOD - 1"
  shows "advances n js p p'"
  using assms(1)
proof cases
  case (worker i W)
  then show ?thesis
    using worker_advances [OF assms(2,3,5,6), of i W] pool_okD(1) [OF assms(2)] by auto
next
  case (client W)
  then show ?thesis using client_advances [OF assms(2,3,4,6), of W] by auto
qed

lemma wakes_up_ok:
  assumes "wakes_up p p'" and "pool_ok n js q p" and "pool_awake n q p"
  shows "pool_ok n js q p' \<and> pool_awake n q p'"
  using assms(1)
proof cases
  case (1 i)
  then have i: "i < n" "wp_workers p i = WSemSleep" using pool_okD(1) [OF assms(2)] by (auto simp: sleepers_def)
  have "pool_ok n js q p'"
    using pool_ok_move [OF assms(2) i(1), of "wp_alive_threads p" WSem "wp_active_threads p" "wp_finished p"] i(2) 1
    by simp
  moreover have "pool_awake n q p'"
    by (rule awake_upd [OF assms(3) i(1), where pc = WSem]) (simp_all add: 1 i(2))
  ultimately show ?thesis ..
next
  case 2
  then show ?thesis using assms(2,3) by (simp add: pool_awake_def)
qed

text \<open>A pool that was just made, with a heap whose fresh addresses are free.\<close>

definition fresh_ok :: "'v lheap \<Rightarrow> bool" where
  "fresh_ok h \<longleftrightarrow> (\<forall>a \<ge> lh_fresh h. lh_cells h a = None)"

lemma pool_new_ok:
  assumes "fresh_ok h"
  shows "pool_ok n (enqueues script) [] (mboxWorkerPoolNew h n script) \<and>
     pool_awake n [] (mboxWorkerPoolNew h n script)"
  using mboxListNew_rep [of h] assms
  by (auto simp: fresh_ok_def pool_ok_def pool_awake_def mboxWorkerPoolNew_def workerSpawn_def mboxSemNew_def holds_def)

lemma reach_ok:
  assumes "pool_reach (mboxWorkerPoolNew h n script) p" and "fresh_ok h" and "0 < n" and "n < SIZE_MOD"
    and "length (enqueues script) < SIZE_MOD - 1"
  shows "\<exists>q. pool_ok n (enqueues script) q p \<and> pool_awake n q p"
  using assms(1)
proof induction
  case start
  then show ?case using pool_new_ok [OF assms(2)] by blast
next
  case (step p p')
  then show ?case using step_advances [of p p'] assms(3-5) by (auto simp: advances_def)
next
  case (spurious p p')
  then show ?case using wakes_up_ok by blast
qed

text \<open>Where no thread can go on, all workers sleep and the client is done.\<close>

lemma stuck_done:
  assumes ok: "pool_ok n js q p" and aw: "pool_awake n q p" and n: "0 < n" "n < SIZE_MOD"
    and len: "length js < SIZE_MOD - 1" and stuck: "\<nexists>p'. pool_step p p'"
  shows "wp_script p = [] \<and> mset (wp_finished p) = mset js"
proof -
  note D = pool_okD [OF ok]
  obtain W where W: "woken p W" unfolding woken_def by blast
  have asleep: "wp_workers p i = WSemSleep" if i: "i < n" for i
  proof (rule ccontr)
    assume ne: "wp_workers p i \<noteq> WSemSleep"
    then obtain p' where "mboxWorkerPoolMain W i p = Inr p'"
      using worker_advances [OF ok aw n(2) len i _ W] by blast
    then have "pool_step p p'" using i D(1) by (intro pool_step.worker [OF _ ne W]) simp_all
    then show False using stuck by blast
  qed
  have "wp_alive_threads p = n" "wp_active_threads p = 0"
    using asleep D(4,5) by simp_all
  moreover have "q = []" using aw asleep by (auto simp: pool_awake_def)
  ultimately have "wp_client p \<noteq> CAsleep" using aw by (auto simp: pool_awake_def)
  moreover have "\<not> ((wp_client p = CNew \<and> wp_alive_threads p = wp_worker_count p) \<or> (wp_client p = CRun \<and> wp_script p \<noteq> []))"
    using client_advances [OF ok aw n(1) len W] pool_step.client [of p W] stuck W by blast
  ultimately have "wp_script p = []"
    using \<open>wp_alive_threads p = n\<close> D(1) by (cases "wp_client p") auto
  moreover have "mset (wp_finished p) = mset (wp_started p)" using D(6) asleep by simp
  ultimately show ?thesis using D(3) \<open>q = []\<close> by auto
qed

text \<open>Where a wait can return, no job is left and none is running.\<close>

lemma idle_done:
  assumes "pool_ok n js q p" and "wp_script p = WaitAll # s" and "wp_script (mboxWorkerPoolWait p) = s"
  shows "q = [] \<and> (\<forall>i<n. running (wp_workers p i) = {#})"
proof -
  note D = pool_okD [OF assms(1)]
  have idle: "l_len (wp_jobs p) = 0" "wp_active_threads p = 0"
    using assms(2,3) by (auto simp: mboxWorkerPoolWait_def split: if_splits)
  have "counted (wp_workers p i) = 0" if "i < n" for i
    using sum_ge_one [OF that, of counted "wp_workers p"] D(5) idle(2) by simp
  then have "running (wp_workers p i) = {#}" if "i < n" for i
    using that by (cases "wp_workers p i") fastforce+
  then show ?thesis using holds_len [OF D(2)] idle(1) by simp
qed

text \<open>With one worker, what was taken and has not returned is what it runs.\<close>

definition in_hand :: "'j worker_pc \<Rightarrow> 'j list" where
  "in_hand pc = (case pc of WRun j \<Rightarrow> [j] | _ \<Rightarrow> [])"

lemma step_one_worker:
  assumes "pool_step p p'" and "wp_worker_count p = 1"
    and "wp_started p = wp_finished p @ in_hand (wp_workers p 0)"
  shows "wp_started p' = wp_finished p' @ in_hand (wp_workers p' 0)"
  using assms(1)
proof cases
  case (worker i W)
  then have "i = 0" using assms(2) by simp
  then show ?thesis
    using worker(4) assms(3)
    by (auto simp: mboxWorkerPoolMain_def mboxSemaphoreWait_def mboxWorkerPoolDequeue_def mboxSemaphoreSignal_def
        in_hand_def outcome_simps Let_def split: worker_pc.splits if_splits option.splits)
next
  case (client W)
  have "wp_workers p 0 = WSemSleep" if "0 \<in> W" using client(2) that by (auto simp: woken_def sleepers_def)
  then show ?thesis
    using client(3) assms(3)
    by (auto simp: client_step_def mboxWorkerPoolEnqueue_def mboxWorkerPoolWait_def mboxSemaphoreSignal_def
        in_hand_def outcome_simps split: client_pc.splits list.splits client_op.splits if_splits)
qed

section \<open>Properties\<close>

text \<open>
  C4. A pool with at least one worker lets its client finish: from the moment it is made, the
  steps of the threads cannot go on for ever, whatever the scheduler does and whichever sleepers a
  signal wakes, and where none can go on the client has returned from all its waits and every job
  has run once. Threads that wake for no reason in between do no harm.
\<close>

theorem mboxWorkerPool_finishes:
  assumes "fresh_ok h" and "0 < n" and "n < SIZE_MOD" and "length (enqueues script) < SIZE_MOD - 1"
  shows "wf {(p', p). pool_reach (mboxWorkerPoolNew h n script) p \<and> pool_step p p'} \<and>
     (\<forall>p. pool_reach (mboxWorkerPoolNew h n script) p \<and> (\<nexists>p'. pool_step p p') \<longrightarrow>
        wp_script p = [] \<and> mset (wp_finished p) = mset (enqueues script))"
proof
  have "{(p', p). pool_reach (mboxWorkerPoolNew h n script) p \<and> pool_step p p'} \<subseteq> measure pool_measure"
    using reach_ok [OF _ assms] step_advances [OF _ _ _ assms(2-4)] by (fastforce simp: advances_def)
  then show "wf {(p', p). pool_reach (mboxWorkerPoolNew h n script) p \<and> pool_step p p'}"
    by (rule wf_subset [OF wf_measure])
  show "\<forall>p. pool_reach (mboxWorkerPoolNew h n script) p \<and> (\<nexists>p'. pool_step p p') \<longrightarrow>
      wp_script p = [] \<and> mset (wp_finished p) = mset (enqueues script)"
    using reach_ok [OF _ assms] stuck_done [OF _ _ assms(2-4)] by blast
qed

definition empty_heap :: "'v lheap" where
  "empty_heap = \<lparr>lh_cells = (\<lambda>_. None), lh_fresh = 0\<rparr>"

lemma fresh_empty_heap: "fresh_ok empty_heap"
  by (simp add: fresh_ok_def empty_heap_def)

theorem mboxWorkerPool_finishes_witness:
  "\<exists>p. pool_reach (mboxWorkerPoolNew empty_heap 2 [Enqueue True ''a'', Enqueue False ''b'', WaitAll]) p \<and>
      (\<nexists>p'. pool_step p p') \<and> wp_script p = [] \<and>
      mset (wp_finished p) = {#mboxWorkerJobNew True ''a'', mboxWorkerJobNew False ''b''#}"
proof -
  let ?script = "[Enqueue True ''a'', Enqueue False ''b'', WaitAll]"
  let ?p0 = "mboxWorkerPoolNew empty_heap 2 ?script"
  have f: "wf {(p', p). pool_reach ?p0 p \<and> pool_step p p'}"
    "\<forall>p. pool_reach ?p0 p \<and> (\<nexists>p'. pool_step p p') \<longrightarrow>
       wp_script p = [] \<and> mset (wp_finished p) = mset (enqueues ?script)"
    using mboxWorkerPool_finishes [OF fresh_empty_heap, of 2 ?script] by simp_all
  obtain p where p: "p \<in> {p. pool_reach ?p0 p}"
    "\<And>y. (y, p) \<in> {(p', p). pool_reach ?p0 p \<and> pool_step p p'} \<Longrightarrow> y \<notin> {p. pool_reach ?p0 p}"
    by (rule wfE_min [OF f(1), of ?p0 "{p. pool_reach ?p0 p}"]) (use pool_reach.start [of ?p0] in blast)+
  then have "pool_reach ?p0 p" "\<nexists>p'. pool_step p p'"
    using pool_reach.step [of ?p0 p] by blast+
  then show ?thesis using f(2) by (intro exI [of _ p]) simp
qed

text \<open>
  C5. When a wait returns, the queue has been emptied in the order in which the jobs were
  enqueued, and the callback of every job enqueued before the wait has returned, of each once.
\<close>

theorem mboxWorkerPoolWait_complete:
  assumes "fresh_ok h" and "0 < n" and "n < SIZE_MOD" and "length (enqueues script) < SIZE_MOD - 1"
    and "pool_reach (mboxWorkerPoolNew h n script) p"
    and "wp_script p = WaitAll # s" and "wp_script (mboxWorkerPoolWait p) = s"
  shows "wp_started p @ enqueues s = enqueues script \<and> mset (wp_finished p) = mset (wp_started p)"
proof -
  obtain q where ok: "pool_ok n (enqueues script) q p"
    using reach_ok [OF assms(5,1-4)] by blast
  then show ?thesis
    using idle_done [OF ok assms(6,7)] pool_okD(3,6) [OF ok] assms(6) by simp
qed

text \<open>
  A run in which no worker falls asleep, given by whose turn it is: the client's (\<open>None\<close>) or that
  of a worker.
\<close>

fun run_threads :: "nat option list \<Rightarrow> ('c, 'a) mboxWorkerPool \<Rightarrow> ('c, 'a) mboxWorkerPool option" where
  "run_threads [] p = Some p"
| "run_threads (t # ts) p =
     (if list_all (\<lambda>i. wp_workers p i \<noteq> WSemSleep) [0..<wp_worker_count p]
      then case (case t of
           None \<Rightarrow> if (wp_client p = CNew \<and> wp_alive_threads p = wp_worker_count p) \<or>
               (wp_client p = CRun \<and> wp_script p \<noteq> []) then client_step {} p else Inl Deadlock
         | Some i \<Rightarrow> if i < wp_worker_count p then mboxWorkerPoolMain {} i p else Inl Deadlock) of
          Inl _ \<Rightarrow> None | Inr p' \<Rightarrow> run_threads ts p'
      else None)"

lemma run_threads_reach: "pool_reach p0 p \<Longrightarrow> run_threads ts p = Some p' \<Longrightarrow> pool_reach p0 p'"
proof (induction ts arbitrary: p)
  case (Cons t ts)
  have none: "list_all (\<lambda>i. wp_workers p i \<noteq> WSemSleep) [0..<wp_worker_count p]"
    using Cons.prems(2) by (simp split: if_splits)
  then have w: "woken p {}" by (auto simp: woken_def sleepers_def list_all_iff)
  obtain p1 where "pool_step p p1" "run_threads ts p1 = Some p'"
  proof (cases t)
    case None
    then show thesis
      using Cons.prems(2) none that pool_step.client [OF _ w] by (auto split: if_splits sum.splits)
  next
    case (Some i)
    then show thesis
      using Cons.prems(2) none that pool_step.worker [OF _ _ w]
      by (auto simp: list_all_iff split: if_splits sum.splits)
  qed
  then show ?case using Cons.IH Cons.prems(1) pool_reach.step by blast
qed simp

text \<open>One worker and one job, up to the wait that returns.\<close>

definition one_job_done :: "(bool, string) mboxWorkerPool" where
  "one_job_done = the (run_threads [Some 0, None, None, Some 0, Some 0, Some 0, Some 0, Some 0]
     (mboxWorkerPoolNew empty_heap 1 [Enqueue True ''a'', WaitAll]))"

lemma one_job_run:
  "run_threads [Some 0, None, None, Some 0, Some 0, Some 0, Some 0, Some 0]
     (mboxWorkerPoolNew empty_heap 1 [Enqueue True ''a'', WaitAll]) = Some one_job_done"
  "wp_script one_job_done = [WaitAll]" "wp_script (mboxWorkerPoolWait one_job_done) = []"
  "wp_started one_job_done = [mboxWorkerJobNew True ''a'']" "wp_finished one_job_done = [mboxWorkerJobNew True ''a'']"
  by (simp_all add: one_job_done_def mboxWorkerPoolNew_def workerSpawn_def mboxSemNew_def mboxWorkerPoolMain_def
      mboxSemaphoreWait_def mboxSemaphoreSignal_def mboxWorkerPoolEnqueue_def mboxWorkerPoolDequeue_def Let_def
      client_step_def mboxWorkerPoolWait_def mboxListAddTail_def mboxListRemoveHead_def mboxListNew_def
      mboxLNodeNew_def empty_heap_def ln_get_def set_next_def set_prev_def ln_upd_def ln_free_def)

theorem mboxWorkerPoolWait_complete_witness:
  "wp_started one_job_done @ enqueues [] = enqueues [Enqueue True ''a'', WaitAll] \<and>
   mset (wp_finished one_job_done) = mset (wp_started one_job_done)"
  by (rule mboxWorkerPoolWait_complete [OF fresh_empty_heap, of 1, OF _ _ _
        run_threads_reach [OF pool_reach.start one_job_run(1)]])
    (simp_all add: one_job_run)

text \<open>
  C12. In every state the pool can reach, its list of jobs is well formed and holds what was
  enqueued and not taken, in order, and its two counters are the numbers of the threads they
  stand for, so neither wraps.
\<close>

theorem mboxWorkerPool_well_formed:
  assumes "fresh_ok h" and "0 < n" and "n < SIZE_MOD" and "length (enqueues script) < SIZE_MOD - 1"
    and "pool_reach (mboxWorkerPoolNew h n script) p"
  shows "(\<exists>q. holds (wp_heap p) (wp_jobs p) (map Some q) \<and>
       wp_started p @ q @ enqueues (wp_script p) = enqueues script) \<and>
     wp_alive_threads p = card {i. i < n \<and> wp_workers p i \<noteq> WStart} \<and>
     wp_active_threads p =
       card {i. i < n \<and> wp_workers p i \<notin> {WStart, WSem, WSemSleep, WCount}}"
proof -
  obtain q where ok: "pool_ok n (enqueues script) q p"
    using reach_ok [OF assms(5,1-4)] by blast
  have card: "(\<Sum>i<n. of_bool (P i)) = card {i. i < n \<and> P i}" for P :: "nat \<Rightarrow> bool"
    by (simp add: Int_def lessThan_def)
  have "alive pc = of_bool (pc \<noteq> WStart)" "counted pc = of_bool (pc \<notin> {WStart, WSem, WSemSleep, WCount})"
    for pc :: "('a, 'b) mboxWorkerJob worker_pc" by (cases pc; simp)+
  then show ?thesis
    using pool_okD [OF ok] card [of "\<lambda>i. wp_workers p i \<noteq> WStart"]
      card [of "\<lambda>i. wp_workers p i \<notin> {WStart, WSem, WSemSleep, WCount}"] by auto
qed

theorem mboxWorkerPool_well_formed_witness:
  "(\<exists>q. holds (wp_heap one_job_done) (wp_jobs one_job_done) (map Some q) \<and>
       wp_started one_job_done @ q @ enqueues (wp_script one_job_done) = enqueues [Enqueue True ''a'', WaitAll]) \<and>
   wp_alive_threads one_job_done = card {i. i < 1 \<and> wp_workers one_job_done i \<noteq> WStart} \<and>
   wp_active_threads one_job_done =
     card {i. i < 1 \<and> wp_workers one_job_done i \<notin> {WStart, WSem, WSemSleep, WCount}}"
  by (rule mboxWorkerPool_well_formed [OF fresh_empty_heap, of 1, OF _ _ _
        run_threads_reach [OF pool_reach.start one_job_run(1)]]) simp_all

text \<open>
  C26. With one worker the callbacks return in the order in which the jobs were enqueued: when a
  wait returns, those of all jobs enqueued before it have, in that order.
\<close>

theorem mboxWorkerPool_one_worker_fifo:
  assumes "fresh_ok h" and "length (enqueues script) < SIZE_MOD - 1"
    and "pool_reach (mboxWorkerPoolNew h 1 script) p"
    and "wp_script p = WaitAll # s" and "wp_script (mboxWorkerPoolWait p) = s"
  shows "wp_finished p @ enqueues s = enqueues script"
proof -
  have n: "(0::nat) < 1" "(1::nat) < SIZE_MOD" by simp_all
  obtain q where ok: "pool_ok 1 (enqueues script) q p"
    using reach_ok [OF assms(3,1) n assms(2)] by blast
  have "wp_started p = wp_finished p @ in_hand (wp_workers p 0)"
    using assms(3)
  proof induction
    case start
    then show ?case by (simp add: mboxWorkerPoolNew_def workerSpawn_def in_hand_def)
  next
    case (step p p')
    then show ?case
      using step_one_worker [of p p'] reach_ok [OF step.hyps(1) assms(1) n assms(2)] pool_okD(1) by blast
  next
    case (spurious p p')
    then show ?case by (auto elim!: wakes_up.cases simp: in_hand_def sleepers_def)
  qed
  moreover have "in_hand (wp_workers p 0) = []"
    using idle_done [OF ok assms(4,5)] by (cases "wp_workers p 0") (auto simp: in_hand_def)
  ultimately show ?thesis
    using idle_done [OF ok assms(4,5)] pool_okD(3) [OF ok] assms(4) by simp
qed

theorem mboxWorkerPool_one_worker_fifo_witness:
  "wp_finished one_job_done @ enqueues [] = enqueues [Enqueue True ''a'', WaitAll]"
  by (rule mboxWorkerPool_one_worker_fifo [OF fresh_empty_heap _ run_threads_reach [OF pool_reach.start one_job_run(1)]])
    (simp_all add: one_job_run)

text \<open>
  C27. A pool without workers takes a job, but a wait for it never returns: no state is reached in
  which the client is past the wait.
\<close>

theorem mboxWorkerPoolWait_no_worker:
  assumes "fresh_ok h" and "pool_reach (mboxWorkerPoolNew h 0 (Enqueue callback argv # WaitAll # s)) p"
  shows "wp_script p = Enqueue callback argv # WaitAll # s \<or> wp_script p = WaitAll # s"
proof -
  have new: "holds h mboxListNew []" using assms(1) mboxListNew_rep by (auto simp: fresh_ok_def holds_def)
  have "wp_worker_count p = 0 \<and>
      (wp_script p = Enqueue callback argv # WaitAll # s \<and> wp_heap p = h \<and> wp_jobs p = mboxListNew \<or>
       wp_script p = WaitAll # s \<and> l_len (wp_jobs p) = 1)"
    using assms(2)
  proof induction
    case start
    then show ?case by (simp add: mboxWorkerPoolNew_def workerSpawn_def)
  next
    case (step p p')
    from step.hyps(2) show ?case
    proof cases
      case (worker i W)
      then show ?thesis using step.IH by simp
    next
      case (client W)
      obtain h' l' where "mboxListAddTail h mboxListNew (Some (mboxWorkerJobNew callback argv)) = Inr (h', l')"
        "l_len l' = 1"
        using holds_push(2) [OF new, of "Some (mboxWorkerJobNew callback argv)"] holds_len by fastforce
      then show ?thesis
        using client(3) step.IH
        by (auto simp: client_step_def mboxWorkerPoolEnqueue_def mboxSemaphoreSignal_def mboxWorkerPoolWait_def
            split: client_pc.splits)
    qed
  next
    case (spurious p p')
    then show ?case by (auto elim!: wakes_up.cases)
  qed
  then show ?thesis by blast
qed

theorem mboxWorkerPoolWait_no_worker_witness:
  "wp_script (mboxWorkerPoolNew empty_heap 0 [Enqueue True ''a'', WaitAll]) = [Enqueue True ''a'', WaitAll] \<or>
   wp_script (mboxWorkerPoolNew empty_heap 0 [Enqueue True ''a'', WaitAll]) = [WaitAll]"
  by (rule mboxWorkerPoolWait_no_worker [OF fresh_empty_heap pool_reach.start])

end
