(* ===== verification/Mbox_Parse.thy ===== *)
theory Mbox_Parse
  imports Mbox_Message Mbox_Reader Mbox_Worker
begin

text \<open>
  The entry points of the library, \<open>src/src/mbox.c\<close>: opening a mailbox, cutting it into one part
  for each I/O thread, reading the parts and summarising their messages. A member of \<open>struct mbox\<close>
  that \<open>mboxReadOpen\<close> does not set is \<open>None\<close> until it is written. A pool stands for the number of
  its workers: that all jobs are run and that the wait for them returns is shown in
  \<open>Mbox_Worker\<close>. A job of the I/O pool touches its own context only, so these jobs are run in order;
  the order in which the jobs of the parse pool end is a parameter.
\<close>

section \<open>The state\<close>

record mbox =
  mb_readfd :: int
  mb_writefd :: "int option"
  mb_read_refcount :: int
  mb_write_refcount :: "int option"
  mb_err :: int
  mb_ready :: int
  mb_file_size :: nat
  mb_thread_count :: "nat option"
  mb_context_len :: "nat option"
  mb_contexts :: "mboxParserCtx list"
  mb_completed_io :: "mboxList option"
  mb_completed_parse :: "mboxList option"
  mb_io_pool :: "nat option"
  mb_parse_pool :: "nat option"

text \<open>Reading a member that was never written.\<close>

definition init :: "'a option \<Rightarrow> c_error + 'a" where
  "init x = (case x of None \<Rightarrow> Inl UninitRead | Some v \<Rightarrow> Inr v)"

lemma init_Some [simp]: "init (Some v) = Inr v" "init None = Inl UninitRead"
  by (simp_all add: init_def)

text \<open>The heaps of the summaries and of the header trees.\<close>

record parse_heaps =
  ph_msgs :: "mboxMsgLite lheap"
  ph_headers :: "(mboxBuf, mboxBuf) rbheap"

fun map_each :: "('a \<Rightarrow> c_error + 'b) \<Rightarrow> 'a list \<Rightarrow> c_error + 'b list" where
  "map_each f [] = Inr []"
| "map_each f (x # xs) = bindE (f x) (\<lambda>y. bindE (map_each f xs) (\<lambda>ys. Inr (y # ys)))"

section \<open>Opening\<close>

text \<open>When \<open>fstat\<close> fails the descriptor stays open.\<close>

definition mboxReadOpen ::
  "('w \<Rightarrow> string \<Rightarrow> int \<Rightarrow> int \<Rightarrow> int \<times> 'w) \<Rightarrow> ('w \<Rightarrow> int \<Rightarrow> nat option) \<Rightarrow>
   'w \<Rightarrow> string \<Rightarrow> int \<Rightarrow> mbox option \<times> 'w" where
  "mboxReadOpen open fstat w file_path perms =
     (case open w file_path 0 perms of (fd, w) \<Rightarrow>
      if fd = -1 then (None, w)
      else (case fstat w fd of
              None \<Rightarrow> (None, w)
            | Some st_size \<Rightarrow>
                (Some \<lparr>mb_readfd = fd, mb_writefd = None, mb_read_refcount = 1, mb_write_refcount = None,
                   mb_err = 0, mb_ready = 1, mb_file_size = st_size, mb_thread_count = None,
                   mb_context_len = None, mb_contexts = [], mb_completed_io = None,
                   mb_completed_parse = None, mb_io_pool = None, mb_parse_pool = None\<rparr>, w)))"

section \<open>The jobs\<close>

definition mboxIOMsgParseCallback ::
  "(c_tm \<Rightarrow> int) \<Rightarrow> parse_heaps \<Rightarrow> mbox \<Rightarrow> mboxIOMsg \<Rightarrow> c_error + (parse_heaps \<times> mbox)" where
  "mboxIOMsgParseCallback mktime hs m msg =
     bindE (mboxMsgLiteCreate mktime (ph_headers hs) msg) (\<lambda>(hh, lite).
     bindE (init (mb_completed_parse m)) (\<lambda>l.
     bindE (mboxListTSAddTail (ph_msgs hs) l (Some lite)) (\<lambda>(hm, l).
     Inr (\<lparr>ph_msgs = hm, ph_headers = hh\<rparr>, m\<lparr>mb_completed_parse := Some l\<rparr>))))"

definition mboxParserCtxSeekStartCallback :: "pread \<Rightarrow> nat \<Rightarrow> mboxParserCtx \<Rightarrow> c_error + mboxParserCtx" where
  "mboxParserCtxSeekStartCallback pread fuel ctx = mboxParserCtxSeekStart pread fuel ctx"

section \<open>The parts of the file\<close>

text \<open>A context is made at a multiple of the size of a part; \<open>raw\<close> is what its memory holds before.\<close>

definition new_context :: "mbox \<Rightarrow> (nat \<Rightarrow> mboxParserCtx) \<Rightarrow> nat \<Rightarrow> nat \<Rightarrow> mboxParserCtx" where
  "new_context m raw chunk_size i =
     (let offset = to_ssize (i * chunk_size);
          ctx = mboxParserCtxInit (raw i) (int i) (mb_readfd m) (mb_file_size m);
          io = mboxIOSetFd (pc_ioctx ctx) (mb_readfd m);
          io = mboxIOSetStartOffset io offset;
          io = mboxIOSetOffset io (nat (offset mod 2 ^ 64));
          io = mboxIOSetFileOffset io offset;
          io = mboxIOSetFileSize io (mb_file_size m)
      in ctx\<lparr>pc_ioctx := io\<rparr>)"

definition set_end :: "int \<Rightarrow> mboxParserCtx \<Rightarrow> mboxParserCtx" where
  "set_end e ctx = ctx\<lparr>pc_ioctx := mboxIOSetEndOffset (pc_ioctx ctx) e\<rparr>"

definition reset_offset :: "mboxParserCtx \<Rightarrow> mboxParserCtx" where
  "reset_offset ctx =
     ctx\<lparr>pc_ioctx := mboxIOSetOffset (pc_ioctx ctx) (nat (io_start_offset (pc_ioctx ctx) mod 2 ^ 64))\<rparr>"

text \<open>A part ends where the next one starts, the last one at the end of the file.\<close>

definition set_ends :: "mboxParserCtx list \<Rightarrow> c_error + mboxParserCtx list" where
  "set_ends ctxs =
     (let n = length ctxs
      in bindE (for_range 1 n (\<lambda>i ctxs.
           bindE (list_at ctxs i) (\<lambda>ctx. bindE (list_at ctxs (i - 1)) (\<lambda>ctx_prev.
           Inr (ctxs[i - 1 := set_end (io_start_offset (pc_ioctx ctx)) ctx_prev, i := reset_offset ctx]))))
           ctxs) (\<lambda>ctxs.
         bindE (list_at ctxs (n - 1)) (\<lambda>ctx.
         Inr (ctxs[n - 1 := reset_offset (set_end (to_ssize (io_file_size (pc_ioctx ctx))) ctx)]))))"

text \<open>The contexts with something to read move to the front; the array stays as long as it is.\<close>

definition keep_context ::
  "nat \<Rightarrow> mboxParserCtx list \<times> nat \<times> int \<Rightarrow> c_error + (mboxParserCtx list \<times> nat \<times> int)" where
  "keep_context i st =
     (case st of (ctxs, non_null, refcount) \<Rightarrow>
      bindE (list_at ctxs i) (\<lambda>ctx.
      if io_end_offset (pc_ioctx ctx) - io_start_offset (pc_ioctx ctx) \<le> 0 then Inr (ctxs, non_null, refcount)
      else let ctx = ctx\<lparr>pc_id := to_int non_null\<rparr>
        in Inr (ctxs[i := ctx, non_null := ctx], Suc non_null, refcount + 1)))"

definition mboxSetAllOffsets ::
  "pread \<Rightarrow> nat \<Rightarrow> (nat \<Rightarrow> mboxParserCtx) \<Rightarrow> mbox \<Rightarrow> c_error + mbox" where
  "mboxSetAllOffsets pread fuel raw m =
     bindE (init (mb_io_pool m)) (\<lambda>io_thread_count.
     if io_thread_count = 0 then Inl DivByZero
     else let chunk_size = mb_file_size m div io_thread_count;
              ctxs = map (new_context m raw chunk_size) [0..<io_thread_count]
       in bindE (map_each (mboxParserCtxSeekStartCallback pread fuel) ctxs) (\<lambda>ctxs.
          bindE (set_ends ctxs) (\<lambda>ctxs.
          bindE (for_range 0 io_thread_count keep_context (ctxs, 0, mb_read_refcount m)) (\<lambda>(ctxs, non_null, refcount).
          Inr (m\<lparr>mb_contexts := ctxs, mb_read_refcount := refcount, mb_context_len := Some non_null\<rparr>)))))"

section \<open>Parsing\<close>

fun run_parse_jobs ::
  "(c_tm \<Rightarrow> int) \<Rightarrow> parse_heaps \<Rightarrow> mbox \<Rightarrow> mboxIOMsg list \<Rightarrow> c_error + (parse_heaps \<times> mbox)" where
  "run_parse_jobs mktime hs m [] = Inr (hs, m)"
| "run_parse_jobs mktime hs m (msg # rest) =
     bindE (mboxIOMsgParseCallback mktime hs m msg) (\<lambda>(hs, m). run_parse_jobs mktime hs m rest)"

text \<open>
  \<open>order\<close> makes one sequence of the messages of the parts: that in which the jobs of the parse
  pool add their summaries.
\<close>

definition mboxParseAllMessages ::
  "(c_tm \<Rightarrow> int) \<Rightarrow> pread \<Rightarrow> nat \<Rightarrow> (mboxIOMsg list list \<Rightarrow> mboxIOMsg list) \<Rightarrow> parse_heaps \<Rightarrow> mbox \<Rightarrow>
     c_error + (parse_heaps \<times> mbox)" where
  "mboxParseAllMessages mktime pread fuel order hs m =
     bindE (init (mb_context_len m)) (\<lambda>context_len.
     if length (mb_contexts m) < context_len then Inl OutOfBounds
     else bindE (map_each (mboxParserCtxGetNextMessageCallback pread fuel) (take context_len (mb_contexts m))) (\<lambda>rs.
          run_parse_jobs mktime hs
            (m\<lparr>mb_contexts := map snd rs @ drop context_len (mb_contexts m)\<rparr>) (order (map fst rs))))"

text \<open>The numbers of threads are \<open>int\<close>s, converted to the \<open>size_t\<close> that makes a pool.\<close>

definition mboxParserInit :: "mbox \<Rightarrow> nat \<Rightarrow> mbox" where
  "mboxParserInit m thread_count =
     (let m = m\<lparr>mb_thread_count := Some thread_count\<rparr>
      in if thread_count = 0 then m\<lparr>mb_ready := 1\<rparr>
         else let io_threads = nat (to_int (thread_count div 2) mod 2 ^ 64);
                  parser_threads = nat (to_int (thread_count div 2) mod 2 ^ 64)
           in m\<lparr>mb_context_len := Some io_threads, mb_completed_io := Some mboxListNew,
                mb_completed_parse := Some mboxListNew, mb_io_pool := Some io_threads,
                mb_parse_pool := Some parser_threads, mb_ready := 1\<rparr>)"

definition mboxMain ::
  "(c_tm \<Rightarrow> int) \<Rightarrow> pread \<Rightarrow> nat \<Rightarrow> (nat \<Rightarrow> mboxParserCtx) \<Rightarrow> (mboxIOMsg list list \<Rightarrow> mboxIOMsg list) \<Rightarrow>
   parse_heaps \<Rightarrow> mbox \<Rightarrow> c_error + (parse_heaps \<times> mbox)" where
  "mboxMain mktime pread fuel raw order hs m =
     bindE (mboxSetAllOffsets pread fuel raw m) (mboxParseAllMessages mktime pread fuel order hs)"

definition mboxParse ::
  "(c_tm \<Rightarrow> int) \<Rightarrow> pread \<Rightarrow> nat \<Rightarrow> (nat \<Rightarrow> mboxParserCtx) \<Rightarrow> (mboxIOMsg list list \<Rightarrow> mboxIOMsg list) \<Rightarrow>
   parse_heaps \<Rightarrow> mbox \<Rightarrow> nat \<Rightarrow> c_error + (mboxList \<times> parse_heaps \<times> mbox)" where
  "mboxParse mktime pread fuel raw order hs m thread_count =
     bindE (mboxMain mktime pread fuel raw order hs (mboxParserInit m thread_count)) (\<lambda>(hs, m).
     bindE (init (mb_completed_parse m)) (\<lambda>l.
     let l = mboxListSetFreedata l True
     in Inr (l, hs, m\<lparr>mb_completed_parse := Some l\<rparr>)))"

section \<open>Releasing\<close>

definition mboxRemoveContext :: "('w \<Rightarrow> int \<Rightarrow> 'w) \<Rightarrow> 'w \<Rightarrow> mbox \<Rightarrow> nat \<Rightarrow> c_error + (mbox \<times> 'w)" where
  "mboxRemoveContext close w m id' =
     (case (if mb_read_refcount m = 0 then (m, close w (mb_readfd m))
            else (m\<lparr>mb_read_refcount := mb_read_refcount m - 1\<rparr>, w)) of (m, w) \<Rightarrow>
      bindE (init (mb_write_refcount m)) (\<lambda>write_refcount.
      bindE (if write_refcount = 0 then bindE (init (mb_writefd m)) (\<lambda>fd. Inr (m, close w fd))
             else Inr (m\<lparr>mb_write_refcount := Some (write_refcount - 1)\<rparr>, w)) (\<lambda>(m, w).
      bindE (list_at (mb_contexts m) id') (\<lambda>_. Inr (m, w)))))"

text \<open>The pools are idle after \<open>mboxParse\<close>; their release gives nothing back to the rest.\<close>

definition mboxRelease ::
  "('w \<Rightarrow> int \<Rightarrow> 'w) \<Rightarrow> 'w \<Rightarrow> mboxMsgLite lheap \<Rightarrow> mbox \<Rightarrow> c_error + (mboxMsgLite lheap \<times> mbox \<times> 'w)" where
  "mboxRelease close w hm m =
     bindE (init (mb_completed_parse m)) (\<lambda>l.
     bindE (mboxListRelease hm (Some l)) (\<lambda>(hm, _).
     bindE (init (mb_io_pool m)) (\<lambda>_.
     bindE (init (mb_parse_pool m)) (\<lambda>_.
     bindE (init (mb_context_len m)) (\<lambda>n.
     bindE (for_range 0 n (\<lambda>i (m, w). mboxRemoveContext close w m i) (m, w)) (\<lambda>(m, w).
     Inr (hm, m, w)))))))"

section \<open>The summaries of the messages of a mailbox\<close>

text \<open>
  A message that can be summarised: headers and a body of at least 420 bytes, and a date that has
  a time. \<open>summary_of\<close> relates it to its summary, \<open>spans\<close> are the offsets of messages one after
  the other.
\<close>

definition readable :: "(c_tm \<Rightarrow> int) \<Rightarrow> mboxChar list \<Rightarrow> bool" where
  "readable mktime t \<longleftrightarrow> length t + 1 < 2 ^ 50 \<and>
     (\<exists>f hs eol body. t = mail_text f hs eol @ body \<and> mail_ok f hs eol body \<and> 420 \<le> length body \<and>
        (\<forall>date. field_ok (mail_headers f hs) ''Date'' date \<longrightarrow> (\<exists>ts. msg_timestamp mktime date = Inr ts)))"

definition summary_of :: "mboxChar list \<Rightarrow> mboxMsgLite \<Rightarrow> bool" where
  "summary_of t lite \<longleftrightarrow>
     (\<exists>f hs eol body. t = mail_text f hs eol @ body \<and> mail_ok f hs eol body \<and> summarises f hs body lite)"

fun spans :: "nat \<Rightarrow> mboxChar list list \<Rightarrow> (nat \<times> nat) list" where
  "spans p [] = []"
| "spans p (t # ts) = (p, p + length t) # spans (p + length t) ts"

text \<open>
  The places of messages one behind the other: each with where it is said to start, which is the
  line break before it when a part of the file starts there, and its end. The buffer of a message
  may have that line break in front.
\<close>

type_synonym piece = "mboxChar list \<times> nat \<times> nat"

fun msg_pieces :: "nat set \<Rightarrow> nat \<Rightarrow> mboxChar list list \<Rightarrow> piece list" where
  "msg_pieces S p [] = []"
| "msg_pieces S p (t # ts) =
     (t, if 0 < p \<and> p - 1 \<in> S then p - 1 else p, p + length t) # msg_pieces S (p + length t) ts"

definition msg_of :: "piece \<Rightarrow> mboxIOMsg \<Rightarrow> bool" where
  "msg_of pc msg \<longleftrightarrow> (case pc of (t, a, b) \<Rightarrow>
     (\<exists>pre. buf_rep (msg_buf msg) (pre @ t) \<and> list_all isLine pre \<and> length pre \<le> 1) \<and>
     buf_term (msg_buf msg) \<and> buf_offset (msg_buf msg) = 0 \<and> msg_start msg = a \<and> msg_end msg = b)"

definition lite_of :: "piece \<Rightarrow> mboxMsgLite \<Rightarrow> bool" where
  "lite_of pc lite \<longleftrightarrow> (case pc of (t, a, b) \<Rightarrow> summary_of t lite \<and> m_start lite = a \<and> m_end lite = b)"

lemma create_ok:
  assumes "msg_of (t, a, b) msg" and "readable mktime t" and "0 < rh_fresh h" and "a < 2 ^ 63" and "b < 2 ^ 63"
  shows "\<exists>h' lite. mboxMsgLiteCreate mktime h msg = Inr (h', lite) \<and> 0 < rh_fresh h' \<and> lite_of (t, a, b) lite"
proof -
  obtain pre where pre: "buf_rep (msg_buf msg) (pre @ t)" "list_all isLine pre" "length pre \<le> 1"
    and msg: "buf_term (msg_buf msg)" "buf_offset (msg_buf msg) = 0" "msg_start msg = a" "msg_end msg = b"
    using assms(1) by (auto simp: msg_of_def)
  obtain f hs eol body where t: "t = mail_text f hs eol @ body" "mail_ok f hs eol body" "420 \<le> length body"
    "\<forall>date. field_ok (mail_headers f hs) ''Date'' date \<longrightarrow> (\<exists>ts. msg_timestamp mktime date = Inr ts)"
    "length t + 1 < 2 ^ 50"
    using assms(2) by (auto simp: readable_def)
  have off: "to_ssize (msg_start msg) = int a" "to_ssize (msg_end msg) = int b"
    using assms(4,5) msg(3,4) by (simp_all add: to_ssize_def Let_def)
  have len: "buf_len (msg_buf msg) < 2 ^ 50" using t(5) buf_repD(1) [OF pre(1)] pre(3) by simp
  obtain h' lite date where m: "mboxMsgLiteFromBuffer mktime h (msg_buf msg) (int a) (int b) =
       bindE (msg_timestamp mktime date) (\<lambda>ts. Inr (h', lite\<lparr>m_unix_timestamp := ts\<rparr>,
         (msg_buf msg)\<lparr>buf_offset := length (pre @ mail_text f hs eol)\<rparr>))"
     "field_ok (mail_headers f hs) ''Date'' date" "summarises f hs body lite"
     "m_start lite = a" "m_end lite = b" "0 < rh_fresh h'"
    using mboxMsgLiteFromBuffer_summarises [OF pre(1) [unfolded t(1)] msg(1,2) t(2) len assms(3) t(3),
        of "int a" "int b" mktime] assms(4,5) pre(2) by auto
  obtain ts where "msg_timestamp mktime date = Inr ts" using t(4) m(2) by blast
  moreover have "summary_of t (lite\<lparr>m_unix_timestamp := ts\<rparr>)"
    using t(1,2) m(3) unfolding summary_of_def summarises_def by fastforce
  ultimately show ?thesis using m(1,4-6) by (simp add: mboxMsgLiteCreate_def off lite_of_def)
qed

lemma ts_add_tail:
  assumes "Mbox_List.holds h l xs" and "\<not> l_locked l" and "length xs < SIZE_MOD - 1"
  shows "\<exists>h' l'. mboxListTSAddTail h l v = Inr (h', l') \<and> Mbox_List.holds h' l' (xs @ [v]) \<and> \<not> l_locked l'"
proof -
  obtain h' l' where "mboxListAddTail h (l\<lparr>l_locked := True\<rparr>) v = Inr (h', l')" "Mbox_List.holds h' l' (xs @ [v])"
    using holds_push(2) [of h "l\<lparr>l_locked := True\<rparr>" xs v] assms(1,3) by auto
  then show ?thesis
    using assms(2) by (simp add: mboxListTSAddTail_def list_lock_def list_unlock_def)
qed

lemma run_parse_jobs_ok:
  assumes "list_all2 msg_of pcs ms" and "\<forall>(t, a, b) \<in> set pcs. readable mktime t \<and> a < 2 ^ 63 \<and> b < 2 ^ 63"
    and "mb_completed_parse m = Some l" and "Mbox_List.holds (ph_msgs hs) l xs" and "\<not> l_locked l"
    and "length xs + length pcs < SIZE_MOD - 1" and "0 < rh_fresh (ph_headers hs)"
  shows "\<exists>hs' m' l' lites. run_parse_jobs mktime hs m ms = Inr (hs', m') \<and> mb_completed_parse m' = Some l' \<and>
     Mbox_List.holds (ph_msgs hs') l' (xs @ map Some lites) \<and> list_all2 lite_of pcs lites"
  using assms
proof (induction pcs ms arbitrary: m l hs xs rule: list_all2_induct)
  case Nil
  then show ?case by auto
next
  case (Cons pc pcs msg rest)
  obtain t a b where pc: "pc = (t, a, b)" by (cases pc)
  obtain hh lite where c: "mboxMsgLiteCreate mktime (ph_headers hs) msg = Inr (hh, lite)" "0 < rh_fresh hh"
    "lite_of pc lite"
    using create_ok [of t a b msg mktime "ph_headers hs"] Cons.hyps(1) Cons.prems(1,6) by (auto simp: pc)
  obtain hm l' where a: "mboxListTSAddTail (ph_msgs hs) l (Some lite) = Inr (hm, l')"
    "Mbox_List.holds hm l' (xs @ [Some lite])" "\<not> l_locked l'"
    using ts_add_tail [OF Cons.prems(3,4)] Cons.prems(5) by fastforce
  let ?hs = "\<lparr>ph_msgs = hm, ph_headers = hh\<rparr>" and ?m = "m\<lparr>mb_completed_parse := Some l'\<rparr>"
  have "\<exists>hs' m' l2 lites. run_parse_jobs mktime ?hs ?m rest = Inr (hs', m') \<and> mb_completed_parse m' = Some l2 \<and>
     Mbox_List.holds (ph_msgs hs') l2 ((xs @ [Some lite]) @ map Some lites) \<and> list_all2 lite_of pcs lites"
    by (rule Cons.IH) (use Cons.prems(1,5) a c(2) in auto)
  then obtain hs' m' l2 lites where r: "run_parse_jobs mktime ?hs ?m rest = Inr (hs', m')"
     "mb_completed_parse m' = Some l2" "Mbox_List.holds (ph_msgs hs') l2 ((xs @ [Some lite]) @ map Some lites)"
     "list_all2 lite_of pcs lites"
    by blast
  have "run_parse_jobs mktime hs m (msg # rest) = Inr (hs', m')"
    using c(1) a(1) r(1) Cons.prems(2) by (simp add: mboxIOMsgParseCallback_def)
  then show ?case
    using r(2-4) c(3) by (intro exI [of _ hs'] exI [of _ m'] exI [of _ l2] exI [of _ "lite # lites"]) simp
qed

lemma laid_msg_pieces: "laid p ts ms \<Longrightarrow> list_all2 msg_of (msg_pieces {} p ts) ms"
proof (induction ts arbitrary: p ms)
  case (Cons t ts)
  then show ?case by (cases ms) (auto simp: msg_of_def intro!: exI [of _ "[]"])
qed simp

lemma msg_pieces_bounds: "(t, a, b) \<in> set (msg_pieces S p ts) \<Longrightarrow> t \<in> set ts \<and> a \<le> b \<and> b \<le> p + length (concat ts)"
  by (induction ts arbitrary: p) (auto split: if_splits, fastforce+)

lemma length_msg_pieces [simp]: "length (msg_pieces S p ts) = length ts"
  by (induction ts arbitrary: p) simp_all

lemma lites_of_pieces:
  "list_all2 lite_of (msg_pieces {} p ts) lites \<Longrightarrow>
   list_all2 summary_of ts lites \<and> map (\<lambda>lite. (m_start lite, m_end lite)) lites = spans p ts"
  by (induction ts arbitrary: p lites) (auto simp: lite_of_def list_all2_Cons1)

section \<open>One part\<close>

lemma mails_length:
  assumes "take 5 F = ''From ''"
  shows "length (mails F) \<le> length F" and "length (concat (mails F)) \<le> length F"
proof -
  have c: "\<forall>t \<in> set (mails F). take 5 t = ''From ''" "concat (mails F) = take (length (concat (mails F))) F"
    using mails_content [OF assms] by auto
  show l: "length (concat (mails F)) \<le> length F" using arg_cong [OF c(2), of length] by simp
  have "length ts \<le> length (concat ts)" if "\<forall>t \<in> set ts. take 5 t = ''From ''" for ts :: "mboxChar list list"
    using that
  proof (induction ts)
    case (Cons t ts)
    then have "1 \<le> length t" by (cases t) auto
    moreover have "length ts \<le> length (concat ts)" using Cons by simp
    ultimately show ?case unfolding list.size concat.simps length_append by linarith
  qed simp
  then show "length (mails F) \<le> length F" using c(1) l le_trans by blast
qed

text \<open>With one I/O thread there is one part, the whole file.\<close>

lemma set_offsets_one:
  assumes "mail_file pread (mb_readfd m) F" and "take 5 F = ''From ''"
    and "pread (mb_readfd m) MBOX_IO_READ_SIZE 0 = Some bs" and "5 \<le> length bs" and "0 < fuel"
    and "mb_io_pool m = Some 1" and "mb_file_size m = length F"
    and "blank_lines_whole pread (mb_readfd m) F 0"
  shows "\<exists>ctx. mboxSetAllOffsets pread fuel raw m =
       Inr (m\<lparr>mb_contexts := [ctx], mb_read_refcount := mb_read_refcount m + 1, mb_context_len := Some 1\<rparr>) \<and>
     at_mail pread F 0 (pc_ioctx ctx) \<and> io_fd (pc_ioctx ctx) = mb_readfd m \<and>
     io_end_offset (pc_ioctx ctx) = int (length F) \<and> pc_err ctx = MBOX_IO_OK"
proof -
  have len: "length F < 2 ^ 60" "F \<noteq> []" using assms(1,2) by (auto simp: mail_file_def)
  have new: "new_context m raw (length F) 0 = mboxParserCtxNew (raw 0) 0 (mb_readfd m) (length F)"
    using assms(7)
    by (simp add: new_context_def mboxParserCtxNew_def mboxParserCtxInit_def mboxIONew_def to_ssize_def Let_def
        mboxIOSetFd_def mboxIOSetStartOffset_def mboxIOSetOffset_def mboxIOSetFileOffset_def mboxIOSetFileSize_def)
  obtain ctx where ctx: "mboxParserCtxSeekStart pread fuel (mboxParserCtxNew (raw 0) 0 (mb_readfd m) (length F)) = Inr ctx"
    "pc_err ctx = MBOX_IO_OK" "io_fd (pc_ioctx ctx) = mb_readfd m" "io_start_offset (pc_ioctx ctx) = 0"
    "io_offset (pc_ioctx ctx) = 0" "io_file_size (pc_ioctx ctx) = length F"
    "at_mail pread F 0 ((pc_ioctx ctx)\<lparr>io_end_offset := int (length F)\<rparr>)"
    by (rule seek_start_first [where pread = pread and fuel = fuel and raw = "raw 0" and id' = 0 and e = "int (length F)",
          OF assms(1-4) _ assms(8)]) (use assms(5) in auto)
  define ctx' where "ctx' = (reset_offset (set_end (int (length F)) ctx))\<lparr>pc_id := 0\<rparr>"
  have fs: "to_ssize (length F) = int (length F)" using len by (simp add: to_ssize_def Let_def)
  have c': "pc_ioctx ctx' = (pc_ioctx ctx)\<lparr>io_end_offset := int (length F)\<rparr>" "pc_err ctx' = MBOX_IO_OK"
    using ctx(2,4,5) by (simp_all add: ctx'_def reset_offset_def set_end_def mboxIOSetEndOffset_def mboxIOSetOffset_def)
  have "mboxSetAllOffsets pread fuel raw m =
      Inr (m\<lparr>mb_contexts := [ctx'], mb_read_refcount := mb_read_refcount m + 1, mb_context_len := Some 1\<rparr>)"
    using assms(6,7) new ctx(1,4,6) fs len(2)
    by (simp add: mboxSetAllOffsets_def mboxParserCtxSeekStartCallback_def set_ends_def keep_context_def list_at_def
        ctx'_def reset_offset_def set_end_def mboxIOSetEndOffset_def mboxIOSetOffset_def to_int_def)
  then show ?thesis using c' ctx(3,7) by (intro exI [of _ ctx']) simp
qed

text \<open>A mailbox of one message.\<close>

definition one_mail :: "mboxChar list" where
  "one_mail = ''From a'' @ [LF] @ ''To: b'' @ [LF, LF] @ replicate 420 CHR ''x''"

lemma no_line_break:
  "LF \<notin> set (drop i R) \<Longrightarrow> next_from R i = None \<and> last_stop R i = length R"
proof (induction "length R - i" arbitrary: i)
  case 0
  then show ?case by (simp add: next_from.simps last_stop.simps)
next
  case (Suc d)
  then have i: "i < length R" by simp
  then have "drop i R = R ! i # drop (Suc i) R" by (simp add: Cons_nth_drop_Suc)
  then have "R ! i \<noteq> LF" "LF \<notin> set (drop (Suc i) R)" "take 6 (drop i R) \<noteq> LF # ''From ''"
    using Suc.prems by auto
  then show ?case
    using Suc.hyps(1) [of "Suc i"] Suc.hyps(2) i
    by (simp add: next_from.simps [of R i] last_stop.simps [of R i])
qed

lemma one_mail_mails: "mails one_mail = [one_mail]"
proof -
  have h: "header_end one_mail 0 = Some 14"
    by (simp add: one_mail_def header_end.simps eval_nat_numeral)
  have "drop 14 one_mail = replicate 420 CHR ''x''" by (simp add: one_mail_def)
  then have "LF \<notin> set (drop 14 one_mail)" by simp
  then show ?thesis using h no_line_break [of 14 one_mail] by (simp add: mails.simps [of one_mail])
qed

lemma mail_readable:
  assumes "420 \<le> length body" and "length body < 2 ^ 40" and "\<not> isLine (hd body)"
  shows "readable mktime (''From a'' @ [LF] @ ''To: b'' @ [LF, LF] @ body)"
proof -
  let ?f = "Some ''From a''" and ?hs = "[(''To'', [''b''])]"
  have m: "''From a'' @ [LF] @ ''To: b'' @ [LF, LF] @ body = mail_text ?f ?hs [LF] @ body"
    by (simp add: mail_text_def from_text_def hdrs_text_def hdr_text_def folded_def)
  have ok: "mail_ok ?f ?hs [LF] body"
    using assms(3)
    by (simp add: mail_ok_def from_ok_line_def isLine_def hdr_ok_def Let_def kept_def lines_ok_def Mbox_HeaderParser.goes_on_def MIME_PREFIX_def)
  have es: "mail_headers ?f ?hs = [(''__FROM_LINE__'', ''From a''), (''From aTo'', ''b'')]"
    by (simp add: mail_headers_def from_entries_def from_key_def hdr_entry_def kept_def add_name_def has_name_def
        c_tolower_def byte_def chr_of_def)
  have no_date: "ci ''Date'' ''__FROM_LINE__'' \<noteq> 0" "ci ''Date'' ''From aTo'' \<noteq> 0"
    by code_simp+
  have "field_ok (mail_headers ?f ?hs) ''Date'' date \<Longrightarrow> date = None" for date
    unfolding es using no_date by (auto simp: field_ok_def has_name_def simp del: ci.simps split: option.splits)
  then have "\<forall>date. field_ok (mail_headers ?f ?hs) ''Date'' date \<longrightarrow> (\<exists>ts. msg_timestamp mktime date = Inr ts)"
    by (fastforce simp: msg_timestamp_def)
  then show ?thesis
    unfolding readable_def using m ok assms(1,2)
    by (intro conjI exI [of _ ?f] exI [of _ ?hs] exI [of _ "[LF]"] exI [of _ body]) auto
qed

lemma one_mail_readable: "readable mktime one_mail"
  using mail_readable [of "replicate 420 CHR ''x''" mktime] by (simp add: one_mail_def isLine_def)

lemma one_mail_room: "room_at_end one_mail"
proof -
  have "n < 14" if "n < length one_mail" "take 6 (drop n one_mail) = LF # ''From ''" for n
  proof (rule ccontr)
    assume "\<not> n < 14"
    then have "drop n one_mail = drop (n - 14) (drop 14 one_mail)" by simp
    also have "\<dots> = replicate (434 - n) CHR ''x''" using \<open>\<not> n < 14\<close> by (simp add: one_mail_def)
    finally show False using that by (cases "434 - n") auto
  qed
  then show ?thesis by (fastforce simp: room_at_end_def one_mail_def)
qed

definition no_messages :: "mboxMsgLite lheap" where
  "no_messages = \<lparr>lh_cells = (\<lambda>_. None), lh_fresh = 0\<rparr>"

section \<open>Properties\<close>

text \<open>
  A mailbox that is opened and parsed with two or three threads, that is with one reading
  and one parsing, gives the list of the summaries of all its messages, in the order of the file,
  each with the offsets at which the message stands. The file begins with a message, its messages
  can be summarised, no read ends within an empty line, and the jobs of a pool of one worker run in
  order.
\<close>

theorem mboxParse_lists_mailbox:
  assumes "mail_file pread (mb_readfd m) F" and "room_at_end F" and "take 5 F = ''From ''"
    and "pread (mb_readfd m) MBOX_IO_READ_SIZE 0 = Some bs" and "5 \<le> length bs" and "3 * length F + 1 < fuel"
    and "mb_file_size m = length F" and "thread_count div 2 = 1" and "\<forall>ms. order [ms] = ms"
    and "\<forall>t \<in> set (mails F). readable mktime t"
    and "fresh_ok (ph_msgs hs)" and "0 < rh_fresh (ph_headers hs)"
    and "blank_lines_whole pread (mb_readfd m) F 0"
  shows "\<exists>l hs' m' lites. mboxParse mktime pread fuel raw order hs m thread_count = Inr (l, hs', m') \<and>
     Mbox_List.holds (ph_msgs hs') l (map Some lites) \<and> list_all2 summary_of (mails F) lites \<and>
     map (\<lambda>lite. (m_start lite, m_end lite)) lites = spans 0 (mails F)"
proof -
  have len: "length F < 2 ^ 60" using assms(1) by (simp add: mail_file_def)
  define m1 where "m1 = mboxParserInit m thread_count"
  have tc: "thread_count \<noteq> 0" using assms(8) by (cases thread_count) auto
  have m1: "mb_readfd m1 = mb_readfd m" "mb_file_size m1 = length F" "mb_io_pool m1 = Some 1"
    "mb_completed_parse m1 = Some mboxListNew"
    using tc assms(7,8) by (simp_all add: m1_def mboxParserInit_def Let_def)
  obtain ctx where s: "mboxSetAllOffsets pread fuel raw m1 =
       Inr (m1\<lparr>mb_contexts := [ctx], mb_read_refcount := mb_read_refcount m1 + 1, mb_context_len := Some 1\<rparr>)"
     "at_mail pread F 0 (pc_ioctx ctx)" "io_fd (pc_ioctx ctx) = mb_readfd m"
     "io_end_offset (pc_ioctx ctx) = int (length F)" "pc_err ctx = MBOX_IO_OK"
    using set_offsets_one [of pread m1 F bs fuel raw] assms(1,3-6,13) m1(1-3) by auto
  have "mail_file pread (io_fd (pc_ioctx ctx)) F" "pc_err ctx \<noteq> MBOX_PARSE_DONE"
    using assms(1) s(3,5) by (simp_all add: MBOX_PARSE_DONE_def MBOX_IO_OK_def)
  then obtain ms ctx' where ms: "mboxParserCtxGetNextMessageCallback pread fuel ctx = Inr (ms, ctx')"
    "laid 0 (mails F) ms"
    using Callback_mails [OF s(2) _ assms(2), of fuel] s(4) len assms(6) by (auto simp: enough_def)
  let ?m2 = "m1\<lparr>mb_read_refcount := mb_read_refcount m1 + 1, mb_context_len := Some 1, mb_contexts := [ctx']\<rparr>"
  have "list_rep (ph_msgs hs) mboxListNew []" using assms(11) mboxListNew_rep by (simp add: fresh_ok_def)
  then have new: "Mbox_List.holds (ph_msgs hs) mboxListNew []" "\<not> l_locked mboxListNew"
    by (auto simp: Mbox_List.holds_def mboxListNew_def)
  have bounds: "length (concat (mails F)) < 2 ^ 63"
    "length ([] :: mboxMsgLite void_ptr list) + length (msg_pieces {} 0 (mails F)) < SIZE_MOD - 1"
    using mails_length [OF assms(3)] len by simp_all
  have good: "\<forall>(t, a, b) \<in> set (msg_pieces {} 0 (mails F)). readable mktime t \<and> a < 2 ^ 63 \<and> b < 2 ^ 63"
    using msg_pieces_bounds [of _ _ _ "{}" 0 "mails F"] assms(10) bounds(1) by fastforce
  obtain hs' m' l lites where r: "run_parse_jobs mktime hs ?m2 ms = Inr (hs', m')" "mb_completed_parse m' = Some l"
     "Mbox_List.holds (ph_msgs hs') l ([] @ map Some lites)" "list_all2 summary_of (mails F) lites"
     "map (\<lambda>lite. (m_start lite, m_end lite)) lites = spans 0 (mails F)"
    using run_parse_jobs_ok [OF laid_msg_pieces [OF ms(2)] good _ new bounds(2) assms(12), of ?m2] m1(4)
      lites_of_pieces by auto
  have "mboxMain mktime pread fuel raw order hs m1 = Inr (hs', m')"
    using s(1) ms(1) r(1) assms(9) by (simp add: mboxMain_def mboxParseAllMessages_def)
  then have "mboxParse mktime pread fuel raw order hs m thread_count =
      Inr (mboxListSetFreedata l True, hs', m'\<lparr>mb_completed_parse := Some (mboxListSetFreedata l True)\<rparr>)"
    using r(2) by (simp add: mboxParse_def m1_def Let_def)
  moreover have "Mbox_List.holds (ph_msgs hs') (mboxListSetFreedata l True) (map Some lites)"
    using r(3) by (simp add: Mbox_List.holds_def list_rep_def mboxListSetFreedata_def)
  ultimately show ?thesis using r(4,5) by blast
qed

theorem mboxParse_lists_mailbox_witness:
  "\<forall>mktime raw. \<exists>m l hs' m' lites.
     mboxReadOpen (\<lambda>w p f n. (3, w)) (\<lambda>w fd. Some (length one_mail)) () ''mail'' 438 = (Some m, ()) \<and>
     mboxParse mktime (file_pread one_mail) 2000 raw concat \<lparr>ph_msgs = no_messages, ph_headers = no_nodes\<rparr> m 2 = Inr (l, hs', m') \<and>
     Mbox_List.holds (ph_msgs hs') l (map Some lites) \<and> list_all2 summary_of [one_mail] lites \<and>
     map (\<lambda>lite. (m_start lite, m_end lite)) lites = [(0, 434)]"
proof (intro allI)
  fix mktime raw
  have len: "length one_mail = 434" by (simp add: one_mail_def)
  have f: "mail_file (file_pread one_mail) 3 one_mail" "room_at_end one_mail" "take 5 one_mail = ''From ''"
    "blank_lines_whole (file_pread one_mail) 3 one_mail 0"
    using blank_lines_whole_no_CR reads_file_pread by (auto simp: mail_file_def one_mail_room) (auto simp: one_mail_def)
  obtain m where m: "mboxReadOpen (\<lambda>w p f n. (3, w)) (\<lambda>w fd. Some (length one_mail)) () ''mail'' 438 = (Some m, ())"
    "mb_readfd m = 3" "mb_file_size m = length one_mail"
    by (simp add: mboxReadOpen_def)
  have "file_pread one_mail 3 MBOX_IO_READ_SIZE 0 = Some one_mail"
    by (simp add: file_pread_def MBOX_IO_READ_SIZE_def len)
  then obtain l hs' m' lites where p: "mboxParse mktime (file_pread one_mail) 2000 raw concat
       \<lparr>ph_msgs = no_messages, ph_headers = no_nodes\<rparr> m 2 = Inr (l, hs', m')"
     "Mbox_List.holds (ph_msgs hs') l (map Some lites)" "list_all2 summary_of [one_mail] lites"
     "map (\<lambda>lite. (m_start lite, m_end lite)) lites = [(0, 434)]"
    using mboxParse_lists_mailbox [of "file_pread one_mail" m one_mail one_mail 2000 2 concat mktime
        "\<lparr>ph_msgs = no_messages, ph_headers = no_nodes\<rparr>" raw] f m(2,3)
    unfolding one_mail_mails by (fastforce simp: one_mail_readable len fresh_ok_def no_messages_def no_nodes_def)
  show "\<exists>m l hs' m' lites.
     mboxReadOpen (\<lambda>w p f n. (3, w)) (\<lambda>w fd. Some (length one_mail)) () ''mail'' 438 = (Some m, ()) \<and>
     mboxParse mktime (file_pread one_mail) 2000 raw concat \<lparr>ph_msgs = no_messages, ph_headers = no_nodes\<rparr> m 2 = Inr (l, hs', m') \<and>
     Mbox_List.holds (ph_msgs hs') l (map Some lites) \<and> list_all2 summary_of [one_mail] lites \<and>
     map (\<lambda>lite. (m_start lite, m_end lite)) lites = [(0, 434)]"
    by (intro exI conjI) (rule m(1), rule p(1), rule p(2), rule p(3), rule p(4))
qed

text \<open>
  C28. With fewer than two threads nothing is parsed: without a thread the pools are read before
  they are made, with one the size of the file is divided by zero.
\<close>

theorem mboxParse_few_threads:
  assumes "mboxReadOpen open fstat w file_path perms = (Some m, w')"
  shows "mboxParse mktime pread fuel raw order hs m 0 = Inl UninitRead \<and>
     mboxParse mktime pread fuel raw order hs m 1 = Inl DivByZero"
  using assms
  by (auto simp: mboxReadOpen_def mboxParse_def mboxMain_def mboxSetAllOffsets_def mboxParserInit_def Let_def
      split: prod.splits if_splits option.splits)

theorem mboxParse_few_threads_witness:
  "\<exists>m. mboxReadOpen (\<lambda>w p f n. (3, w)) (\<lambda>w fd. Some 100) () ''mail'' 438 = (Some m, ()) \<and>
     (\<forall>mktime pread fuel raw order hs. mboxParse mktime pread fuel raw order hs m 0 = Inl UninitRead \<and>
        mboxParse mktime pread fuel raw order hs m 1 = Inl DivByZero)"
  using mboxParse_few_threads [of "\<lambda>w p f n. (3, w)" "\<lambda>w fd. Some 100" "()" "''mail''" 438 _ "()"]
  by (simp add: mboxReadOpen_def)

end
