(* ===== verification/Mbox_Parts.thy ===== *)
theory Mbox_Parts
  imports Mbox_Parse
begin

text \<open>
  A mailbox that several threads read, each its own part: where the parts of \<open>mboxSetAllOffsets\<close>
  (\<open>src/src/mbox.c\<close>) start, which messages the thread of a part finds, and the list of summaries that all
  of them make together, whatever order the jobs end in. The definitions here describe parts; those
  of the code are in \<open>Mbox_Reader\<close> and \<open>Mbox_Parse\<close>.
\<close>

section \<open>Where a mailbox can be cut\<close>

lemma header_end_Suc: "header_end (x # R) (Suc i) = map_option Suc (header_end R i)"
proof (induction R i rule: header_end.induct)
  case (1 R i)
  then show ?case by (subst (1 2) header_end.simps) auto
qed

lemma next_from_Suc: "next_from (x # R) (Suc i) = map_option Suc (next_from R i)"
proof (induction R i rule: next_from.induct)
  case (1 R i)
  then show ?case by (subst (1 2) next_from.simps) auto
qed

lemma last_stop_Suc: "last_stop (x # R) (Suc i) = Suc (last_stop R i)"
proof (induction R i rule: last_stop.induct)
  case (1 R i)
  then show ?case by (subst (1 2) last_stop.simps) auto
qed

text \<open>A part that is not the first begins at a line break; only its first message is longer for it.\<close>

lemma mails_LF:
  assumes "take 5 R = ''From ''"
  shows "mails (LF # R) = (case mails R of [] \<Rightarrow> [] | t # ts \<Rightarrow> (LF # t) # ts)"
proof -
  obtain x y R' where R: "R = CHR ''F'' # CHR ''r'' # R'"
    using assms by (cases R; cases "tl R") auto
  have "header_end (LF # R) 0 = header_end (LF # R) (Suc 0)"
    by (subst header_end.simps) (simp add: R eval_nat_numeral)
  then have h: "header_end (LF # R) 0 = map_option Suc (header_end R 0)" by (simp add: header_end_Suc)
  show ?thesis
    by (simp add: mails.simps [of "LF # R"] mails.simps [of R] h next_from_Suc last_stop_Suc split: option.splits)
qed

text \<open>\<open>cut F p\<close>: one of the messages of \<open>F\<close> begins at \<open>p\<close>, or the messages end there.\<close>

definition cut :: "mboxChar list \<Rightarrow> nat \<Rightarrow> bool" where
  "cut F p \<longleftrightarrow> (\<exists>ts. mails F = ts @ mails (drop p F) \<and> length (concat ts) = p)"

definition mail_starts :: "mboxChar list \<Rightarrow> nat set" where
  "mail_starts F = fst ` set (spans 0 (mails F))"

lemma spans_split: "p \<in> fst ` set (spans q ts) \<Longrightarrow>
    \<exists>us t vs. ts = us @ t # vs \<and> q + length (concat us) = p"
proof (induction ts arbitrary: q)
  case (Cons t ts)
  consider "p = q" | "p \<in> fst ` set (spans (q + length t) ts)" using Cons.prems by auto
  then show ?case
  proof cases
    case 1
    then show ?thesis by (intro exI [of _ "[]"] exI [of _ t] exI [of _ ts]) simp
  next
    case 2
    then obtain us u vs where "ts = us @ u # vs" "q + length t + length (concat us) = p" using Cons.IH by blast
    then show ?thesis by (intro exI [of _ "t # us"] exI [of _ u] exI [of _ vs]) simp
  qed
qed simp

lemma mails_suffix: "mails R = us @ t # vs \<Longrightarrow> mails (drop (length (concat us)) R) = t # vs"
proof (induction R arbitrary: us rule: mails.induct)
  case (1 R)
  show ?case
  proof (cases us)
    case (Cons u us')
    consider (last) h where "header_end R 0 = Some h" "next_from R h = None"
      | (more) h n where "header_end R 0 = Some h" "next_from R h = Some n"
      using 1(2) by (cases "header_end R 0") (auto simp: mails.simps [of R] split: option.splits)
    then show ?thesis
    proof cases
      case last
      then show ?thesis using 1(2) Cons by (simp add: mails.simps [of R])
    next
      case more
      note nb = next_from_bounds [OF more(2)]
      have u: "u = take (n + 1) R" "mails (drop (n + 1) R) = us' @ t # vs"
        using more 1(2) Cons by (simp_all add: mails.simps [of R])
      then show ?thesis using 1(1) [OF more u(2)] nb Cons by (simp add: add.commute)
    qed
  qed (use 1(2) in simp)
qed

lemma mail_starts_cut:
  assumes "p \<in> mail_starts F"
  shows "cut F p \<and> mails (drop p F) \<noteq> []"
proof -
  obtain us t vs where us: "mails F = us @ t # vs" "0 + length (concat us) = p"
    using spans_split [OF assms [unfolded mail_starts_def]] by blast
  then have "mails (drop p F) = t # vs" using mails_suffix [OF us(1)] by (simp only: add_0)
  then show ?thesis using us unfolding cut_def by (intro conjI exI [of _ us]) simp_all
qed

lemma cut_0 [simp]: "cut F 0"
  by (auto simp: cut_def)

lemma cuts_between:
  assumes "take 5 F = ''From ''" and "cut F p" and "cut F q" and "p \<le> q"
  shows "\<exists>ts. mails (drop p F) = ts @ mails (drop q F) \<and> p + length (concat ts) = q"
proof -
  obtain A B where A: "mails F = A @ mails (drop p F)" "length (concat A) = p"
    and B: "mails F = B @ mails (drop q F)" "length (concat B) = q"
    using assms(2,3) unfolding cut_def by blast
  have ne: "\<forall>t \<in> set (mails F). t \<noteq> []" using mails_content [OF assms(1)] by fastforce
  have "A @ mails (drop p F) = B @ mails (drop q F)" using A(1) B(1) by metis
  then obtain us where "(A = B @ us \<and> us @ mails (drop p F) = mails (drop q F)) \<or>
      (A @ us = B \<and> mails (drop p F) = us @ mails (drop q F))"
    unfolding append_eq_append_conv2 by blast
  then show ?thesis
  proof
    assume us: "A = B @ us \<and> us @ mails (drop p F) = mails (drop q F)"
    then have "p = q + length (concat us)" using A(2) B(2) by auto
    then have "length (concat us) = 0" using assms(4) by linarith
    then have "concat us = []" by simp
    moreover have "set us \<subseteq> set (mails F)" using us A(1) by (metis Un_iff set_append subsetI)
    ultimately have "us = []" using ne by (cases us) auto
    then show ?thesis using us A(2) B(2) assms(4) by (intro exI [of _ "[]"]) auto
  next
    assume us: "A @ us = B \<and> mails (drop p F) = us @ mails (drop q F)"
    then have "p + length (concat us) = q" using A(2) B(2) by auto
    then show ?thesis using us by blast
  qed
qed

section \<open>Reading one part\<close>

lemma mails_le: "length (concat (mails R)) \<le> length R"
proof (induction R rule: mails.induct)
  case (1 R)
  consider (none) "header_end R 0 = None" | (last) h where "header_end R 0 = Some h" "next_from R h = None"
    | (more) h n where "header_end R 0 = Some h" "next_from R h = Some n"
    by (cases "header_end R 0") (auto dest: option.exhaust_sel)
  then show ?case
  proof cases
    case more
    have "length (concat (mails (drop (n + 1) R))) \<le> length R - (n + 1)" using 1 [OF more] by simp
    then have "n + 1 + length (concat (mails (drop (n + 1) R))) \<le> length R"
      using next_from_bounds [OF more(2)] by linarith
    moreover have "length (take (n + 1) R) \<le> n + 1" by simp
    ultimately show ?thesis using more by (simp add: mails.simps [of R])
  qed (simp_all add: mails.simps [of R])
qed

text \<open>
  A part that is not the last gives the messages up to the one that ends behind the line break at its end.
\<close>

lemma mails_second: "mails R = t # t2 # ts \<Longrightarrow> 2 \<le> length t2"
proof -
  have gen: "2 \<le> length t" if m: "mails R = t # ts" for R :: "mboxChar list" and t ts
  proof -
    obtain h where h: "header_end R 0 = Some h" using m by (auto simp: mails.simps [of R] split: option.splits)
    show ?thesis
    proof (cases "next_from R h")
      case None
      then show ?thesis using m h header_end_bounds [OF h] last_stop_bounds [of h R]
        by (auto simp: mails.simps [of R])
    next
      case (Some n)
      then show ?thesis using m h header_end_bounds [OF h] next_from_bounds [OF Some]
        by (auto simp: mails.simps [of R])
    qed
  qed
  assume "mails R = t # t2 # ts"
  then obtain R' where "mails R' = t2 # ts" by (auto simp: mails.simps [of R] split: option.splits)
  then show ?thesis by (rule gen)
qed

lemma Callback_part:
  assumes "at_mail pread F pos (pc_ioctx ctx)" and "mail_file pread (io_fd (pc_ioctx ctx)) F"
    and "room_at_end F" and "mails (drop pos F) = ts @ us" and "ts \<noteq> []" and "us \<noteq> []"
    and "io_end_offset (pc_ioctx ctx) = int (pos + length (concat ts)) - 1"
    and "pc_err ctx \<noteq> MBOX_PARSE_DONE" and "reads_clear pread (pc_ioctx ctx)"
    and "enough F + (length F - pos) < fuel"
  shows "\<exists>ms ctx'. mboxParserCtxGetNextMessageCallback pread fuel ctx = Inr (ms, ctx') \<and> laid pos ts ms"
  using assms
proof (induction fuel arbitrary: pos ctx ts)
  case (Suc fuel)
  have fu: "enough F \<le> fuel" using Suc.prems(10) by simp
  define R where "R = drop pos F"
  obtain t ts' where ts: "ts = t # ts'" using Suc.prems(5) by (cases ts) auto
  have ms: "mails R = t # ts' @ us" using Suc.prems(4) by (simp add: R_def ts)
  obtain h where h: "header_end R 0 = Some h" using ms by (auto simp: mails.simps [of R] split: option.splits)
  obtain n where n: "next_from R h = Some n"
    using ms h Suc.prems(6) by (cases "next_from R h") (auto simp: mails.simps [of R])
  note nb = next_from_bounds [OF n]
  have t: "t = take (n + 1) R" "mails (drop (n + 1) R) = ts' @ us" using ms h n by (simp_all add: mails.simps [of R])
  have lt: "length t = n + 1" using t(1) nb by simp
  have "n + 6 \<le> length F - pos" using nb by (simp add: R_def)
  then have "pos + n < length F" by linarith
  moreover have "take 6 (drop (pos + n) F) = LF # ''From ''" using nb by (simp add: R_def add.commute)
  ultimately have n10: "pos + n + 10 \<le> length F" using Suc.prems(3) by (auto simp: room_at_end_def)
  have F60: "length F < 2 ^ 60" using Suc.prems(2) by (simp add: mail_file_def)
  have b1: "n + 10 \<le> length F - pos" using n10 by linarith
  have b2: "int (pos + n) \<le> io_end_offset (pc_ioctx ctx)" using Suc.prems(7) lt by (simp add: ts)
  have "cut R 0" by simp
  have lc: "length (concat ts) \<le> length R"
  proof -
    obtain k where "length (concat (ts @ us)) \<le> k" "k \<le> length R"
      using mails_le [of R] Suc.prems(4) by (auto simp: R_def)
    then show ?thesis by simp
  qed
  have b3: "io_end_offset (pc_ioctx ctx) < 2 ^ 62" using Suc.prems(7) lc F60 n10 by (simp add: R_def)
  obtain b ctx' where g: "mboxParserCtxGetNextMessage pread fuel ctx =
     Inr (Some \<lparr>msg_buf = b, msg_start = pos, msg_end = pos + (n + 1)\<rparr>, ctx')"
   "buf_rep b t" "buf_term b" "buf_offset b = 0" "at_mail pread F (pos + (n + 1)) (pc_ioctx ctx')"
   "io_fd (pc_ioctx ctx') = io_fd (pc_ioctx ctx)" "io_end_offset (pc_ioctx ctx') = io_end_offset (pc_ioctx ctx)"
   "reads_clear pread (pc_ioctx ctx')"
   "pc_err ctx' = (if io_end_offset (pc_ioctx ctx) \<le> int (pos + (n + 1)) then MBOX_PARSE_DONE else pc_err ctx)"
    using GetNextMessage_finds [OF Suc.prems(1,2) h [unfolded R_def] n [unfolded R_def] b1 b2 b3 fu Suc.prems(9)]
    unfolding t(1) R_def by blast
  show ?case
  proof (cases ts')
    case Nil
    then have "pc_err ctx' = MBOX_PARSE_DONE" using g(9) Suc.prems(7) lt by (simp add: ts)
    then show ?thesis using g(1-4) lt Nil by (simp add: ts)
  next
    case (Cons t2 ts2)
    have "2 \<le> length t2" using mails_second [of R t t2 "ts2 @ us"] ms Cons by simp
    then have err: "pc_err ctx' \<noteq> MBOX_PARSE_DONE"
      using g(9) Suc.prems(7,8) lt Cons by (simp add: ts)
    have fu2: "enough F + (length F - (pos + (n + 1))) < fuel" using Suc.prems(10) n10 by linarith
    have "drop (n + 1) R = drop (pos + (n + 1)) F" by (simp add: R_def add.commute)
    then have "\<exists>ms ctx2. mboxParserCtxGetNextMessageCallback pread fuel ctx' = Inr (ms, ctx2) \<and>
        laid (pos + (n + 1)) ts' ms"
      using t(2) Cons Suc.prems(2,6,7) g(6,7) lt
      by (intro Suc.IH [OF g(5) _ Suc.prems(3) _ _ _ _ err g(8) fu2]) (simp_all add: ts)
    then show ?thesis using g(1-4) err lt by (auto simp: ts)
  qed
qed simp

section \<open>Where a part starts\<close>

text \<open>
  The search for the start of part \<open>i\<close> of \<open>n\<close> goes back by one read from the multiple of the size of
  a part; it takes the first line that begins a message in what it reads there.
\<close>

definition window :: "mboxChar list \<Rightarrow> nat \<Rightarrow> nat \<Rightarrow> nat" where
  "window F n i = i * (length F div n) - MBOX_IO_READ_SIZE"

lemma next_from_first:
  "next_from R i = Some n \<Longrightarrow> i \<le> k \<Longrightarrow> k < n \<Longrightarrow> take 6 (drop k R) \<noteq> LF # ''From ''"
proof (induction R i rule: next_from.induct)
  case (1 R i)
  then show ?case
    by (cases "k = i") (subst (asm) (2) next_from.simps, force split: if_splits)+
qed

lemma next_from_mono: "next_from R i = Some m \<Longrightarrow> next_from R j = Some n \<Longrightarrow> i \<le> j \<Longrightarrow> m \<le> n"
  using next_from_first [of R i m n] next_from_bounds [of R j n] by (meson not_le order_trans)

lemma find_window:
  assumes "next_from F w = Some s" and "bs = take (length bs) (drop w F)" and "s + 6 \<le> w + length bs"
  shows "find (\<lambda>k. take 6 (drop k bs) = LF # ''From '') [0..<length bs] = Some (s - w)"
proof -
  note nb = next_from_bounds [OF assms(1)]
  have six: "take 6 (drop k bs) = take 6 (drop (w + k) F)" if "k + 6 \<le> length bs" for k
    using prefix_six [OF assms(2) that] by (simp add: add.commute)
  have "take 6 (drop (s - w) bs) = LF # ''From ''" using six [of "s - w"] nb assms(3) by simp
  moreover have "take 6 (drop k bs) \<noteq> LF # ''From ''" if "k < s - w" for k
    using six [of k] next_from_first [OF assms(1), of "w + k"] that assms(3) by simp
  moreover have "s - w < length bs" using nb assms(3) by linarith
  ultimately show ?thesis unfolding find_Some_iff by (intro exI [of _ "s - w"]) auto
qed

text \<open>A context whose start was found: only its offset is set later.\<close>

definition sought :: "pread \<Rightarrow> int \<Rightarrow> mboxChar list \<Rightarrow> nat \<Rightarrow> mboxParserCtx \<Rightarrow> bool" where
  "sought pread fd F s ctx \<longleftrightarrow> pc_err ctx = MBOX_IO_OK \<and> io_fd (pc_ioctx ctx) = fd \<and>
     io_start_offset (pc_ioctx ctx) = int s \<and> io_file_size (pc_ioctx ctx) = length F \<and>
     io_file_offset (pc_ioctx ctx) = int s \<and> at_mail pread F s ((pc_ioctx ctx)\<lparr>io_offset := s\<rparr>)"

lemma seek_start_window:
  assumes "mail_file pread fd F" and "next_from F (off - MBOX_IO_READ_SIZE) = Some s"
    and "pread fd MBOX_IO_READ_SIZE (int (off - MBOX_IO_READ_SIZE)) = Some bs"
    and "s + 6 \<le> off - MBOX_IO_READ_SIZE + length bs" and "0 < off" and "0 < fuel"
    and "pc_ioctx ctx = (mboxIONew fd (length F))\<lparr>io_offset := q, io_start_offset := int off, io_file_offset := int off\<rparr>"
    and "pc_err ctx = MBOX_IO_OK" and "blank_lines_whole pread fd F s"
  shows "\<exists>ctx'. mboxParserCtxSeekStart pread fuel ctx = Inr ctx' \<and> sought pread fd F s ctx'"
proof -
  define w where "w = off - MBOX_IO_READ_SIZE"
  note a = assms(2-4) [folded w_def]
  define io where "io = pc_ioctx ctx"
  have len: "length F < 2 ^ 60" using assms(1) by (simp add: mail_file_def)
  note nb = next_from_bounds [OF a(1)]
  have bsl: "0 < length bs" using a(3) nb by linarith
  obtain k where k: "bs = take k (drop w F)" "k \<le> MBOX_IO_READ_SIZE"
    using assms(1) a(2) unfolding mail_file_def reads_file_def
    by (metis MBOX_IO_READ_SIZE_def nat_int of_nat_0_le_iff option.inject zero_less_numeral)
  have bs: "bs = take (length bs) (drop w F)" "length bs \<le> MBOX_IO_READ_SIZE" using k by (auto simp: min_def)
  have nul: "NUL \<notin> set bs"
    using assms(1) bs(1) by (metis in_set_dropD in_set_takeD mail_file_def)
  have rep: "buf_rep (io_buf io) []" "buf_capacity (io_buf io) \<le> 600000" "0 < buf_capacity (io_buf io)"
    using mboxBufAlloc_rep [of MBOX_IO_READ_SIZE] assms(7)
    by (auto simp: io_def mboxIONew_def mboxBufAlloc_def MBOX_IO_READ_SIZE_def Let_def)
  have room: "buf_capacity (io_buf io) + max 256 MBOX_IO_READ_SIZE \<le> PTRDIFF_MAX" "MBOX_IO_READ_SIZE < 2 ^ 32"
    using rep(2) by (simp_all add: MBOX_IO_READ_SIZE_def)
  have fd: "io_fd io = fd" "io_file_offset io = int off" "io_err io = MBOX_IO_OK" "io_file_size io = length F"
    using assms(7) by (simp_all add: io_def mboxIONew_def)
  obtain b' where b': "mboxIORead pread io MBOX_IO_READ_SIZE 0 (int w) =
       Inr (int (length bs), io\<lparr>io_buf := b', io_err := if bs = [] then MBOX_IO_EOF else MBOX_IO_OK\<rparr>)"
    "buf_rep b' (if bs = [] then [] else take 0 [] @ bs)" "buf_term (io_buf io) \<or> bs \<noteq> [] \<longrightarrow> buf_term b'"
    "buf_capacity b' \<le> max (buf_capacity (io_buf io)) (length ([] :: mboxChar list) + 1 + MBOX_IO_READ_SIZE + max 256 MBOX_IO_READ_SIZE)"
    "0 + length bs < buf_capacity b'"
    by (rule mboxIORead_at [where pread = pread and io = io and off = "int w" and bs = bs,
          OF rep(1) le0 _ room(1,2) bs(2)]) (use rep(3) fd(1) a(2) in auto)
  have rep': "buf_rep b' bs" "buf_term b'" using b'(2,3) bsl by auto
  define io' where "io' = io\<lparr>io_buf := b', io_err := MBOX_IO_OK\<rparr>"
  have hd: "holds (buf_data b') bs" by (rule holds_buf [OF rep' nul])
  have "find_start (LF # ''From '') (buf_data b') (length bs) 0 =
      Inr (find (\<lambda>k. take 6 (drop k bs) = LF # ''From '') [0..<length bs])"
    using find_start_text [OF hd, of "LF # ''From ''" 0] by (simp add: eval_nat_numeral)
  then have find: "find_start (LF # ''From '') (buf_data b') (length bs) 0 = Inr (Some (s - w))"
    using find_window [OF a(1) bs(1) a(3)] by simp
  obtain f where f: "fuel = Suc f" using assms(6) by (cases fuel) auto
  have wo: "(if int off - int MBOX_IO_READ_SIZE < 0 then 0 else int off - int MBOX_IO_READ_SIZE) = int w"
    by (auto simp: w_def)
  have loop: "seek_start_loop pread fuel io (io_file_offset io) = Inr (io'\<lparr>io_start_offset := int s\<rparr>)"
    unfolding f fd(2) seek_start_loop.simps Let_def wo b'(1)
    using bsl find assms(5) buf_repD(1) [OF rep'(1)] nb fd(2) by (auto simp: io'_def MBOX_IO_OK_def)
  obtain b where b: "mboxBufSetLen (io_buf io') 0 = Inr b" "buf_rep b []" "buf_term b"
    "buf_capacity b = buf_capacity b'"
    using mboxBufSetLen_rep [of "io_buf io'" bs 0] rep'(1) by (auto simp: io'_def)
  define ctx' where "ctx' = ctx\<lparr>pc_ioctx := io'\<lparr>io_start_offset := int s, io_buf := b\<lparr>buf_offset := 0\<rparr>,
      io_file_offset := int s\<rparr>\<rparr>"
  have "mboxParserCtxSeekStart pread fuel ctx = Inr ctx'"
    using loop b(1) by (simp add: mboxParserCtxSeekStart_def Let_def io_def [symmetric] ctx'_def)
  moreover have "buf_capacity b \<le> length F + 600001" "0 < buf_capacity b"
    using b(4) b'(4,5) rep(2) by (auto simp: MBOX_IO_READ_SIZE_def)
  then have "sought pread fd F s ctx'"
    using b(2,3) nb fd assms(8,9)
    by (auto simp: sought_def at_mail_def ctx'_def io'_def buf_rep_def buf_term_def intro!: exI [of _ "[]"])
  ultimately show ?thesis by blast
qed

section \<open>The parts of a file\<close>

text \<open>
  \<open>part_starts\<close>: part 0 starts with the file, and every other one at a message, found by one
  read. No read of a part ends within ten bytes behind the start of the next.
\<close>

definition part_starts :: "pread \<Rightarrow> int \<Rightarrow> mboxChar list \<Rightarrow> nat \<Rightarrow> nat list \<Rightarrow> bool" where
  "part_starts pread fd F n ss \<longleftrightarrow> length ss = n \<and> 0 < n \<and> n \<le> length F \<and> ss ! 0 = 0 \<and>
     (\<forall>i. 0 < i \<and> i < n \<longrightarrow> next_from F (window F n i) = Some (ss ! i) \<and> ss ! i + 1 \<in> mail_starts F \<and>
        (\<exists>bs. pread fd MBOX_IO_READ_SIZE (int (window F n i)) = Some bs \<and> ss ! i + 6 \<le> window F n i + length bs)) \<and>
     (\<forall>i. Suc i < n \<and> ss ! i < ss ! Suc i \<longrightarrow>
        (\<forall>y \<in> read_ends pread fd (ss ! i). y \<le> ss ! Suc i \<or> ss ! Suc i + 10 \<le> y))"

definition part_end :: "mboxChar list \<Rightarrow> nat list \<Rightarrow> nat \<Rightarrow> nat" where
  "part_end F ss j = (if Suc j < length ss then ss ! Suc j else length F)"

definition part_ready :: "pread \<Rightarrow> int \<Rightarrow> mboxChar list \<Rightarrow> nat list \<Rightarrow> nat \<Rightarrow> mboxParserCtx \<Rightarrow> bool" where
  "part_ready pread fd F ss j ctx \<longleftrightarrow> sought pread fd F (ss ! j) ctx \<and> io_offset (pc_ioctx ctx) = ss ! j \<and>
     io_end_offset (pc_ioctx ctx) = int (part_end F ss j)"

lemma sought_set_end [simp]: "sought pread fd F s (set_end e ctx) = sought pread fd F s ctx"
  by (simp add: sought_def set_end_def mboxIOSetEndOffset_def at_mail_def)

lemma sought_reset [simp]: "sought pread fd F s (reset_offset ctx) = sought pread fd F s ctx"
  by (simp add: sought_def reset_offset_def mboxIOSetOffset_def at_mail_def)

lemma sought_start: "sought pread fd F s ctx \<Longrightarrow> io_start_offset (pc_ioctx ctx) = int s \<and> s \<le> length F"
  by (auto simp: sought_def at_mail_def)

lemma reset_offset_at: "sought pread fd F s ctx \<Longrightarrow> length F < 2 ^ 60 \<Longrightarrow> io_offset (pc_ioctx (reset_offset ctx)) = s"
  using sought_start [of pread fd F s ctx] by (simp add: reset_offset_def mboxIOSetOffset_def nat_mod_distrib)

lemma set_end_fields [simp]:
  "io_offset (pc_ioctx (set_end e ctx)) = io_offset (pc_ioctx ctx)" "io_end_offset (pc_ioctx (set_end e ctx)) = e"
  "io_start_offset (pc_ioctx (set_end e ctx)) = io_start_offset (pc_ioctx ctx)"
  "io_file_size (pc_ioctx (set_end e ctx)) = io_file_size (pc_ioctx ctx)"
  "io_end_offset (pc_ioctx (reset_offset ctx)) = io_end_offset (pc_ioctx ctx)"
  "io_file_size (pc_ioctx (reset_offset ctx)) = io_file_size (pc_ioctx ctx)"
  by (simp_all add: set_end_def mboxIOSetEndOffset_def reset_offset_def mboxIOSetOffset_def)

lemma set_ends_ready:
  assumes "length ctxs = n" and "length ss = n" and "0 < n" and "length F < 2 ^ 60"
    and "\<forall>j < n. sought pread fd F (ss ! j) (ctxs ! j)" and "io_offset (pc_ioctx (ctxs ! 0)) = ss ! 0"
  shows "\<exists>ctxs'. set_ends ctxs = Inr ctxs' \<and> length ctxs' = n \<and> (\<forall>j < n. part_ready pread fd F ss j (ctxs' ! j))"
proof -
  let ?body = "\<lambda>i ctxs. bindE (list_at ctxs i) (\<lambda>ctx. bindE (list_at ctxs (i - 1)) (\<lambda>ctx_prev.
      Inr (ctxs[i - 1 := set_end (io_start_offset (pc_ioctx ctx)) ctx_prev, i := reset_offset ctx])))"
  let ?P = "\<lambda>i cs. length cs = n \<and> (\<forall>j. Suc j < i \<longrightarrow> part_ready pread fd F ss j (cs ! j)) \<and>
      io_offset (pc_ioctx (cs ! (i - 1))) = ss ! (i - 1) \<and> (\<forall>j < n. sought pread fd F (ss ! j) (cs ! j))"
  have "\<exists>cs. for_range 1 n ?body ctxs = Inr cs \<and> ?P n cs"
  proof (rule for_range_total [where P = ?P])
    fix i cs
    assume i: "1 \<le> i" "i < n" and cs: "?P i cs"
    define d where "d = cs[i - 1 := set_end (int (ss ! i)) (cs ! (i - 1)), i := reset_offset (cs ! i)]"
    have st: "io_start_offset (pc_ioctx (cs ! i)) = int (ss ! i)" using cs i sought_start by blast
    then have "?body i cs = Inr d" using cs i by (simp add: d_def)
    moreover have "?P (Suc i) d"
    proof -
      have e: "part_end F ss (i - 1) = ss ! i" using i assms(2) by (simp add: part_end_def)
      have "part_ready pread fd F ss (i - 1) (d ! (i - 1))" using cs i e by (simp add: part_ready_def d_def)
      moreover have "part_ready pread fd F ss j (d ! j)" if "Suc j < i" for j using cs i that by (simp add: d_def)
      ultimately have "\<forall>j. Suc j < Suc i \<longrightarrow> part_ready pread fd F ss j (d ! j)" using i
        by (metis Suc_lessI Suc_less_eq diff_Suc_1)
      moreover have "\<forall>j < n. sought pread fd F (ss ! j) (d ! j)" using cs i by (auto simp: d_def nth_list_update)
      moreover have "io_offset (pc_ioctx (d ! i)) = ss ! i"
        using cs i reset_offset_at [OF _ assms(4), of pread fd "ss ! i"] by (simp add: d_def)
      ultimately show ?thesis using cs by (simp add: d_def)
    qed
    ultimately show "\<exists>s'. ?body i cs = Inr s' \<and> ?P (Suc i) s'" by blast
  qed (use assms in auto)
  then obtain cs where cs: "for_range 1 n ?body ctxs = Inr cs" "?P n cs" by blast
  define d where "d = cs[n - 1 := reset_offset (set_end (int (length F)) (cs ! (n - 1)))]"
  have last: "sought pread fd F (ss ! (n - 1)) (cs ! (n - 1))" using cs(2) assms(3) by simp
  then have "to_ssize (io_file_size (pc_ioctx (cs ! (n - 1)))) = int (length F)"
    using assms(4) by (simp add: sought_def to_ssize_def Let_def)
  then have "set_ends ctxs = Inr d" using cs assms(1,3) by (simp add: set_ends_def Let_def d_def)
  moreover have "part_ready pread fd F ss j (d ! j)" if "j < n" for j
  proof (cases "j = n - 1")
    case True
    have "part_end F ss (n - 1) = length F" using assms(2,3) by (simp add: part_end_def)
    then show ?thesis
      using True last cs(2) assms(3) reset_offset_at [OF _ assms(4), of pread fd "ss ! (n - 1)" "set_end (int (length F)) (cs ! (n - 1))"]
      by (simp add: d_def part_ready_def)
  next
    case False
    then show ?thesis using that cs(2) by (simp add: d_def)
  qed
  ultimately show ?thesis using cs(2) by (intro exI [of _ d]) (simp add: d_def)
qed

lemma keep_ready:
  assumes "length ctxs = n" and "\<forall>j < n. part_ready pread fd F ss j (ctxs ! j)"
  shows "\<exists>ctxs' k rc. for_range 0 n keep_context (ctxs, 0, rc0) = Inr (ctxs', k, rc) \<and> length ctxs' = n \<and> k \<le> n \<and>
     list_all2 (part_ready pread fd F ss) (filter (\<lambda>j. ss ! j < part_end F ss j) [0..<n]) (take k ctxs')"
proof -
  let ?K = "\<lambda>i. filter (\<lambda>j. ss ! j < part_end F ss j) [0..<i]"
  let ?P = "\<lambda>i (cs, k, rc :: int). length cs = n \<and> k \<le> i \<and> (\<forall>j. i \<le> j \<and> j < n \<longrightarrow> cs ! j = ctxs ! j) \<and>
      list_all2 (part_ready pread fd F ss) (?K i) (take k cs)"
  have "\<exists>st. for_range 0 n keep_context (ctxs, 0, rc0) = Inr st \<and> ?P n st"
  proof (rule for_range_total [where P = ?P])
    fix i st
    assume i: "0 \<le> i" "i < n" and P: "?P i st"
    obtain cs k rc where st: "st = (cs, k, rc)" by (cases st) auto
    have cs: "length cs = n" "k \<le> i" "\<forall>j. i \<le> j \<and> j < n \<longrightarrow> cs ! j = ctxs ! j"
      "list_all2 (part_ready pread fd F ss) (?K i) (take k cs)" using P by (auto simp: st)
    have r: "part_ready pread fd F ss i (cs ! i)" using cs(3) assms(2) i by simp
    then have d: "io_end_offset (pc_ioctx (cs ! i)) - io_start_offset (pc_ioctx (cs ! i)) = int (part_end F ss i) - int (ss ! i)"
      by (simp add: part_ready_def sought_def)
    show "\<exists>st'. keep_context i st = Inr st' \<and> ?P (Suc i) st'"
    proof (cases "ss ! i < part_end F ss i")
      case True
      let ?c = "(cs ! i)\<lparr>pc_id := to_int k\<rparr>"
      let ?cs = "cs[i := ?c, k := ?c]"
      have "keep_context i st = Inr (?cs, Suc k, rc + 1)"
        using True d cs(1) i by (simp add: keep_context_def st Let_def)
      moreover have "take (Suc k) ?cs = take k cs @ [?c]"
        using cs(1,2) i by (simp add: take_Suc_conv_app_nth)
      moreover have "part_ready pread fd F ss i ?c" using r by (simp add: part_ready_def sought_def)
      ultimately show ?thesis using cs True i
        by (intro exI [of _ "(?cs, Suc k, rc + 1)"]) (simp add: list_all2_appendI)
    next
      case False
      then have "keep_context i st = Inr st" using d cs(1) i by (simp add: keep_context_def st)
      then show ?thesis using cs False by (simp add: st)
    qed
  qed (use assms in auto)
  then show ?thesis by auto
qed

lemma map_each_all2:
  "list_all2 Q js xs \<Longrightarrow> (\<And>j x. j \<in> set js \<Longrightarrow> Q j x \<Longrightarrow> \<exists>r. f x = Inr r \<and> P j r) \<Longrightarrow>
   \<exists>rs. map_each f xs = Inr rs \<and> list_all2 P js rs"
proof (induction rule: list_all2_induct)
  case (Cons j js x xs)
  then obtain r where "f x = Inr r" "P j r" by fastforce
  moreover obtain rs where "map_each f xs = Inr rs" "list_all2 P js rs" using Cons by fastforce
  ultimately show ?case by simp
qed simp

lemma new_context_fields:
  assumes "i * chunk < 2 ^ 60" and "mb_file_size m = sz"
  shows "pc_ioctx (new_context m raw chunk i) = (mboxIONew (mb_readfd m) sz)
      \<lparr>io_offset := i * chunk, io_start_offset := int (i * chunk), io_file_offset := int (i * chunk)\<rparr> \<and>
    pc_err (new_context m raw chunk i) = MBOX_IO_OK"
proof -
  define x where "x = i * chunk"
  have "to_ssize x = int x" "nat (int x mod 2 ^ 64) = x"
    using assms(1) by (simp_all add: x_def [symmetric] to_ssize_def Let_def nat_mod_distrib)
  then show ?thesis
    unfolding x_def [symmetric]
    using assms(2)
    by (simp add: new_context_def mboxParserCtxInit_def mboxIONew_def Let_def mboxIOSetFd_def
        mboxIOSetStartOffset_def mboxIOSetOffset_def mboxIOSetFileOffset_def mboxIOSetFileSize_def flip: x_def)
qed

lemma new_context_0:
  "mb_file_size m = sz \<Longrightarrow> new_context m raw chunk 0 = mboxParserCtxNew (raw 0) 0 (mb_readfd m) sz"
  by (simp add: new_context_def mboxParserCtxNew_def mboxParserCtxInit_def mboxIONew_def to_ssize_def Let_def
      mboxIOSetFd_def mboxIOSetStartOffset_def mboxIOSetOffset_def mboxIOSetFileOffset_def mboxIOSetFileSize_def)

lemma set_offsets_parts:
  assumes "mail_file pread (mb_readfd m) F" and "take 5 F = ''From ''"
    and "pread (mb_readfd m) MBOX_IO_READ_SIZE 0 = Some bs" and "5 \<le> length bs" and "0 < fuel"
    and "mb_io_pool m = Some n" and "mb_file_size m = length F" and "part_starts pread (mb_readfd m) F n ss"
    and "\<forall>s \<in> set ss. blank_lines_whole pread (mb_readfd m) F s"
  shows "\<exists>ctxs k rc. mboxSetAllOffsets pread fuel raw m =
       Inr (m\<lparr>mb_contexts := ctxs, mb_read_refcount := rc, mb_context_len := Some k\<rparr>) \<and> k \<le> length ctxs \<and>
     list_all2 (part_ready pread (mb_readfd m) F ss) (filter (\<lambda>j. ss ! j < part_end F ss j) [0..<n]) (take k ctxs)"
proof -
  let ?c = "length F div n" and ?fd = "mb_readfd m"
  have len: "length F < 2 ^ 60" using assms(1) by (simp add: mail_file_def)
  have ss: "length ss = n" "0 < n" "ss ! 0 = 0" "n \<le> length F" using assms(8) by (auto simp: part_starts_def)
  have c: "0 < ?c" using ss(2,4) by (simp add: div_greater_zero_iff)
  have ic: "i * ?c < 2 ^ 60" if "i < n" for i
    using that len by (metis div_times_less_eq_dividend le_less_trans less_imp_le_nat mult.commute mult_le_mono1)
  have blank: "blank_lines_whole pread ?fd F (ss ! i)" if "i < n" for i using assms(9) ss(1) that by simp
  then have whole: "blank_lines_whole pread ?fd F 0" using ss(2,3) by metis
  have seek: "\<exists>ctx. mboxParserCtxSeekStartCallback pread fuel (new_context m raw ?c i) = Inr ctx \<and>
      sought pread ?fd F (ss ! i) ctx \<and> (i = 0 \<longrightarrow> io_offset (pc_ioctx ctx) = 0)" if i: "i < n" for i
  proof (cases "i = 0")
    case True
    obtain ctx where "mboxParserCtxSeekStart pread fuel (mboxParserCtxNew (raw 0) 0 ?fd (length F)) = Inr ctx"
      "pc_err ctx = MBOX_IO_OK" "io_fd (pc_ioctx ctx) = ?fd" "io_start_offset (pc_ioctx ctx) = 0"
      "io_offset (pc_ioctx ctx) = 0" "io_file_size (pc_ioctx ctx) = length F"
      "at_mail pread F 0 ((pc_ioctx ctx)\<lparr>io_end_offset := 0\<rparr>)" "io_file_offset (pc_ioctx ctx) = 0"
      by (rule seek_start_first [where pread = pread and fuel = fuel and raw = "raw 0" and id' = 0 and e = 0,
            OF assms(1-4) _ whole]) (use assms(5) in auto)
    then show ?thesis
      using True ss(3) new_context_0 [OF assms(7)]
      by (simp add: mboxParserCtxSeekStartCallback_def sought_def at_mail_def)
  next
    case False
    then obtain bs' where w: "next_from F (window F n i) = Some (ss ! i)"
      "pread ?fd MBOX_IO_READ_SIZE (int (window F n i)) = Some bs'" "ss ! i + 6 \<le> window F n i + length bs'"
      using assms(8) i by (auto simp: part_starts_def)
    have "0 < i * ?c" using False c by simp
    then have "\<exists>ctx. mboxParserCtxSeekStart pread fuel (new_context m raw ?c i) = Inr ctx \<and> sought pread ?fd F (ss ! i) ctx"
      using new_context_fields [OF ic [OF i] assms(7), of raw]
      by (intro seek_start_window [OF assms(1) w [unfolded window_def] _ assms(5) _ _ blank [OF i]]) auto
    then show ?thesis using False by (auto simp: mboxParserCtxSeekStartCallback_def)
  qed
  have "\<exists>cs. map_each (mboxParserCtxSeekStartCallback pread fuel) (map (new_context m raw ?c) [0..<n]) = Inr cs \<and>
      list_all2 (\<lambda>i ctx. sought pread ?fd F (ss ! i) ctx \<and> (i = 0 \<longrightarrow> io_offset (pc_ioctx ctx) = 0)) [0..<n] cs"
    by (rule map_each_all2 [where Q = "\<lambda>i c. c = new_context m raw ?c i"])
      (use seek in \<open>auto simp: list_all2_conv_all_nth\<close>)
  then obtain cs where cs: "map_each (mboxParserCtxSeekStartCallback pread fuel) (map (new_context m raw ?c) [0..<n]) = Inr cs"
    "length cs = n" "\<And>i. i < n \<Longrightarrow> sought pread ?fd F (ss ! i) (cs ! i) \<and> (i = 0 \<longrightarrow> io_offset (pc_ioctx (cs ! i)) = 0)"
    by (auto simp: list_all2_conv_all_nth)
  obtain ds where ds: "set_ends cs = Inr ds" "length ds = n" "\<forall>j < n. part_ready pread ?fd F ss j (ds ! j)"
    using set_ends_ready [OF cs(2) ss(1,2) len, of pread ?fd] cs(3) ss(2,3) by auto
  obtain es k rc where es: "for_range 0 n keep_context (ds, 0, mb_read_refcount m) = Inr (es, k, rc)" "length es = n" "k \<le> n"
     "list_all2 (part_ready pread ?fd F ss) (filter (\<lambda>j. ss ! j < part_end F ss j) [0..<n]) (take k es)"
    using keep_ready [OF ds(2,3)] by blast
  have "mboxSetAllOffsets pread fuel raw m =
      Inr (m\<lparr>mb_contexts := es, mb_read_refcount := rc, mb_context_len := Some k\<rparr>)"
    using ss(2) by (simp add: mboxSetAllOffsets_def assms(6,7) Let_def cs(1) ds(1) es(1) del: for_range_step)
  then show ?thesis using es by blast
qed

section \<open>The messages of the parts\<close>

lemma msg_pieces_append: "msg_pieces S p (ts @ us) = msg_pieces S p ts @ msg_pieces S (p + length (concat ts)) us"
  by (induction ts arbitrary: p) (simp_all add: add.assoc)

lemma msg_pieces_same:
  "\<forall>x \<in> S. x + 1 < p \<or> p + length (concat ts) \<le> x + 1 \<Longrightarrow> \<forall>t \<in> set ts. t \<noteq> [] \<Longrightarrow> msg_pieces S p ts = msg_pieces {} p ts"
proof (induction ts arbitrary: p)
  case (Cons t ts)
  have "t \<noteq> []" using Cons.prems(2) by simp
  then have "p - 1 \<notin> S \<or> p = 0" using Cons.prems(1) by (cases t) force+
  moreover have "msg_pieces S (p + length t) ts = msg_pieces {} (p + length t) ts"
    using Cons.prems by (intro Cons.IH) force+
  ultimately show ?case by auto
qed simp

lemma laid_part:
  assumes "laid s ((LF # t) # ts) ms" and "s \<in> S" and "\<forall>x \<in> S. x \<le> s \<or> s + 1 + length (concat (t # ts)) \<le> x + 1"
    and "\<forall>u \<in> set (t # ts). u \<noteq> []"
  shows "list_all2 msg_of (msg_pieces S (s + 1) (t # ts)) ms"
proof -
  obtain msg rest where ms: "ms = msg # rest" using assms(1) by (cases ms) auto
  let ?p = "s + 1 + length t"
  have "list_all2 msg_of (msg_pieces {} ?p ts) rest" using assms(1) laid_msg_pieces by (simp add: ms)
  moreover have "msg_pieces S ?p ts = msg_pieces {} ?p ts"
  proof (rule msg_pieces_same)
    have "0 < length t" using assms(4) by simp
    moreover have "s + 1 + length (concat (t # ts)) = ?p + length (concat ts)" by simp
    ultimately show "\<forall>x \<in> S. x + 1 < ?p \<or> ?p + length (concat ts) \<le> x + 1"
      using assms(3) by (metis add_less_cancel_right le_eq_less_or_eq less_add_same_cancel1 order_less_trans trans_less_add1)
  qed (use assms(4) in simp)
  moreover have "msg_of (t, s, ?p) msg"
    using assms(1) by (auto simp: ms msg_of_def isLine_def intro!: exI [of _ "[LF]"])
  ultimately show ?thesis using assms(2) by (simp add: ms)
qed

text \<open>Where the messages of a part begin in the file, and which they are.\<close>

definition cut_at :: "nat list \<Rightarrow> nat \<Rightarrow> nat" where
  "cut_at ss j = (if j = 0 then 0 else ss ! j + 1)"

definition split_at :: "mboxChar list \<Rightarrow> nat list \<Rightarrow> (nat \<Rightarrow> mboxChar list list) \<Rightarrow> bool" where
  "split_at F ss T \<longleftrightarrow> (\<forall>j. Suc j < length ss \<longrightarrow>
     mails (drop (cut_at ss j) F) = T j @ mails (drop (cut_at ss (Suc j)) F) \<and>
     cut_at ss j + length (concat (T j)) = cut_at ss (Suc j)) \<and>
   T (length ss - 1) = mails (drop (cut_at ss (length ss - 1)) F)"

lemma part_startsD:
  assumes "part_starts pread fd F n ss"
  shows "length ss = n" and "0 < n" and "ss ! 0 = 0"
    and "0 < i \<Longrightarrow> i < n \<Longrightarrow> next_from F (window F n i) = Some (ss ! i) \<and> ss ! i + 1 \<in> mail_starts F"
    and "Suc i < n \<Longrightarrow> ss ! i < ss ! Suc i \<Longrightarrow> y \<in> read_ends pread fd (ss ! i) \<Longrightarrow> y \<le> ss ! Suc i \<or> ss ! Suc i + 10 \<le> y"
  using assms by (auto simp: part_starts_def)

lemma part_starts_mono:
  assumes "part_starts pread fd F n ss" and "i \<le> j" and "j < n"
  shows "ss ! i \<le> ss ! j"
proof (cases "i = 0")
  case False
  then have "next_from F (window F n i) = Some (ss ! i)" "next_from F (window F n j) = Some (ss ! j)"
    using part_startsD(4) [OF assms(1)] assms(2,3) by auto
  moreover have "window F n i \<le> window F n j" using assms(2) by (simp add: window_def diff_le_mono)
  ultimately show ?thesis by (rule next_from_mono)
qed (use part_startsD(3) [OF assms(1)] in simp)

lemma part_starts_at:
  assumes "part_starts pread fd F n ss" and "take 5 F = ''From ''" and "0 < j" and "j < n"
  shows "0 < ss ! j" and "take 5 (drop (ss ! j + 1) F) = ''From ''" and "drop (ss ! j) F = LF # drop (ss ! j + 1) F"
    and "cut F (ss ! j + 1)" and "mails (drop (ss ! j + 1) F) \<noteq> []"
proof -
  note p = part_startsD(4) [OF assms(1,3,4)]
  note nb = next_from_bounds [OF conjunct1 [OF p]]
  have d: "drop (ss ! j) F = F ! (ss ! j) # drop (ss ! j + 1) F" using nb by (simp add: Cons_nth_drop_Suc)
  then show "take 5 (drop (ss ! j + 1) F) = ''From ''" "drop (ss ! j) F = LF # drop (ss ! j + 1) F"
    using nb by (simp_all add: eval_nat_numeral)
  show "0 < ss ! j" using nb assms(2) by (cases "ss ! j"; cases F) auto
  show "cut F (ss ! j + 1)" "mails (drop (ss ! j + 1) F) \<noteq> []"
    using mail_starts_cut [of "ss ! j + 1" F] p by auto
qed

lemma cut_at_cut:
  assumes "part_starts pread fd F n ss" and "take 5 F = ''From ''" and "j < n"
  shows "cut F (cut_at ss j) \<and> take 5 (drop (cut_at ss j) F) = ''From ''"
  using part_starts_at(2,4) [OF assms(1,2) _ assms(3)] assms(2) by (cases "j = 0") (simp_all add: cut_at_def)

lemma split_exists:
  assumes "part_starts pread fd F n ss" and "take 5 F = ''From ''"
  obtains T where "split_at F ss T"
proof -
  note len = part_startsD(1) [OF assms(1)]
  have "\<exists>ts. mails (drop (cut_at ss j) F) = ts @ mails (drop (cut_at ss (Suc j)) F) \<and>
      cut_at ss j + length (concat ts) = cut_at ss (Suc j)" if "Suc j < n" for j
  proof (rule cuts_between [OF assms(2)])
    show "cut_at ss j \<le> cut_at ss (Suc j)"
      using part_starts_mono [OF assms(1), of j "Suc j"] that by (simp add: cut_at_def)
  qed (use cut_at_cut [OF assms] that in auto)
  then obtain T where "\<forall>j. Suc j < n \<longrightarrow> mails (drop (cut_at ss j) F) = T j @ mails (drop (cut_at ss (Suc j)) F) \<and>
      cut_at ss j + length (concat (T j)) = cut_at ss (Suc j)" by metis
  then have "split_at F ss (\<lambda>j. if Suc j < n then T j else mails (drop (cut_at ss j) F))"
    using part_startsD(2) [OF assms(1)] by (simp add: split_at_def len)
  then show thesis by (rule that)
qed

lemma split_pieces:
  assumes "split_at F ss T" and "ss \<noteq> []"
  shows "concat (map (\<lambda>j. msg_pieces S (cut_at ss j) (T j)) [0..<length ss]) = msg_pieces S 0 (mails F)"
proof -
  let ?PP = "\<lambda>j. msg_pieces S (cut_at ss j) (T j)"
  have "msg_pieces S 0 (mails F) = concat (map ?PP [0..<j]) @ msg_pieces S (cut_at ss j) (mails (drop (cut_at ss j) F))"
    if "j < length ss" for j
    using that
  proof (induction j)
    case 0
    then show ?case by (simp add: cut_at_def)
  next
    case (Suc j)
    then have "mails (drop (cut_at ss j) F) = T j @ mails (drop (cut_at ss (Suc j)) F)"
      "cut_at ss j + length (concat (T j)) = cut_at ss (Suc j)"
      using assms(1) by (auto simp: split_at_def)
    then show ?case using Suc by (simp add: msg_pieces_append)
  qed
  from this [of "length ss - 1"] show ?thesis
    using assms by (cases "length ss") (auto simp: split_at_def)
qed

lemma mails_nonempty:
  assumes "take 5 R = ''From ''" and "t \<in> set (mails R)"
  shows "t \<noteq> []"
  using mails_content [OF assms(1)] assms(2) by fastforce

text \<open>One part, read by its thread.\<close>

lemma part_read:
  assumes "part_starts pread fd F n ss" and "take 5 F = ''From ''" and "split_at F ss T"
    and "mail_file pread fd F" and "room_at_end F" and "3 * length F + 1 < fuel"
    and "j < n" and "ss ! j < part_end F ss j" and "part_ready pread fd F ss j ctx"
  shows "\<exists>r. mboxParserCtxGetNextMessageCallback pread fuel ctx = Inr r \<and>
     list_all2 msg_of (msg_pieces (set (tl ss)) (cut_at ss j) (T j)) (fst r)"
proof -
  let ?S = "set (tl ss)" and ?s = "ss ! j" and ?c = "cut_at ss j"
  note len = part_startsD(1) [OF assms(1)] and mono = part_starts_mono [OF assms(1)]
  have F60: "length F < 2 ^ 60" using assms(4) by (simp add: mail_file_def)
  have S: "\<exists>i. 0 < i \<and> i < n \<and> x = ss ! i" if x: "x \<in> ?S" for x
  proof -
    obtain i where "i < length (tl ss)" "x = tl ss ! i" using x by (auto simp: in_set_conv_nth)
    then show ?thesis using len by (intro exI [of _ "Suc i"]) (auto simp: nth_tl)
  qed
  have sj: "j \<noteq> 0 \<Longrightarrow> ?s \<in> ?S" using assms(7) len nth_tl [of "j - 1" ss] by (force simp: in_set_conv_nth)
  have io: "at_mail pread F ?s (pc_ioctx ctx)" "io_fd (pc_ioctx ctx) = fd" "pc_err ctx \<noteq> MBOX_PARSE_DONE"
    "io_end_offset (pc_ioctx ctx) = int (part_end F ss j)"
    using assms(9) by (auto simp: part_ready_def sought_def at_mail_def MBOX_PARSE_DONE_def MBOX_IO_OK_def)
  have fl: "mail_file pread (io_fd (pc_ioctx ctx)) F" using assms(4) io(2) by simp
  have fu: "enough F + (length F - ?s) < fuel" using assms(6) by (simp add: enough_def)
  define ts where "ts = T j"
  define us where "us = (if Suc j < n then mails (drop (cut_at ss (Suc j)) F) else [])"
  have tsus: "mails (drop ?c F) = ts @ us"
  proof (cases "Suc j < n")
    case False
    then have "j = length ss - 1" using assms(7) len by simp
    then show ?thesis using assms(3) False by (simp add: split_at_def ts_def us_def)
  qed (use assms(3) len in \<open>simp add: split_at_def ts_def us_def\<close>)
  have lts: "?c + length (concat ts) = part_end F ss j + 1" if "Suc j < n"
    using that assms(3) len by (auto simp: split_at_def ts_def part_end_def cut_at_def)
  have ne: "\<forall>t \<in> set ts. t \<noteq> []"
    using mails_nonempty [of "drop ?c F"] cut_at_cut [OF assms(1,2,7)] tsus by auto
  define X where "X = (if j = 0 then ts else (LF # hd ts) # tl ts)"
  have tne: "ts \<noteq> []" if "j \<noteq> 0 \<or> Suc j < n"
  proof (cases "Suc j < n")
    case True
    then show ?thesis using lts assms(8) by (auto simp: cut_at_def split: if_splits)
  next
    case False
    then show ?thesis
      using that tsus part_starts_at(5) [OF assms(1,2) _ assms(7)] by (auto simp: us_def cut_at_def)
  qed
  have mX: "mails (drop ?s F) = X @ us"
  proof (cases "j = 0")
    case True
    then show ?thesis using tsus part_startsD(3) [OF assms(1)] by (simp add: X_def cut_at_def)
  next
    case False
    then have "mails (drop ?s F) = mails (LF # drop ?c F)"
      using part_starts_at(3) [OF assms(1,2) _ assms(7)] by (simp add: cut_at_def)
    moreover have "take 5 (drop ?c F) = ''From ''" using cut_at_cut [OF assms(1,2,7)] by simp
    ultimately show ?thesis using False tsus tne by (cases ts) (simp_all add: mails_LF X_def)
  qed
  have lX: "?s + length (concat X) = ?c + length (concat ts)"
    using tne part_startsD(3) [OF assms(1)] by (cases ts) (auto simp: X_def cut_at_def)
  obtain ms ctx' where cb: "mboxParserCtxGetNextMessageCallback pread fuel ctx = Inr (ms, ctx')" "laid ?s X ms"
  proof (cases "Suc j < n")
    case True
    have "X \<noteq> []" using tne True by (simp add: X_def)
    moreover have "us \<noteq> []" using part_starts_at(5) [OF assms(1,2) _ True] True by (simp add: us_def cut_at_def)
    moreover have "io_end_offset (pc_ioctx ctx) = int (?s + length (concat X)) - 1"
      using lX lts [OF True] io(4) by linarith
    moreover have "reads_clear pread (pc_ioctx ctx)"
    proof -
      have "io_file_offset (pc_ioctx ctx) = int ?s"
        using assms(9) by (simp add: part_ready_def sought_def)
      then show ?thesis
        using part_startsD(5) [OF assms(1) True] assms(8) io(2,4) True len
        by (force simp: reads_clear_def part_end_def)
    qed
    ultimately show ?thesis
      using that Callback_part [OF io(1) fl assms(5) mX _ _ _ io(3) _ fu] by blast
  next
    case False
    then have "us = []" "int (length F) \<le> io_end_offset (pc_ioctx ctx)" "io_end_offset (pc_ioctx ctx) < 2 ^ 62"
      using io(4) len F60 by (simp_all add: us_def part_end_def)
    then show ?thesis using that Callback_mails [OF io(1) fl assms(5) _ _ io(3) fu] mX by auto
  qed
  have later: "\<forall>x \<in> ?S. x \<le> ?s \<or> ?c + length (concat ts) \<le> x + 1"
  proof
    fix x assume "x \<in> ?S"
    then obtain i where i: "i < n" "x = ss ! i" using S by blast
    show "x \<le> ?s \<or> ?c + length (concat ts) \<le> x + 1"
    proof (cases "i \<le> j")
      case True
      then show ?thesis using mono [OF True assms(7)] i by simp
    next
      case False
      then have "Suc j < n" "ss ! Suc j \<le> x" using mono [of "Suc j" i] i by auto
      then show ?thesis using lts len by (simp add: part_end_def)
    qed
  qed
  have "list_all2 msg_of (msg_pieces ?S ?c ts) ms"
  proof (cases "j = 0")
    case True
    have "\<forall>x \<in> ?S. x + 1 < 0 \<or> 0 + length (concat ts) \<le> x + 1"
    proof
      fix x assume x: "x \<in> ?S"
      then obtain i where "0 < i" "i < n" "x = ss ! i" using S by blast
      then have "0 < x" using part_starts_at(1) [OF assms(1,2)] by simp
      moreover have "x \<le> ?s \<or> ?c + length (concat ts) \<le> x + 1" using later x by blast
      ultimately show "x + 1 < 0 \<or> 0 + length (concat ts) \<le> x + 1"
        using part_startsD(3) [OF assms(1)] True by (simp add: cut_at_def)
    qed
    then have "msg_pieces ?S 0 ts = msg_pieces {} 0 ts" using ne by (rule msg_pieces_same)
    then show ?thesis using cb(2) laid_msg_pieces [of 0 ts ms] part_startsD(3) [OF assms(1)] True
      by (simp add: X_def cut_at_def)
  next
    case False
    then obtain t ts' where ts: "ts = t # ts'" using tne by (cases ts) auto
    then show ?thesis
      using laid_part [of ?s t ts' ms ?S] cb(2) later sj ne False by (simp add: X_def cut_at_def)
  qed
  then show ?thesis using cb(1) by (simp add: ts_def)
qed

lemma part_empty:
  assumes "part_starts pread fd F n ss" and "take 5 F = ''From ''" and "split_at F ss T"
    and "j < n" and "\<not> ss ! j < part_end F ss j"
  shows "T j = []"
proof (cases "Suc j < n")
  case True
  note len = part_startsD(1) [OF assms(1)]
  have eq: "ss ! j = ss ! Suc j"
    using part_starts_mono [OF assms(1), of j "Suc j"] True assms(5) len by (simp add: part_end_def)
  then have "j \<noteq> 0" using part_starts_at(1) [OF assms(1,2), of "Suc j"] True part_startsD(3) [OF assms(1)] by (cases j) auto
  then have "length (concat (T j)) = 0" and m: "mails (drop (cut_at ss j) F) = T j @ mails (drop (cut_at ss (Suc j)) F)"
    using assms(3) True len eq by (auto simp: split_at_def cut_at_def)
  moreover have "\<forall>t \<in> set (T j). t \<noteq> []"
    using mails_nonempty [of "drop (cut_at ss j) F"] cut_at_cut [OF assms(1,2,4)] m by auto
  ultimately show ?thesis by (cases "T j") auto
next
  case False
  have "ss ! j < length F"
  proof (cases "j = 0")
    case True
    then show ?thesis using part_startsD(3) [OF assms(1)] assms(2) by (cases F) auto
  next
    case False
    then show ?thesis using part_startsD(4) [OF assms(1) _ assms(4)] next_from_bounds by fastforce
  qed
  then show ?thesis using assms(5) False part_startsD(1) [OF assms(1)] by (simp add: part_end_def)
qed

lemma concat_parts:
  "list_all2 (\<lambda>j r. list_all2 msg_of (P j) (fst r)) js rs \<Longrightarrow>
   list_all2 msg_of (concat (map P js)) (concat (map fst rs))"
  by (induction rule: list_all2_induct) (auto intro: list_all2_appendI)

lemma concat_filter: "(\<And>j. j \<in> set js \<Longrightarrow> \<not> K j \<Longrightarrow> P j = []) \<Longrightarrow> concat (map P (filter K js)) = concat (map P js)"
  by (induction js) auto

text \<open>What is related to a list is related to every reordering of it, when it is reordered as well.\<close>

lemma list_all2_reordered:
  "list_all2 R xs ys \<Longrightarrow> mset ys' = mset ys \<Longrightarrow> \<exists>xs'. list_all2 R xs' ys' \<and> mset xs' = mset xs"
proof (induction ys' arbitrary: xs ys)
  case (Cons y ys')
  then have "y \<in> set ys" by (metis list.set_intros(1) set_mset_mset)
  then obtain a b where ys: "ys = a @ y # b" by (metis split_list)
  then obtain a' x b' where xs: "xs = a' @ x # b'" "list_all2 R a' a" "R x y" "list_all2 R b' b"
    using Cons.prems(1) by (auto simp: list_all2_append2 list_all2_Cons2)
  have "mset ys' = mset (a @ b)" using Cons.prems(2) by (simp add: ys)
  then obtain zs where "list_all2 R zs ys'" "mset zs = mset (a' @ b')"
    using Cons.IH [of "a' @ b'" "a @ b"] xs(2,4) by (auto intro: list_all2_appendI)
  then show ?case using xs(1,3) by (intro exI [of _ "x # zs"]) simp
qed simp

section \<open>Properties\<close>

text \<open>
  C1. A mailbox that is read in parts by several threads and parsed by several others gives a list
  of the summaries of all its messages, each once, whatever order the jobs of the parse pool end
  in; when they end in the order of the file, so is the list. Each summary has the offsets of its
  message, only that the first message of a part starts at the line break before it, which the
  message before it has as well, and the last message ends at its first line break of the last ten bytes.
  Half of the threads read, and there is one part for each; the theorem is about the mailboxes and the
  reads for which

  \<^item> the file has no zero byte and is a sequence of messages that begin with \<open>From \<close>, the last with a body
    of ten bytes or more (\<open>mailbox\<close>),
  \<^item> each message has headers that end well, a body of 420 bytes or more, and a date, where it has one, that
    the parser of dates takes (\<open>readable\<close>),
  \<^item> the first read returns five bytes or more, and no read ends between the carriage return and the
    line break of an empty line (\<open>blank_lines_whole\<close>),
  \<^item> each part but the first starts at a message which the one read made for it finds, and no read of a part
    ends within the ten bytes behind its end (\<open>part_starts\<close>).

  What happens outside of these is a property of its own: a read that ends right behind a part or in an
  empty line loses the message, a short body is read out of bounds, fewer than two threads parse nothing.
\<close>

theorem mboxParse_lists_parts:
  assumes "mailbox ts rs" and "F = concat ts" and "mail_file pread (mb_readfd m) F"
    and "pread (mb_readfd m) MBOX_IO_READ_SIZE 0 = Some bs" and "5 \<le> length bs" and "3 * length F + 1 < fuel"
    and "mb_file_size m = length F" and "part_starts pread (mb_readfd m) F (thread_count div 2) ss"
    and "thread_count < 2 ^ 31" and "\<forall>mss. mset (order mss) = mset (concat mss)"
    and "\<forall>t \<in> set rs. readable mktime t"
    and "fresh_ok (ph_msgs hs)" and "0 < rh_fresh (ph_headers hs)"
    and "\<forall>s \<in> set ss. blank_lines_whole pread (mb_readfd m) F s"
  shows "\<exists>l hs' m' pcs lites. mboxParse mktime pread fuel raw order hs m thread_count = Inr (l, hs', m') \<and>
     Mbox_List.holds (ph_msgs hs') l (map Some lites) \<and> list_all2 lite_of pcs lites \<and>
     mset pcs = mset (msg_pieces (set (tl ss)) 0 rs) \<and>
     (order = concat \<longrightarrow> pcs = msg_pieces (set (tl ss)) 0 rs)"
proof -
  have F: "mail_file pread (mb_readfd m) F" by (rule assms(3))
  have box: "room_at_end F" "take 5 F = ''From ''" "mails F = rs"
    using mailbox_room [OF assms(1)] mailbox_start [OF assms(1)] mails_mailbox [OF assms(1)] assms(2) by simp_all
  define n where "n = thread_count div 2"
  define m1 where "m1 = mboxParserInit m thread_count"
  define K where "K = (\<lambda>j. ss ! j < part_end F ss j)"
  let ?fd = "mb_readfd m" and ?S = "set (tl ss)"
  note ps = assms(8) [folded n_def]
  note len = part_startsD(1) [OF ps] and n0 = part_startsD(2) [OF ps]
  have F60: "length F < 2 ^ 60" using F by (simp add: mail_file_def)
  have "thread_count \<noteq> 0" "n < 2 ^ 31" using n0 assms(9) by (auto simp: n_def)
  then have m1: "mb_readfd m1 = ?fd" "mb_file_size m1 = length F" "mb_io_pool m1 = Some n"
    "mb_completed_parse m1 = Some mboxListNew"
    using assms(7) by (simp_all add: m1_def mboxParserInit_def Let_def to_int_def n_def [symmetric])
  obtain ctxs k rc where s: "mboxSetAllOffsets pread fuel raw m1 =
       Inr (m1\<lparr>mb_contexts := ctxs, mb_read_refcount := rc, mb_context_len := Some k\<rparr>)" "k \<le> length ctxs"
     "list_all2 (part_ready pread ?fd F ss) (filter K [0..<n]) (take k ctxs)"
    using set_offsets_parts [of pread m1 F bs fuel n ss raw] F box(2) assms(4-6,14) ps m1(1-3) by (auto simp: K_def)
  obtain T where T: "split_at F ss T" by (rule split_exists [OF ps box(2)])
  define P where "P = (\<lambda>j. msg_pieces ?S (cut_at ss j) (T j))"
  have "\<exists>rs. map_each (mboxParserCtxGetNextMessageCallback pread fuel) (take k ctxs) = Inr rs \<and>
      list_all2 (\<lambda>j r. list_all2 msg_of (P j) (fst r)) (filter K [0..<n]) rs"
    by (rule map_each_all2 [OF s(3)])
      (use part_read [OF ps box(2) T F box(1) assms(6)] in \<open>auto simp: K_def P_def\<close>)
  then obtain rs where rs: "map_each (mboxParserCtxGetNextMessageCallback pread fuel) (take k ctxs) = Inr rs"
    "list_all2 (\<lambda>j r. list_all2 msg_of (P j) (fst r)) (filter K [0..<n]) rs" by blast
  have "concat (map P (filter K [0..<n])) = concat (map P [0..<length ss])"
    unfolding len using part_empty [OF ps box(2) T] by (intro concat_filter) (simp add: K_def P_def)
  also have "\<dots> = msg_pieces ?S 0 (mails F)"
    unfolding P_def using split_pieces [OF T] len n0 by auto
  finally have "list_all2 msg_of (msg_pieces ?S 0 (mails F)) (concat (map fst rs))"
    using concat_parts [OF rs(2)] by simp
  then have "\<exists>pcs. list_all2 msg_of pcs (order (map fst rs)) \<and> mset pcs = mset (msg_pieces ?S 0 (mails F)) \<and>
      (order = concat \<longrightarrow> pcs = msg_pieces ?S 0 (mails F))"
    using list_all2_reordered [OF _ assms(10) [rule_format], of msg_of _ "map fst rs"]
    by (cases "order = concat") blast+
  then obtain pcs where pcs: "list_all2 msg_of pcs (order (map fst rs))" "mset pcs = mset (msg_pieces ?S 0 (mails F))"
      "order = concat \<longrightarrow> pcs = msg_pieces ?S 0 (mails F)"
    by blast
  have "length pcs = length (mails F)" using pcs(2) by (metis length_msg_pieces size_mset)
  then have bounds: "length (concat (mails F)) < 2 ^ 63"
    "length ([] :: mboxMsgLite void_ptr list) + length pcs < SIZE_MOD - 1"
    using mails_length [OF box(2)] F60 by simp_all
  have good: "\<forall>(t, a, b) \<in> set pcs. readable mktime t \<and> a < 2 ^ 63 \<and> b < 2 ^ 63"
    using msg_pieces_bounds [of _ _ _ ?S 0 "mails F"] assms(11) box(3) bounds(1) mset_eq_setD [OF pcs(2)] by fastforce
  have "list_rep (ph_msgs hs) mboxListNew []" using assms(12) mboxListNew_rep by (simp add: fresh_ok_def)
  then have new: "Mbox_List.holds (ph_msgs hs) mboxListNew []" "\<not> l_locked mboxListNew"
    by (auto simp: Mbox_List.holds_def mboxListNew_def)
  let ?m2 = "m1\<lparr>mb_read_refcount := rc, mb_context_len := Some k,
      mb_contexts := map snd rs @ drop k ctxs\<rparr>"
  obtain hs' m' l lites where r: "run_parse_jobs mktime hs ?m2 (order (map fst rs)) = Inr (hs', m')"
     "mb_completed_parse m' = Some l" "Mbox_List.holds (ph_msgs hs') l ([] @ map Some lites)" "list_all2 lite_of pcs lites"
    using run_parse_jobs_ok [OF pcs(1) good _ new bounds(2) assms(13), of ?m2] m1(4) by auto
  have "mboxMain mktime pread fuel raw order hs m1 = Inr (hs', m')"
    using s(1,2) rs(1) r(1) by (simp add: mboxMain_def mboxParseAllMessages_def)
  then have "mboxParse mktime pread fuel raw order hs m thread_count =
      Inr (mboxListSetFreedata l True, hs', m'\<lparr>mb_completed_parse := Some (mboxListSetFreedata l True)\<rparr>)"
    using r(2) by (simp add: mboxParse_def m1_def Let_def)
  moreover have "Mbox_List.holds (ph_msgs hs') (mboxListSetFreedata l True) (map Some lites)"
    using r(3) by (simp add: Mbox_List.holds_def list_rep_def mboxListSetFreedata_def)
  ultimately show ?thesis using r(4) pcs(2,3) box(3) by blast
qed

text \<open>A mailbox of two messages.\<close>

definition two_long_mails :: "mboxChar list" where
  "two_long_mails = one_mail @ [LF] @ one_mail"

lemma two_long_drop:
  "drop 434 two_long_mails = LF # one_mail" "drop 435 two_long_mails = one_mail"
  "take 435 two_long_mails = one_mail @ [LF]" "length two_long_mails = 869"
  by (simp_all add: two_long_mails_def one_mail_def)

lemma two_long_body:
  assumes "14 \<le> k" and "k < 434"
  shows "two_long_mails ! k = CHR ''x''"
proof -
  define H where "H = ''From a'' @ [LF] @ ''To: b'' @ [LF, LF]"
  have "two_long_mails = H @ replicate 420 CHR ''x'' @ [LF] @ one_mail"
    unfolding two_long_mails_def H_def by (subst (1) one_mail_def) simp
  then have "two_long_mails ! k = (H @ replicate 420 CHR ''x'' @ [LF] @ one_mail) ! k" by (rule arg_cong)
  moreover have "length H = 14" by (simp add: H_def)
  ultimately show ?thesis using assms by (simp add: nth_append)
qed

lemma next_from_two_long: "i \<le> 434 \<Longrightarrow> 14 \<le> i \<Longrightarrow> next_from two_long_mails i = Some 434"
proof -
  assume i: "i \<le> 434" "14 \<le> i"
  have "next_from two_long_mails i = next_from two_long_mails 434"
    by (rule skip_to [where f = "next_from two_long_mails" and R = two_long_mails])
      (rule next_from_skip, assumption+, use i two_long_body two_long_drop(4) in auto)
  also have "\<dots> = Some 434"
    by (subst next_from.simps) (simp add: two_long_drop(1,4), simp add: one_mail_def eval_nat_numeral)
  finally show ?thesis .
qed

lemma two_long_header: "header_end two_long_mails 0 = Some 14"
  unfolding two_long_mails_def
  by (rule header_end_append) (simp add: one_mail_def header_end.simps eval_nat_numeral)

lemma two_long_mails_mails: "mails two_long_mails = [one_mail @ [LF], one_mail]"
  using two_long_drop(2,3) one_mail_mails next_from_two_long [of 14]
  by (simp add: mails.simps [of two_long_mails] two_long_header)

lemma two_long_room: "room_at_end two_long_mails"
proof -
  have "n < 449" if "n < 869" "take 6 (drop n two_long_mails) = LF # ''From ''" for n
  proof (rule ccontr)
    assume n: "\<not> n < 449"
    then have "drop n two_long_mails = drop (n - 449) (drop 14 (drop 435 two_long_mails))" by simp
    also have "\<dots> = replicate (869 - n) CHR ''x''"
      unfolding two_long_drop(2) using n by (simp add: one_mail_def)
    finally show False using that by (cases "869 - n") auto
  qed
  then show ?thesis by (fastforce simp: room_at_end_def two_long_drop(4))
qed

lemma two_long_readable: "t \<in> set (mails two_long_mails) \<Longrightarrow> readable mktime t"
proof -
  assume "t \<in> set (mails two_long_mails)"
  moreover have "one_mail @ [LF] = ''From a'' @ [LF] @ ''To: b'' @ [LF, LF] @ replicate 420 CHR ''x'' @ [LF]"
    by (simp add: one_mail_def)
  ultimately show ?thesis
    using mail_readable [of "replicate 420 CHR ''x'' @ [LF]" mktime] one_mail_readable
    by (auto simp: two_long_mails_mails isLine_def)
qed

lemma read_ends_whole:
  assumes "y \<in> read_ends (file_pread F) fd x" and "length F \<le> MBOX_IO_READ_SIZE"
  shows "y = x \<or> y = length F \<or> length F < x \<and> y = x"
  using assms(1) by (induction rule: read_ends.induct) (use assms(2) in \<open>auto simp: file_pread_def\<close>)

lemma two_long_starts: "part_starts (file_pread two_long_mails) fd two_long_mails 2 [0, 434]"
proof -
  have w: "window two_long_mails 2 1 = 0" by (simp add: window_def two_long_drop(4) MBOX_IO_READ_SIZE_def)
  have n: "next_from two_long_mails 0 = Some 434"
  proof -
    have head: "take 20 two_long_mails = ''From a'' @ [LF] @ ''To: b'' @ [LF, LF] @ replicate 6 CHR ''x''"
      by (simp add: two_long_mails_def one_mail_def eval_nat_numeral)
    have six: "take 6 (drop k two_long_mails) \<noteq> LF # ''From ''" if "k < 14" for k
    proof -
      have "take 6 (drop k two_long_mails) = take 6 (drop k (take 20 two_long_mails))"
        by (rule prefix_six [symmetric]) (use that in \<open>simp_all add: two_long_drop(4)\<close>)
      then show ?thesis using that unfolding head by (auto simp: less_Suc_eq eval_nat_numeral)
    qed
    have "next_from two_long_mails 0 = next_from two_long_mails k" if "k \<le> 14" for k
      using that
    proof (induction k)
      case (Suc k)
      then have "next_from two_long_mails k = next_from two_long_mails (Suc k)"
        using six [of k] by (subst next_from.simps) (simp add: two_long_drop(4))
      then show ?case using Suc by simp
    qed simp
    from this [of 14] show ?thesis using next_from_two_long [of 14] by simp
  qed
  have "435 \<in> mail_starts two_long_mails" by (simp add: mail_starts_def two_long_mails_mails one_mail_def)
  moreover have "file_pread two_long_mails fd MBOX_IO_READ_SIZE 0 = Some two_long_mails"
    by (simp add: file_pread_def MBOX_IO_READ_SIZE_def two_long_drop(4))
  moreover have "y \<le> 434 \<or> 444 \<le> y" if "y \<in> read_ends (file_pread two_long_mails) fd 0" for y
    using read_ends_whole [OF that] by (auto simp: two_long_drop(4) MBOX_IO_READ_SIZE_def)
  ultimately show ?thesis
    using w n by (auto simp: part_starts_def two_long_drop(4) less_Suc_eq numeral_2_eq_2)
qed

lemma two_long_mailbox: "mailbox [one_mail @ [LF], one_mail] [one_mail @ [LF], one_mail]"
proof -
  have mail: "mbox_mail (one_mail @ r) (replicate 420 CHR ''x'' @ r)" if "r = [] \<or> r = [LF]" for r
  proof -
    have t: "one_mail @ r = (''From a'' @ [LF] @ ''To: b'') @ [LF, LF] @ replicate 420 CHR ''x'' @ r"
      by (simp add: one_mail_def)
    have "take 6 (drop k (replicate 420 CHR ''x'' @ r)) \<noteq> LF # ''From ''" for k
    proof (cases "k < 420")
      case False
      then have "length (take 6 (drop k (replicate 420 CHR ''x'' @ r))) \<le> 1" using that by auto
      moreover have "\<not> length (LF # ''From '') \<le> 1" by simp
      ultimately show ?thesis by metis
    next
      case True
      have "drop k (replicate 420 CHR ''x'' @ r) = (replicate 420 CHR ''x'' @ r) ! k # drop (Suc k) (replicate 420 CHR ''x'' @ r)"
        by (rule Cons_nth_drop_Suc [symmetric]) (use True in simp)
      then show ?thesis using True by (simp add: nth_append del: drop_append drop_replicate)
    qed
    then show ?thesis unfolding t mbox_mail_def
      by (intro exI [of _ "''From a'' @ [LF] @ ''To: b''"] exI [of _ "[LF, LF]"]) (auto simp: less_Suc_eq eval_nat_numeral)
  qed
  have len: "length one_mail = 434" by (simp add: one_mail_def)
  have "one_mail ! j \<noteq> LF" if "14 \<le> j" "j < 434" for j
  proof -
    have "one_mail ! j = drop 14 one_mail ! (j - 14)" using that len by simp
    also have "\<dots> = CHR ''x''" using that by (simp add: one_mail_def)
    finally show ?thesis by simp
  qed
  then have "j + 10 < 434" if "j < 434" "one_mail ! j = LF" for j using that by (cases "14 \<le> j") auto
  then have "last_break one_mail 434" by (simp add: last_break_def len)
  then show ?thesis
    using mailbox_two [OF mail [of "[LF]"] _ _ mail [of "[]"], of 434] len by simp
qed

theorem mboxParse_lists_parts_witness:
  "\<forall>mktime raw. \<exists>m l hs' m' pcs lites.
     mboxReadOpen (\<lambda>w p f n. (3, w)) (\<lambda>w fd. Some (length two_long_mails)) () ''mail'' 438 = (Some m, ()) \<and>
     mboxParse mktime (file_pread two_long_mails) 3000 raw (\<lambda>mss. rev (concat mss))
       \<lparr>ph_msgs = no_messages, ph_headers = no_nodes\<rparr> m 4 = Inr (l, hs', m') \<and>
     Mbox_List.holds (ph_msgs hs') l (map Some lites) \<and> list_all2 lite_of pcs lites \<and>
     mset pcs = {#(one_mail @ [LF], 0, 435), (one_mail, 434, 869)#}"
proof (intro allI)
  fix mktime raw
  obtain m where m: "mboxReadOpen (\<lambda>w p f n. (3, w)) (\<lambda>w fd. Some (length two_long_mails)) () ''mail'' 438 = (Some m, ())"
    "mb_readfd m = 3" "mb_file_size m = length two_long_mails"
    by (simp add: mboxReadOpen_def)
  have cat: "two_long_mails = concat [one_mail @ [LF], one_mail]" by (simp add: two_long_mails_def)
  have f: "mail_file (file_pread two_long_mails) (mb_readfd m) two_long_mails"
    using reads_file_pread by (auto simp: mail_file_def two_long_drop(4)) (simp_all add: two_long_mails_def one_mail_def)
  have rd: "file_pread two_long_mails (mb_readfd m) MBOX_IO_READ_SIZE 0 = Some two_long_mails"
    by (simp add: file_pread_def MBOX_IO_READ_SIZE_def two_long_drop(4))
  have ps: "part_starts (file_pread two_long_mails) (mb_readfd m) two_long_mails (4 div 2) [0, 434]"
    using two_long_starts by simp
  have pcs: "msg_pieces (set (tl [0, 434])) 0 [one_mail @ [LF], one_mail] = [(one_mail @ [LF], 0, 435), (one_mail, 434, 869)]"
    by (simp add: one_mail_def)
  have whole: "\<forall>s \<in> set [0, 434]. blank_lines_whole (file_pread two_long_mails) (mb_readfd m) two_long_mails s"
    using blank_lines_whole_no_CR by (simp add: two_long_mails_def one_mail_def)
  obtain l hs' m' pcs lites where "mboxParse mktime (file_pread two_long_mails) 3000 raw (\<lambda>mss. rev (concat mss))
       \<lparr>ph_msgs = no_messages, ph_headers = no_nodes\<rparr> m 4 = Inr (l, hs', m')"
     "Mbox_List.holds (ph_msgs hs') l (map Some lites)" "list_all2 lite_of pcs lites"
     "mset pcs = mset [(one_mail @ [LF], 0, 435), (one_mail, 434, 869)]"
    using mboxParse_lists_parts [OF two_long_mailbox cat f rd _ _ m(3) ps _ _ _ _ _ whole, of 3000 "\<lambda>mss. rev (concat mss)" mktime
        "\<lparr>ph_msgs = no_messages, ph_headers = no_nodes\<rparr>" raw] two_long_readable [unfolded two_long_mails_mails]
    unfolding pcs by (auto simp: two_long_drop(4) fresh_ok_def no_messages_def no_nodes_def)
  then show "\<exists>m l hs' m' pcs lites.
     mboxReadOpen (\<lambda>w p f n. (3, w)) (\<lambda>w fd. Some (length two_long_mails)) () ''mail'' 438 = (Some m, ()) \<and>
     mboxParse mktime (file_pread two_long_mails) 3000 raw (\<lambda>mss. rev (concat mss))
       \<lparr>ph_msgs = no_messages, ph_headers = no_nodes\<rparr> m 4 = Inr (l, hs', m') \<and>
     Mbox_List.holds (ph_msgs hs') l (map Some lites) \<and> list_all2 lite_of pcs lites \<and>
     mset pcs = {#(one_mail @ [LF], 0, 435), (one_mail, 434, 869)#}"
    using m(1) by fastforce
qed

section \<open>A message that is lost\<close>

lemma seek_from_gives_up:
  assumes "reading pread F pos s io" and "mail_file pread (io_fd io) F"
    and "next_from (drop pos F) (buf_offset (io_buf io)) = Some n" and "n < length s" and "length s < n + 6"
    and "io_end_offset io < int (pos + length s)" and "n + 1 - buf_offset (io_buf io) < fuel"
  shows "\<exists>io'. seek_from_loop pread fuel io = Inr (0, io') \<and> io_frame io io'"
  using assms
proof (induction fuel arbitrary: io)
  case (Suc fuel)
  note sm = reading_simps [OF Suc.prems(1,2)]
  define R where "R = drop pos F"
  have pre: "s = take (length s) R" using Suc.prems(1) by (simp add: reading_def R_def)
  note nth = prefix_nth [OF pre]
  obtain j where j: "buf_offset (io_buf io) \<le> j" "j \<le> length s"
    "\<forall>k. buf_offset (io_buf io) \<le> k \<and> k < j \<longrightarrow> s ! k \<noteq> LF" "j < length s \<longrightarrow> s ! j = LF"
    using line_end [OF sm(5)] by blast
  have sc: "scan_line (buf_data (io_buf io)) (length s) (buf_offset (io_buf io)) = Inr j"
    by (rule scan_line_text [OF sm(2) j])
  have lenR: "length R = length F - pos" by (simp add: R_def)
  have "\<forall>k. buf_offset (io_buf io) \<le> k \<and> k < j \<longrightarrow> R ! k \<noteq> LF" using j(2,3) nth by simp
  then have nj: "next_from R j = Some n"
    using skip_to [of R "next_from R" "buf_offset (io_buf io)" j] next_from_skip j(1,2) sm(3) Suc.prems(3)
    by (simp add: R_def)
  note nb = next_from_bounds [OF nj]
  have no: "take 6 (drop j s) \<noteq> LF # ''From ''"
  proof
    assume *: "take 6 (drop j s) = LF # ''From ''"
    then have len: "j + 6 \<le> length s" by (drule_tac arg_cong [of _ _ length]) simp
    then have "take 6 (drop j R) = LF # ''From ''" using * prefix_six [OF pre len] by simp
    then have "n = j" using nj len sm(3) lenR by (simp add: next_from.simps [of R j])
    then show False using len Suc.prems(5) by simp
  qed
  have go: "seek_from_loop pread (Suc fuel) io =
     (if length s \<le> j + 10 then Inr (0, io_set_off io j)
      else seek_from_loop pread fuel (io_set_off io (j + 1)))"
    using sc mboxIsFromLine_text [OF sm(2) j(2)] no sm(1,4,6) j(2) Suc.prems(6) by (simp add: Let_def)
  show ?case
  proof (cases "length s \<le> j + 10")
    case False
    then have "n \<noteq> j" using Suc.prems(5) by auto
    then have "next_from R (j + 1) = Some n" using nj by (simp add: next_from.simps [of R j] split: if_splits)
    then have "\<exists>io'. seek_from_loop pread fuel (io_set_off io (j + 1)) = Inr (0, io') \<and> io_frame (io_set_off io (j + 1)) io'"
      using Suc.prems(2,4-7) False j(1) \<open>n \<noteq> j\<close> nb reading_off [OF Suc.prems(1), of "j + 1"]
      by (intro Suc.IH) (auto simp: R_def)
    then show ?thesis using go False by simp
  qed (use go in simp)
qed simp

lemma seek_headers_first_read:
  assumes "reading pread F pos [] io" and "mail_file pread (io_fd io) F"
    and "pread (io_fd io) MBOX_IO_READ_SIZE (int pos) = Some bs" and "bs \<noteq> []"
    and "header_end (drop pos F) 0 = Some h" and "h \<le> length bs" and "1 < fuel"
  shows "\<exists>io'. seek_headers_loop pread fuel io = Inr (True, io') \<and> reading pread F pos bs io' \<and>
     buf_offset (io_buf io') = h \<and> io_frame io io'"
proof -
  note sm = reading_simps [OF assms(1,2)]
  have off: "buf_offset (io_buf io) = 0" using sm(5) by simp
  obtain f g where f: "fuel = Suc g" "g = Suc f" using assms(7) le_Suc_ex [of 2 fuel] by auto
  obtain b' bs' where rd: "mboxIORead pread io MBOX_IO_READ_SIZE (length ([] :: mboxChar list)) (int (pos + length ([] :: mboxChar list))) =
     Inr (int (length bs'), io\<lparr>io_buf := b', io_err := if bs' = [] then MBOX_IO_EOF else MBOX_IO_OK\<rparr>)"
    "buf_offset b' = buf_offset (io_buf io)"
    "reading pread F pos ([] @ bs')
     (io\<lparr>io_buf := b', io_err := MBOX_IO_OK, io_file_offset := int (pos + length ([] :: mboxChar list)) + int (length bs')\<rparr>)"
    by (rule reading_more [OF assms(1,2)])
  define io2 where "io2 = io\<lparr>io_buf := b', io_err := MBOX_IO_OK, io_file_offset := int pos + int (length bs')\<rparr>"
  have io2: "reading pread F pos bs' io2" "mail_file pread (io_fd io2) F" using rd(3) assms(2) by (simp_all add: io2_def)
  have lb: "length bs' = length bs"
    using rd(1) assms(3,4) by (auto simp: mboxIORead_def Let_def outcome_simps split: if_splits)
  obtain k where "bs = take k (drop pos F)"
    using assms(2,3) unfolding mail_file_def reads_file_def
    by (metis MBOX_IO_READ_SIZE_def nat_int of_nat_0_le_iff option.inject zero_less_numeral)
  moreover have pre: "bs' = take (length bs') (drop pos F)" "nosplit (drop pos F) bs'"
    using io2(1) by (simp_all add: reading_def)
  ultimately have bb: "bs' = bs" using lb by (metis length_take take_all_iff take_take min.cobounded1 min_def)
  have c: "blk_read (buf_data (io_buf io)) 0 = Inr NUL" using holds_end [OF sm(2)] by simp
  have "can_parse_loop (buf_data (io_buf io)) 0 0 = Inr (False, 0)" by (simp add: can_parse_loop.simps)
  moreover have same: "io_set_off io 0 = io" using off by (simp add: io_set_off_def)
  ultimately have "seek_headers_loop pread fuel io = seek_headers_loop pread g io2"
    using sm(1,6) off c rd(1) assms(4)
    by (simp add: f(1) mboxBufCanParseHeaders_def reading_set_buf same io2_def io_codes bb)
  moreover have "can_parse_loop (buf_data (io_buf io2)) (length bs') 0 = Inr (True, h)"
    using can_parse_loop_text [OF reading_simps(2) [OF io2] pre(1) le0 pre(2) assms(5)] assms(6) lb by auto
  then have "seek_headers_loop pread g io2 = Inr (True, io_set_off io2 h)"
    using reading_simps(1) [OF io2] rd(2) off by (simp add: f(2) mboxBufCanParseHeaders_def io_set_off_def io2_def)
  ultimately show ?thesis
    using reading_off [OF io2(1), of h] assms(6) bb
    by (intro exI [of _ "io_set_off io2 h"]) (simp add: io2_def)
qed

text \<open>
  C2. A message is lost when a read ends within the line \<open>From \<close> with which the next part starts:
  the reader has then read past the end of its part, does not see the line whole, and gives up.
  Here the message that is lost is the only one of its part.
\<close>

theorem mboxParserCtx_loses_message:
  assumes "mail_file pread fd F" and "take 5 F = ''From ''"
    and "pread fd MBOX_IO_READ_SIZE 0 = Some bs" and "header_end F 0 = Some h" and "next_from F h = Some e"
    and "e < length bs" and "length bs < e + 6" and "enough F < fuel"
    and "blank_lines_whole pread fd F 0"
  shows "\<exists>ctx ctx'. mboxParserCtxSeekStart pread fuel (mboxParserCtxNew raw 0 fd (length F)) = Inr ctx \<and>
     mboxParserCtxGetNextMessageCallback pread fuel
       (ctx\<lparr>pc_ioctx := mboxIOSetEndOffset (pc_ioctx ctx) (int e)\<rparr>) = Inr ([], ctx') \<and>
     mails F \<noteq> []"
proof -
  note nb = next_from_bounds [OF assms(5)]
  have he: "2 \<le> h" using header_end_bounds [OF assms(4)] by simp
  have h5: "5 \<le> h" by (rule header_end_From [OF assms(2,4)])
  obtain ctx where ctx: "mboxParserCtxSeekStart pread fuel (mboxParserCtxNew raw 0 fd (length F)) = Inr ctx"
    "pc_err ctx = MBOX_IO_OK" "io_fd (pc_ioctx ctx) = fd"
    "at_mail pread F 0 ((pc_ioctx ctx)\<lparr>io_end_offset := int e\<rparr>)" "io_file_offset (pc_ioctx ctx) = 0"
    by (rule seek_start_first [where pread = pread and fuel = fuel and raw = raw and id' = 0 and e = "int e",
          OF assms(1,2,3) _ _ assms(9)]) (use assms(6,8) nb h5 in \<open>auto simp: enough_def\<close>)
  define io0 where "io0 = (pc_ioctx ctx)\<lparr>io_end_offset := int e\<rparr>"
  obtain b s where b: "move_along (io_buf io0) = Inr b" "reading pread F 0 s (io0\<lparr>io_buf := b\<rparr>)" "buf_offset b = 0"
    using move_along_reading ctx(4) unfolding io0_def by blast
  define io1 where "io1 = io0\<lparr>io_buf := b\<rparr>"
  have fl: "mail_file pread (io_fd io1) F" using assms(1) ctx(3) by (simp add: io1_def io0_def)
  have "s = []" using b(2) ctx(5) by (simp add: reading_def io0_def)
  then have rd: "reading pread F 0 [] io1" using b(2) by (simp add: io1_def)
  obtain f where f: "fuel = Suc f" "1 < f" using assms(8) nb by (cases fuel) (auto simp: enough_def)
  have bs: "bs \<noteq> []" "h \<le> length bs" using assms(6) nb by auto
  obtain io2 where io2: "seek_headers_loop pread f io1 = Inr (True, io2)" "reading pread F 0 bs io2"
     "buf_offset (io_buf io2) = h" "io_frame io1 io2"
    using seek_headers_first_read [OF rd fl _ bs(1) _ bs(2) f(2)] assms(3,4) ctx(3) by (auto simp: io1_def io0_def)
  have "mail_file pread (io_fd io2) F" "io_end_offset io2 < int (0 + length bs)"
    using fl io2(4) assms(6) by (simp_all add: io_frame_def io1_def io0_def)
  moreover have "e + 6 \<le> length F" using nb by simp
  then have "e + 1 - buf_offset (io_buf io2) < f" using assms(8) f(1) unfolding enough_def by linarith
  ultimately obtain io3 where "seek_from_loop pread f io2 = Inr (0, io3)"
    using seek_from_gives_up [OF io2(2), of e f] assms(5,6,7) io2(3) by auto
  then have "\<exists>ctx'. mboxParserCtxGetNextMessage pread f
      (ctx\<lparr>pc_ioctx := mboxIOSetEndOffset (pc_ioctx ctx) (int e)\<rparr>) = Inr (None, ctx')"
    using b(1) io2(1)
    by (simp add: mboxParserCtxGetNextMessage_def mboxParserCtxSeekHeaders_def mboxParserCtxSeekNextFromLine_def
        Let_def mboxIOSetEndOffset_def io0_def [symmetric] io1_def [symmetric])
  then have "\<exists>ctx'. mboxParserCtxGetNextMessageCallback pread fuel
      (ctx\<lparr>pc_ioctx := mboxIOSetEndOffset (pc_ioctx ctx) (int e)\<rparr>) = Inr ([], ctx')"
    by (auto simp: f(1))
  moreover have "mails F \<noteq> []" by (simp add: mails.simps [of F] assms(4,5))
  ultimately show ?thesis using ctx(1) by blast
qed

theorem mboxParserCtx_loses_message_witness:
  "\<forall>raw. \<exists>ctx ctx'. mboxParserCtxSeekStart (cut_pread 18 two_mails) 200 (mboxParserCtxNew raw 0 3 33) = Inr ctx \<and>
     mboxParserCtxGetNextMessageCallback (cut_pread 18 two_mails) 200
       (ctx\<lparr>pc_ioctx := mboxIOSetEndOffset (pc_ioctx ctx) 15\<rparr>) = Inr ([], ctx') \<and>
     mails two_mails \<noteq> []"
proof -
  have len: "length two_mails = 33" by (simp add: two_mails_def)
  have h: "header_end two_mails 0 = Some 13" "next_from two_mails 13 = Some 15"
    by (simp_all add: two_mails_def header_end.simps next_from.simps eval_nat_numeral)
  have "reads_file (cut_pread 18 two_mails) 3 two_mails" by (rule reads_file_cut) simp
  then have "mail_file (cut_pread 18 two_mails) 3 two_mails"
    by (simp add: mail_file_def two_mails_def)
  moreover have "blank_lines_whole (cut_pread 18 two_mails) 3 two_mails 0"
    by (rule blank_lines_whole_no_CR) (simp add: two_mails_def)
  ultimately show ?thesis
    using mboxParserCtx_loses_message [of "cut_pread 18 two_mails" 3 two_mails "take 18 two_mails" 13 15 200] h
    unfolding len by (auto simp: cut_pread_def MBOX_IO_READ_SIZE_def enough_def len) (auto simp: two_mails_def)
qed

end
