(* ===== verification/Mbox_Multipart.thy ===== *)
theory Mbox_Multipart
  imports Mbox_Message Mbox_Search
begin

text \<open>
  The parser of a whole message, the rest of \<open>src/src/mbox-parser.c\<close>: the mark between the
  sections of a multipart message, the sender of a message, the end of a message, the body of a
  section, and the loops over the sections. As in \<open>Mbox_HeaderParser\<close> the loops move an index
  over the buffer they read; an index into a block stays far below the range of \<open>size_t\<close>.
\<close>

section \<open>The states\<close>

definition MBOX_MSG_EOF :: int where "MBOX_MSG_EOF = -1"
definition MBOX_MSG_NO_MATCH :: int where "MBOX_MSG_NO_MATCH = 3"
definition MBOX_MSG_EOM :: int where "MBOX_MSG_EOM = 4"
definition MBOX_MSG_MATCH :: int where "MBOX_MSG_MATCH = 5"

lemmas msg_codes = MBOX_MSG_EOF_def MBOX_MSG_NO_MATCH_def MBOX_MSG_EOM_def MBOX_MSG_MATCH_def

record mboxParserMsgCtx =
  mc_buf :: mboxBuf
  mc_end_boundary :: mboxBuf
  mc_err :: int
  mc_headers :: "mboxBuf mboxRBTree option"

record mboxMultiMsg =
  mm_body :: "mboxBuf option"
  mm_headers :: "mboxBuf mboxRBTree"

text \<open>The two buffers are freed and nothing else is left of them.\<close>

definition mboxParserMsgCtxRelease ::
  "(mboxBuf, mboxBuf) rbheap \<Rightarrow> mboxParserMsgCtx option \<Rightarrow> c_error + (mboxBuf, mboxBuf) rbheap" where
  "mboxParserMsgCtxRelease h ctx =
     (case ctx of None \<Rightarrow> Inr h | Some c \<Rightarrow> mboxRBTreeRelease h (mc_headers c))"

section \<open>The mark of a multipart message\<close>

text \<open>
  \<open>while (!stop(data[i])) { if (keep(data[i])) mboxBufPutChar(dst, mboxBufGetChar(src)); i++; }\<close>:
  the test reads the block, the character that is put is checked against the length.
\<close>

function put_until ::
  "(mboxChar \<Rightarrow> bool) \<Rightarrow> (mboxChar \<Rightarrow> bool) \<Rightarrow> mboxBuf \<Rightarrow> nat \<Rightarrow> mboxBuf \<Rightarrow> c_error + (nat \<times> mboxBuf)" where
  "put_until stop keep src i dst =
     bindE (blk_read (buf_data src) i) (\<lambda>c.
     if stop c then Inr (i, dst)
     else bindE (if keep c
                 then bindE (mboxBufGetChar (src\<lparr>buf_offset := i\<rparr>)) (mboxBufPutChar dst)
                 else Inr dst) (\<lambda>dst.
          put_until stop keep src (Suc i) dst))"
  by pat_completeness auto
termination
  by (relation "measure (\<lambda>(stop, keep, src, i, dst). length (buf_data src) - i)")
    (auto simp: outcome_simps)

declare put_until.simps [simp del]

definition parseBoundaryMark :: "mboxBuf \<Rightarrow> c_error + (mboxBuf option \<times> mboxBuf)" where
  "parseBoundaryMark content_type =
     (let m = buf_data content_type; at = (\<lambda>i. content_type\<lparr>buf_offset := i\<rparr>)
      in bindE (scan_while (\<lambda>c. c \<noteq> CHR ''b'' \<and> c \<noteq> NUL) m (buf_offset content_type)) (\<lambda>i.
         bindE (mboxBufMatchChar (at i) NUL) (\<lambda>no.
         if no then Inr (None, at i)
         else bindE (scan_while (\<lambda>c. c \<noteq> CHR ''='' \<and> c \<noteq> NUL) m i) (\<lambda>i.
              bindE (mboxBufMatchChar (at i) NUL) (\<lambda>no.
              if no then Inr (None, at i)
              else let boundary = mboxBufAlloc 200
                in bindE (mboxBufMatchChar (at (Suc i)) CHR 0x22) (\<lambda>quoted.
                   bindE (if quoted
                          then put_until (\<lambda>c. c = CHR 0x22) (\<lambda>c. True) content_type (Suc (Suc i)) boundary
                          else put_until (\<lambda>c. c = NUL) (\<lambda>c. c \<noteq> CR) content_type (Suc i) boundary)
                     (\<lambda>(i, boundary). Inr (Some boundary, at i))))))))"

section \<open>The sender\<close>

function skip_spaces :: "mboxBuf \<Rightarrow> nat \<Rightarrow> c_error + nat" where
  "skip_spaces buf i =
     bindE (mboxBufGetChar (buf\<lparr>buf_offset := i\<rparr>)) (\<lambda>c.
     if c_isspace c then skip_spaces buf (Suc i) else Inr i)"
  by pat_completeness auto
termination
  by (relation "measure (\<lambda>(buf, i). length (buf_data buf) - i)")
    (auto simp: outcome_simps mboxBufGetChar_def c_isspace_def byte_def split: if_splits)

declare skip_spaces.simps [simp del]

text \<open>The name ends before \<open>" <"\<close>, a quote, an angle bracket or a zero.\<close>

function copy_name :: "mboxBuf \<Rightarrow> nat \<Rightarrow> mboxBuf \<Rightarrow> c_error + (nat \<times> mboxBuf)" where
  "copy_name buf i name =
     bindE (blk_read (buf_data buf) i) (\<lambda>c.
     if c = CHR ''<'' \<or> c = CHR 0x22 \<or> c = NUL then Inr (i, name)
     else bindE (mboxBufMatchCharAt (buf\<lparr>buf_offset := i\<rparr>) CHR ''<'' 1) (\<lambda>next_open.
          if next_open \<and> c = CHR '' '' then Inr (i, name)
          else bindE (mboxBufGetChar (buf\<lparr>buf_offset := i\<rparr>)) (\<lambda>c.
               bindE (mboxBufPutChar name c) (copy_name buf (Suc i)))))"
  by pat_completeness auto
termination
  by (relation "measure (\<lambda>(buf, i, name). length (buf_data buf) - i)") (auto simp: outcome_simps)

declare copy_name.simps [simp del]

text \<open>The name is not set when there is none; the address is copied up to a zero or a \<open><\<close>.\<close>

definition mboxParseFrom :: "mboxBuf \<Rightarrow> c_error + (mboxBuf option \<times> mboxBuf \<times> mboxBuf)" where
  "mboxParseFrom buf =
     bindE (skip_spaces buf (buf_offset buf)) (\<lambda>i.
     bindE (mboxBufMatchChar (buf\<lparr>buf_offset := i\<rparr>) CHR ''<'') (\<lambda>no_name.
     bindE (if no_name then Inr (None, Suc i)
            else bindE (mboxBufMatchChar (buf\<lparr>buf_offset := i\<rparr>) CHR 0x22) (\<lambda>quoted.
                 bindE (copy_name buf (if quoted then Suc i else i) (mboxBufAlloc 100)) (\<lambda>(i, name).
                 bindE (scan_while (\<lambda>c. c \<noteq> CHR ''<'') (buf_data buf) i) (\<lambda>i.
                 bindE (mboxBufIsMimeEncoded name) (\<lambda>mime.
                 bindE (if mime then mboxBufDecodeMimeEncodedInplace name else Inr name) (\<lambda>name.
                 Inr (Some name, Suc i))))))) (\<lambda>(name, i).
     bindE (put_until (\<lambda>c. c = CHR ''<'' \<or> c = NUL) (\<lambda>c. True) buf i (mboxBufAlloc 100)) (\<lambda>(i, email).
     Inr (name, email, buf\<lparr>buf_offset := i\<rparr>)))))"

section \<open>The end of a section\<close>

definition mboxParseIsBoundary :: "mboxBuf \<Rightarrow> mboxBuf \<Rightarrow> c_error + bool" where
  "mboxParseIsBoundary ctxbuf boundary =
     bindE (c_strncmp id (buf_data ctxbuf) (buf_offset ctxbuf) (buf_data boundary) 0 (buf_len boundary)) (\<lambda>r.
     Inr (r = 0))"

text \<open>The second character behind the boundary is only looked at for being zero.\<close>

definition mboxIsEOM :: "mboxBuf \<Rightarrow> mboxBuf \<Rightarrow> c_error + (int \<times> mboxBuf)" where
  "mboxIsEOM buf boundary =
     (let off = buf_offset buf; n = buf_len boundary; m = buf_data buf
      in bindE (mboxBufMatchChar buf CHR ''-'') (\<lambda>dash.
         bindE (if dash then mboxBufMatchCharAt buf CHR ''-'' 1 else Inr False) (\<lambda>dashes.
         if \<not> dashes then Inr (MBOX_MSG_NO_MATCH, buf)
         else if mboxBufWouldOverflow buf (size_add 3 (mboxBufLen boundary)) then Inr (MBOX_MSG_EOF, buf)
         else bindE (c_strncmp id m (off + 2) (buf_data boundary) 0 n) (\<lambda>r.
              if r \<noteq> 0 then Inr (MBOX_MSG_NO_MATCH, buf)
              else bindE (blk_read m (off + 2 + n)) (\<lambda>c.
                   bindE (if c = CHR ''-'' then bindE (blk_read m (off + 3 + n)) (\<lambda>d. Inr (d \<noteq> NUL))
                          else Inr False) (\<lambda>eom.
                   if eom then Inr (MBOX_MSG_EOM, buf\<lparr>buf_offset := off + 4 + n\<rparr>)
                   else Inr (MBOX_MSG_MATCH, buf\<lparr>buf_offset := off + 2 + n\<rparr>)))))))"

section \<open>The body of a section\<close>

text \<open>The inner loop stops before a dash, or before the first character of the boundary.\<close>

function find_mark :: "block \<Rightarrow> block \<Rightarrow> nat \<Rightarrow> c_error + nat" where
  "find_mark m bm i =
     bindE (blk_read m i) (\<lambda>c.
     if c = CHR ''-'' then Inr i
     else bindE (blk_read m (Suc i)) (\<lambda>d.
          bindE (blk_read bm 0) (\<lambda>b.
          if d = b then Inr i else find_mark m bm (Suc i))))"
  by pat_completeness auto
termination
  by (relation "measure (\<lambda>(m, bm, i). length m - i)") (auto simp: outcome_simps)

declare find_mark.simps [simp del]

lemma find_mark_moves: "find_mark m bm i = Inr j \<Longrightarrow> i \<le> j \<and> j < length m"
proof (induction m bm i rule: find_mark.induct)
  case (1 m bm i)
  then show ?case
    by (subst (asm) (2) find_mark.simps) (fastforce simp: outcome_simps split: if_splits)
qed

text \<open>What is done at the boundary: \<open>i\<close> is where it begins, \<open>start\<close> where the body does.\<close>

definition take_body :: "mboxBuf \<Rightarrow> mboxBuf \<Rightarrow> nat \<Rightarrow> nat \<Rightarrow> c_error + (mboxBuf option \<times> int \<times> nat)" where
  "take_body buf boundary start i =
     (let m = buf_data buf; n = mboxBufLen boundary; bodylen = size_sub (size_sub i 2) start
      in bindE (mboxBufDupRaw m start bodylen (size_add bodylen 10)) (\<lambda>body.
         bindE (blk_read m (i + n)) (\<lambda>c.
         bindE (if c = CHR ''-'' then bindE (blk_read m (i + n + 1)) (\<lambda>d. Inr (d = CHR ''-''))
                else Inr False) (\<lambda>eom.
         if eom then Inr (Some body, MBOX_MSG_EOM, i + n + 4)
         else Inr (Some body, MBOX_MSG_MATCH, i + n - (n + 2))))))"

function body_loop ::
  "mboxBuf \<Rightarrow> mboxBuf \<Rightarrow> nat \<Rightarrow> int \<Rightarrow> nat \<Rightarrow> c_error + (mboxBuf option \<times> int \<times> nat)" where
  "body_loop buf boundary start msgstatus i =
     (if \<not> i < buf_len buf then Inr (None, msgstatus, i)
      else bindE (find_mark (buf_data buf) (buf_data boundary) i) (\<lambda>i.
           bindE (mboxParseIsBoundary (buf\<lparr>buf_offset := Suc i\<rparr>) boundary) (\<lambda>isboundary.
           if isboundary then take_body buf boundary start (Suc i)
           else body_loop buf boundary start msgstatus (Suc i))))"
  by pat_completeness auto
termination
  by (relation "measure (\<lambda>(buf, boundary, start, msgstatus, i). length (buf_data buf) - i)")
    (auto dest!: find_mark_moves)

declare body_loop.simps [simp del]

definition mboxParseMessageBody ::
  "mboxParserMsgCtx \<Rightarrow> mboxBuf \<Rightarrow> int \<Rightarrow> c_error + (mboxBuf option \<times> int \<times> mboxParserMsgCtx)" where
  "mboxParseMessageBody ctx boundary msgstatus =
     (let buf = mc_buf ctx; start = mboxBufGetOffset buf
      in bindE (body_loop buf boundary start msgstatus start) (\<lambda>(body, msgstatus, i).
         Inr (body, if Suc i = buf_len buf then MBOX_MSG_EOF else msgstatus,
              ctx\<lparr>mc_buf := buf\<lparr>buf_offset := i\<rparr>\<rparr>)))"

section \<open>The loops over the sections\<close>

text \<open>Where the end of a section leaves the offset.\<close>

lemma mboxIsEOM_moves:
  assumes "mboxIsEOM buf boundary = Inr (r, buf')"
  shows "buf' = buf\<lparr>buf_offset := buf_offset buf'\<rparr> \<and> buf_offset buf \<le> buf_offset buf' \<and>
     (r = MBOX_MSG_NO_MATCH \<or> r = MBOX_MSG_EOF \<or> buf_offset buf < buf_offset buf')"
  using assms by (auto simp: mboxIsEOM_def Let_def outcome_simps split: if_splits)

text \<open>The sections of a multipart message: what stands between two boundaries.\<close>

function section_loop ::
  "(mboxBuf, mboxBuf) rbheap \<Rightarrow> mboxParserMsgCtx \<Rightarrow> mboxBuf \<Rightarrow> nat \<Rightarrow>
     c_error + (int \<times> mboxMultiMsg option \<times> (mboxBuf, mboxBuf) rbheap \<times> mboxParserMsgCtx)" where
  "section_loop h ctx boundary i =
     (let buf = mc_buf ctx
      in bindE (scan_while (\<lambda>c. c \<noteq> CHR ''-'') (buf_data buf) i) (\<lambda>i.
         bindE (mboxIsEOM (buf\<lparr>buf_offset := i\<rparr>) boundary) (\<lambda>(retval, buf).
         if retval = MBOX_MSG_NO_MATCH then section_loop h ctx boundary (Suc i)
         else if retval = MBOX_MSG_EOF then Inr (retval, None, h, ctx\<lparr>mc_buf := buf\<rparr>)
         else bindE (mboxParseEmailHeaders h buf) (\<lambda>(h, headers, buf).
              bindE (mboxParseMessageBody (ctx\<lparr>mc_buf := buf\<rparr>) boundary retval) (\<lambda>(body, retval, ctx).
              Inr (retval, Some \<lparr>mm_body = body, mm_headers = headers\<rparr>, h, ctx))))))"
  by pat_completeness auto
termination
  by (relation "measure (\<lambda>(h, ctx, boundary, i). length (buf_data (mc_buf ctx)) - i)")
    (auto dest!: scan_while_moves)

declare section_loop.simps [simp del]

definition mboxParseMulitpartAlternative ::
  "(mboxBuf, mboxBuf) rbheap \<Rightarrow> mboxParserMsgCtx \<Rightarrow> mboxBuf \<Rightarrow>
     c_error + (int \<times> mboxMultiMsg option \<times> (mboxBuf, mboxBuf) rbheap \<times> mboxParserMsgCtx)" where
  "mboxParseMulitpartAlternative h ctx boundary = section_loop h ctx boundary (buf_offset (mc_buf ctx))"

text \<open>A section that ends at the next boundary leaves the offset behind the one it began with.\<close>

lemma skip_lines_moves: "skip_lines b i = Inr j \<Longrightarrow> i \<le> j"
proof (induction b i rule: skip_lines.induct)
  case (1 b i)
  then show ?case
    by (subst (asm) (2) skip_lines.simps) (fastforce simp: outcome_simps split: if_splits)
qed

lemma header_loop_moves: "header_loop b h t key v i = Inr (h', t', j) \<Longrightarrow> i \<le> j"
proof (induction b h t key v i rule: header_loop.induct)
  case (1 b h t key v i)
  show ?case
  proof (cases "i < buf_len b")
    case False
    then show ?thesis using "1.prems" by (simp add: header_loop.simps [of b h t key v i])
  next
    case True
    obtain h1 t1 key1 i1 i2 key2 i3 v2 h2 t2 key3 v3 c where r:
      "parse_from_line b h t key i = Inr (h1, t1, key1, i1)"
      "copy_until CHR '':'' (\<lambda>ch. True) (buf_data b) i1 key1 = Inr (i2, key2)"
      "parse_value (buf_data b) (i2 + 2) v = Inr (i3, v2)" "store_header h1 t1 key2 v2 = Inr (h2, t2)"
      "mboxBufSlice key2 0 0 0 = Inr key3" "mboxBufSlice v2 0 0 0 = Inr v3"
      "mboxBufGetChar (b\<lparr>buf_offset := i3\<rparr>) = Inr c"
      "(if isLine c then bindE (skip_lines b i3) (\<lambda>i. Inr (h2, t2, i))
        else header_loop b h2 t2 key3 v3 i3) = Inr (h', t', j)"
      using "1.prems" True by (subst (asm) header_loop.simps) (auto simp: outcome_simps)
    have le: "i \<le> i3"
      using parse_from_line_moves [OF r(1)] copy_until_moves [OF r(2)] parse_value_moves [OF r(3)] by simp
    show ?thesis
    proof (cases "isLine c")
      case True
      then show ?thesis using r(8) le by (auto simp: outcome_simps dest: skip_lines_moves)
    next
      case False
      have "i3 \<le> j" by (rule "1.IH" [OF _ r(1) refl refl refl r(2) refl r(3) refl r(4) refl r(5,6,7)]) (use True False r(8) in simp_all)
      then show ?thesis using le by simp
    qed
  qed
qed

lemma mboxParseEmailHeaders_moves:
  assumes "mboxParseEmailHeaders h b = Inr (h', t, b')"
  shows "b' = b\<lparr>buf_offset := buf_offset b'\<rparr> \<and> buf_offset b \<le> buf_offset b'"
proof -
  obtain h0 t0 where n: "header_tree h = (h0, t0)" by fastforce
  show ?thesis
    using assms
    by (auto simp: mboxParseEmailHeaders_def n outcome_simps dest!: scan_while_moves header_loop_moves)
qed

lemma bodylen_wraps: "size_sub (size_sub (Suc start) 2) start = SIZE_MOD - 1"
proof -
  define r where "r = start mod SIZE_MOD"
  have r: "r < SIZE_MOD" by (simp add: r_def)
  have "Suc start + (SIZE_MOD - 2) = start + (SIZE_MOD - 1)" by simp
  then have "size_sub (Suc start) 2 = (start + (SIZE_MOD - 1)) mod SIZE_MOD"
    by (simp add: size_sub_def add.commute)
  also have "\<dots> = (r + (SIZE_MOD - 1)) mod SIZE_MOD" unfolding r_def by (rule mod_add_left_eq [symmetric])
  also have "\<dots> = (if r = 0 then SIZE_MOD - 1 else r - 1)"
  proof (cases r)
    case (Suc k)
    have "(r + (SIZE_MOD - 1)) mod SIZE_MOD = (k + SIZE_MOD) mod SIZE_MOD" by (simp add: Suc)
    also have "\<dots> = k" using r Suc by (simp del: numeral_power_eq_of_nat_cancel_iff)
    finally show ?thesis by (simp add: Suc)
  qed simp
  finally have two: "size_sub (Suc start) 2 = (if r = 0 then SIZE_MOD - 1 else r - 1)" .
  have "size_sub (size_sub (Suc start) 2) start = (size_sub (Suc start) 2 + (SIZE_MOD - r)) mod SIZE_MOD"
    by (simp only: size_sub_def [of "size_sub (Suc start) 2"] r_def)
  also have "\<dots> = SIZE_MOD - 1" unfolding two using r by auto
  finally show ?thesis .
qed

lemma take_body_moves:
  assumes "take_body buf boundary start i = Inr (body, r, j)" and "start < i"
  shows "start \<le> j \<and> body \<noteq> None"
proof -
  have "i \<noteq> Suc start"
  proof
    assume "i = Suc start"
    moreover have "mboxBufDupRaw m start (SIZE_MOD - 1) (size_add (SIZE_MOD - 1) 10) = Inl OutOfBounds" for m
      by (simp add: mboxBufDupRaw_def mboxBufAlloc_def size_add_def blk_copy_def)
    ultimately show False using assms(1) by (simp add: take_body_def bodylen_wraps)
  qed
  then show ?thesis using assms by (auto simp: take_body_def Let_def outcome_simps split: if_splits)
qed

lemma body_loop_moves:
  "body_loop buf boundary start r i = Inr (body, r', j) \<Longrightarrow> start \<le> i \<Longrightarrow> start \<le> j"
proof (induction buf boundary start r i rule: body_loop.induct)
  case (1 buf boundary start r i)
  then show ?case
    by (subst (asm) (2) body_loop.simps)
      (fastforce simp: outcome_simps split: if_splits dest!: find_mark_moves take_body_moves)
qed

lemma mboxParseMessageBody_moves:
  assumes "mboxParseMessageBody ctx boundary r = Inr (body, r', ctx')"
  shows "\<exists>j \<ge> buf_offset (mc_buf ctx). ctx' = ctx\<lparr>mc_buf := (mc_buf ctx)\<lparr>buf_offset := j\<rparr>\<rparr>"
  using assms by (auto simp: mboxParseMessageBody_def mboxBufGetOffset_def Let_def outcome_simps dest: body_loop_moves)

lemma section_loop_moves:
  "section_loop h ctx boundary i = Inr (r, alt, h', ctx') \<Longrightarrow>
   \<exists>j \<ge> i. ctx' = ctx\<lparr>mc_buf := (mc_buf ctx)\<lparr>buf_offset := j\<rparr>\<rparr> \<and> i < length (buf_data (mc_buf ctx)) \<and>
     (alt = None \<or> i < j)"
proof (induction h ctx boundary i rule: section_loop.induct)
  case (1 h ctx boundary i)
  let ?b = "mc_buf ctx"
  obtain i1 r1 buf where s: "scan_while (\<lambda>c. c \<noteq> CHR ''-'') (buf_data ?b) i = Inr i1"
    "mboxIsEOM (?b\<lparr>buf_offset := i1\<rparr>) boundary = Inr (r1, buf)"
    "(if r1 = MBOX_MSG_NO_MATCH then section_loop h ctx boundary (Suc i1)
      else if r1 = MBOX_MSG_EOF then Inr (r1, None, h, ctx\<lparr>mc_buf := buf\<rparr>)
      else bindE (mboxParseEmailHeaders h buf) (\<lambda>(h, headers, buf).
           bindE (mboxParseMessageBody (ctx\<lparr>mc_buf := buf\<rparr>) boundary r1) (\<lambda>(body, retval, ctx).
           Inr (retval, Some \<lparr>mm_body = body, mm_headers = headers\<rparr>, h, ctx)))) = Inr (r, alt, h', ctx')"
    using "1.prems" by (subst (asm) section_loop.simps) (auto simp: Let_def outcome_simps)
  have le: "i \<le> i1" "i1 < length (buf_data ?b)" using scan_while_moves [OF s(1)] by simp_all
  have e: "buf = ?b\<lparr>buf_offset := buf_offset buf\<rparr>" "i1 \<le> buf_offset buf"
    "r1 = MBOX_MSG_NO_MATCH \<or> r1 = MBOX_MSG_EOF \<or> i1 < buf_offset buf"
    using mboxIsEOM_moves [OF s(2)] by auto
  consider "r1 = MBOX_MSG_NO_MATCH" | "r1 = MBOX_MSG_EOF" "r1 \<noteq> MBOX_MSG_NO_MATCH"
    | "r1 \<noteq> MBOX_MSG_NO_MATCH" "r1 \<noteq> MBOX_MSG_EOF" "i1 < buf_offset buf" using e(3) by blast
  then show ?case
  proof cases
    case 1
    then have "section_loop h ctx boundary (Suc i1) = Inr (r, alt, h', ctx')" using s(3) by simp
    then obtain j where "Suc i1 \<le> j" "ctx' = ctx\<lparr>mc_buf := ?b\<lparr>buf_offset := j\<rparr>\<rparr>" "alt = None \<or> Suc i1 < j"
      using "1.IH" [OF refl s(1,2) refl 1] by auto
    then show ?thesis using le by (intro exI [of _ j]) auto
  next
    case 2
    have "ctx\<lparr>mc_buf := buf\<rparr> = ctx\<lparr>mc_buf := ?b\<lparr>buf_offset := buf_offset buf\<rparr>\<rparr>"
      by (rule arg_cong [OF e(1), of "\<lambda>b. ctx\<lparr>mc_buf := b\<rparr>"])
    then show ?thesis using s(3) le e(2) 2 by (intro exI [of _ "buf_offset buf"]) simp
  next
    case 3
    obtain h1 t b1 body r2 c2 where p: "mboxParseEmailHeaders h buf = Inr (h1, t, b1)"
      "mboxParseMessageBody (ctx\<lparr>mc_buf := b1\<rparr>) boundary r1 = Inr (body, r2, c2)" "ctx' = c2"
      using s(3) 3 by (auto simp: outcome_simps)
    have b1: "b1 = buf\<lparr>buf_offset := buf_offset b1\<rparr>" "buf_offset buf \<le> buf_offset b1"
      using mboxParseEmailHeaders_moves [OF p(1)] by auto
    obtain j where j: "buf_offset b1 \<le> j" "c2 = ctx\<lparr>mc_buf := b1\<lparr>buf_offset := j\<rparr>\<rparr>"
      using mboxParseMessageBody_moves [OF p(2)] by auto
    have "b1\<lparr>buf_offset := j\<rparr> = ?b\<lparr>buf_offset := j\<rparr>" by (subst b1(1), subst e(1)) simp
    then show ?thesis using j b1(2) 3(3) le p(3) by (intro exI [of _ j]) simp
  qed
qed



section \<open>A whole message\<close>

text \<open>The buffer of a value is shared with the tree: what is done to it is stored there.\<close>

definition put_value ::
  "(mboxBuf, mboxBuf) rbheap \<Rightarrow> mboxBuf mboxRBTree \<Rightarrow> int \<Rightarrow> mboxBuf \<Rightarrow> c_error + (mboxBuf, mboxBuf) rbheap" where
  "put_value h t header v =
     bindE (list_at mboxExpectedHeaders (nat header)) (\<lambda>key.
     bindE (rbNodeFind (t_size t) h t (t_root t) (Some key)) (\<lambda>n.
     rb_upd h n (rb_value_update (\<lambda>_. Some v))))"

definition MBOX_CONTENT_TYPE_MULTIPART :: string where
  "MBOX_CONTENT_TYPE_MULTIPART = ''multipart/alternative''"

text \<open>
  The sections of a multipart message are read and thrown away, up to the end of the message.
  The result \<open>None\<close> stands for \<open>loggerPanic\<close>, which ends the process.
\<close>

function parts_loop ::
  "(mboxBuf, mboxBuf) rbheap \<Rightarrow> mboxParserMsgCtx \<Rightarrow> mboxBuf \<Rightarrow>
     c_error + ((mboxBuf, mboxBuf) rbheap \<times> mboxParserMsgCtx) option" where
  "parts_loop h ctx boundary =
     bindE (mboxParseMulitpartAlternative h ctx boundary) (\<lambda>(match_status, alt, h, ctx).
     if match_status = MBOX_MSG_MATCH \<or> match_status = MBOX_MSG_EOM then
       (case alt of
          None \<Rightarrow> Inl UninitRead
        | Some a \<Rightarrow>
            bindE (mboxRBTreeRelease h (Some (mm_headers a))) (\<lambda>h.
            if match_status = MBOX_MSG_MATCH then parts_loop h ctx boundary else Inr (Some (h, ctx))))
     else if match_status = MBOX_MSG_EOF \<or> match_status = MBOX_MSG_NO_MATCH then Inr None
     else Inr (Some (h, ctx)))"
  by pat_completeness auto
termination
proof (relation "measure (\<lambda>(h, ctx, boundary). length (buf_data (mc_buf ctx)) - buf_offset (mc_buf ctx))", goal_cases)
  case (2 h ctx boundary x r y alt z h1 ctx1 a h2)
  then have "section_loop h ctx boundary (buf_offset (mc_buf ctx)) = Inr (r, Some a, h1, ctx1)"
    by (simp add: mboxParseMulitpartAlternative_def)
  then show ?case using section_loop_moves by fastforce
qed simp

declare parts_loop.simps [simp del]

lemma parts_loop_moves:
  "parts_loop h ctx boundary = Inr (Some (h', ctx')) \<Longrightarrow>
   \<exists>j \<ge> buf_offset (mc_buf ctx). ctx' = ctx\<lparr>mc_buf := (mc_buf ctx)\<lparr>buf_offset := j\<rparr>\<rparr>"
proof (induction h ctx boundary rule: parts_loop.induct)
  case (1 h ctx boundary)
  obtain r alt h1 c1 where a: "section_loop h ctx boundary (buf_offset (mc_buf ctx)) = Inr (r, alt, h1, c1)"
    using "1.prems"
    by (subst (asm) parts_loop.simps) (auto simp: mboxParseMulitpartAlternative_def outcome_simps)
  then obtain j where j: "buf_offset (mc_buf ctx) \<le> j" "c1 = ctx\<lparr>mc_buf := (mc_buf ctx)\<lparr>buf_offset := j\<rparr>\<rparr>"
    using section_loop_moves by blast
  have run: "mboxParseMulitpartAlternative h ctx boundary = Inr (r, alt, h1, c1)"
    using a by (simp add: mboxParseMulitpartAlternative_def)
  show ?case
  proof (cases "r = MBOX_MSG_MATCH")
    case True
    obtain a h2 where h2: "alt = Some a" "mboxRBTreeRelease h1 (Some (mm_headers a)) = Inr h2"
      "parts_loop h2 c1 boundary = Inr (Some (h', ctx'))"
      using "1.prems" run True by (subst (asm) parts_loop.simps) (auto simp: outcome_simps split: option.splits)
    have "\<exists>k \<ge> buf_offset (mc_buf c1). ctx' = c1\<lparr>mc_buf := (mc_buf c1)\<lparr>buf_offset := k\<rparr>\<rparr>"
      by (rule "1.IH" [OF run refl refl refl _ h2(1,2) True h2(3)]) (simp add: True)
    then obtain k where "buf_offset (mc_buf c1) \<le> k" "ctx' = c1\<lparr>mc_buf := (mc_buf c1)\<lparr>buf_offset := k\<rparr>\<rparr>" by blast
    then show ?thesis using j by (intro exI [of _ k]) simp
  next
    case False
    then have "ctx' = c1"
      using "1.prems" run
      by (subst (asm) parts_loop.simps) (auto simp: outcome_simps split: option.splits if_splits)
    then show ?thesis using j by blast
  qed
qed

text \<open>What is done with the headers of the message, or of a section that is no alternative.\<close>

definition parse_content ::
  "(mboxBuf, mboxBuf) rbheap \<Rightarrow> mboxBuf mboxRBTree \<Rightarrow> mboxParserMsgCtx \<Rightarrow>
     c_error + ((mboxBuf, mboxBuf) rbheap \<times> mboxParserMsgCtx) option" where
  "parse_content h rb ctx =
     bindE (mboxHeadersGet h rb MBOX_HEADER_CONTENT_TYPE) (\<lambda>_.
     bindE (mboxHeadersGet h rb MBOX_HEADER_CONTENT_TRANSFER_ENCODING) (\<lambda>transfer_encoding.
     bindE (case transfer_encoding of
              None \<Rightarrow> Inr h
            | Some b \<Rightarrow> bindE (mboxBufToLowerCase b) (put_value h rb MBOX_HEADER_CONTENT_TRANSFER_ENCODING)) (\<lambda>h.
     bindE (mboxHeadersGet h rb MBOX_HEADER_CONTENT_TYPE) (\<lambda>content_type.
     bindE (deref content_type) (\<lambda>content_type.
     bindE (mboxBufStrNCaseCmp content_type (c_lit ''text/plain'') 10) (\<lambda>cmp.
     if cmp = 0 then Inr (Some (h, ctx))
     else bindE (mboxBufContainsPattern content_type MBOX_CONTENT_TYPE_MULTIPART
                   (length MBOX_CONTENT_TYPE_MULTIPART)) (\<lambda>multipart_idx.
          if multipart_idx = -1 then Inr (Some (h, ctx))
          else bindE (parseBoundaryMark content_type) (\<lambda>(boundary_mark, content_type).
               bindE (put_value h rb MBOX_HEADER_CONTENT_TYPE content_type) (\<lambda>h.
               case boundary_mark of
                 None \<Rightarrow> Inr None
               | Some mark \<Rightarrow> parts_loop h ctx mark)))))))))"

lemma parse_content_moves:
  assumes "parse_content h rb ctx = Inr (Some (h', ctx'))"
  shows "\<exists>j \<ge> buf_offset (mc_buf ctx). ctx' = ctx\<lparr>mc_buf := (mc_buf ctx)\<lparr>buf_offset := j\<rparr>\<rparr>"
proof (cases "ctx' = ctx")
  case True
  then show ?thesis by (intro exI [of _ "buf_offset (mc_buf ctx)"]) simp
next
  case False
  then obtain h1 mark where "parts_loop h1 ctx mark = Inr (Some (h', ctx'))"
    using assms by (auto simp: parse_content_def outcome_simps split: if_splits option.splits)
  then show ?thesis by (rule parts_loop_moves)
qed

lemma section_content_moves:
  assumes "mboxIsEOM ((mc_buf ctx)\<lparr>buf_offset := i\<rparr>) boundary = Inr (MBOX_MSG_MATCH, b1)"
    and "skip_lines b1 (buf_offset b1) = Inr k"
    and "mboxParseEmailHeaders h (b1\<lparr>buf_offset := k\<rparr>) = Inr (h1, rb, b2)"
    and "parse_content h1 rb (ctx\<lparr>mc_buf := b2\<rparr>) = Inr (Some (h2, ctx2))"
  shows "\<exists>j > i. ctx2 = ctx\<lparr>mc_buf := (mc_buf ctx)\<lparr>buf_offset := j\<rparr>\<rparr>"
proof -
  have e: "b1 = (mc_buf ctx)\<lparr>buf_offset := buf_offset b1\<rparr>" "i < buf_offset b1"
    using mboxIsEOM_moves [OF assms(1)] by (auto simp: msg_codes)
  have k: "buf_offset b1 \<le> k" by (rule skip_lines_moves [OF assms(2)])
  have b2: "b2 = b1\<lparr>buf_offset := buf_offset b2\<rparr>" "k \<le> buf_offset b2"
    using mboxParseEmailHeaders_moves [OF assms(3)] by auto
  obtain j where j: "buf_offset b2 \<le> j" "ctx2 = ctx\<lparr>mc_buf := b2\<lparr>buf_offset := j\<rparr>\<rparr>"
    using parse_content_moves [OF assms(4)] by auto
  have "b2\<lparr>buf_offset := j\<rparr> = (mc_buf ctx)\<lparr>buf_offset := j\<rparr>" by (subst b2(1), subst e(1)) simp
  then show ?thesis using j e(2) k b2(2) by (intro exI [of _ j]) simp
qed

text \<open>
  The loop over the message. The code has no case for a buffer that ends behind two dashes
  (\<open>MBOX_MSG_EOF\<close>): it then looks at the same dashes again, for ever.
\<close>

function message_loop ::
  "(mboxBuf, mboxBuf) rbheap \<Rightarrow> mboxParserMsgCtx \<Rightarrow> nat \<Rightarrow>
     c_error + ((mboxBuf, mboxBuf) rbheap \<times> mboxParserMsgCtx) option" where
  "message_loop h ctx i =
     (let buf = mc_buf ctx
      in if \<not> i < buf_len buf then Inr (Some (h, ctx\<lparr>mc_buf := buf\<lparr>buf_offset := i\<rparr>\<rparr>))
         else bindE (scan_while (\<lambda>c. c \<noteq> CHR ''-'') (buf_data buf) i) (\<lambda>i.
              bindE (mboxIsEOM (buf\<lparr>buf_offset := i\<rparr>) (mc_end_boundary ctx)) (\<lambda>(is_eom, buf).
              if is_eom = MBOX_MSG_NO_MATCH then message_loop h ctx (Suc i)
              else if is_eom = MBOX_MSG_EOM then Inr (Some (h, ctx\<lparr>mc_buf := buf\<rparr>))
              else if is_eom = MBOX_MSG_MATCH then
                bindE (skip_lines buf (buf_offset buf)) (\<lambda>i.
                bindE (mboxParseEmailHeaders h (buf\<lparr>buf_offset := i\<rparr>)) (\<lambda>(h, rb, buf).
                bindE (parse_content h rb (ctx\<lparr>mc_buf := buf\<rparr>)) (\<lambda>r.
                case r of
                  None \<Rightarrow> Inr None
                | Some (h, ctx) \<Rightarrow>
                    bindE (mboxRBTreeRelease h (Some rb)) (\<lambda>h.
                    message_loop h ctx (buf_offset (mc_buf ctx))))))
              else Inl Diverges)))"
  by pat_completeness auto
termination
proof (relation "measure (\<lambda>(h, ctx, i). length (buf_data (mc_buf ctx)) - i)", goal_cases)
  case (2 h ctx i b i1 e is_eom b1)
  then show ?case by (auto dest!: scan_while_moves)
next
  case (3 h ctx i b i1 e is_eom b1 k p h1 q rb b2 r x h2 ctx2 h3)
  have "i \<le> i1" "i1 < length (buf_data (mc_buf ctx))" using scan_while_moves [OF 3(3)] 3(1) by simp_all
  moreover obtain j where "i1 < j" "ctx2 = ctx\<lparr>mc_buf := (mc_buf ctx)\<lparr>buf_offset := j\<rparr>\<rparr>"
    using section_content_moves [of i1 ctx "mc_end_boundary ctx" b1 k h h1 rb b2 h2 ctx2] 3 by auto
  ultimately show ?case by simp
qed simp

declare message_loop.simps [simp del]

definition mboxParserParseMessage ::
  "(mboxBuf, mboxBuf) rbheap \<Rightarrow> mboxParserMsgCtx \<Rightarrow>
     c_error + ((mboxBuf, mboxBuf) rbheap \<times> mboxParserMsgCtx) option" where
  "mboxParserParseMessage h ctx =
     message_loop h (ctx\<lparr>mc_buf := mboxBufSetOffset (mc_buf ctx) 0\<rparr>) 0"


section \<open>Copying text\<close>

lemma buf_rep_text_at: "buf_rep b s \<Longrightarrow> s = u @ t @ v \<Longrightarrow> i = length u \<Longrightarrow> text_at (buf_data b) i t"
  using buf_rep_text [of b s] by simp

lemma put_room:
  assumes "buf_rep dst s" and "roomy dst (Suc n)"
  shows "\<exists>d. mboxBufPutChar dst c = Inr d \<and> buf_rep d (s @ [c]) \<and> buf_term d \<and> roomy d n"
proof -
  have "buf_capacity dst + 256 \<le> PTRDIFF_MAX" using assms(2) by (simp add: roomy_def)
  from mboxBufPutChar_rep [OF assms(1) this, of c] show ?thesis using assms(2) by (auto simp: roomy_def)
qed

lemma roomy_less: "roomy b (m + n) \<Longrightarrow> roomy b n"
  by (simp add: roomy_def)

lemma put_until_text:
  assumes "text_at (buf_data src) i t" and "list_all (\<lambda>c. \<not> stop c) t"
    and "blk_read (buf_data src) (i + length t) = Inr e" and "stop e" and "i + length t \<le> buf_len src"
    and "buf_rep dst s" and "roomy dst (length t)"
  shows "\<exists>d. put_until stop keep src i dst = Inr (i + length t, d) \<and> buf_rep d (s @ filter keep t)"
  using assms
proof (induction t arbitrary: i dst s)
  case Nil
  then show ?case by (simp add: put_until.simps [of stop keep src i])
next
  case (Cons c t)
  obtain d where d: "(if keep c then mboxBufPutChar dst c else Inr dst) = Inr d"
    "buf_rep d (s @ filter keep [c])" "roomy d (length t)"
  proof (cases "keep c")
    case True
    then show ?thesis using put_room [OF Cons.prems(6), of "length t" c] Cons.prems(7) that by auto
  next
    case False
    then show ?thesis using that [of dst] Cons.prems(6,7) roomy_less [of dst 1 "length t"] by simp
  qed
  obtain d' where "put_until stop keep src (Suc i) d = Inr (Suc i + length t, d')"
    "buf_rep d' ((s @ filter keep [c]) @ filter keep t)"
    using Cons.IH [OF _ _ _ Cons.prems(4) _ d(2,3), of "Suc i"] Cons.prems(1-3,5) by auto
  then show ?case
    using Cons.prems(1,2,5) d(1) by (auto simp: put_until.simps [of stop keep src i] mboxBufGetChar_def)
qed

lemma copy_name_text:
  assumes "text_at (buf_data b) i (t @ stop)" and "set t \<inter> {CHR ''<'', CHR 0x22, NUL} = {}"
    and "stop = [CHR 0x22] \<or> stop = '' <''" and "i + length t + length stop \<le> buf_len b" and "buf_len b < 2 ^ 50"
    and "buf_rep name s" and "roomy name (length t)"
  shows "\<exists>d. copy_name b i name = Inr (i + length t, d) \<and> buf_rep d (s @ t) \<and> (t \<noteq> [] \<or> buf_term name \<longrightarrow> buf_term d)"
  using assms
proof (induction t arbitrary: i name s)
  case Nil
  then show ?case
    by (elim disjE) (simp_all add: copy_name.simps [of b i] mboxBufMatchCharAt_def)
next
  case (Cons c t)
  obtain d where d: "mboxBufPutChar name c = Inr d" "buf_rep d (s @ [c])" "buf_term d" "roomy d (length t)"
    using put_room [OF Cons.prems(6), of "length t" c] Cons.prems(7) by auto
  obtain x where x: "blk_read (buf_data b) (Suc i) = Inr x" "x \<noteq> CHR ''<''"
    using Cons.prems(1-3) by (cases t) auto
  obtain d' where "copy_name b (Suc i) d = Inr (Suc i + length t, d')" "buf_rep d' ((s @ [c]) @ t)" "buf_term d'"
    using Cons.IH [OF _ _ Cons.prems(3) _ Cons.prems(5) d(2,4), of "Suc i"] Cons.prems(1,2,4) d(3) by auto
  moreover have "mboxBufMatchCharAt (b\<lparr>buf_offset := i\<rparr>) CHR ''<'' 1 = Inr False"
    using x Cons.prems(4,5) by (simp add: mboxBufMatchCharAt_def)
  ultimately show ?case
    using Cons.prems(1,2,4) d(1) by (auto simp: copy_name.simps [of b i] mboxBufGetChar_def)
qed

lemma skip_spaces_text:
  assumes "text_at (buf_data b) i (ws @ [c])" and "list_all c_isspace ws" and "\<not> c_isspace c"
    and "i + length ws \<le> buf_len b"
  shows "skip_spaces b i = Inr (i + length ws)"
  using assms
proof (induction ws arbitrary: i)
  case Nil
  then show ?case by (simp add: skip_spaces.simps [of b i] mboxBufGetChar_def)
next
  case (Cons w ws)
  then have "skip_spaces b (Suc i) = Inr (Suc i + length ws)" by (intro Cons.IH) auto
  then show ?case using Cons.prems by (simp add: skip_spaces.simps [of b i] mboxBufGetChar_def)
qed

lemma alloc_roomy: "k + 10 + 256 * n \<le> PTRDIFF_MAX \<Longrightarrow> roomy (mboxBufAlloc k) n"
  by (simp add: roomy_def)

section \<open>The sections of a message\<close>

lemma list_ncmp_id_eq_0:
  "n \<le> length as \<Longrightarrow> n \<le> length bs \<Longrightarrow> NUL \<notin> set (take n bs) \<Longrightarrow>
   list_ncmp id n as bs = 0 \<longleftrightarrow> take n as = take n bs"
  by (induction "id :: mboxChar \<Rightarrow> mboxChar" n as bs rule: list_ncmp.induct) auto

text \<open>The text \<open>t\<close> stands at \<open>p\<close>.\<close>

definition stands_at :: "mboxChar list \<Rightarrow> mboxChar list \<Rightarrow> nat \<Rightarrow> bool" where
  "stands_at t s p \<longleftrightarrow> take (length t) (drop p s) = t"

lemma strncmp_boundary:
  assumes "buf_rep b s" and "buf_rep bd t" and "NUL \<notin> set t" and "p + length t \<le> length s"
  shows "\<exists>r. c_strncmp id (buf_data b) p (buf_data bd) 0 (buf_len bd) = Inr r \<and> (r = 0 \<longleftrightarrow> stands_at t s p)"
proof -
  have "c_strncmp id (buf_data b) p (buf_data bd) 0 (length t) = Inr (list_ncmp id (length t) (drop p s) t)"
    using assms by (intro c_strncmp_bytes) auto
  then show ?thesis
    using assms(3,4) buf_repD(1) [OF assms(2)] by (simp add: list_ncmp_id_eq_0 stands_at_def)
qed

lemma find_mark_before:
  assumes "buf_rep b s" and "i < p" and "p < length s" and "blk_read bm 0 = Inr (s ! p)"
  shows "\<exists>j. find_mark (buf_data b) bm i = Inr j \<and> i \<le> j \<and> j < p"
  using assms(2)
proof (induction "p - i" arbitrary: i)
  case (Suc d)
  have rd: "blk_read (buf_data b) i = Inr (s ! i)" "blk_read (buf_data b) (Suc i) = Inr (s ! Suc i)"
    using Suc.prems assms(1,3) by simp_all
  show ?case
  proof (cases "s ! i = CHR ''-'' \<or> Suc i = p")
    case True
    then show ?thesis using rd assms(4) Suc.prems by (auto simp: find_mark.simps [of _ _ i])
  next
    case False
    have d: "d = p - Suc i" using Suc.hyps(2) by simp
    have "Suc i < p" using False Suc.prems by simp
    then obtain j where "find_mark (buf_data b) bm (Suc i) = Inr j" "Suc i \<le> j" "j < p"
      using Suc.hyps(1) [OF d] by blast
    then show ?thesis using False rd assms(4) Suc.prems by (auto simp: find_mark.simps [of _ _ i])
  qed
qed simp

text \<open>The loop finds the first place behind the start at which the boundary stands.\<close>

lemma body_loop_text:
  assumes rep: "buf_rep b s" "buf_rep bd t" and t: "t \<noteq> []" "NUL \<notin> set t"
    and p: "p + length t \<le> length s" "stands_at t s p"
    and first: "\<And>q. start < q \<Longrightarrow> q < p \<Longrightarrow> \<not> stands_at t s q" and i: "start \<le> i" "i < p"
  shows "body_loop b bd start r i = take_body b bd start p"
  using i
proof (induction "p - i" arbitrary: i rule: less_induct)
  case less
  have "p < length s" using p(1) t(1) by (cases t) auto
  then have "s ! p = hd t" using p(2) t(1) by (metis hd_drop_conv_nth hd_take length_greater_0_conv stands_at_def)
  moreover have "blk_read (buf_data bd) 0 = Inr (hd t)" using rep(2) t(1) by (simp add: hd_conv_nth)
  ultimately obtain j where j: "find_mark (buf_data b) (buf_data bd) i = Inr j" "i \<le> j" "j < p"
    using find_mark_before [OF rep(1) less.prems(2), of "buf_data bd"] p(1) t(1) by (cases t) auto
  have lt: "i < buf_len b" using less.prems(2) p(1) buf_repD(1) [OF rep(1)] by simp
  have "Suc j + length t \<le> length s" using j(3) p(1) by simp
  then obtain c where "c_strncmp id (buf_data b) (Suc j) (buf_data bd) 0 (buf_len bd) = Inr c"
    "c = 0 \<longleftrightarrow> stands_at t s (Suc j)"
    using strncmp_boundary [OF rep t(2)] by blast
  then have is_b: "mboxParseIsBoundary (b\<lparr>buf_offset := Suc j\<rparr>) bd = Inr (stands_at t s (Suc j))"
    by (simp add: mboxParseIsBoundary_def)
  show ?case
  proof (cases "Suc j = p")
    case True
    then show ?thesis using lt j(1) is_b p(2) by (subst body_loop.simps) simp
  next
    case False
    then have "body_loop b bd start r (Suc j) = take_body b bd start p" "\<not> stands_at t s (Suc j)"
      using less.hyps [of "Suc j"] less.prems j first by auto
    then show ?thesis using lt j(1) is_b by (subst body_loop.simps) simp
  qed
qed

lemma take_body_text:
  assumes rep: "buf_rep b s" "buf_rep bd t" and fin: "buf_term b" and len: "length s < 2 ^ 50"
    and p: "start + 2 \<le> p" "p + length t \<le> length s"
  shows "\<exists>d. take_body b bd start p =
     Inr (Some d, if take 2 (drop (p + length t) s) = ''--'' then (MBOX_MSG_EOM, p + length t + 4)
                  else (MBOX_MSG_MATCH, p - 2)) \<and>
     buf_rep d (take (p - 2 - start) (drop start s))"
proof -
  define n where "n = p - 2 - start"
  let ?n = n and ?k = "p + length t"
  have p': "p = start + n + 2" using p(1) by (simp add: n_def)
  have sz: "size_sub (size_sub p 2) start = ?n" "size_add ?n 10 = ?n + 10"
    using p(2) len by (simp_all add: p')
  have l: "length (take ?n (drop start s)) = ?n" using p(2) by (simp add: p')
  have sp: "s = take start s @ take ?n (drop start s) @ drop ?n (drop start s)"
    by (simp only: append_take_drop_id)
  have src: "start + ?n \<le> length (buf_data b)" "take ?n (drop start (buf_data b)) = map Some (take ?n (drop start s))"
    using buf_rep_text_at [OF rep(1) sp, of start] l p(2) p' by (simp_all add: text_at_def)
  have "?n + 10 + 10 \<le> PTRDIFF_MAX" using p(2) len by (simp add: p')
  then obtain d where d: "mboxBufDupRaw (buf_data b) start ?n (?n + 10) = Inr d" "buf_rep d (take ?n (drop start s))"
    using mboxBufDupRaw_rep [of start "take ?n (drop start s)" "buf_data b" "?n + 10", unfolded l, OF src] by auto
  have rd: "blk_read (buf_data b) k = Inr (if k < length s then s ! k else NUL)" if "k \<le> length s" for k
    using that rep(1) fin buf_repD(1) [OF rep(1)] by (auto simp: buf_term_def blk_read_def buf_rep_nth)
  have two: "take 2 (drop ?k s) = ''--'' \<longleftrightarrow> Suc ?k < length s \<and> s ! ?k = CHR ''-'' \<and> s ! Suc ?k = CHR ''-''"
  proof (cases "Suc ?k < length s")
    case True
    then have "drop ?k s = s ! ?k # s ! Suc ?k # drop (Suc (Suc ?k)) s" by (simp add: Cons_nth_drop_Suc)
    then show ?thesis using True by (simp add: eval_nat_numeral)
  next
    case False
    then have "length (take 2 (drop ?k s)) < 2" using p by simp
    then show ?thesis using False by (metis One_nat_def Suc_1 length_Cons less_irrefl list.size(3))
  qed
  have eom: "bindE (blk_read (buf_data b) ?k) (\<lambda>c. bindE (if c = CHR ''-'' then bindE (blk_read (buf_data b) (?k + 1))
          (\<lambda>d. Inr (d = CHR ''-'')) else Inr False) f) = f (take 2 (drop ?k s) = ''--'')" for f
  proof (cases "?k < length s")
    case True
    then have "blk_read (buf_data b) ?k = Inr (s ! ?k)"
      "blk_read (buf_data b) (Suc ?k) = Inr (if Suc ?k < length s then s ! Suc ?k else NUL)"
      using rd [of ?k] rd [of "Suc ?k"] by simp_all
    then show ?thesis unfolding two by simp
  next
    case False
    then have "blk_read (buf_data b) ?k = Inr NUL" using rd [of ?k] p(2) by simp
    then show ?thesis using False unfolding two by simp
  qed
  show ?thesis
    unfolding take_body_def Let_def mboxBufLen_def sz buf_repD(1) [OF rep(2)] d(1) bindE.simps eom
    using d(2) by (intro exI [of _ d]) (simp add: n_def)
qed
text \<open>The headers of a section, behind the line breaks after the boundary.\<close>

lemma mboxParseEmailHeaders_at:
  assumes rep: "buf_rep b (pre @ nl @ hdrs_text hs @ eol @ body)" and "buf_term b" and off: "buf_offset b = length pre"
    and nl: "list_all isLine nl" and hs: "hs \<noteq> []" "list_all hdr_ok hs" and eol: "eol \<noteq> []" "list_all isLine eol"
    and body: "body \<noteq> []" "\<not> isLine (hd body)" and len: "buf_len b < 2 ^ 50" and "0 < rh_fresh h"
  shows "\<exists>h' t'. mboxParseEmailHeaders h b =
       Inr (h', t', b\<lparr>buf_offset := length (pre @ nl @ hdrs_text hs @ eol)\<rparr>) \<and>
     headers_are h' t' (foldl add_name [] (map hdr_entry hs))"
proof -
  let ?m = "buf_data b" and ?H = "hdrs_text hs"
  define i where "i = length (pre @ nl)"
  obtain h0 t0 where n: "header_tree h = (h0, t0)" by fastforce
  have h0: "headers_are h0 t0 []" by (rule headers_are_new [OF assms(12) n])
  have ln: "buf_len b = i + length ?H + length eol + length body"
    using buf_repD(1) [OF rep] by (simp add: i_def)
  note tx = buf_rep_text [OF rep]
  have he: "text_at ?m i (?H @ eol)" using tx by (simp add: i_def add.assoc)
  have c: "blk_read ?m (i + length ?H + length eol) = Inr (hd body)"
    using tx body(1) by (cases body) (simp_all add: i_def add.assoc)
  obtain e hs' where hs': "hs = e # hs'" using hs(1) by (cases hs) auto
  have e: "hdr_ok e" "text_at ?m i (hdr_text e)" using hs(2) he by (simp_all add: hs' hdrs_text_def)
  have "scan_while isLine ?m (length pre) = Inr i"
  proof -
    obtain x where "blk_read ?m i = Inr x" "\<not> isLine x" using hdr_text_starts [OF e] by blast
    moreover have "text_at ?m (length pre) nl" using tx by simp
    ultimately show ?thesis using scan_while_text [of ?m "length pre" nl isLine x] nl by (simp add: i_def)
  qed
  moreover have nf: "parse_from_line b h0 t0 (mboxBufAlloc 3000) i = Inr (h0, t0, mboxBufAlloc 3000, i)"
    using no_from_line [OF e] by (simp add: parse_from_line_def mboxBufMatchFromLine_def del: match_text.simps)
  have lH: "length hs \<le> length ?H"
    unfolding hdrs_text_def by (induction hs) (auto simp: hdr_text_def)
  have room: "roomy (mboxBufAlloc 3000) (length ?H)" using ln len by (intro alloc_roomy) simp
  have small: "length ([] :: (mboxChar list \<times> mboxChar list) list) + length hs < SIZE_MOD"
    "length ([] :: mboxChar list) + length ?H + 10 \<le> PTRDIFF_MAX" "i + length ?H + length eol \<le> buf_len b"
    using lH ln len by simp_all
  have key: "buf_rep (mboxBufAlloc 3000) []" by (rule mboxBufAlloc_rep) simp
  obtain h2 t2 where "header_loop b h0 t0 (mboxBufAlloc 3000) (mboxBufAlloc 3000) i = Inr (h2, t2, i + length ?H + length eol)"
    "headers_are h2 t2 (foldl add_name [] (hdr_entries [] hs))"
    using header_loop_text [OF hs he eol c body(2) small(3) h0 small(1) key key room room small(2) nf] by blast
  ultimately show ?thesis
    using off n by (simp add: mboxParseEmailHeaders_def hdr_entries_Nil i_def add.assoc)
qed

lemma stands_at_append: "k = length u \<Longrightarrow> stands_at t (u @ s) (k + q) = stands_at t s q"
  by (simp add: stands_at_def)

lemma stands_at_prefix: "q + length t \<le> length s \<Longrightarrow> stands_at t (s @ v) q = stands_at t s q"
  by (simp add: stands_at_def)

lemma mboxIsEOM_match:
  assumes rep: "buf_rep b s" "buf_rep bd t" and t: "NUL \<notin> set t" and len: "length s < 2 ^ 50"
    and s: "s = u @ ''--'' @ t @ c # v" "v \<noteq> []" "c \<noteq> CHR ''-''" and off: "buf_offset b = length u"
  shows "mboxIsEOM b bd = Inr (MBOX_MSG_MATCH, b\<lparr>buf_offset := length u + 2 + length t\<rparr>)"
proof -
  have l: "buf_len b = length u + length t + length v + 3" "buf_len bd = length t" "length v \<noteq> 0"
    using buf_repD(1) [OF rep(1)] buf_repD(1) [OF rep(2)] s(1,2) by simp_all
  have tx: "text_at (buf_data b) (length u) (''--'' @ t @ c # v)"
    using buf_rep_text [OF rep(1)] by (simp add: s(1))
  have "stands_at t s (length u + 2)" by (simp add: s(1) stands_at_def)
  then have "c_strncmp id (buf_data b) (length u + 2) (buf_data bd) 0 (length t) = Inr 0"
    using strncmp_boundary [OF rep t, of "length u + 2"] l(2) s(1) by auto
  moreover have "\<not> mboxBufWouldOverflow b (size_add 3 (mboxBufLen bd))"
    using l len s(1) off by (auto simp: mboxBufWouldOverflow_def mboxBufLen_def not_less Suc_le_eq)
  moreover have "mboxBufMatchCharAt b CHR ''-'' 1 = Inr True" "mboxBufMatchChar b CHR ''-'' = Inr True"
    using tx off l(1) len s(1) by (simp_all add: mboxBufMatchCharAt_def mboxBufMatchChar_def)
  moreover have "blk_read (buf_data b) (length u + 2 + length t) = Inr c" using tx by simp
  ultimately show ?thesis using off l(2) s(3) by (simp add: mboxIsEOM_def Let_def)
qed


text \<open>The line that stands between two sections.\<close>

definition dashed :: "mboxChar list \<Rightarrow> mboxChar list" where
  "dashed t = ''--'' @ t"

section \<open>Properties\<close>

text \<open>
  C14. A section of a multipart message, from its boundary to the next, is read into the tree of its
  headers and its body, the text up to the two dashes before the next boundary. At another
  boundary than the last the reader is back at the dashes before it, so the next call reads the next section. At the
  boundary that ends the message it reports the end and leaves the offset two bytes behind the dashes that
  end \<open>--<boundary>--\<close>, also when the buffer has no such bytes: the comment there says that it moves to the end
  of that mark. When exactly three bytes stand behind these dashes, the end is reported as that of the buffer. No
  dash stands between the place where the call begins and the first boundary, and the boundary does not occur in the body, with
  or without dashes before it.
\<close>

theorem mboxParseMulitpartAlternative_section:
  assumes rep: "buf_rep (mc_buf ctx)
      (pre @ junk @ dashed t @ nl @ hdrs_text hs @ eol @ body @ dashed t @ tail)"
    and fin: "buf_term (mc_buf ctx)" and off: "buf_offset (mc_buf ctx) = length pre" and bd: "buf_rep bd t"
    and junk: "CHR ''-'' \<notin> set junk" and t: "t \<noteq> []" "NUL \<notin> set t"
    and nl: "nl \<noteq> []" "list_all isLine nl" and hs: "hs \<noteq> []" "list_all hdr_ok hs"
    and eol: "eol \<noteq> []" "list_all isLine eol" and body: "\<not> isLine (hd (body @ dashed t))"
    and first: "\<forall>q. 0 < q \<and> q < length body + 2 \<longrightarrow> \<not> stands_at t (body @ dashed t) q"
    and len: "buf_len (mc_buf ctx) < 2 ^ 50" and fresh: "0 < rh_fresh h"
  shows "\<exists>r alt d h' ctx'. mboxParseMulitpartAlternative h ctx bd = Inr (r, Some alt, h', ctx') \<and>
     headers_are h' (mm_headers alt) (foldl add_name [] (map hdr_entry hs)) \<and>
     mm_body alt = Some d \<and> buf_rep d body \<and>
     (r, buf_offset (mc_buf ctx')) =
       (let p = length (pre @ junk @ dashed t @ nl @ hdrs_text hs @ eol @ body)
        in if take 2 tail = ''--''
           then (if length tail = 5 then MBOX_MSG_EOF else MBOX_MSG_EOM, p + (4 + length t) + 2)
           else (MBOX_MSG_MATCH, p))"
proof -
  let ?b = "mc_buf ctx" and ?u = "pre @ junk" and ?rest = "hdrs_text hs @ eol @ body @ dashed t @ tail"
  let ?s = "?u @ dashed t @ nl @ ?rest" and ?v = "?u @ dashed t @ nl @ hdrs_text hs @ eol"
  have rep': "buf_rep ?b ?s" using rep by simp
  have ls: "buf_len ?b = length ?s" "length ?s < 2 ^ 50" using buf_repD(1) [OF rep'] len by simp_all
  have scan: "scan_while (\<lambda>c. c \<noteq> CHR ''-'') (buf_data ?b) (length pre) = Inr (length ?u)"
    using scan_while_text [of "buf_data ?b" "length pre" junk "\<lambda>c. c \<noteq> CHR ''-''" "CHR ''-''"]
      buf_rep_text [OF rep'] junk by (auto simp: dashed_def list_all_iff)
  obtain c nl' where c: "nl = c # nl'" "c \<noteq> CHR ''-''" using nl by (cases nl) (auto simp: isLine_def)
  let ?b1 = "?b\<lparr>buf_offset := length ?u\<rparr>" and ?b2 = "?b\<lparr>buf_offset := length (?u @ dashed t)\<rparr>"
  have eom: "mboxIsEOM ?b1 bd = Inr (MBOX_MSG_MATCH, ?b2)"
    using mboxIsEOM_match [of ?b1 ?s bd t ?u c "nl' @ ?rest"] rep' bd t(2) ls(2) c eol(1)
    by (simp add: dashed_def)
  have rep2: "buf_rep ?b2 ((?u @ dashed t) @ nl @ hdrs_text hs @ eol @ (body @ dashed t @ tail))" using rep' by simp
  have b2: "buf_term ?b2" "buf_offset ?b2 = length (?u @ dashed t)" "body @ dashed t @ tail \<noteq> []"
    "\<not> isLine (hd (body @ dashed t @ tail))" "buf_len ?b2 < 2 ^ 50"
    using fin body len by (auto simp: dashed_def hd_append)
  obtain h' hd' where hd': "mboxParseEmailHeaders h ?b2 = Inr (h', hd', ?b2\<lparr>buf_offset := length ?v\<rparr>)"
    "headers_are h' hd' (foldl add_name [] (map hdr_entry hs))"
    using mboxParseEmailHeaders_at [OF rep2 b2(1,2) nl(2) hs eol b2(3-5) fresh] by auto
  define start where "start = length ?v"
  define p where "p = start + length body + 2"
  have s: "?s = ?v @ (body @ dashed t) @ tail" by simp
  have p: "start + 2 \<le> p" "p + length t \<le> length ?s" by (simp_all add: p_def start_def dashed_def)
  have st: "stands_at t ?s (start + q) = stands_at t (body @ dashed t) q" if "q \<le> length body + 2" for q
    unfolding s using that stands_at_prefix [of q t "body @ dashed t" tail]
    by (simp only: stands_at_append [OF start_def]) (simp add: dashed_def)
  have here: "stands_at t ?s p"
    using st [of "length body + 2"] by (simp add: p_def add.assoc stands_at_def dashed_def)
  have before: "\<not> stands_at t ?s q" if "start < q" "q < p" for q
    using st [of "q - start"] first that by (simp add: p_def)
  let ?b3 = "?b\<lparr>buf_offset := start\<rparr>"
  have rep3: "buf_rep ?b3 ?s" "buf_term ?b3" using rep' fin by simp_all
  have "body_loop ?b3 bd start MBOX_MSG_MATCH start = take_body ?b3 bd start p"
    by (rule body_loop_text [OF rep3(1) bd t p(2) here before]) (use p in simp_all)
  moreover have "take 2 (drop (p + length t) ?s) = take 2 tail"
  proof -
    have "p + length t = length (?v @ body @ dashed t)" by (simp add: p_def start_def dashed_def)
    moreover have "?s = (?v @ body @ dashed t) @ tail" by simp
    ultimately show ?thesis by (metis append_eq_conv_conj)
  qed
  moreover have "take (p - 2 - start) (drop start ?s) = body"
  proof -
    have "drop start ?s = body @ dashed t @ tail" unfolding s start_def by (metis append.assoc append_eq_conv_conj)
    then show ?thesis by (simp add: p_def)
  qed
  ultimately obtain d where d: "body_loop ?b3 bd start MBOX_MSG_MATCH start =
       Inr (Some d, if take 2 tail = ''--'' then (MBOX_MSG_EOM, p + length t + 4) else (MBOX_MSG_MATCH, p - 2))"
     "buf_rep d body"
    using take_body_text [OF rep3(1) bd rep3(2) ls(2) p] by auto
  have lb: "buf_len ?b = p + length t + length tail" using ls(1) by (simp add: p_def start_def dashed_def)
  moreover have "Suc (p - 2) < p" using p(1) by simp
  ultimately have at_end: "Suc (p - 2) \<noteq> buf_len ?b" "Suc (p + length t + 4) = buf_len ?b \<longleftrightarrow> length tail = 5" by auto
  have "mboxParseMessageBody (ctx\<lparr>mc_buf := ?b3\<rparr>) bd MBOX_MSG_MATCH =
      Inr (Some d, if take 2 tail = ''--'' then (if length tail = 5 then MBOX_MSG_EOF else MBOX_MSG_EOM) else MBOX_MSG_MATCH,
        ctx\<lparr>mc_buf := ?b\<lparr>buf_offset := (if take 2 tail = ''--'' then p + length t + 4 else p - 2)\<rparr>\<rparr>)"
    using d(1) at_end
    by (cases "take 2 tail = ''--''") (simp_all add: mboxParseMessageBody_def mboxBufGetOffset_def Let_def)
  then show ?thesis
    using scan eom hd' d(2) off
    by (simp add: mboxParseMulitpartAlternative_def section_loop.simps [of h ctx bd] msg_codes start_def [symmetric])
      (simp add: p_def start_def dashed_def)
qed

definition msg_ctx :: "string \<Rightarrow> string \<Rightarrow> mboxParserMsgCtx" where
  "msg_ctx s t = \<lparr>mc_buf = text_buf s, mc_end_boundary = text_buf t, mc_err = 0, mc_headers = None\<rparr>"

theorem mboxParseMulitpartAlternative_section_witness:
  "\<exists>alt d h' ctx'. mboxParseMulitpartAlternative no_nodes
       (msg_ctx (''x--B1'' @ [LF] @ ''To: a'' @ [LF, LF] @ ''hi'' @ [LF] @ ''--B1--'') ''B1'') (text_buf ''B1'') =
       Inr (MBOX_MSG_EOM, Some alt, h', ctx') \<and>
     headers_are h' (mm_headers alt) [(''To'', ''a'')] \<and> mm_body alt = Some d \<and> buf_rep d (''hi'' @ [LF]) \<and>
     buf_offset (mc_buf ctx') = 24"
proof -
  let ?hs = "[(''To'', [''a''])]" and ?body = "''hi'' @ [LF]"
  let ?s = "[] @ ''x'' @ dashed ''B1'' @ [LF] @ hdrs_text ?hs @ [LF] @ ?body @ dashed ''B1'' @ ''--''"
  have s: "?s = ''x--B1'' @ [LF] @ ''To: a'' @ [LF, LF] @ ''hi'' @ [LF] @ ''--B1--''"
    by (simp add: hdrs_text_def hdr_text_def folded_def dashed_def)
  have e: "foldl add_name [] (map hdr_entry ?hs) = [(''To'', ''a'')]"
    by (simp add: hdr_entry_def kept_def add_name_def has_name_def)
  have ok: "list_all hdr_ok ?hs"
    by (simp add: hdr_ok_def Let_def kept_def lines_ok_def goes_on_def isLine_def MIME_PREFIX_def)
  have first: "\<forall>q. 0 < q \<and> q < length ?body + 2 \<longrightarrow> \<not> stands_at ''B1'' (?body @ dashed ''B1'') q"
    by (auto simp: stands_at_def dashed_def less_Suc_eq numeral_eq_Suc)
  have b: "buf_rep (text_buf ?s) ?s" "buf_term (text_buf ?s)" "buf_rep (text_buf ''B1'') ''B1''"
    using text_buf_rep [of ?s] text_buf_rep [of "''B1''"] unfolding s by simp_all
  show ?thesis
    using mboxParseMulitpartAlternative_section [of "msg_ctx ?s ''B1''" "[]" "''x''" "''B1''" "[LF]" ?hs "[LF]" ?body "''--''"
        "text_buf ''B1''" no_nodes] b ok first e unfolding s
    by (simp add: msg_ctx_def isLine_def no_nodes_def dashed_def hdrs_text_def hdr_text_def folded_def)
qed

text \<open>
  C16. A sender of the form \<open>Name <address>\<close> or \<open>"Name" <address>\<close> is taken apart into the name and
  the address. The loop of the address stops at an opening bracket where the closing one was
  meant, so the address keeps the closing bracket and what follows it.
\<close>

theorem mboxParseFrom_correct:
  assumes rep: "buf_rep b (ws @ q @ name @ q @ '' <'' @ addr @ ''>'' @ rest)" and fin: "buf_term b"
    and "buf_offset b = 0" and ws: "list_all c_isspace ws" and q: "q = [] \<or> q = [CHR 0x22]"
    and name: "name \<noteq> []" "\<not> c_isspace (hd name)" "set name \<inter> {CHR ''<'', CHR 0x22, NUL} = {}"
      "take 10 name \<noteq> MIME_PREFIX"
    and mail: "set (addr @ rest) \<inter> {CHR ''<'', NUL} = {}" and len: "buf_len b < 2 ^ 50"
  shows "\<exists>n e b'. mboxParseFrom b = Inr (Some n, e, b') \<and> buf_rep n name \<and> buf_rep e (addr @ ''>'' @ rest)"
proof -
  let ?m = "buf_data b" and ?w = "length ws" and ?mail = "addr @ ''>'' @ rest"
  have lb: "buf_len b = ?w + 2 * length q + length name + 2 + length ?mail"
    using buf_repD(1) [OF rep] by simp
  obtain c name' where cn: "name = c # name'" "c \<noteq> CHR ''<''" "c \<noteq> CHR 0x22" using name(1,3) by (cases name) auto
  define c0 where "c0 = hd (q @ name)"
  have c0: "text_at ?m 0 (ws @ [c0])" "\<not> c_isspace c0" "c0 \<noteq> CHR ''<''" "c0 = CHR 0x22 \<longleftrightarrow> q \<noteq> []"
    using buf_rep_text [OF rep] q name(2) cn by (auto simp: c0_def c_isspace_def byte_def)
  have skip: "skip_spaces b 0 = Inr ?w"
    using skip_spaces_text [OF c0(1) ws c0(2)] lb by simp
  have rd: "blk_read ?m ?w = Inr c0" using c0(1) by simp
  define i where "i = ?w + length q"
  define stop where "stop = q @ take (2 - 2 * length q) '' <''"
  have i: "(if c0 = CHR 0x22 then Suc ?w else ?w) = i" using c0(4) q by (auto simp: i_def)
  have stop: "stop = [CHR 0x22] \<or> stop = '' <''" "i + length name + length stop \<le> buf_len b"
    "text_at ?m i (name @ stop)"
    using buf_rep_text [OF rep] buf_repD(1,2) [OF rep] q lb by (auto simp: stop_def i_def)
  obtain n where n: "copy_name b i (mboxBufAlloc 100) = Inr (i + length name, n)" "buf_rep n name" "buf_term n"
    using copy_name_text [OF stop(3) name(3) stop(1,2) len, of "mboxBufAlloc 100" "[]"]
      mboxBufAlloc_rep [of 100] alloc_roomy [of 100 "length name"] lb len name(1) by auto
  have scan: "scan_while (\<lambda>c. c \<noteq> CHR ''<'') ?m (i + length name) = Inr (i + length name + length q + 1)"
    using scan_while_text [of ?m "i + length name" "q @ '' ''" "\<lambda>c. c \<noteq> CHR ''<''" "CHR ''<''"]
      buf_rep_text [OF rep] buf_repD(1,2) [OF rep] lb q by (auto simp: i_def add.assoc)
  have mime: "mboxBufIsMimeEncoded n = Inr False"
    using is_mime_no [OF n(2,3) _ name(4)] name(3) by simp
  let ?k = "i + length name + length q + 2"
  have k: "?k + length ?mail = buf_len b" "text_at ?m ?k ?mail"
    using buf_rep_text [OF rep] lb by (simp_all add: i_def add.assoc)
  have "blk_read ?m (?k + length ?mail) = Inr NUL" using fin k(1) by (simp add: buf_term_def blk_read_def)
  then obtain e where "put_until (\<lambda>c. c = CHR ''<'' \<or> c = NUL) (\<lambda>c. True) b ?k (mboxBufAlloc 100) = Inr (?k + length ?mail, e)"
    "buf_rep e ([] @ filter (\<lambda>c. True) ?mail)"
    using put_until_text [OF k(2), of "\<lambda>c. c = CHR ''<'' \<or> c = NUL" NUL "mboxBufAlloc 100" "[]" "\<lambda>c. True"]
      mboxBufAlloc_rep [of 100] alloc_roomy [of 100 "length ?mail"] lb len mail k(1)
    by (auto simp: list_all_iff)
  then show ?thesis
    using assms(3) skip rd c0(3) n scan mime i
    by (auto simp: mboxParseFrom_def mboxBufMatchChar_def eval_nat_numeral)
qed

theorem mboxParseFrom_correct_witness:
  "\<exists>n e b'. mboxParseFrom (text_buf ('' '' @ [CHR 0x22] @ ''Al B'' @ [CHR 0x22] @ '' <a@b>'')) = Inr (Some n, e, b') \<and>
     buf_rep n ''Al B'' \<and> buf_rep e ''a@b>''"
  using mboxParseFrom_correct [of "text_buf ('' '' @ [CHR 0x22] @ ''Al B'' @ [CHR 0x22] @ '' <a@b>'')" "'' ''"
      "[CHR 0x22]" "''Al B''" "''a@b''" "[]"]
    text_buf_rep [of "'' '' @ [CHR 0x22] @ ''Al B'' @ [CHR 0x22] @ '' <a@b>''"]
  by (simp add: c_isspace_def byte_def MIME_PREFIX_def)

text \<open>
  C15. A message loops for ever when two dashes stand so near to its end that the boundary and one more byte do not
  fit behind them, and the boundary line does not occur before that, where it would fit: the
  parser of the message has no case for this answer and looks at the same dashes again. What
  else stands before the dashes, hyphens and other pairs of dashes included, does not matter. A message
  that ends in \<open>--boundary--\<close> is none of these: there the boundary does occur.
\<close>

theorem mboxParserParseMessage_hangs:
  assumes "buf_rep (mc_buf ctx) s" and "buf_rep (mc_end_boundary ctx) t" and "NUL \<notin> set t"
    and "take 2 (drop p s) = ''--''" and "length s < p + 3 + length t"
    and "\<forall>k. k + 3 + length t \<le> length s \<longrightarrow> \<not> stands_at (dashed t) s k"
    and "length s < 2 ^ 50" and "length t < 2 ^ 50"
  shows "mboxParserParseMessage h ctx = Inl Diverges"
proof -
  let ?P = "\<lambda>k. take 2 (drop k s) = ''--'' \<and> length s < k + 3 + length t"
  define q where "q = (LEAST k. ?P k)"
  have q: "take 2 (drop q s) = ''--''" "length s < q + 3 + length t"
    using LeastI [of ?P p] assms(4,5) by (simp_all add: q_def)
  have least: "\<not> ?P k" if "k < q" for k using not_less_Least [of k ?P] that by (simp add: q_def)
  have ql: "q + 2 \<le> length s" using arg_cong [OF q(1), of length] by simp
  have two: "take 2 (drop k s) = ''--'' \<longleftrightarrow> s ! k = CHR ''-'' \<and> s ! Suc k = CHR ''-''" if "k + 2 \<le> length s" for k
  proof -
    have "drop k s = s ! k # s ! Suc k # drop (Suc (Suc k)) s" using that by (simp add: Cons_nth_drop_Suc)
    then show ?thesis by (simp add: eval_nat_numeral)
  qed
  have bl: "buf_len (mc_end_boundary ctx) = length t" using buf_repD(1) [OF assms(2)] by simp
  have "message_loop h c i = Inl Diverges"
    if hyp: "buf_rep (mc_buf c) s" "mc_end_boundary c = mc_end_boundary ctx" "i \<le> q" for c i
    using hyp(3)
  proof (induction "q - i" arbitrary: i rule: less_induct)
    case less
    note rep = hyp(1)
    have lb: "buf_len (mc_buf c) = length s" using buf_repD(1) [OF rep] by simp
    define i1 where "i1 = (LEAST k. i \<le> k \<and> s ! k = CHR ''-'')"
    have at_q: "s ! q = CHR ''-''" "s ! Suc q = CHR ''-''" using two [OF ql] q(1) by simp_all
    have i1: "i \<le> i1" "s ! i1 = CHR ''-''"
      using LeastI [of "\<lambda>k. i \<le> k \<and> s ! k = CHR ''-''" q] less.prems at_q(1) by (simp_all add: i1_def)
    have iq: "i1 \<le> q" using Least_le [of "\<lambda>k. i \<le> k \<and> s ! k = CHR ''-''" q] less.prems at_q(1) by (simp add: i1_def)
    have none: "s ! k \<noteq> CHR ''-''" if "i \<le> k" "k < i1" for k
      using not_less_Least [of k "\<lambda>k. i \<le> k \<and> s ! k = CHR ''-''"] that by (simp add: i1_def)
    have scan: "scan_while (\<lambda>c. c \<noteq> CHR ''-'') (buf_data (mc_buf c)) i = Inr i1"
    proof -
      have "take i1 s = take i s @ take (i1 - i) (drop i s)" using take_add [of i "i1 - i" s] i1(1) by simp
      then have "s = take i s @ take (i1 - i) (drop i s) @ drop i1 s" by (metis append.assoc append_take_drop_id)
      then have "text_at (buf_data (mc_buf c)) i (take (i1 - i) (drop i s))"
        by (rule buf_rep_text_at [OF rep]) (use i1(1) iq ql in simp)
      moreover have "list_all (\<lambda>c. c \<noteq> CHR ''-'') (take (i1 - i) (drop i s))"
        unfolding list_all_length using none i1(1) by auto
      ultimately show ?thesis
        using scan_while_text [of "buf_data (mc_buf c)" i "take (i1 - i) (drop i s)" "\<lambda>c. c \<noteq> CHR ''-''" "CHR ''-''"]
          i1 iq ql buf_rep_read [OF rep, of i1] by (simp add: min_absorb2)
    qed
    let ?b = "(mc_buf c)\<lparr>buf_offset := i1\<rparr>"
    have small: "size_add i1 (size_add 3 (length t)) = i1 + (3 + length t)" "size_add (Suc 0) i1 = Suc i1" "size_add i1 (Suc 0) = Suc i1"
      using assms(7,8) iq ql by simp_all
    have rd: "mboxBufMatchChar ?b CHR ''-'' = Inr True" "mboxBufMatchCharAt ?b CHR ''-'' 1 = Inr (s ! Suc i1 = CHR ''-'')"
      using i1 iq ql buf_rep_read [OF rep, of i1] buf_rep_read [OF rep, of "Suc i1"] lb small
      by (simp_all add: mboxBufMatchChar_def mboxBufMatchCharAt_def)
    have over: "mboxBufWouldOverflow ?b (size_add 3 (mboxBufLen (mc_end_boundary c))) \<longleftrightarrow> length s < i1 + 3 + length t"
      using small lb bl hyp(2) by (simp add: mboxBufWouldOverflow_def mboxBufLen_def add.assoc)
    have lt: "i1 < buf_len (mc_buf c)" "i < buf_len (mc_buf c)" using i1(1) iq ql lb by linarith+
    show ?case
    proof (cases "i1 = q")
      case True
      then have "mboxIsEOM ?b (mc_end_boundary c) = Inr (MBOX_MSG_EOF, ?b)"
        using rd over at_q(2) q(2) by (simp add: mboxIsEOM_def Let_def)
      then show ?thesis using scan lt by (simp add: message_loop.simps [of h c i] Let_def msg_codes)
    next
      case False
      then have iq': "i1 < q" using iq by simp
      have "mboxIsEOM ?b (mc_end_boundary c) = Inr (MBOX_MSG_NO_MATCH, ?b)"
      proof (cases "s ! Suc i1 = CHR ''-''")
        case True
        then have dd: "take 2 (drop i1 s) = ''--''" using two [of i1] i1(2) iq' ql by simp
        then have fits: "i1 + 3 + length t \<le> length s" using least [OF iq'] by simp
        obtain r where r: "c_strncmp id (buf_data (mc_buf c)) (i1 + 2) (buf_data (mc_end_boundary c)) 0 (length t) = Inr r"
          "r = 0 \<longleftrightarrow> stands_at t s (i1 + 2)"
          using strncmp_boundary [OF rep assms(2,3), of "i1 + 2"] fits bl hyp(2) by auto
        have "drop i1 s = ''--'' @ drop (i1 + 2) s"
          using dd append_take_drop_id [of 2 "drop i1 s"] by (simp add: add.commute)
        then have "stands_at t s (i1 + 2) \<longleftrightarrow> stands_at (dashed t) s i1" by (simp add: stands_at_def dashed_def)
        then have "r \<noteq> 0" using r(2) assms(6) fits by simp
        then show ?thesis using rd over True fits r(1) bl hyp(2) by (simp add: mboxIsEOM_def Let_def)
      qed (use rd in \<open>simp add: mboxIsEOM_def Let_def\<close>)
      moreover have "message_loop h c (Suc i1) = Inl Diverges"
        using i1(1) iq' by (intro less.hyps) simp_all
      ultimately show ?thesis using scan lt by (simp add: message_loop.simps [of h c i] Let_def msg_codes)
    qed
  qed
  then show ?thesis using assms(1) by (simp add: mboxParserParseMessage_def mboxBufSetOffset_def)
qed

theorem mboxParserParseMessage_hangs_witness:
  "mboxParserParseMessage no_nodes
     (msg_ctx (''Message-ID: a-b'' @ [LF, LF] @ ''Regards'' @ [LF] @ ''-- Bob'') ''frontier'') = Inl Diverges"
proof -
  let ?s = "''Message-ID: a-b'' @ [LF, LF] @ ''Regards'' @ [LF] @ ''-- Bob''"
  have "list_all (\<lambda>k. \<not> stands_at (dashed ''frontier'') ?s k) [0..<22]" by code_simp
  then have "\<forall>k. k + 3 + length ''frontier'' \<le> length ?s \<longrightarrow> \<not> stands_at (dashed ''frontier'') ?s k"
    by (auto simp: list_all_iff)
  then show ?thesis
    using mboxParserParseMessage_hangs [of "msg_ctx ?s ''frontier''" ?s "''frontier''" 25 no_nodes]
      text_buf_rep [of ?s] text_buf_rep [of "''frontier''"]
    by (simp add: msg_ctx_def)
qed

text \<open>
  C17. The boundary of a multipart message is the quoted text behind the first \<open>=\<close> after the first
  letter \<open>b\<close> of the content type.
\<close>

theorem parseBoundaryMark_quoted:
  assumes "buf_rep b (pre @ ''b'' @ mid @ ''='' @ [CHR 0x22] @ t @ [CHR 0x22] @ rest)" and "buf_offset b = 0"
    and "set pre \<inter> {CHR ''b'', NUL} = {}" and "set mid \<inter> {CHR ''='', NUL} = {}" and "CHR 0x22 \<notin> set t"
    and "buf_len b < 2 ^ 50"
  shows "\<exists>d b'. parseBoundaryMark b = Inr (Some d, b') \<and> buf_rep d t"
proof -
  let ?m = "buf_data b" and ?i = "length pre" and ?j = "length pre + 1 + length mid"
  have len: "buf_len b = ?j + 2 + length t + 1 + length rest" using buf_repD(1) [OF assms(1)] by simp
  have tx: "text_at ?m 0 pre" "text_at ?m ?i (''b'' @ mid)" "text_at ?m ?j (''='' @ [CHR 0x22])" "text_at ?m (?j + 2) t"
    "blk_read ?m (?j + 2 + length t) = Inr CHR 0x22"
    using buf_rep_text [OF assms(1)] buf_repD(1,2) [OF assms(1)] by (simp_all add: add.assoc)
  have b: "scan_while (\<lambda>c. c \<noteq> CHR ''b'' \<and> c \<noteq> NUL) ?m 0 = Inr ?i"
    using scan_while_text [of ?m 0 pre "\<lambda>c. c \<noteq> CHR ''b'' \<and> c \<noteq> NUL" "CHR ''b''"] tx(1,2) assms(3)
    by (auto simp: list_all_iff)
  have e: "scan_while (\<lambda>c. c \<noteq> CHR ''='' \<and> c \<noteq> NUL) ?m ?i = Inr ?j"
    using scan_while_text [of ?m ?i "''b'' @ mid" "\<lambda>c. c \<noteq> CHR ''='' \<and> c \<noteq> NUL" "CHR ''=''"] tx(2,3) assms(4)
    by (auto simp: list_all_iff)
  obtain d where "put_until (\<lambda>c. c = CHR 0x22) (\<lambda>c. True) b (?j + 2) (mboxBufAlloc 200) = Inr (?j + 2 + length t, d)"
    "buf_rep d ([] @ filter (\<lambda>c. True) t)"
    using put_until_text [OF tx(4), of "\<lambda>c. c = CHR 0x22" "CHR 0x22" "mboxBufAlloc 200" "[]" "\<lambda>c. True"]
      mboxBufAlloc_rep [of 200] alloc_roomy [of 200 "length t"] len assms(5,6) tx(5)
    by (auto simp: list_all_iff)
  then show ?thesis
    using assms(2) b e tx(2,3) by (simp add: parseBoundaryMark_def mboxBufMatchChar_def Let_def)
qed

theorem parseBoundaryMark_quoted_witness:
  "\<exists>d b'. parseBoundaryMark (text_buf (''multipart/alternative; boundary='' @ [CHR 0x22] @ ''B1'' @ [CHR 0x22])) =
     Inr (Some d, b') \<and> buf_rep d ''B1''"
  using parseBoundaryMark_quoted [of "text_buf (''multipart/alternative; boundary='' @ [CHR 0x22] @ ''B1'' @ [CHR 0x22])"
      "''multipart/alternative; ''" "''oundary''" "''B1''" "[]"]
    text_buf_rep [of "''multipart/alternative; boundary='' @ [CHR 0x22] @ ''B1'' @ [CHR 0x22]"]
  by simp

end
