(* ===== verification/Mbox_Remove.thy ===== *)
theory Mbox_Remove
  imports Mbox_Index
begin

text \<open>
  The program of \<open>src/delete-from-file/main.c\<close>, which takes a range of bytes out of a file by moving
  what is behind it to the front. The system calls are a parameter as in \<open>Mbox_Index\<close>, with two more.
  The program ends in \<open>panic\<close> where the result is \<open>None\<close>.
\<close>

section \<open>The program\<close>

record 'w rm_sys = "'w sys" +
  s_read :: "'w \<Rightarrow> int \<Rightarrow> nat \<Rightarrow> mboxChar list option \<times> 'w"
  s_ftruncate :: "'w \<Rightarrow> int \<Rightarrow> int \<Rightarrow> 'w"

record fileCtx =
  f_fd :: int
  f_file_size :: nat
  f_buflen :: nat
  f_bufoff :: nat
  f_buf :: block

definition O_RDWR :: int where "O_RDWR = 2"

definition fileOpen :: "('w, 'z) rm_sys_scheme \<Rightarrow> 'w \<Rightarrow> string \<Rightarrow> c_error + (fileCtx option \<times> 'w)" where
  "fileOpen sys w path =
     (case s_open sys w path O_RDWR MODE_0666 of (fd, w) \<Rightarrow>
      if fd = -1 then Inr (None, w)
      else (case s_fstat sys w fd of
              None \<Rightarrow> Inr (None, w)
            | Some st_size \<Rightarrow>
                (case s_read sys w fd st_size of (bs, w) \<Rightarrow>
                   if map_option length bs \<noteq> Some st_size then Inr (None, w)
                   else bindE (blk_copy (blk_malloc (st_size + 1)) 0 (map Some (the bs)) 0 st_size) (\<lambda>buf.
                        bindE (blk_write buf st_size NUL) (\<lambda>buf.
                        Inr (Some \<lparr>f_fd = fd, f_file_size = st_size, f_buflen = st_size, f_bufoff = 0,
                                   f_buf = buf\<rparr>, w))))))"

text \<open>
  An error of \<open>pread\<close> ends the loop like the end of the file. What \<open>pwrite\<close> returns is added as it is.
\<close>

fun remove_loop :: "('w, 'z) rm_sys_scheme \<Rightarrow> nat \<Rightarrow> 'w \<Rightarrow> int \<Rightarrow> int \<Rightarrow> int \<Rightarrow> c_error + 'w" where
  "remove_loop sys 0 w fd start_offset end_offset = Inl Diverges"
| "remove_loop sys (Suc fuel) w fd start_offset end_offset =
     (case s_pread sys w fd BUFSIZ end_offset of
        None \<Rightarrow> Inr w
      | Some bs \<Rightarrow>
          if bs = [] then Inr w
          else (case s_pwrite sys w fd bs start_offset of (wbytes, w) \<Rightarrow>
                bindE (long_op (end_offset + int (length bs))) (\<lambda>end_offset.
                bindE (long_op (start_offset + wbytes)) (\<lambda>start_offset.
                remove_loop sys fuel w fd start_offset end_offset))))"

definition fileRemoveFrom ::
  "('w, 'z) rm_sys_scheme \<Rightarrow> nat \<Rightarrow> 'w \<Rightarrow> fileCtx \<Rightarrow> int \<Rightarrow> int \<Rightarrow> c_error + 'w" where
  "fileRemoveFrom sys fuel w ctx start_offset end_offset =
     bindE (long_op (end_offset - start_offset)) (\<lambda>size.
     let new_size = size_sub (f_file_size ctx) (nat (size mod 2 ^ 64))
     in bindE (remove_loop sys fuel w (f_fd ctx) start_offset end_offset) (\<lambda>w.
        Inr (s_ftruncate sys w (f_fd ctx) (to_ssize new_size))))"

definition delete_main :: "('w, 'z) rm_sys_scheme \<Rightarrow> nat \<Rightarrow> 'w \<Rightarrow> c_error + 'w" where
  "delete_main sys fuel w =
     bindE (fileOpen sys w ''./sample.txt'') (\<lambda>(ctx, w).
     case ctx of None \<Rightarrow> Inr w | Some ctx \<Rightarrow> fileRemoveFrom sys fuel w ctx 27 59)"

section \<open>What the system calls do\<close>

text \<open>
  \<open>bytes\<close> reads the content of the file out of the state. A read returns some of the bytes that
  are there, a write puts all of its bytes into place, past the end of the file when they reach further.
\<close>

definition overwrite :: "mboxChar list \<Rightarrow> nat \<Rightarrow> mboxChar list \<Rightarrow> mboxChar list" where
  "overwrite F off bs = take off F @ bs @ drop (off + length bs) F"

definition rm_sys_ok :: "('w, 'z) rm_sys_scheme \<Rightarrow> int \<Rightarrow> ('w \<Rightarrow> mboxChar list) \<Rightarrow> bool" where
  "rm_sys_ok sys fd bytes \<longleftrightarrow>
     (\<forall>w. reads_file (s_pread sys w) fd (bytes w)) \<and>
     (\<forall>w bs off. 0 \<le> off \<and> nat off \<le> length (bytes w) \<longrightarrow>
        (\<exists>w'. s_pwrite sys w fd bs off = (int (length bs), w') \<and> bytes w' = overwrite (bytes w) (nat off) bs)) \<and>
     (\<forall>w n. 0 \<le> n \<and> nat n \<le> length (bytes w) \<longrightarrow> bytes (s_ftruncate sys w fd n) = take (nat n) (bytes w))"

lemma rm_sys_okD:
  assumes "rm_sys_ok sys fd bytes"
  shows "\<exists>k. s_pread sys w fd BUFSIZ (int e) = Some (take k (drop e (bytes w))) \<and> 0 < k \<and> k \<le> BUFSIZ"
    and "s \<le> length (bytes w) \<Longrightarrow>
      \<exists>w'. s_pwrite sys w fd bs (int s) = (int (length bs), w') \<and> bytes w' = overwrite (bytes w) s bs"
    and "n \<le> length (bytes w) \<Longrightarrow> bytes (s_ftruncate sys w fd (int n)) = take n (bytes w)"
proof -
  show "\<exists>k. s_pread sys w fd BUFSIZ (int e) = Some (take k (drop e (bytes w))) \<and> 0 < k \<and> k \<le> BUFSIZ"
    using assms unfolding rm_sys_ok_def reads_file_def
    by (metis BUFSIZ_def nat_int of_nat_0_le_iff zero_less_numeral)
  show "\<exists>w'. s_pwrite sys w fd bs (int s) = (int (length bs), w') \<and> bytes w' = overwrite (bytes w) s bs"
    if "s \<le> length (bytes w)"
    using assms that unfolding rm_sys_ok_def by (metis nat_int of_nat_0_le_iff)
  show "bytes (s_ftruncate sys w fd (int n)) = take n (bytes w)" if "n \<le> length (bytes w)"
    using assms that unfolding rm_sys_ok_def by (metis nat_int of_nat_0_le_iff)
qed

lemma long_op_small [simp]: "- (2 ^ 63) \<le> x \<Longrightarrow> x < 2 ^ 63 \<Longrightarrow> long_op x = Inr x"
  by (simp add: long_op_def)

lemma remove_loop_moves:
  assumes "rm_sys_ok sys fd bytes" and "s \<le> e" and "e \<le> length (bytes w)" and "length (bytes w) < 2 ^ 62"
    and "length (bytes w) - e < fuel"
  shows "\<exists>w'. remove_loop sys fuel w fd (int s) (int e) = Inr w' \<and> length (bytes w') = length (bytes w) \<and>
     take (s + (length (bytes w) - e)) (bytes w') = take s (bytes w) @ drop e (bytes w)"
  using assms(2-)
proof (induction fuel arbitrary: w s e)
  case (Suc fuel)
  let ?F = "bytes w"
  obtain k where k: "s_pread sys w fd BUFSIZ (int e) = Some (take k (drop e ?F))" "0 < k"
    using rm_sys_okD(1) [OF assms(1)] by blast
  define bs where "bs = take k (drop e ?F)"
  show ?case
  proof (cases "bs = []")
    case True
    then have "e = length ?F" using k(2) Suc.prems(2) by (simp add: bs_def)
    then show ?thesis using k(1) True by (simp add: bs_def)
  next
    case False
    have lb: "0 < length bs" "e + length bs \<le> length ?F" using False Suc.prems(2) by (auto simp: bs_def)
    obtain w1 where w1: "s_pwrite sys w fd bs (int s) = (int (length bs), w1)" "bytes w1 = overwrite ?F s bs"
      using rm_sys_okD(2) [OF assms(1), of s w bs] Suc.prems(1,2) by auto
    have len: "length (bytes w1) = length ?F" using w1(2) lb Suc.prems(1) by (simp add: overwrite_def)
    have fu: "length (bytes w1) - (e + length bs) < fuel" using lb len Suc.prems(4) by linarith
    obtain w' where w': "remove_loop sys fuel w1 fd (int (s + length bs)) (int (e + length bs)) = Inr w'"
      "length (bytes w') = length (bytes w1)"
      "take (s + length bs + (length (bytes w1) - (e + length bs))) (bytes w') =
         take (s + length bs) (bytes w1) @ drop (e + length bs) (bytes w1)"
      using Suc.IH [of "s + length bs" "e + length bs" w1] Suc.prems(1,3) lb len fu by auto
    have front: "take (s + length bs) (bytes w1) = take s ?F @ bs"
      and tail: "drop (e + length bs) (bytes w1) = drop (e + length bs) ?F"
      using w1(2) Suc.prems(1,2) by (simp_all add: overwrite_def add.commute)
    have rest: "bs @ drop (e + length bs) ?F = drop e ?F"
      by (metis add.commute append_take_drop_id bs_def drop_drop length_take min.commute take_take append_eq_conv_conj)
    have num: "s + length bs + (length (bytes w1) - (e + length bs)) = s + (length ?F - e)" using lb len by simp
    have "take (s + (length ?F - e)) (bytes w') = take s ?F @ drop e ?F"
      using w'(3) unfolding num front tail append_assoc rest .
    moreover have "remove_loop sys (Suc fuel) w fd (int s) (int e) = Inr w'"
      using k(1) False w1(1) w'(1) lb Suc.prems(1,3) by (simp add: bs_def [symmetric])
    ultimately show ?thesis using w'(2) len by simp
  qed
qed simp

section \<open>Properties\<close>

text \<open>
  C35. When every read gives some of the bytes that are left and every write writes all of its
  bytes, removing a range leaves the file without the range: what is before it and what is behind it.
\<close>

theorem fileRemoveFrom_removes:
  assumes "rm_sys_ok sys (f_fd ctx) bytes" and "f_file_size ctx = length (bytes w)"
    and "s \<le> e" and "e \<le> length (bytes w)" and "length (bytes w) < 2 ^ 62" and "length (bytes w) < fuel"
  shows "\<exists>w'. fileRemoveFrom sys fuel w ctx (int s) (int e) = Inr w' \<and>
     bytes w' = take s (bytes w) @ drop e (bytes w)"
proof -
  let ?F = "bytes w"
  have fu: "length ?F - e < fuel" using assms(6) by linarith
  obtain w1 where w1: "remove_loop sys fuel w (f_fd ctx) (int s) (int e) = Inr w1" "length (bytes w1) = length ?F"
     "take (s + (length ?F - e)) (bytes w1) = take s ?F @ drop e ?F"
    using remove_loop_moves [OF assms(1,3-5) fu] by blast
  have op: "long_op (int e - int s) = Inr (int e - int s)" using assms(3-5) by simp
  have sz: "nat ((int e - int s) mod 2 ^ 64) = e - s" using assms(3-5) by (simp add: nat_diff_distrib)
  have new: "size_sub (f_file_size ctx) (e - s) = s + (length ?F - e)" "to_ssize (s + (length ?F - e)) = int (s + (length ?F - e))"
    using assms(2-5) by (simp_all add: to_ssize_def Let_def)
  have "bytes (s_ftruncate sys w1 (f_fd ctx) (int (s + (length ?F - e)))) = take s ?F @ drop e ?F"
    using rm_sys_okD(3) [OF assms(1), of "s + (length ?F - e)" w1] w1(2,3) assms(3,4) by simp
  moreover have "fileRemoveFrom sys fuel w ctx (int s) (int e) =
      Inr (s_ftruncate sys w1 (f_fd ctx) (int (s + (length ?F - e))))"
    by (simp only: fileRemoveFrom_def op sz new Let_def bindE.simps w1(1))
  ultimately show ?thesis by blast
qed

text \<open>A file system of one file, with reads and writes of any length.\<close>

definition whole_file :: "mboxChar list rm_sys" where
  "whole_file = \<lparr>s_open = (\<lambda>w path flags mode. (3, w)), s_fstat = (\<lambda>w fd. Some (length w)), s_pread = file_pread,
     s_pwrite = (\<lambda>w fd bs off. (int (length bs), overwrite w (nat off) bs)), s_fsync = (\<lambda>w fd. (0, w)),
     s_close = (\<lambda>w fd. w), s_read = (\<lambda>w fd n. (Some (take n w), w)), s_ftruncate = (\<lambda>w fd n. take (nat n) w)\<rparr>"

lemma whole_file_ok: "rm_sys_ok whole_file fd (\<lambda>w. w)"
  using reads_file_pread by (auto simp: rm_sys_ok_def whole_file_def)

theorem fileRemoveFrom_removes_witness:
  "\<exists>ctx w. fileOpen whole_file (''keep'' @ ''drop'' @ ''keep too'') ''./sample.txt'' = Inr (Some ctx, w) \<and>
     fileRemoveFrom whole_file 20 w ctx 4 8 = Inr (''keep'' @ ''keep too'')"
proof -
  let ?F = "''keep'' @ ''drop'' @ ''keep too''"
  obtain ctx where "fileOpen whole_file ?F ''./sample.txt'' = Inr (Some ctx, ?F)" "f_file_size ctx = 16" "f_fd ctx = 3"
    by (simp add: fileOpen_def whole_file_def blk_copy_def blk_write_def)
  then show ?thesis
    using fileRemoveFrom_removes [OF whole_file_ok, of ctx ?F 4 8 20] by (intro exI [of _ ctx] exI [of _ ?F]) simp
qed

text \<open>
  When the first read fails, the file is cut to its new length all the same: the range stays,
  and what was behind it is lost as far as it goes past the new length.
\<close>

theorem fileRemoveFrom_read_error:
  assumes "rm_sys_ok sys' (f_fd ctx) bytes" and "sys = sys'\<lparr>s_pread := (\<lambda>w fd size off. None)\<rparr>"
    and "f_file_size ctx = length (bytes w)" and "s \<le> e" and "e \<le> length (bytes w)" and "length (bytes w) < 2 ^ 62"
    and "0 < fuel"
  shows "\<exists>w'. fileRemoveFrom sys fuel w ctx (int s) (int e) = Inr w' \<and>
     bytes w' = take (length (bytes w) - (e - s)) (bytes w)"
proof -
  let ?n = "length (bytes w) - (e - s)"
  have op: "long_op (int e - int s) = Inr (int e - int s)" using assms(4-6) by simp
  have sz: "nat ((int e - int s) mod 2 ^ 64) = e - s" using assms(4-6) by (simp add: nat_diff_distrib)
  have new: "size_sub (f_file_size ctx) (e - s) = ?n" "to_ssize ?n = int ?n"
    using assms(3-6) by (simp_all add: to_ssize_def Let_def)
  obtain f where "fuel = Suc f" using assms(7) by (cases fuel) auto
  then have loop: "remove_loop sys fuel w (f_fd ctx) (int s) (int e) = Inr w" by (simp add: assms(2))
  have "fileRemoveFrom sys fuel w ctx (int s) (int e) = Inr (s_ftruncate sys w (f_fd ctx) (int ?n))"
    by (simp only: fileRemoveFrom_def op sz new Let_def bindE.simps loop)
  moreover have "bytes (s_ftruncate sys w (f_fd ctx) (int ?n)) = take ?n (bytes w)"
    using rm_sys_okD(3) [OF assms(1), of ?n w] by (simp add: assms(2))
  ultimately show ?thesis by blast
qed

theorem fileRemoveFrom_read_error_witness:
  "fileRemoveFrom (whole_file\<lparr>s_pread := (\<lambda>w fd size off. None)\<rparr>) 20 (''keep'' @ ''drop'' @ ''keep too'')
     \<lparr>f_fd = 3, f_file_size = 16, f_buflen = 16, f_bufoff = 0, f_buf = []\<rparr> 4 8 = Inr (''keep'' @ ''drop'' @ ''keep'')"
  using fileRemoveFrom_read_error [OF whole_file_ok refl,
      of "\<lparr>f_fd = 3, f_file_size = 16, f_buflen = 16, f_bufoff = 0, f_buf = []\<rparr>" "''keep'' @ ''drop'' @ ''keep too''" 4 8 20]
  by simp

end
