(* ===== verification/Mbox_Threads.thy ===== *)
theory Mbox_Threads
  imports Mbox_Parse
begin

text \<open>
  The program of \<open>src/multi-thread-reads/main.c\<close>, in which each thread reads the messages of its part
  of a file into a buffer of its own. The contexts come from \<open>malloc\<close> and \<open>fileCtxInit\<close> sets some of
  their members only: a member that nobody has set is \<open>None\<close>. \<open>pread\<close> is as in \<open>Mbox_IO\<close>, \<open>errno\<close> is what
  it leaves when it fails.
\<close>

section \<open>The program\<close>

definition BUF_READ_SIZE :: nat where "BUF_READ_SIZE = 20"
definition C_EOF :: int where "C_EOF = -1"

record threadCtx =
  t_id :: int
  t_fd :: int
  t_file_start_offset :: int
  t_file_end_offset :: int
  t_file_offset :: "int option"
  t_chunk_size :: nat
  t_buflen :: nat
  t_buf_capacity :: nat
  t_buf_offset :: "nat option"
  t_buf :: block
  t_err :: "int option"

definition fileCtxRead :: "pread \<Rightarrow> int \<Rightarrow> threadCtx \<Rightarrow> c_error + (int \<times> threadCtx)" where
  "fileCtxRead pread errno ctx =
     bindE (init (t_file_offset ctx)) (\<lambda>file_offset.
     case pread (t_fd ctx) BUF_READ_SIZE file_offset of
       None \<Rightarrow> Inr (errno, ctx\<lparr>t_err := Some errno\<rparr>)
     | Some bs \<Rightarrow>
         if bs = [] then Inr (C_EOF, ctx\<lparr>t_err := Some C_EOF\<rparr>)
         else bindE (blk_copy (t_buf ctx) (t_buflen ctx) (map Some bs) 0 (length bs)) (\<lambda>buf.
              let buflen = size_add (t_buflen ctx) (length bs)
              in bindE (blk_write buf buflen NUL) (\<lambda>buf.
                 Inr (1, ctx\<lparr>t_buf := buf, t_buflen := buflen, t_file_offset := Some (file_offset + int (length bs))\<rparr>))))"

definition fileCtxFillBuffer :: "pread \<Rightarrow> int \<Rightarrow> threadCtx \<Rightarrow> c_error + (int \<times> threadCtx)" where
  "fileCtxFillBuffer pread errno ctx =
     (case pread (t_fd ctx) BUF_READ_SIZE (t_file_start_offset ctx) of
        None \<Rightarrow> Inr (errno, ctx\<lparr>t_err := Some errno\<rparr>)
      | Some bs \<Rightarrow>
          if bs = [] then Inr (C_EOF, ctx\<lparr>t_err := Some C_EOF\<rparr>)
          else bindE (blk_copy (t_buf ctx) 0 (map Some bs) 0 (length bs)) (\<lambda>buf.
               bindE (blk_write buf (t_buflen ctx) NUL) (\<lambda>buf.
               Inr (int (length bs), ctx\<lparr>t_buf := buf\<rparr>))))"

definition fileCtxInit :: "threadCtx \<Rightarrow> int \<Rightarrow> threadCtx" where
  "fileCtxInit ctx fd = ctx\<lparr>t_fd := fd, t_buflen := 0, t_buf_capacity := 1000, t_buf := blk_malloc 1000\<rparr>"

text \<open>The five bytes are looked at for a zero first; the loop stops at the first.\<close>

fun no_zero :: "block \<Rightarrow> nat \<Rightarrow> nat \<Rightarrow> c_error + bool" where
  "no_zero m i 0 = Inr True"
| "no_zero m i (Suc n) = bindE (blk_read m i) (\<lambda>c. if c = NUL then Inr False else no_zero m (Suc i) n)"

definition isFromLine :: "block \<Rightarrow> nat \<Rightarrow> c_error + bool" where
  "isFromLine m s = bindE (no_zero m s 5) (\<lambda>ok. if \<not> ok then Inr False else match_text m s ''From '')"

fun fileCtxSeekFromLine :: "pread \<Rightarrow> int \<Rightarrow> nat \<Rightarrow> threadCtx \<Rightarrow> c_error + (int \<times> threadCtx)" where
  "fileCtxSeekFromLine pread errno 0 ctx = Inl Diverges"
| "fileCtxSeekFromLine pread errno (Suc fuel) ctx =
     bindE (init (t_buf_offset ctx)) (\<lambda>buf_offset.
     bindE (if size_add buf_offset 4 \<ge> t_buflen ctx then fileCtxRead pread errno ctx else Inr (1, ctx)) (\<lambda>(r, ctx).
     if r \<noteq> 1 then Inr (0, ctx)
     else bindE (isFromLine (t_buf ctx) buf_offset) (\<lambda>from.
          if from then Inr (1, ctx)
          else fileCtxSeekFromLine pread errno fuel (ctx\<lparr>t_buf_offset := Some (size_add buf_offset 1)\<rparr>))))"

text \<open>\<open>while (1)\<close> until a line was found or the file has ended.\<close>

fun seek_until :: "pread \<Rightarrow> int \<Rightarrow> nat \<Rightarrow> threadCtx \<Rightarrow> c_error + threadCtx" where
  "seek_until pread errno 0 ctx = Inl Diverges"
| "seek_until pread errno (Suc fuel) ctx =
     bindE (fileCtxSeekFromLine pread errno fuel ctx) (\<lambda>(r, ctx).
     if r = 1 then Inr ctx
     else bindE (init (t_err ctx)) (\<lambda>err.
          if err = C_EOF then Inr ctx else seek_until pread errno fuel ctx))"

text \<open>The loop over the further messages of the part.\<close>

fun seek_part :: "pread \<Rightarrow> int \<Rightarrow> nat \<Rightarrow> threadCtx \<Rightarrow> c_error + threadCtx" where
  "seek_part pread errno 0 ctx = Inl Diverges"
| "seek_part pread errno (Suc fuel) ctx =
     bindE (init (t_file_offset ctx)) (\<lambda>file_offset.
     if \<not> file_offset < t_file_end_offset ctx then Inr ctx
     else bindE (fileCtxSeekFromLine pread errno fuel ctx) (\<lambda>(r, ctx).
          bindE (if r = 1 then Inr True else bindE (init (t_err ctx)) (\<lambda>err. Inr (err = C_EOF))) (\<lambda>stop.
          if stop
          then bindE (init (t_err ctx)) (\<lambda>err.
               bindE (init (t_file_offset ctx)) (\<lambda>file_offset.
               if err = C_EOF \<or> file_offset \<ge> t_file_end_offset ctx then Inr ctx
               else bindE (init (t_buf_offset ctx)) (\<lambda>off.
                    seek_part pread errno fuel (ctx\<lparr>t_buf_offset := Some (size_add off 1)\<rparr>))))
          else seek_part pread errno fuel ctx)))"

definition fileCtxDoWork :: "pread \<Rightarrow> int \<Rightarrow> nat \<Rightarrow> threadCtx \<Rightarrow> c_error + threadCtx" where
  "fileCtxDoWork pread errno fuel ctx =
     (let ctx = ctx\<lparr>t_file_offset := Some (t_file_start_offset ctx)\<rparr>
      in bindE (fileCtxRead pread errno ctx) (\<lambda>(r, ctx).
         if r \<noteq> 1 then Inr ctx
         else bindE (fileCtxSeekFromLine pread errno fuel ctx) (\<lambda>(r, ctx).
              if r \<noteq> 1 then Inr (ctx\<lparr>t_err := Some 1\<rparr>)
              else bindE (init (t_buf_offset ctx)) (\<lambda>off.
                   let newlen = size_sub (t_buflen ctx) off
                   in bindE (blk_copy (t_buf ctx) 0 (t_buf ctx) off newlen) (\<lambda>buf.
                      let start = t_file_start_offset ctx + int off;
                          ctx = ctx\<lparr>t_buf := buf, t_buflen := newlen, t_file_start_offset := start,
                                    t_file_offset := Some (start + int newlen), t_buf_offset := Some newlen\<rparr>
                      in bindE (seek_until pread errno fuel ctx) (\<lambda>ctx.
                         bindE (init (t_file_offset ctx)) (\<lambda>file_offset.
                         bindE (if file_offset < t_file_end_offset ctx
                                then bindE (init (t_buf_offset ctx)) (\<lambda>off.
                                     seek_part pread errno fuel (ctx\<lparr>t_buf_offset := Some (size_add off 1)\<rparr>))
                                else Inr ctx) (\<lambda>ctx.
                         bindE (init (t_err ctx)) (\<lambda>err.
                         bindE (init (t_buf_offset ctx)) (\<lambda>off.
                         let off = if err = C_EOF then size_add off 4 else off
                         in bindE (blk_write (t_buf ctx) off NUL) (\<lambda>buf.
                            Inr (ctx\<lparr>t_buf_offset := Some off, t_buflen := off, t_buf := buf, t_err := Some 0\<rparr>))))))))))))"

text \<open>
  What \<open>main\<close> gives to thread \<open>i\<close>; \<open>raw\<close> is the context as \<open>malloc\<close> returns it. \<open>st_size\<close> is signed and the
  sum it is compared with is not.
\<close>

definition thread_ctx :: "threadCtx \<Rightarrow> int \<Rightarrow> nat \<Rightarrow> nat \<Rightarrow> threadCtx" where
  "thread_ctx raw fd st_size i =
     (let chunk_size = st_size div 2; start = int (i * chunk_size);
          end = (if st_size < size_add (i * chunk_size) chunk_size then int st_size else start + int chunk_size)
      in (fileCtxInit raw fd)\<lparr>t_id := int i, t_file_start_offset := start, t_chunk_size := chunk_size,
           t_file_end_offset := end\<rparr>)"

definition threads_main :: "pread \<Rightarrow> int \<Rightarrow> nat \<Rightarrow> (nat \<Rightarrow> threadCtx) \<Rightarrow> int \<Rightarrow> nat \<Rightarrow> c_error + threadCtx list" where
  "threads_main pread errno fuel raw fd st_size =
     map_each (fileCtxDoWork pread errno fuel) (map (\<lambda>i. thread_ctx (raw i) fd st_size i) [0..<2])"

section \<open>The buffer of a thread\<close>

text \<open>
  The buffer holds what was read of \<open>F\<close> from \<open>start\<close> on, in a block of 1000 bytes; the next read goes on
  behind it.
\<close>

definition t_holds :: "mboxChar list \<Rightarrow> nat \<Rightarrow> mboxChar list \<Rightarrow> threadCtx \<Rightarrow> bool" where
  "t_holds F start s ctx \<longleftrightarrow> Mbox_Reader.holds (t_buf ctx) s \<and> length (t_buf ctx) = 1000 \<and> t_buflen ctx = length s \<and>
     s = take (length s) (drop start F) \<and> start \<le> length F \<and> t_file_offset ctx = Some (int (start + length s))"

lemma no_zero_text: "text_at m i (t @ [NUL]) \<Longrightarrow> NUL \<notin> set t \<Longrightarrow> no_zero m i n = Inr (n \<le> length t)"
proof (induction n arbitrary: i t)
  case (Suc n)
  then show ?case by (cases t) auto
qed simp

lemma isFromLine_text:
  assumes "Mbox_Reader.holds m s" and "k \<le> length s"
  shows "isFromLine m k = Inr (take 5 (drop k s) = ''From '')"
proof -
  have t: "text_at m k (drop k s @ [NUL])" "NUL \<notin> set (drop k s)"
    using holds_at [OF assms] assms(1) by (auto simp: Mbox_Reader.holds_def dest: in_set_dropD)
  have "take 5 (drop k s) = ''From '' \<Longrightarrow> 5 \<le> length (drop k s)" by (drule arg_cong [of _ _ length]) simp
  then show ?thesis
    using no_zero_text [OF t, of 5] match_text_ended [OF t(1), of "''From ''"]
    by (auto simp: isFromLine_def eval_nat_numeral simp del: match_text.simps)
qed

lemma t_holds_read:
  assumes "t_holds F start s ctx" and "NUL \<notin> set F" and "length F < 2 ^ 60"
  shows "(s = drop start F \<and> fileCtxRead (file_pread F) errno ctx = Inr (C_EOF, ctx\<lparr>t_err := Some C_EOF\<rparr>)) \<or>
    (s \<noteq> drop start F \<and> (let s' = take (length s + 20) (drop start F) in
       if length s' < 1000
       then \<exists>ctx'. fileCtxRead (file_pread F) errno ctx = Inr (1, ctx') \<and> t_holds F start s' ctx' \<and>
         ctx' = ctx\<lparr>t_buf := t_buf ctx', t_buflen := t_buflen ctx', t_file_offset := t_file_offset ctx'\<rparr>
       else fileCtxRead (file_pread F) errno ctx = Inl OutOfBounds))"
proof -
  define R where "R = drop start F"
  note h = assms(1) [unfolded t_holds_def, folded R_def]
  define bs where "bs = take 20 (drop (length s) R)"
  have rd: "file_pread F (t_fd ctx) BUF_READ_SIZE (int (start + length s)) = Some bs"
    by (simp add: file_pread_def bs_def R_def BUF_READ_SIZE_def nat_add_distrib add.commute)
  have sR: "length s \<le> length R" using h by (metis length_take min.cobounded1)
  have s': "take (length s + 20) R = s @ bs" using h by (metis bs_def take_add)
  show ?thesis
  proof (cases "s = R")
    case True
    then show ?thesis using rd h by (simp add: fileCtxRead_def bs_def R_def)
  next
    case False
    then have "length s < length R" using h sR by (metis le_neq_implies_less order_refl take_all)
    then have bs: "bs \<noteq> []" by (simp add: bs_def)
    have l20: "length bs \<le> 20" by (simp add: bs_def)
    have nul: "NUL \<notin> set (s @ bs)"
      unfolding s' [symmetric] using assms(2) by (auto simp: R_def dest!: in_set_takeD in_set_dropD)
    have pre: "s @ bs = take (length (s @ bs)) R" using s' by (metis append_eq_conv_conj append_take_drop_id)
    have tx: "take (length s) (t_buf ctx) = map Some s" and lb: "length s < 1000"
    proof -
      have "text_at (t_buf ctx) 0 s" "text_at (t_buf ctx) 0 (s @ [NUL])" using h by (simp_all add: Mbox_Reader.holds_def)
      then show "take (length s) (t_buf ctx) = map Some s" "length s < 1000"
        using h text_at_le [of "t_buf ctx" 0 "s @ [NUL]"] by (simp_all add: text_at_def)
    qed
    have small: "length s + length bs < 2 ^ 64" using lb l20 by simp
    show ?thesis
    proof (cases "length (s @ bs) < 1000")
      case True
      define buf where "buf = (take (length s) (t_buf ctx) @ map Some bs @ drop (length s + length bs) (t_buf ctx))
          [length s + length bs := Some NUL]"
      define ctx' where "ctx' = ctx\<lparr>t_buf := buf, t_buflen := length s + length bs,
          t_file_offset := Some (int (start + length s) + int (length bs))\<rparr>"
      have run: "fileCtxRead (file_pread F) errno ctx = Inr (1, ctx')"
        using h rd bs True small by (simp add: fileCtxRead_def blk_copy_def blk_write_def Let_def ctx'_def buf_def)
      have "buf = map Some (s @ bs @ [NUL]) @ drop (Suc (length s + length bs)) (t_buf ctx)"
        using h tx True by (simp add: buf_def list_update_append upd_conv_take_nth_drop Cons_nth_drop_Suc [symmetric])
      then have "Mbox_Reader.holds buf (s @ bs)" "length buf = 1000"
        using nul h True by (simp_all add: Mbox_Reader.holds_def text_at_def buf_def)
      then have "t_holds F start (s @ bs) ctx'"
        using h pre [symmetric] unfolding t_holds_def R_def [symmetric] by (simp add: ctx'_def)
      then show ?thesis using run False True by (simp add: s' R_def [symmetric] Let_def ctx'_def)
    next
      case over: False
      have "fileCtxRead (file_pread F) errno ctx = Inl OutOfBounds"
        using h rd bs over small lb by (simp add: fileCtxRead_def blk_copy_def blk_write_def Let_def)
      then show ?thesis using False over by (simp add: s' R_def [symmetric] Let_def)
    qed
  qed
qed

text \<open>The first line \<open>From \<close> of a text from \<open>k\<close> on.\<close>

definition from_at :: "mboxChar list \<Rightarrow> nat \<Rightarrow> bool" where
  "from_at R k \<longleftrightarrow> take 5 (drop k R) = ''From ''"

lemma from_at_le: "from_at R k \<Longrightarrow> k + 5 \<le> length R"
  unfolding from_at_def by (drule arg_cong [of _ _ length]) simp

lemma from_at_prefix:
  assumes "s = take (length s) R" and "k + 5 \<le> length s \<or> s = R"
  shows "from_at s k = from_at R k"
proof (cases "s = R")
  case False
  then have "k + 5 \<le> length s" using assms(2) by simp
  then have "take 5 (drop k (take (length s) R)) = take 5 (drop k R)" by (simp add: drop_take min_def)
  then show ?thesis using assms(1) by (simp add: from_at_def)
qed simp

text \<open>One round of the search, with the read that it may need.\<close>

lemma seek_line_step:
  assumes "t_holds F start s ctx" and "NUL \<notin> set F" and "length F < 2 ^ 60" and "t_buf_offset ctx = Some k" and "k \<le> length s"
  defines "R \<equiv> drop start F"
  shows "(s = R \<and> length s \<le> k + 4 \<and> fileCtxSeekFromLine (file_pread F) errno (Suc fuel) ctx = Inr (0, ctx\<lparr>t_err := Some C_EOF\<rparr>)) \<or>
    (length s \<le> k + 4 \<and> 1000 \<le> length R \<and> fileCtxSeekFromLine (file_pread F) errno (Suc fuel) ctx = Inl OutOfBounds) \<or>
    (\<exists>s' ctx'. t_holds F start s' ctx' \<and> t_buf_offset ctx' = Some k \<and> k < length s' \<and> t_err ctx' = t_err ctx \<and>
      t_file_end_offset ctx' = t_file_end_offset ctx \<and>
      fileCtxSeekFromLine (file_pread F) errno (Suc fuel) ctx =
        (if from_at R k then Inr (1, ctx')
         else fileCtxSeekFromLine (file_pread F) errno fuel (ctx'\<lparr>t_buf_offset := Some (Suc k)\<rparr>)))"
proof -
  have h: "t_buflen ctx = length s" "s = take (length s) R" using assms(1) by (simp_all add: t_holds_def R_def)
  have "length s \<le> length R" using h(2) by (metis length_take min.cobounded1)
  then have lk: "length s < 2 ^ 60" "k < 2 ^ 60" using assms(3,5) by (simp_all add: R_def)
  have isf: "isFromLine (t_buf ctx') k = Inr (from_at R k)"
    if "t_holds F start s' ctx'" "k \<le> length s'" "k + 5 \<le> length s' \<or> s' = R" for s' ctx'
    using isFromLine_text [of "t_buf ctx'" s' k] from_at_prefix [of s' R k] that
    by (simp add: t_holds_def R_def from_at_def)
  consider (here) "k + 4 < length s" | (all) "length s \<le> k + 4" "s = R" | (more) "length s \<le> k + 4" "s \<noteq> R" by linarith
  then show ?thesis
  proof cases
    case here
    then have "fileCtxSeekFromLine (file_pread F) errno (Suc fuel) ctx =
        (if from_at R k then Inr (1, ctx)
         else fileCtxSeekFromLine (file_pread F) errno fuel (ctx\<lparr>t_buf_offset := Some (Suc k)\<rparr>))"
      using assms(4) h(1) lk isf [OF assms(1)] by simp
    then show ?thesis using assms(1,4) here by (intro disjI2 exI [of _ s] exI [of _ ctx]) simp
  next
    case all
    then show ?thesis
      using t_holds_read [OF assms(1-3), of errno] assms(4) h(1) lk by (simp add: R_def C_EOF_def)
  next
    case more
    define s' where "s' = take (length s + 20) R"
    have r: "if length s' < 1000
       then \<exists>ctx'. fileCtxRead (file_pread F) errno ctx = Inr (1, ctx') \<and> t_holds F start s' ctx' \<and>
         ctx' = ctx\<lparr>t_buf := t_buf ctx', t_buflen := t_buflen ctx', t_file_offset := t_file_offset ctx'\<rparr>
       else fileCtxRead (file_pread F) errno ctx = Inl OutOfBounds"
      using t_holds_read [OF assms(1-3), of errno] more(2) by (simp add: R_def Let_def s'_def)
    have "length s < length R" using more(2) h(2) \<open>length s \<le> length R\<close> by (metis le_neq_implies_less order_refl take_all)
    then have ls': "length s < length s'" "k + 5 \<le> length s' \<or> s' = R" using assms(5) by (auto simp: s'_def)
    show ?thesis
    proof (cases "length s' < 1000")
      case True
      then obtain ctx' where c: "fileCtxRead (file_pread F) errno ctx = Inr (1, ctx')" "t_holds F start s' ctx'"
         "ctx' = ctx\<lparr>t_buf := t_buf ctx', t_buflen := t_buflen ctx', t_file_offset := t_file_offset ctx'\<rparr>"
        using r by auto
      have f: "t_buf_offset ctx' = Some k" "t_err ctx' = t_err ctx" "t_file_end_offset ctx' = t_file_end_offset ctx"
        by (subst c(3), simp add: assms(4))+
      have "fileCtxSeekFromLine (file_pread F) errno (Suc fuel) ctx =
        (if from_at R k then Inr (1, ctx')
         else fileCtxSeekFromLine (file_pread F) errno fuel (ctx'\<lparr>t_buf_offset := Some (Suc k)\<rparr>))"
        using assms(4,5) h(1) lk more(1) c(1) isf [OF c(2)] ls' by simp
      then show ?thesis using c(2) f ls'(1) assms(5) by (intro disjI2 exI [of _ s'] exI [of _ ctx']) simp
    next
      case False
      then have "1000 \<le> length R" by (simp add: s'_def)
      then show ?thesis using False r assms(4) h(1) lk more(1) by simp
    qed
  qed
qed

lemma seek_line_finds:
  assumes "NUL \<notin> set F" and "length F < 2 ^ 60" and "length F < start + 1000"
  shows "t_holds F start s ctx \<Longrightarrow> t_buf_offset ctx = Some k \<Longrightarrow> k \<le> length s \<Longrightarrow>
    k \<le> n \<Longrightarrow> from_at (drop start F) n \<Longrightarrow> \<forall>i. k \<le> i \<and> i < n \<longrightarrow> \<not> from_at (drop start F) i \<Longrightarrow> n - k < fuel \<Longrightarrow>
    \<exists>s' ctx'. fileCtxSeekFromLine (file_pread F) errno fuel ctx = Inr (1, ctx') \<and> t_holds F start s' ctx' \<and>
      t_buf_offset ctx' = Some n \<and> n \<le> length s'"
proof (induction fuel arbitrary: k s ctx)
  case (Suc fuel)
  let ?R = "drop start F"
  have n: "n + 5 \<le> length ?R" using from_at_le [OF Suc.prems(5)] .
  have "\<not> (s = ?R \<and> length s \<le> k + 4)" using n Suc.prems(4) by auto
  moreover have "\<not> 1000 \<le> length ?R" using assms(3) by simp
  ultimately obtain s' ctx' where c: "t_holds F start s' ctx'" "t_buf_offset ctx' = Some k" "k < length s'"
      "fileCtxSeekFromLine (file_pread F) errno (Suc fuel) ctx =
        (if from_at ?R k then Inr (1, ctx')
         else fileCtxSeekFromLine (file_pread F) errno fuel (ctx'\<lparr>t_buf_offset := Some (Suc k)\<rparr>))"
    using seek_line_step [OF Suc.prems(1) assms(1,2) Suc.prems(2,3), of errno fuel] by blast
  show ?case
  proof (cases "k = n")
    case True
    then show ?thesis using c Suc.prems(5) by (intro exI [of _ s'] exI [of _ ctx']) simp
  next
    case False
    then have "\<not> from_at ?R k" using Suc.prems(4,6) by simp
    moreover have "t_holds F start s' (ctx'\<lparr>t_buf_offset := Some (Suc k)\<rparr>)" using c(1) by (simp add: t_holds_def)
    then have "\<exists>s' ctx2. fileCtxSeekFromLine (file_pread F) errno fuel (ctx'\<lparr>t_buf_offset := Some (Suc k)\<rparr>) = Inr (1, ctx2) \<and>
        t_holds F start s' ctx2 \<and> t_buf_offset ctx2 = Some n \<and> n \<le> length s'"
      using Suc.prems(4-7) False c(3) by (intro Suc.IH [of s' _ "Suc k"]) auto
    ultimately show ?thesis using c(4) by simp
  qed
qed simp

lemma seek_line_none:
  assumes "NUL \<notin> set F" and "length F < 2 ^ 60" and "length F < start + 1000"
  shows "t_holds F start s ctx \<Longrightarrow> t_buf_offset ctx = Some k \<Longrightarrow> k \<le> length s \<Longrightarrow>
    \<forall>i \<ge> k. \<not> from_at (drop start F) i \<Longrightarrow> length F - start - k < fuel \<Longrightarrow> start + k \<le> length F \<Longrightarrow>
    \<exists>ctx'. fileCtxSeekFromLine (file_pread F) errno fuel ctx = Inr (0, ctx') \<and> t_holds F start (drop start F) ctx' \<and>
      t_err ctx' = Some C_EOF"
proof (induction fuel arbitrary: k s ctx)
  case (Suc fuel)
  let ?R = "drop start F"
  have "\<not> 1000 \<le> length ?R" using assms(3) by simp
  then consider (end') "s = ?R" "fileCtxSeekFromLine (file_pread F) errno (Suc fuel) ctx = Inr (0, ctx\<lparr>t_err := Some C_EOF\<rparr>)"
    | (go) s' ctx' where "t_holds F start s' ctx'" "t_buf_offset ctx' = Some k" "k < length s'"
      "fileCtxSeekFromLine (file_pread F) errno (Suc fuel) ctx =
         fileCtxSeekFromLine (file_pread F) errno fuel (ctx'\<lparr>t_buf_offset := Some (Suc k)\<rparr>)"
    using seek_line_step [OF Suc.prems(1) assms(1,2) Suc.prems(2,3), of errno fuel] Suc.prems(4) by auto
  then show ?case
  proof cases
    case end'
    then show ?thesis using Suc.prems(1) by (simp add: t_holds_def)
  next
    case go
    have "length s' \<le> length ?R" using go(1) unfolding t_holds_def by (metis length_take min.cobounded1)
    then have k: "start + Suc k \<le> length F" using go(3) by simp
    have "t_holds F start s' (ctx'\<lparr>t_buf_offset := Some (Suc k)\<rparr>)" using go(1) by (simp add: t_holds_def)
    then show ?thesis unfolding go(4)
      using Suc.prems(4,5) go(3) k by (intro Suc.IH [of s' _ "Suc k"]) auto
  qed
qed simp

lemma seek_line_overflows:
  assumes "NUL \<notin> set F" and "length F < 2 ^ 60" and "start + 1000 \<le> length F"
  shows "t_holds F start s ctx \<Longrightarrow> t_buf_offset ctx = Some k \<Longrightarrow> k \<le> length s \<Longrightarrow>
    \<forall>i < 1000. \<not> from_at (drop start F) i \<Longrightarrow> 1000 - k < fuel \<Longrightarrow>
    fileCtxSeekFromLine (file_pread F) errno fuel ctx = Inl OutOfBounds"
proof (induction fuel arbitrary: k s ctx)
  case (Suc fuel)
  let ?R = "drop start F"
  have ls: "length s < 1000"
    using Suc.prems(1) text_at_le [of "t_buf ctx" 0 "s @ [NUL]"] by (simp add: t_holds_def Mbox_Reader.holds_def)
  then have "s \<noteq> ?R" "\<not> from_at ?R k" using assms(3) Suc.prems(3,4) by auto
  then consider (out) "fileCtxSeekFromLine (file_pread F) errno (Suc fuel) ctx = Inl OutOfBounds"
    | (go) s' ctx' where "t_holds F start s' ctx'" "t_buf_offset ctx' = Some k" "k < length s'"
      "fileCtxSeekFromLine (file_pread F) errno (Suc fuel) ctx =
         fileCtxSeekFromLine (file_pread F) errno fuel (ctx'\<lparr>t_buf_offset := Some (Suc k)\<rparr>)"
    using seek_line_step [OF Suc.prems(1) assms(1,2) Suc.prems(2,3), of errno fuel] by auto
  then show ?case
  proof cases
    case go
    have "t_holds F start s' (ctx'\<lparr>t_buf_offset := Some (Suc k)\<rparr>)" using go(1) by (simp add: t_holds_def)
    moreover have "1000 - Suc k < fuel" using Suc.prems(3,5) ls by linarith
    ultimately show ?thesis unfolding go(4)
      using Suc.prems(4) go(3) by (intro Suc.IH [of s' _ "Suc k"]) auto
  qed
qed simp

section \<open>Properties\<close>

text \<open>
  C37. The program reads memory that was never written as soon as the first read of its first thread returns a byte: the
  contexts come from \<open>malloc\<close>, neither \<open>main\<close> nor \<open>fileCtxInit\<close> sets the offset in the buffer, and the search of the first
  line reads it. The size of the file and what else the contexts hold do not matter.
\<close>

theorem threads_main_uninitialised:
  assumes "t_buf_offset (raw 0) = None" and "pread fd BUF_READ_SIZE 0 = Some bs" and "bs \<noteq> []"
    and "length bs \<le> BUF_READ_SIZE" and "0 < fuel"
  shows "threads_main pread errno fuel raw fd st_size = Inl UninitRead"
proof -
  obtain f where f: "fuel = Suc f" using assms(5) by (cases fuel) auto
  have ctx: "t_fd (thread_ctx (raw 0) fd st_size 0) = fd" "t_file_start_offset (thread_ctx (raw 0) fd st_size 0) = 0"
    "t_buflen (thread_ctx (raw 0) fd st_size 0) = 0" "t_buf (thread_ctx (raw 0) fd st_size 0) = replicate 1000 None"
    "t_buf_offset (thread_ctx (raw 0) fd st_size 0) = None"
    using assms(1) by (simp_all add: thread_ctx_def fileCtxInit_def blk_malloc_def Let_def)
  have "fileCtxDoWork pread errno fuel (thread_ctx (raw 0) fd st_size 0) = Inl UninitRead"
    using assms(2-4) ctx
    by (simp add: fileCtxDoWork_def Let_def fileCtxRead_def blk_copy_def blk_write_def BUF_READ_SIZE_def f)
  then show ?thesis by (simp add: threads_main_def numeral_2_eq_2 upt_conv_Cons)
qed

definition raw_thread :: threadCtx where
  "raw_thread = \<lparr>t_id = 0, t_fd = 0, t_file_start_offset = 0, t_file_end_offset = 0, t_file_offset = None,
     t_chunk_size = 0, t_buflen = 0, t_buf_capacity = 0, t_buf_offset = None, t_buf = [], t_err = None\<rparr>"

theorem threads_main_uninitialised_witness:
  "\<forall>errno. threads_main (file_pread ''From a'') errno 10 (\<lambda>i. raw_thread) 3 6 = Inl UninitRead"
  using threads_main_uninitialised [of "\<lambda>i. raw_thread" "file_pread ''From a''" 3 "''From a''" 10 _ 6]
  by (simp add: raw_thread_def file_pread_def BUF_READ_SIZE_def)

text \<open>
  With the offset set, and a rest of the file that the buffer can hold, the search goes to the
  first line \<open>From \<close> at or behind the offset; when there is none it ends at the end of the file, with
  the whole rest in the buffer.
\<close>

theorem fileCtxSeekFromLine_first:
  assumes "t_holds F start s ctx" and "t_buf_offset ctx = Some k" and "k \<le> length s" and "NUL \<notin> set F"
    and "length F < 2 ^ 60" and "length F < start + 1000" and "length F < fuel"
  shows "\<exists>r ctx'. fileCtxSeekFromLine (file_pread F) errno fuel ctx = Inr (r, ctx') \<and>
     (case find (from_at (drop start F)) [k..<length (drop start F)] of
        Some n \<Rightarrow> r = 1 \<and> t_buf_offset ctx' = Some n \<and> (\<exists>s'. t_holds F start s' ctx' \<and> n \<le> length s')
      | None \<Rightarrow> r = 0 \<and> t_err ctx' = Some C_EOF \<and> t_holds F start (drop start F) ctx')"
proof (cases "find (from_at (drop start F)) [k..<length (drop start F)]")
  case None
  then have none: "\<forall>i \<ge> k. \<not> from_at (drop start F) i"
    using from_at_le [of "drop start F"] by (force simp: find_None_iff)
  have "length s \<le> length (drop start F)" using assms(1) unfolding t_holds_def by (metis length_take min.cobounded1)
  moreover have "start \<le> length F" using assms(1) by (simp add: t_holds_def)
  ultimately have "start + k \<le> length F" using assms(3) by simp
  moreover have fu: "length F - start - k < fuel" using assms(7) by linarith
  ultimately show ?thesis
    using seek_line_none [OF assms(4-6,1-3) none fu, of errno] None by auto
next
  case (Some n)
  then obtain j where j: "j < length [k..<length (drop start F)]" "from_at (drop start F) n"
      "n = [k..<length (drop start F)] ! j"
      "\<forall>i < j. \<not> from_at (drop start F) ([k..<length (drop start F)] ! i)"
    by (auto simp: find_Some_iff)
  then have n: "n = k + j" by simp
  have "\<not> from_at (drop start F) i" if "k \<le> i" "i < n" for i
    using j(1,4) that n by (auto dest!: spec [of _ "i - k"])
  moreover have "n - k < fuel" using from_at_le [OF j(2)] assms(7) by simp
  ultimately show ?thesis
    using seek_line_finds [OF assms(4-6,1-3) _ j(2), of fuel errno] n Some by fastforce
qed

text \<open>
  Were the offset set to zero, as it has to be, a part whose first thousand bytes have no line \<open>From \<close> would make the search of its first
  line write outside the buffer, which has a thousand bytes, is never made larger, and whose capacity nobody looks at.
\<close>

theorem fileCtxSeekFromLine_overflows:
  assumes "t_holds F start s ctx" and "t_buf_offset ctx = Some k" and "k \<le> length s" and "NUL \<notin> set F"
    and "length F < 2 ^ 60" and "start + 1000 \<le> length F" and "\<forall>i < 1000. take 5 (drop (start + i) F) \<noteq> ''From ''"
    and "1000 < fuel"
  shows "fileCtxSeekFromLine (file_pread F) errno fuel ctx = Inl OutOfBounds"
  using seek_line_overflows [OF assms(4-6,1-3)] assms(7,8) by (simp add: from_at_def add.commute)

definition new_thread :: threadCtx where
  "new_thread = raw_thread\<lparr>t_fd := 3, t_file_offset := Some 0, t_buf_capacity := 1000, t_buf_offset := Some 0,
     t_buf := Some NUL # replicate 999 None\<rparr>"

lemma new_thread_holds: "t_holds F 0 [] new_thread"
  by (simp add: t_holds_def new_thread_def raw_thread_def Mbox_Reader.holds_def blk_read_def)

theorem fileCtxSeekFromLine_first_witness:
  "\<forall>errno. \<exists>ctx'. fileCtxSeekFromLine (file_pread (''xx'' @ [LF] @ ''From a'')) errno 20 new_thread = Inr (1, ctx') \<and>
     t_buf_offset ctx' = Some 3"
proof
  fix errno
  let ?F = "''xx'' @ [LF] @ ''From a''"
  have "find (from_at ?F) [0..<length ?F] = Some 3" by (simp add: from_at_def upt_conv_Cons)
  then show "\<exists>ctx'. fileCtxSeekFromLine (file_pread ?F) errno 20 new_thread = Inr (1, ctx') \<and> t_buf_offset ctx' = Some 3"
    using fileCtxSeekFromLine_first [OF new_thread_holds, of 0 ?F 20 errno]
    by (auto simp: new_thread_def)
qed

theorem fileCtxSeekFromLine_overflows_witness:
  "\<forall>errno. fileCtxSeekFromLine (file_pread (replicate 2000 CHR ''x'')) errno 1001 new_thread = Inl OutOfBounds"
proof
  fix errno
  have no: "\<forall>i < 1000. take 5 (drop (0 + i) (replicate 2000 CHR ''x'')) \<noteq> ''From ''"
  proof (intro allI impI)
    fix i :: nat assume "i < 1000"
    then have eq: "take 5 (drop (0 + i) (replicate 2000 CHR ''x'')) = replicate 5 CHR ''x''" by (simp add: min_def)
    have "replicate 5 CHR ''x'' \<noteq> ''From ''" by (simp add: eval_nat_numeral)
    then show "take 5 (drop (0 + i) (replicate 2000 CHR ''x'')) \<noteq> ''From ''" by (simp only: eq not_False_eq_True)
  qed
  show "fileCtxSeekFromLine (file_pread (replicate 2000 CHR ''x'')) errno 1001 new_thread = Inl OutOfBounds"
    using fileCtxSeekFromLine_overflows [OF new_thread_holds _ _ _ _ _ no, of 0 1001 errno]
    by (simp add: new_thread_def)
qed

end
