(* ===== verification/Mbox_Tests.thy ===== *)
theory Mbox_Tests
  imports Mbox_Search
begin

text \<open>
  The buffer tests of \<open>src/src/tests.c\<close>. What they print is left out but for the numbers of the tests
  that passed.
\<close>

section \<open>The tests\<close>

record mboxBufContainTest =
  ct_string :: string
  ct_pattern :: string
  ct_should_match :: int

definition strContains :: "mboxBufContainTest list" where
  "strContains =
     [\<lparr>ct_string = ''--68760429edd956d2400d1396f4e6c6371100c4ae3610a9940d6b2ac0ec37--'',
       ct_pattern = ''68760429edd956d2400d1396f4e6c6371100c4ae3610a9940d6b2ac0ec37'', ct_should_match = 1\<rparr>,
      \<lparr>ct_string = ''--cee6855870433e9118d4d70cc3592d5e37d74eb38f5fed35863c2038a349--'',
       ct_pattern = ''68760429edd956d2400d1396f4e6c6371100c4ae3610a9940d6b2ac0ec37'', ct_should_match = 0\<rparr>,
      \<lparr>ct_string = ''--cee6855870433e9118d4d70cc3592d5e37d74eb38f5fed35863c2038a349--'',
       ct_pattern = ''--'' @ ''68760429edd956d2400d1396f4e6c6371100c4ae3610a9940d6b2ac0ec37-'' @ ''-'', ct_should_match = 0\<rparr>,
      \<lparr>ct_string = ''Hello world'', ct_pattern = ''Hello'', ct_should_match = 1\<rparr>]"

definition contain_test :: "mboxBufContainTest \<Rightarrow> int \<Rightarrow> c_error + int" where
  "contain_test t passed =
     (let len = to_uint (length (ct_string t)); pattern_len = to_uint (length (ct_pattern t))
      in bindE (mboxBufCatLen (mboxBufAlloc (to_uint (len + 10))) (c_lit (ct_string t)) len) (\<lambda>buf.
         bindE (mboxBufContainsPattern buf (ct_pattern t) pattern_len) (\<lambda>a.
         Inr (if (if ct_should_match t \<noteq> 0 then a \<ge> 0 else a < 0) then passed + 1 else passed))))"

fun contain_loop :: "mboxBufContainTest list \<Rightarrow> int \<Rightarrow> c_error + int" where
  "contain_loop [] passed = Inr passed"
| "contain_loop (t # ts) passed = bindE (contain_test t passed) (contain_loop ts)"

definition mboxBufTestSuite :: "c_error + (int \<times> int)" where
  "mboxBufTestSuite =
     bindE (contain_loop strContains 0) (\<lambda>passed. Inr (passed, int (length strContains)))"

definition write_test :: "mboxBuf \<Rightarrow> string \<Rightarrow> string \<Rightarrow> int \<Rightarrow> c_error + (int \<times> mboxBuf)" where
  "write_test s w expected passed =
     (let wlen = to_uint (length w)
      in bindE (mboxBufWrite s (c_lit w) wlen) (\<lambda>(_, s).
         bindE (c_strncmp id (buf_data s) 0 (c_lit expected) 0 wlen) (\<lambda>cmp.
         Inr (if cmp = 0 \<and> buf_len s = wlen then passed + 1 else passed, s))))"

definition mboxBufTestWrite :: "c_error + (int \<times> int)" where
  "mboxBufTestWrite =
     bindE (write_test (mboxBufAlloc 100) ''hello world!'' ''hello world!'' 0) (\<lambda>(passed, s).
     bindE (write_test s ''good bye'' ''good bye'' passed) (\<lambda>(passed, s).
     Inr (passed, 2)))"

section \<open>They pass\<close>

text \<open>For strings of this size a test counts when the pattern occurs as it should.\<close>

lemma contain_test_counts:
  assumes "ct_pattern t \<noteq> []" and "NUL \<notin> set (ct_string t)"
    and "length (ct_string t) < 2 ^ 30" and "length (ct_pattern t) < 2 ^ 30"
  shows "contain_test t passed =
     Inr (if (ct_should_match t \<noteq> 0) = (\<exists>i. occurs_at id (ct_pattern t) (ct_string t) i) then passed + 1 else passed)"
proof -
  let ?s = "ct_string t" and ?p = "ct_pattern t"
  have n: "to_uint (length ?s) = length ?s" "to_uint (length ?p) = length ?p" "to_uint (length ?s + 10) = length ?s + 10"
    using assms(3,4) by simp_all
  let ?b = "mboxBufAlloc (length ?s + 10)"
  have rep: "buf_rep ?b []" and cap: "buf_capacity ?b = length ?s + 20"
    using assms(3) mboxBufAlloc_rep [of "length ?s + 10"] by simp_all
  have "buf_capacity ?b + max 256 (length ?s) \<le> PTRDIFF_MAX" "length ?s < 2 ^ 32"
    using assms(3) cap by auto
  moreover have "length ([] :: string) < buf_capacity ?b \<or> length ?s < 246" "take (length ?s) (c_lit ?s) = map Some ?s"
    using cap by (simp_all add: c_lit_def)
  ultimately obtain b where b: "mboxBufCatLen ?b (c_lit ?s) (length ?s) = Inr b" "buf_rep b ?s"
    using mboxBufCatLen_rep [OF rep, of ?s "c_lit ?s"] by auto
  have run: "mboxBufContainsPattern b ?p (length ?p) =
      kmp_scan id ?p (length ?p) (map int (prefix_table_of ?p)) (buf_data b) (buf_len b) 0 0"
    using prefix_table_of [OF assms(1)] assms(1,4)
    by (simp add: mboxBufContainsPattern_def mboxBufContainsPatternWithTable_def)
  have "length ?s < 2 ^ 31" "length ?p < 2 ^ 63" using assms(3,4) by simp_all
  note found = exact.find_spec [OF assms(1) b(2) assms(2) this]
  have "best (map id ?p) (prefix_table_of ?p) (length ?p)" using prefix_table_of_spec [of ?p] by simp
  then have "\<exists>r. mboxBufContainsPattern b ?p (length ?p) = Inr r \<and> (r < 0 \<longleftrightarrow> (\<forall>i. \<not> occurs_at id ?p ?s i))"
    using found unfolding run by force
  then obtain r where r: "mboxBufContainsPattern b ?p (length ?p) = Inr r"
    "r < 0 \<longleftrightarrow> (\<forall>i. \<not> occurs_at id ?p ?s i)" by blast
  then show ?thesis using n b(1) by (auto simp: contain_test_def)
qed

text \<open>The places that have to be looked at.\<close>

lemma occurs_ex:
  "(\<exists>i. occurs_at id p s i) = list_ex (\<lambda>i. take (length p) (drop i s) = p \<and> i + length p \<le> length s) [0..<Suc (length s)]"
  by (auto simp: occurs_at_def list_ex_iff simp del: upt_Suc)

theorem mboxBufTestSuite_passes: "mboxBufTestSuite = Inr (4, 4)"
proof -
  have "list_all (\<lambda>t. (ct_should_match t \<noteq> 0) = list_ex (\<lambda>i. take (length (ct_pattern t)) (drop i (ct_string t)) = ct_pattern t \<and>
      i + length (ct_pattern t) \<le> length (ct_string t)) [0..<Suc (length (ct_string t))]) strContains"
    by code_simp
  moreover have "list_all (\<lambda>t. ct_pattern t \<noteq> [] \<and> NUL \<notin> set (ct_string t) \<and> length (ct_string t) < 2 ^ 30 \<and>
      length (ct_pattern t) < 2 ^ 30) strContains"
    by (simp add: strContains_def)
  ultimately have "\<forall>t \<in> set strContains. \<forall>passed. contain_test t passed = Inr (passed + 1)"
    unfolding list_all_iff occurs_ex [symmetric] by (auto simp: contain_test_counts)
  moreover have "\<forall>t \<in> set ts. \<forall>passed. contain_test t passed = Inr (passed + 1) \<Longrightarrow>
      contain_loop ts passed = Inr (passed + int (length ts))" for ts passed
    by (induction ts arbitrary: passed) auto
  ultimately show ?thesis by (simp add: mboxBufTestSuite_def strContains_def)
qed

theorem mboxBufTestWrite_passes: "mboxBufTestWrite = Inr (2, 2)"
  by code_simp

end
