(* ===== verification/Mbox_Lookback.thy ===== *)
theory Mbox_Lookback
  imports Mbox_Parse
begin

text \<open>
  The program of \<open>src/lookback-algorithm\<close> (\<open>main.c\<close>, \<open>bufctx.c\<close>, \<open>io.c\<close>), which tries the division of
  a file into parts that start at a mark, on a string that stands for the file: a thread whose place
  in the file is not at a mark goes back until it has found one. \<open>errno\<close>, which nothing reads, and
  what is printed for the programmer are left out.
\<close>

section \<open>The file system that is simulated\<close>

definition EXAMPLE_LEN :: nat where "EXAMPLE_LEN = 40"

definition EXAMPLE_text :: string where
  "EXAMPLE_text = ''AA~~~~~~AA------AA___AA:::::::AA>>>>>>''"

definition EXAMPLE :: "mboxChar list" where
  "EXAMPLE = EXAMPLE_text @ [NUL, NUL]"

definition LB_READ_SIZE :: nat where "LB_READ_SIZE = 6"

record sim_file =
  sf_path :: string
  sf_inode :: nat
  sf_count :: int
  sf_flags :: nat
  sf_mode :: int
  sf_pos :: int

text \<open>The static variables: the table of files and the next descriptor.\<close>

record io_sys =
  io_current_fd :: nat
  io_file_table :: "sim_file option list"

definition io_static :: io_sys where
  "io_static = \<lparr>io_current_fd = 3, io_file_table = replicate 100 None\<rparr>"

definition io_open :: "io_sys \<Rightarrow> string \<Rightarrow> int \<Rightarrow> c_error + (int \<times> io_sys)" where
  "io_open io path oflag =
     bindE (c_strncmp id (c_lit path) 0 (c_lit ''example.txt'') 0 11) (\<lambda>cmp.
     if cmp \<noteq> 0 then Inr (-1, io)
     else if io_current_fd io = length (io_file_table io) then Inr (-1, io)
     else let fd = io_current_fd io;
              f = \<lparr>sf_path = path, sf_inode = 1, sf_count = 1, sf_flags = 0, sf_mode = oflag, sf_pos = 0\<rparr>
          in if fd < length (io_file_table io)
             then Inr (int fd, io\<lparr>io_file_table := (io_file_table io)[fd := Some f], io_current_fd := fd + 1\<rparr>)
             else Inl OutOfBounds)"

definition io_lookup :: "io_sys \<Rightarrow> int \<Rightarrow> c_error + sim_file option" where
  "io_lookup io fd = (if fd < 0 then Inl OutOfBounds else list_at (io_file_table io) (nat fd))"

text \<open>The loop of \<open>__pread\<close>, into \<open>buf\<close> from \<open>at\<close> on, with \<open>n\<close> bytes left to read.\<close>

fun io_read_loop :: "block \<Rightarrow> nat \<Rightarrow> int \<Rightarrow> nat \<Rightarrow> nat \<Rightarrow> c_error + (int \<times> block)" where
  "io_read_loop buf at offset rbytes 0 = Inr (int rbytes, buf)"
| "io_read_loop buf at offset rbytes (Suc n) =
     (if offset + int rbytes > int EXAMPLE_LEN then Inr (int rbytes, buf)
      else if offset + int rbytes < 0 then Inl OutOfBounds
      else bindE (list_at EXAMPLE (nat (offset + int rbytes))) (\<lambda>c.
           bindE (blk_write buf (at + rbytes) c) (\<lambda>buf.
           io_read_loop buf at offset (rbytes + 1) n)))"

definition io_pread :: "io_sys \<Rightarrow> int \<Rightarrow> block \<Rightarrow> nat \<Rightarrow> nat \<Rightarrow> int \<Rightarrow> c_error + (int \<times> block)" where
  "io_pread io fd buf at nbyte offset =
     bindE (io_lookup io fd) (\<lambda>f.
     let to_read = if nbyte > 2 ^ 31 - 1 then 2 ^ 31 - 1 else nbyte
     in if f = None then Inr (-1, buf) else io_read_loop buf at offset 0 to_read)"

text \<open>The size, or \<open>None\<close> when -1 is returned and the structure is not filled.\<close>

definition io_fstat :: "io_sys \<Rightarrow> int \<Rightarrow> c_error + nat option" where
  "io_fstat io fd =
     bindE (io_lookup io fd) (\<lambda>f. Inr (if f = None then None else Some EXAMPLE_LEN))"

definition ioClear :: "io_sys \<Rightarrow> c_error + io_sys" where
  "ioClear io =
     bindE (for_range 3 (io_current_fd io) (\<lambda>i table.
       bindE (list_at table i) (\<lambda>f.
       bindE (deref f) (\<lambda>_. Inr (table[i := None])))) (io_file_table io)) (\<lambda>table.
     Inr (io\<lparr>io_file_table := table\<rparr>))"

definition ioInit :: "io_sys \<Rightarrow> c_error + io_sys" where
  "ioInit io =
     bindE (for_range 3 (length (io_file_table io)) (\<lambda>i table. Inr (table[i := None])) (io_file_table io)) (\<lambda>table.
     Inr (io\<lparr>io_file_table := table\<rparr>))"

section \<open>The contexts\<close>

text \<open>
  A buffer that was freed is \<open>None\<close>. The member \<open>buf_capacity\<close> is neither set nor read.
\<close>

record bufCtx =
  bc_debug_has_freed :: int
  bc_id :: int
  bc_fd :: int
  bc_err :: int
  bc_file_size :: nat
  bc_start_offset :: int
  bc_end_offset :: int
  bc_file_offset :: int
  bc_buf :: "block option"
  bc_buflen :: nat
  bc_buf_offset :: nat

definition bufCtxNew :: "int \<Rightarrow> int \<Rightarrow> nat \<Rightarrow> bufCtx" where
  "bufCtxNew i fd file_size =
     \<lparr>bc_debug_has_freed = 0, bc_id = i, bc_fd = fd, bc_err = 0, bc_file_size = file_size,
      bc_start_offset = -1, bc_end_offset = -1, bc_file_offset = -1, bc_buf = Some (blk_malloc file_size),
      bc_buflen = 0, bc_buf_offset = 0\<rparr>"

definition bufCtxInit :: "bufCtx \<Rightarrow> int \<Rightarrow> int \<Rightarrow> nat \<Rightarrow> bufCtx" where
  "bufCtxInit ctx i fd file_size =
     ctx\<lparr>bc_file_size := file_size, bc_id := i, bc_fd := fd, bc_buf := Some (blk_malloc file_size),
         bc_buflen := 0, bc_buf_offset := 0, bc_file_offset := -1, bc_start_offset := -1,
         bc_debug_has_freed := 0, bc_end_offset := -1, bc_err := 0\<rparr>"

definition bufCtxRelease :: "bufCtx \<Rightarrow> c_error + bufCtx" where
  "bufCtxRelease ctx =
     (if bc_buf ctx = None then Inl UseAfterFree
      else Inr (ctx\<lparr>bc_debug_has_freed := 1, bc_buf := None\<rparr>))"

definition bc_block :: "bufCtx \<Rightarrow> c_error + block" where
  "bc_block ctx = (case bc_buf ctx of None \<Rightarrow> Inl UseAfterFree | Some m \<Rightarrow> Inr m)"

definition bufCtxRead :: "io_sys \<Rightarrow> bufCtx \<Rightarrow> int \<Rightarrow> int \<Rightarrow> c_error + (int \<times> bufCtx)" where
  "bufCtxRead io ctx boff foff =
     bindE (bc_block ctx) (\<lambda>m.
     if boff < 0 then Inl OutOfBounds
     else bindE (io_pread io (bc_fd ctx) m (nat boff) LB_READ_SIZE foff) (\<lambda>(rbytes, m).
          if rbytes > 0
          then let buflen = size_add (bc_buflen ctx) (nat rbytes)
               in bindE (blk_write m buflen NUL) (\<lambda>m.
                  Inr (rbytes, ctx\<lparr>bc_err := 0, bc_buf := Some m, bc_buflen := buflen\<rparr>))
          else Inr (rbytes, ctx\<lparr>bc_err := (if rbytes = 0 then -1 else 0), bc_buf := Some m\<rparr>)))"

text \<open>The loop back over a buffer, from the index before \<open>n\<close> on.\<close>

fun seek_back :: "block \<Rightarrow> nat \<Rightarrow> c_error + nat option" where
  "seek_back m 0 = Inr None"
| "seek_back m (Suc idx) =
     bindE (blk_read m idx) (\<lambda>c.
     bindE (if c = CHR ''A'' then bindE (blk_read m (Suc idx)) (\<lambda>d. Inr (d = CHR ''A'')) else Inr False) (\<lambda>found.
     if found then Inr (Some idx) else seek_back m idx))"

text \<open>
  The distance of a step back, 4 percent of the size: for the 40 bytes of the example the product
  is cut to 1.
\<close>

definition jump_size :: "nat \<Rightarrow> int" where
  "jump_size st_size = int (st_size * 4 div 100)"

text \<open>The loop of \<open>bufCtxSeekStart\<close>, with whether a mark was found.\<close>

fun lookback_loop :: "io_sys \<Rightarrow> nat \<Rightarrow> int \<Rightarrow> int \<Rightarrow> bufCtx \<Rightarrow> c_error + (bool \<times> bufCtx)" where
  "lookback_loop io 0 jumpsize offset ctx = Inl Diverges"
| "lookback_loop io (Suc fuel) jumpsize offset ctx =
     (let offset = if offset - jumpsize < 0 then 0 else offset - jumpsize
      in bindE (bufCtxRead io ctx 0 (int_of_long offset)) (\<lambda>(rbytes, ctx).
         let ctx = ctx\<lparr>bc_buflen := nat (rbytes mod 2 ^ 64)\<rparr>
         in if rbytes = 0 \<or> bc_err ctx = 1 then Inr (False, ctx)
            else bindE (bc_block ctx) (\<lambda>m.
                 bindE (seek_back m (nat (to_int (size_sub (bc_buflen ctx) 1) + 1))) (\<lambda>found.
                 case found of
                   Some idx \<Rightarrow> Inr (True, ctx\<lparr>bc_start_offset := offset + int idx\<rparr>)
                 | None \<Rightarrow> lookback_loop io fuel jumpsize offset ctx))))"

definition bufCtxSeekStart :: "io_sys \<Rightarrow> nat \<Rightarrow> bufCtx \<Rightarrow> c_error + bufCtx" where
  "bufCtxSeekStart io fuel ctx =
     bindE (io_fstat io (bc_fd ctx)) (\<lambda>st.
     case st of
       None \<Rightarrow> Inl UninitRead
     | Some st_size \<Rightarrow>
         bindE (lookback_loop io fuel (jump_size st_size) (bc_file_offset ctx) ctx) (\<lambda>(found, ctx).
         Inr (if found
              then ctx\<lparr>bc_buflen := 0, bc_buf_offset := 0, bc_file_offset := bc_start_offset ctx\<rparr>
              else ctx)))"

definition bufCtxCollectFullBuffer :: "io_sys \<Rightarrow> nat \<Rightarrow> bufCtx \<Rightarrow> c_error + bufCtx" where
  "bufCtxCollectFullBuffer io fuel ctx =
     bindE (bufCtxSeekStart io fuel ctx) (\<lambda>ctx.
     bindE (bufCtxRead io ctx (to_int (bc_buf_offset ctx)) (int_of_long (bc_file_offset ctx))) (\<lambda>(rbytes, ctx).
     Inr (ctx\<lparr>bc_file_offset := bc_file_offset ctx + rbytes\<rparr>)))"

section \<open>The program\<close>

text \<open>The jobs; \<open>None\<close> stands for \<open>exit(1)\<close>.\<close>

definition bufCtxReadLimits :: "io_sys \<Rightarrow> bufCtx \<Rightarrow> c_error + bufCtx option" where
  "bufCtxReadLimits io ctx =
     bindE (bc_block ctx) (\<lambda>m.
     bindE (blk_copy m 0 (replicate 20 (Some NUL)) 0 20) (\<lambda>m.
     bindE (long_op (bc_end_offset ctx - bc_start_offset ctx)) (\<lambda>want.
     bindE (io_pread io (bc_fd ctx) m 0 (nat (want mod 2 ^ 64)) (bc_start_offset ctx)) (\<lambda>(rbytes, m).
     if rbytes = -1 then Inr None
     else bindE (blk_write m (nat rbytes) NUL) (\<lambda>m.
          Inr (Some (ctx\<lparr>bc_buf := Some m, bc_buflen := nat rbytes\<rparr>)))))))"

definition bufCtxSetOffsetCallback :: "io_sys \<Rightarrow> nat \<Rightarrow> bufCtx \<Rightarrow> c_error + bufCtx option" where
  "bufCtxSetOffsetCallback io fuel ctx =
     bindE (bufCtxCollectFullBuffer io fuel ctx) (\<lambda>ctx.
     Inr (if bc_debug_has_freed ctx \<noteq> 0 then None else Some ctx))"

definition noThreads :: "io_sys \<Rightarrow> nat \<Rightarrow> int \<Rightarrow> nat \<Rightarrow> c_error + unit" where
  "noThreads io fuel fd file_size =
     for_range 0 EXAMPLE_LEN (\<lambda>i u.
       let ctx = (bufCtxNew (int i) fd file_size)\<lparr>bc_file_offset := int i, bc_buf_offset := i, bc_start_offset := int i\<rparr>
       in bindE (bufCtxCollectFullBuffer io fuel ctx) (\<lambda>ctx.
          bindE (bufCtxRelease ctx) (\<lambda>_. Inr ()))) ()"

text \<open>
  The contexts before the first jobs, the ends that are set behind them, the choice of the contexts
  that read and the lines that are printed at the end. A job touches its own context only, so each
  is run where it is enqueued; \<open>fuel\<close> is for its loop.
\<close>

definition LB_THREAD_COUNT :: nat where "LB_THREAD_COUNT = 10"

definition lb_context :: "int \<Rightarrow> nat \<Rightarrow> nat \<Rightarrow> bufCtx" where
  "lb_context fd file_size i =
     (let start = to_ssize (i * (file_size div LB_THREAD_COUNT) mod 2 ^ 64)
      in (bufCtxInit (bufCtxNew (int i) fd file_size) (int i) fd file_size)
           \<lparr>bc_file_offset := start, bc_start_offset := start\<rparr>)"

fun set_lb_ends :: "int \<Rightarrow> bufCtx list \<Rightarrow> bufCtx list" where
  "set_lb_ends file_size (ctx_prev # ctx # ctxs) =
     ctx_prev\<lparr>bc_end_offset := bc_start_offset ctx\<rparr> # set_lb_ends file_size (ctx # ctxs)"
| "set_lb_ends file_size [ctx] = [ctx\<lparr>bc_end_offset := file_size\<rparr>]"
| "set_lb_ends file_size [] = []"

definition read_or_release :: "io_sys \<Rightarrow> bufCtx \<Rightarrow> c_error + bufCtx option" where
  "read_or_release io ctx =
     bindE (long_op (bc_end_offset ctx - bc_start_offset ctx)) (\<lambda>want.
     if want \<le> 0 then bindE (bufCtxRelease ctx) (\<lambda>ctx. Inr (Some ctx))
     else bufCtxReadLimits io ctx)"

text \<open>What \<open>printf\<close> writes for a buffer: the bytes before the first zero.\<close>

fun printed_text :: "block \<Rightarrow> nat \<Rightarrow> nat \<Rightarrow> c_error + string" where
  "printed_text m i 0 = Inl OutOfBounds"
| "printed_text m i (Suc n) =
     bindE (blk_read m i) (\<lambda>c. if c = NUL then Inr [] else bindE (printed_text m (Suc i) n) (\<lambda>s. Inr (c # s)))"

fun print_full :: "bufCtx list \<Rightarrow> c_error + (int \<times> string) list" where
  "print_full [] = Inr []"
| "print_full (ctx # ctxs) =
     (if bc_debug_has_freed ctx = 0
      then bindE (bc_block ctx) (\<lambda>m.
           bindE (printed_text m 0 (length m + 1)) (\<lambda>s.
           bindE (bufCtxRelease ctx) (\<lambda>_.
           bindE (print_full ctxs) (\<lambda>ls. Inr ((bc_id ctx, s) # ls)))))
      else print_full ctxs)"

definition withThreads :: "io_sys \<Rightarrow> nat \<Rightarrow> int \<Rightarrow> nat \<Rightarrow> c_error + (int \<times> string) list option" where
  "withThreads io fuel fd file_size =
     bindE (map_each (bufCtxSetOffsetCallback io fuel) (map (lb_context fd file_size) [0..<LB_THREAD_COUNT])) (\<lambda>rs.
     if None \<in> set rs then Inr None
     else bindE (map_each (read_or_release io) (set_lb_ends (to_ssize file_size) (map the rs))) (\<lambda>rs.
          if None \<in> set rs then Inr None
          else bindE (print_full (map the rs)) (\<lambda>ls. Inr (Some ls))))"

definition lookback_main :: "io_sys \<Rightarrow> nat \<Rightarrow> c_error + ((int \<times> string) list option \<times> io_sys)" where
  "lookback_main io fuel =
     bindE (ioInit io) (\<lambda>io.
     bindE (io_open io ''example.txt'' 0) (\<lambda>(fd, io).
     bindE (io_fstat io fd) (\<lambda>st.
     case st of
       None \<Rightarrow> Inl UninitRead
     | Some file_size \<Rightarrow>
         bindE (withThreads io fuel fd file_size) (\<lambda>ls.
         case ls of
           None \<Rightarrow> Inr (None, io)
         | Some _ \<Rightarrow> bindE (ioClear io) (\<lambda>io. Inr (ls, io))))))"

section \<open>Reading\<close>

lemma length_EXAMPLE [simp]: "length EXAMPLE = 40"
  by (simp add: EXAMPLE_def EXAMPLE_text_def)

lemma io_read_loop_ok:
  assumes "off + r + n \<le> 40" and "at + r + n \<le> length m"
  shows "io_read_loop m at (int off) r n =
     Inr (int (r + n), take (at + r) m @ map Some (take n (drop (off + r) EXAMPLE)) @ drop (at + r + n) m)"
  using assms
proof (induction n arbitrary: r m)
  case (Suc n)
  let ?c = "EXAMPLE ! (off + r)"
  let ?m = "m[at + r := Some ?c]"
  have "io_read_loop ?m at (int off) (Suc r) n = Inr (int (Suc r + n),
      take (at + Suc r) ?m @ map Some (take n (drop (off + Suc r) EXAMPLE)) @ drop (at + Suc r + n) ?m)"
    using Suc.prems by (intro Suc.IH) auto
  moreover have "take (at + Suc r) ?m = take (at + r) m @ [Some ?c]"
    using Suc.prems by (simp add: take_Suc_conv_app_nth)
  moreover have "take (Suc n) (drop (off + r) EXAMPLE) = ?c # take n (drop (off + Suc r) EXAMPLE)"
    using Suc.prems by (simp add: Cons_nth_drop_Suc [symmetric])
  ultimately show ?case
    using Suc.prems by (simp add: EXAMPLE_LEN_def blk_write_def nat_add_distrib flip: of_nat_add)
qed simp

lemma io_read_loop_past:
  assumes "off + r \<le> 40" and "40 < off + r + n" and "at + (40 - off) \<le> length m"
  shows "io_read_loop m at (int off) r n = Inl OutOfBounds"
  using assms
proof (induction n arbitrary: r m)
  case (Suc n)
  show ?case
  proof (cases "off + r = 40")
    case True
    then show ?thesis by (simp add: EXAMPLE_LEN_def list_at_def flip: of_nat_add)
  next
    case False
    then have "io_read_loop (m[at + r := Some (EXAMPLE ! (off + r))]) at (int off) (Suc r) n = Inl OutOfBounds"
      using Suc.prems by (intro Suc.IH) auto
    then show ?thesis
      using Suc.prems False by (simp add: EXAMPLE_LEN_def blk_write_def nat_add_distrib flip: of_nat_add)
  qed
qed simp

text \<open>A context with an open file and a buffer of the size of the example.\<close>

definition lb_ready :: "io_sys \<Rightarrow> block \<Rightarrow> bufCtx \<Rightarrow> bool" where
  "lb_ready io m ctx \<longleftrightarrow> (\<exists>f. io_lookup io (bc_fd ctx) = Inr (Some f)) \<and> bc_buf ctx = Some m \<and> length m = 40"

lemma bufCtxRead_ok:
  assumes "lb_ready io m ctx" and "off + 6 \<le> 40" and "bc_buflen ctx + 6 < 40"
  shows "bufCtxRead io ctx 0 (int off) = Inr (6, ctx\<lparr>bc_err := 0, bc_buflen := bc_buflen ctx + 6,
     bc_buf := Some ((map Some (take 6 (drop off EXAMPLE)) @ drop 6 m)[bc_buflen ctx + 6 := Some NUL])\<rparr>)"
  using assms io_read_loop_ok [of off 0 6 0 m]
  by (auto simp: lb_ready_def bufCtxRead_def bc_block_def io_pread_def LB_READ_SIZE_def blk_write_def Let_def
      simp del: io_read_loop.simps)

lemma bufCtxRead_past:
  assumes "lb_ready io m ctx" and "34 < off" and "off \<le> 40"
  shows "bufCtxRead io ctx 0 (int off) = Inl OutOfBounds"
  using assms io_read_loop_past [of off 0 6 0 m]
  by (auto simp: lb_ready_def bufCtxRead_def bc_block_def io_pread_def LB_READ_SIZE_def Let_def
      simp del: io_read_loop.simps)

section \<open>Looking back\<close>

definition mark_at :: "string \<Rightarrow> nat \<Rightarrow> bool" where
  "mark_at s p \<longleftrightarrow> take 2 (drop p s) = ''AA''"

lemma mark_at_iff: "mark_at s p \<longleftrightarrow> Suc p < length s \<and> s ! p = CHR ''A'' \<and> s ! Suc p = CHR ''A''"
proof (cases "Suc p < length s")
  case True
  then have "take 2 (drop p s) = [s ! p, s ! Suc p]"
    by (simp add: Cons_nth_drop_Suc [symmetric] eval_nat_numeral)
  then show ?thesis using True by (simp add: mark_at_def)
next
  case False
  have "mark_at s p \<Longrightarrow> Suc p < length s" unfolding mark_at_def by (drule arg_cong [of _ _ length]) simp
  then show ?thesis using False by blast
qed

text \<open>\<open>p\<close> is the last mark before \<open>b\<close>.\<close>

definition last_mark :: "nat \<Rightarrow> nat \<Rightarrow> bool" where
  "last_mark b p \<longleftrightarrow> mark_at EXAMPLE p \<and> p < b \<and> (\<forall>q. p < q \<and> q < b \<longrightarrow> \<not> mark_at EXAMPLE q)"

lemma seek_back_correct:
  assumes "text_at m 0 (s @ [NUL])" and "k \<le> length s"
  shows "\<exists>r. seek_back m k = Inr r \<and> (case r of None \<Rightarrow> \<forall>i < k. \<not> mark_at s i
     | Some i \<Rightarrow> mark_at s i \<and> i < k \<and> (\<forall>j. i < j \<and> j < k \<longrightarrow> \<not> mark_at s j))"
  using assms(2)
proof (induction k)
  case (Suc k)
  have rd: "blk_read m i = Inr ((s @ [NUL]) ! i)" if "i \<le> length s" for i
  proof -
    have "drop i (s @ [NUL]) = (s @ [NUL]) ! i # drop (Suc i) (s @ [NUL])"
      using that by (intro Cons_nth_drop_Suc [symmetric]) simp
    then show ?thesis using text_at_drop [OF assms(1), of i] that by (simp only: text_at_Cons) simp
  qed
  obtain r where r: "seek_back m k = Inr r" "case r of None \<Rightarrow> \<forall>i < k. \<not> mark_at s i
     | Some i \<Rightarrow> mark_at s i \<and> i < k \<and> (\<forall>j. i < j \<and> j < k \<longrightarrow> \<not> mark_at s j)"
    using Suc by auto
  have m: "mark_at s k \<longleftrightarrow> s ! k = CHR ''A'' \<and> (s @ [NUL]) ! Suc k = CHR ''A''"
    using Suc.prems by (auto simp: mark_at_iff nth_append not_less_eq)
  show ?case
  proof (cases "mark_at s k")
    case True
    then have "seek_back m (Suc k) = Inr (Some k)" using m rd [of k] rd [of "Suc k"] Suc.prems by (simp add: nth_append)
    then show ?thesis using True by auto
  next
    case False
    then have "seek_back m (Suc k) = Inr r" using m rd [of k] rd [of "Suc k"] Suc.prems r(1) by (auto simp: nth_append)
    then show ?thesis using r(2) False by (auto split: option.splits simp: less_Suc_eq)
  qed
qed simp

lemma mark_in_window:
  "mark_at (take 6 (drop off EXAMPLE)) i \<longleftrightarrow> i < 5 \<and> mark_at EXAMPLE (off + i)"
  by (auto simp: mark_at_iff)

lemma mark_at_0: "mark_at EXAMPLE 0"
  by (simp add: mark_at_def EXAMPLE_def EXAMPLE_text_def)

text \<open>The buffer when a step back begins: the zero behind the six bytes stays where it is.\<close>

definition lb_buffer :: "io_sys \<Rightarrow> block \<Rightarrow> bufCtx \<Rightarrow> bool" where
  "lb_buffer io m ctx \<longleftrightarrow> lb_ready io m ctx \<and> (bc_buflen ctx = 0 \<or> bc_buflen ctx = 6 \<and> m ! 6 = Some NUL)"

lemma lookback_window:
  assumes "lb_buffer io m ctx" and "off \<le> 34"
  shows "\<exists>m'. bufCtxRead io ctx 0 (int off) =
      Inr (6, ctx\<lparr>bc_err := 0, bc_buflen := bc_buflen ctx + 6, bc_buf := Some m'\<rparr>) \<and>
    length m' = 40 \<and> m' ! 6 = Some NUL \<and> text_at m' 0 (take 6 (drop off EXAMPLE) @ [NUL])"
proof -
  let ?s = "take 6 (drop off EXAMPLE)"
  define m' where "m' = (map Some ?s @ drop 6 m)[bc_buflen ctx + 6 := Some NUL]"
  have h: "lb_ready io m ctx" "length m = 40" "bc_buflen ctx + 6 < 40" "bc_buflen ctx = 0 \<or> m ! 6 = Some NUL"
    using assms(1) by (auto simp: lb_buffer_def lb_ready_def)
  have len: "length ?s = 6" using assms(2) by simp
  have "m' ! 6 = Some NUL" using h len by (auto simp: m'_def nth_list_update nth_append)
  moreover have m: "length m' = 40" using h len by (simp add: m'_def)
  moreover have "take 6 m' = map Some ?s" using len by (simp add: m'_def)
  ultimately have "text_at m' 0 (?s @ [NUL])" using len
    by (simp add: text_at_def take_Suc_conv_app_nth [of 6, simplified])
  then show ?thesis using bufCtxRead_ok [OF h(1) _ h(3), of off] assms(2) m \<open>m' ! 6 = Some NUL\<close> by (auto simp: m'_def)
qed

lemma lookback_loop_finds:
  assumes "lb_buffer io m ctx" and "f \<le> 35" and "f < fuel"
  shows "\<exists>m' p. lookback_loop io fuel 1 (int f) ctx =
      Inr (True, ctx\<lparr>bc_err := 0, bc_start_offset := int p, bc_buf := Some m', bc_buflen := 6\<rparr>) \<and>
    length m' = 40 \<and> last_mark (f - 1 + 5) p"
  using assms
proof (induction fuel arbitrary: f m ctx)
  case (Suc fuel)
  let ?g = "f - 1"
  have g: "(if int f - 1 < 0 then 0 else int f - 1) = int ?g" by auto
  have g34: "?g \<le> 34" using Suc.prems(2) by linarith
  obtain m' where m': "bufCtxRead io ctx 0 (int ?g) =
      Inr (6, ctx\<lparr>bc_err := 0, bc_buflen := bc_buflen ctx + 6, bc_buf := Some m'\<rparr>)"
    "length m' = 40" "m' ! 6 = Some NUL" "text_at m' 0 (take 6 (drop ?g EXAMPLE) @ [NUL])"
    using lookback_window [OF Suc.prems(1) g34] by blast
  define ctx' where "ctx' = ctx\<lparr>bc_err := 0, bc_buf := Some m', bc_buflen := 6\<rparr>"
  have l: "int_of_long (int ?g) = int ?g" using Suc.prems(2) by simp
  obtain r where r: "seek_back m' 6 = Inr r" "case r of None \<Rightarrow> \<forall>i < 6. \<not> mark_at (take 6 (drop ?g EXAMPLE)) i
     | Some i \<Rightarrow> mark_at (take 6 (drop ?g EXAMPLE)) i \<and> i < 6 \<and>
         (\<forall>j. i < j \<and> j < 6 \<longrightarrow> \<not> mark_at (take 6 (drop ?g EXAMPLE)) j)"
    using seek_back_correct [OF m'(4), of 6] Suc.prems(2) by auto
  have step: "lookback_loop io (Suc fuel) 1 (int f) ctx =
      (case r of Some idx \<Rightarrow> Inr (True, ctx'\<lparr>bc_start_offset := int ?g + int idx\<rparr>)
       | None \<Rightarrow> lookback_loop io fuel 1 (int ?g) ctx')"
    unfolding lookback_loop.simps Let_def g l m'(1) using r(1)
    by (simp add: bc_block_def ctx'_def split: option.splits)
  show ?case
  proof (cases r)
    case (Some i)
    have "\<not> mark_at EXAMPLE q" if q: "?g + i < q" "q < ?g + 5" for q
    proof -
      obtain d where "q = ?g + d" using q(1) by (metis le_Suc_ex less_imp_le add.assoc)
      then show ?thesis using q r(2) Some unfolding mark_in_window by auto
    qed
    then have "last_mark (?g + 5) (?g + i)" using r(2) Some unfolding last_mark_def mark_in_window by simp
    then show ?thesis using step Some m'(2) unfolding ctx'_def by (intro exI [of _ m'] exI [of _ "?g + i"]) simp
  next
    case None
    then have no: "\<forall>i < 5. \<not> mark_at EXAMPLE (?g + i)" using r(2) unfolding mark_in_window by auto
    then have f1: "1 < f" using mark_at_0 by (cases "?g = 0") auto
    have ar: "?g \<le> 35" "?g < fuel" using Suc.prems(2,3) f1 by linarith+
    have bf: "lb_buffer io m' ctx'" using Suc.prems(1) m'(2,3) by (auto simp: lb_buffer_def lb_ready_def ctx'_def)
    obtain m2 p where q: "lookback_loop io fuel 1 (int ?g) ctx' =
        Inr (True, ctx'\<lparr>bc_err := 0, bc_start_offset := int p, bc_buf := Some m2, bc_buflen := 6\<rparr>)"
      "length m2 = 40" "last_mark (?g - 1 + 5) p"
      using Suc.IH [OF bf ar] by blast
    have "?g - 1 + 5 = ?g + 4" using f1 by linarith
    then have "last_mark (?g + 4) p" using q(3) by metis
    then have "last_mark (?g + 5) p" using no [rule_format, of 4] unfolding last_mark_def
      by (auto simp: less_Suc_eq eval_nat_numeral)
    then show ?thesis using step q(1,2) None unfolding ctx'_def by auto
  qed
qed simp

lemma marks: "mark_at EXAMPLE p \<longleftrightarrow> p \<in> {0, 8, 16, 21, 30}"
proof -
  have "\<forall>p \<in> set [0..<40]. mark_at EXAMPLE p = (p = 0 \<or> p = 8 \<or> p = 16 \<or> p = 21 \<or> p = 30)" by code_simp
  moreover have "mark_at EXAMPLE p \<Longrightarrow> p < 40" by (simp add: mark_at_iff)
  ultimately show ?thesis by auto
qed

lemma last_mark_mono: "last_mark b p \<Longrightarrow> last_mark b' p' \<Longrightarrow> b \<le> b' \<Longrightarrow> p \<le> p'"
  unfolding last_mark_def by (meson leI order_less_le_trans)

definition lb_new :: "io_sys \<Rightarrow> bufCtx \<Rightarrow> bool" where
  "lb_new io ctx \<longleftrightarrow> (\<exists>m. lb_ready io m ctx) \<and> bc_buflen ctx = 0 \<and> bc_debug_has_freed ctx = 0"

lemma bufCtxSetOffsetCallback_finds:
  assumes "lb_new io ctx" and "bc_file_offset ctx = int f" and "f \<le> 35" and "f < fuel"
  shows "\<exists>ctx' m p. bufCtxSetOffsetCallback io fuel ctx = Inr (Some ctx') \<and> lb_ready io m ctx' \<and>
     bc_debug_has_freed ctx' = 0 \<and> bc_start_offset ctx' = int p \<and> last_mark (f - 1 + 5) p"
proof -
  obtain m where m: "lb_ready io m ctx" using assms(1) by (auto simp: lb_new_def)
  then have st: "io_fstat io (bc_fd ctx) = Inr (Some 40)" by (auto simp: lb_ready_def io_fstat_def EXAMPLE_LEN_def)
  have "lb_buffer io m ctx" using m assms(1) by (simp add: lb_buffer_def lb_new_def)
  then obtain m1 p where p: "lookback_loop io fuel 1 (int f) ctx =
      Inr (True, ctx\<lparr>bc_err := 0, bc_start_offset := int p, bc_buf := Some m1, bc_buflen := 6\<rparr>)"
    "length m1 = 40" "last_mark (f - 1 + 5) p"
    using lookback_loop_finds assms(3,4) by blast
  define c1 where "c1 = ctx\<lparr>bc_err := 0, bc_start_offset := int p, bc_file_offset := int p, bc_buf := Some m1,
     bc_buflen := 0, bc_buf_offset := 0\<rparr>"
  have seek: "bufCtxSeekStart io fuel ctx = Inr c1"
    by (simp add: bufCtxSeekStart_def st jump_size_def assms(2) p(1) c1_def)
  have "p \<le> 30" using p(3) by (auto simp: last_mark_def marks)
  moreover have "lb_ready io m1 c1" using m p(2) by (auto simp: lb_ready_def c1_def)
  moreover have "bc_buflen c1 = 0" "bc_buf_offset c1 = 0" "bc_file_offset c1 = int p" by (simp_all add: c1_def)
  moreover define m2 where "m2 = (map Some (take 6 (drop p EXAMPLE)) @ drop 6 m1)[6 := Some NUL]"
  ultimately have m2: "length m2 = 40" "bufCtxRead io c1 0 (int p) = Inr (6, c1\<lparr>bc_err := 0, bc_buflen := 6, bc_buf := Some m2\<rparr>)"
    using bufCtxRead_ok [of io m1 c1 p] p(2) by simp_all
  have "bufCtxCollectFullBuffer io fuel ctx = Inr (c1\<lparr>bc_err := 0, bc_file_offset := int p + 6, bc_buf := Some m2, bc_buflen := 6\<rparr>)"
    using \<open>p \<le> 30\<close> m2 by (simp add: bufCtxCollectFullBuffer_def seek c1_def)
  then show ?thesis using m m2(1) p(3) assms(1)
    by (auto simp: bufCtxSetOffsetCallback_def lb_ready_def lb_new_def c1_def)
qed

lemma bufCtxSetOffsetCallback_past:
  assumes "lb_new io ctx" and "bc_file_offset ctx = int f" and "35 < f" and "f \<le> 40" and "0 < fuel"
  shows "bufCtxSetOffsetCallback io fuel ctx = Inl OutOfBounds"
proof -
  obtain m where m: "lb_ready io m ctx" using assms(1) by (auto simp: lb_new_def)
  then have st: "io_fstat io (bc_fd ctx) = Inr (Some 40)" by (auto simp: lb_ready_def io_fstat_def EXAMPLE_LEN_def)
  obtain fu where fu: "fuel = Suc fu" using assms(5) by (cases fuel) auto
  have "34 < f - 1" "f - 1 \<le> 40" using assms(3,4) by linarith+
  then have "bufCtxRead io ctx 0 (int (f - 1)) = Inl OutOfBounds" by (rule bufCtxRead_past [OF m])
  moreover have "int_of_long (int f - 1) = int (f - 1)" using assms(3,4) by (simp add: of_nat_diff)
  ultimately have "lookback_loop io fuel 1 (int f) ctx = Inl OutOfBounds" using assms(3) by (simp add: fu Let_def)
  then show ?thesis
    by (simp add: bufCtxSetOffsetCallback_def bufCtxCollectFullBuffer_def bufCtxSeekStart_def st jump_size_def assms(2))
qed

section \<open>The parts\<close>

lemma printed_text_at:
  "text_at m i (t @ [NUL]) \<Longrightarrow> length t < n \<Longrightarrow> printed_text m i n = Inr (takeWhile (\<lambda>c. c \<noteq> NUL) t)"
proof (induction n arbitrary: i t)
  case (Suc n)
  show ?case
  proof (cases t)
    case Nil
    then show ?thesis using Suc.prems by simp
  next
    case (Cons c t')
    then have "printed_text m (Suc i) n = Inr (takeWhile (\<lambda>c. c \<noteq> NUL) t')" using Suc.prems by (intro Suc.IH) auto
    then show ?thesis using Suc.prems Cons by simp
  qed
qed simp

lemma example_segment:
  "takeWhile (\<lambda>c. c \<noteq> NUL) (take n (drop s EXAMPLE)) = take n (drop s EXAMPLE_text)"
proof -
  have nul: "NUL \<notin> set EXAMPLE_text" by (simp add: EXAMPLE_text_def)
  have "takeWhile (\<lambda>c. c \<noteq> NUL) ys = []" if "set ys \<subseteq> {NUL}" for ys using that by (cases ys) auto
  moreover have "set (take k (drop j [NUL, NUL])) \<subseteq> {NUL}" for k j by (auto dest!: in_set_takeD in_set_dropD)
  ultimately have "takeWhile (\<lambda>c. c \<noteq> NUL) (take k (drop j [NUL, NUL])) = []" for k j by blast
  moreover have "c \<noteq> NUL" if "c \<in> set (take n (drop s EXAMPLE_text))" for c
    using that nul by (auto dest!: in_set_takeD in_set_dropD)
  ultimately show ?thesis unfolding EXAMPLE_def take_append drop_append by (subst takeWhile_append2) auto
qed

lemma read_part:
  assumes "lb_ready io m ctx" and "bc_start_offset ctx = int s" and "bc_end_offset ctx = int e"
    and "s < e" and "e \<le> 40" and "e - s < 40"
  shows "\<exists>m'. read_or_release io ctx = Inr (Some (ctx\<lparr>bc_buf := Some m', bc_buflen := e - s\<rparr>)) \<and> length m' = 40 \<and>
     printed_text m' 0 41 = Inr (take (e - s) (drop s EXAMPLE_text))"
proof -
  let ?n = "e - s"
  let ?t = "take ?n (drop s EXAMPLE)"
  define m1 where "m1 = replicate 20 (Some NUL) @ drop 20 m"
  define m2 where "m2 = map Some ?t @ drop ?n m1"
  define m3 where "m3 = m2[?n := Some NUL]"
  have len: "length m = 40" "length m1 = 40" "length m2 = 40" "length ?t = ?n"
    using assms by (auto simp: lb_ready_def m1_def m2_def)
  have want: "long_op (int e - int s) = Inr (int ?n)" "nat (int ?n mod 2 ^ 64) = ?n"
    using assms(4,5) by (simp_all add: long_op_def of_nat_diff)
  have "io_pread io (bc_fd ctx) m1 0 ?n (int s) = Inr (int ?n, m2)"
    using assms(1,4,5) io_read_loop_ok [of s 0 ?n 0 m1] len
    by (auto simp: lb_ready_def io_pread_def m2_def simp del: io_read_loop.simps)
  then have "read_or_release io ctx = Inr (Some (ctx\<lparr>bc_buf := Some m3, bc_buflen := ?n\<rparr>))"
    using assms len want
    by (simp add: lb_ready_def read_or_release_def bufCtxReadLimits_def bc_block_def blk_copy_def blk_write_def m1_def m3_def)
  moreover have "text_at m3 0 (?t @ [NUL])"
  proof -
    have "take ?n m3 = map Some ?t" "m3 ! ?n = Some NUL" using len assms(6) by (simp_all add: m3_def m2_def)
    then show ?thesis using len assms(6) by (simp add: text_at_def take_Suc_conv_app_nth m3_def blk_read_def)
  qed
  then have "printed_text m3 0 41 = Inr (take ?n (drop s EXAMPLE_text))"
    using printed_text_at [of m3 0 ?t 41] len assms(6) by (simp add: example_segment)
  ultimately show ?thesis using len by (auto simp: m3_def)
qed

lemma print_part:
  assumes "lb_ready io m ctx" and "bc_debug_has_freed ctx = 0" and "bc_start_offset ctx = int s"
    and "bc_end_offset ctx = int e" and "s \<le> e" and "e \<le> 40" and "e - s < 40"
  shows "\<exists>ctx'. read_or_release io ctx = Inr (Some ctx') \<and>
     (\<forall>cs. print_full (ctx' # cs) =
        (if s = e then print_full cs
         else bindE (print_full cs) (\<lambda>ls. Inr ((bc_id ctx, take (e - s) (drop s EXAMPLE_text)) # ls))))"
proof (cases "s = e")
  case True
  then have "read_or_release io ctx = Inr (Some (ctx\<lparr>bc_debug_has_freed := 1, bc_buf := None\<rparr>))"
    using assms(1,3,4) by (simp add: read_or_release_def bufCtxRelease_def lb_ready_def long_op_def)
  then show ?thesis using True by auto
next
  case False
  then have "s < e" using assms(5) by simp
  then obtain m' where m': "read_or_release io ctx = Inr (Some (ctx\<lparr>bc_buf := Some m', bc_buflen := e - s\<rparr>))"
    "length m' = 40" "printed_text m' 0 41 = Inr (take (e - s) (drop s EXAMPLE_text))"
    using read_part [OF assms(1,3,4) _ assms(6,7)] by blast
  then show ?thesis using False assms(2) by (simp add: bc_block_def bufCtxRelease_def del: printed_text.simps)
qed

lemma marks_apart: "mark_at EXAMPLE s \<Longrightarrow> e = 40 \<or> mark_at EXAMPLE e \<Longrightarrow> s < e \<Longrightarrow>
   take 2 (take (e - s) (drop s EXAMPLE_text)) = ''AA''"
  unfolding marks by (auto simp: EXAMPLE_text_def)

text \<open>
  The second half of \<open>withThreads\<close>: contexts whose starts are marks, in their order, print the text from the first of them on in
  parts that begin at a mark, without a gap.
\<close>

lemma lb_parts:
  assumes "cs \<noteq> []" and "\<forall>c \<in> set cs. (\<exists>m. lb_ready io m c) \<and> bc_debug_has_freed c = 0"
    and "map bc_start_offset cs = map int ss" and "\<forall>s \<in> set ss. mark_at EXAMPLE s" and "sorted ss" and "0 < last ss"
  shows "\<exists>rs ls. map_each (read_or_release io) (set_lb_ends 40 cs) = Inr rs \<and> None \<notin> set rs \<and>
     print_full (map the rs) = Inr ls \<and> concat (map snd ls) = drop (hd ss) EXAMPLE_text \<and>
     (\<forall>l \<in> set ls. take 2 (snd l) = ''AA'')"
  using assms
proof (induction cs arbitrary: ss)
  case (Cons c cs)
  obtain s ss' where ss: "ss = s # ss'" "bc_start_offset c = int s" "map bc_start_offset cs = map int ss'"
    using Cons.prems(3) by (cases ss) auto
  obtain m where m: "lb_ready io m c" "bc_debug_has_freed c = 0" using Cons.prems(2) by auto
  have s30: "s \<le> 30" "mark_at EXAMPLE s" using Cons.prems(4) ss(1) by (auto simp: marks)
  show ?case
  proof (cases cs)
    case Nil
    then have s0: "0 < s" using ss Cons.prems(6) by simp
    obtain c' where c': "read_or_release io (c\<lparr>bc_end_offset := 40\<rparr>) = Inr (Some c')"
      "\<forall>cs. print_full (c' # cs) = bindE (print_full cs) (\<lambda>ls. Inr ((bc_id c, take (40 - s) (drop s EXAMPLE_text)) # ls))"
      using print_part [of io m "c\<lparr>bc_end_offset := 40\<rparr>" s 40] m s30(1) s0 ss(2)
      by (auto simp: lb_ready_def simp del: print_full.simps(2))
    have "take (40 - s) (drop s EXAMPLE_text) = drop s EXAMPLE_text" using s30 by (simp add: EXAMPLE_text_def)
    moreover have "take 2 (take (40 - s) (drop s EXAMPLE_text)) = ''AA''" using s30 by (intro marks_apart) auto
    ultimately show ?thesis using c' Nil ss(1) by simp
  next
    case (Cons d ds)
    obtain e ss2 where e: "ss' = e # ss2" "bc_start_offset d = int e" using ss(3) Cons by (cases ss') auto
    have se: "s \<le> e" "mark_at EXAMPLE e" using Cons.prems(4,5) ss(1) e(1) by auto
    then have e30: "e \<le> 30" by (auto simp: marks)
    then have e40: "e - s < 40" by linarith
    have ne: "cs \<noteq> []" using Cons by simp
    have ready: "\<forall>c \<in> set cs. (\<exists>m. lb_ready io m c) \<and> bc_debug_has_freed c = 0" using Cons.prems(2) by simp
    have mk: "\<forall>s \<in> set ss'. mark_at EXAMPLE s" and so: "sorted ss'" and la: "0 < last ss'"
      using Cons.prems(4-6) ss(1) e(1) by auto
    obtain rs ls where r: "map_each (read_or_release io) (set_lb_ends 40 cs) = Inr rs" "None \<notin> set rs"
      "print_full (map the rs) = Inr ls" "concat (map snd ls) = drop e EXAMPLE_text"
      "\<forall>l \<in> set ls. take 2 (snd l) = ''AA''"
      using Cons.IH [OF ne ready ss(3) mk so la] e(1) by auto
    obtain c' where c': "read_or_release io (c\<lparr>bc_end_offset := int e\<rparr>) = Inr (Some c')"
      "\<forall>cs. print_full (c' # cs) = (if s = e then print_full cs
         else bindE (print_full cs) (\<lambda>ls. Inr ((bc_id c, take (e - s) (drop s EXAMPLE_text)) # ls)))"
      using print_part [of io m "c\<lparr>bc_end_offset := int e\<rparr>" s e] m se(1) e30 e40 ss(2) by (auto simp: lb_ready_def simp del: print_full.simps)
    have "take (e - s) (drop s EXAMPLE_text) @ drop e EXAMPLE_text = drop s EXAMPLE_text"
      using se(1) by (metis append_take_drop_id drop_drop le_add_diff_inverse2)
    moreover have "take 2 (take (e - s) (drop s EXAMPLE_text)) = ''AA''" if "s \<noteq> e"
      using that se s30(2) by (intro marks_apart) auto
    moreover have "set_lb_ends 40 (c # cs) = c\<lparr>bc_end_offset := int e\<rparr> # set_lb_ends 40 cs" using Cons e(2) by simp
    ultimately show ?thesis using c' r ss(1)
      by (intro exI [of _ "Some c' # rs"] exI [of _ "if s = e then ls else (bc_id c, take (e - s) (drop s EXAMPLE_text)) # ls"])
        (auto simp del: print_full.simps)
  qed
qed simp


section \<open>Properties\<close>

lemma lb_context_new:
  assumes "\<exists>f. io_lookup io fd = Inr (Some f)" and "i < LB_THREAD_COUNT"
  shows "lb_new io (lb_context fd 40 i)" and "bc_file_offset (lb_context fd 40 i) = int (4 * i)"
  using assms
  by (simp_all add: lb_new_def lb_ready_def lb_context_def bufCtxInit_def bufCtxNew_def to_ssize_def Let_def LB_THREAD_COUNT_def)

lemma ioInit_static: "ioInit io_static = Inr io_static"
proof -
  have "\<exists>t. for_range 3 100 (\<lambda>i table. Inr (table[i := None])) (replicate 100 (None :: sim_file option)) = (Inr t :: c_error + _) \<and>
      t = replicate 100 None"
    by (rule for_range_total) (auto simp: list_eq_iff_nth_eq nth_list_update)
  then show ?thesis by (auto simp: ioInit_def io_static_def simp del: for_range_step)
qed

definition io_opened :: io_sys where
  "io_opened = \<lparr>io_current_fd = 4, io_file_table = (replicate 100 None)
     [3 := Some \<lparr>sf_path = ''example.txt'', sf_inode = 1, sf_count = 1, sf_flags = 0, sf_mode = 0, sf_pos = 0\<rparr>]\<rparr>"

lemma io_open_static: "io_open io_static ''example.txt'' 0 = Inr (3, io_opened)"
proof -
  have "c_strncmp id (c_lit ''example.txt'') 0 (c_lit ''example.txt'') 0 11 = Inr 0" by code_simp
  then show ?thesis by (simp add: io_open_def io_static_def io_opened_def)
qed

lemma io_opened_3: "io_lookup io_opened 3 = Inr (io_file_table io_opened ! 3)" "io_file_table io_opened ! 3 \<noteq> None"
  by (simp_all add: io_lookup_def io_opened_def)

lemma ioClear_opened: "\<exists>io. ioClear io_opened = Inr io"
  by (simp add: ioClear_def io_opened_def)

lemma lookback_main_runs:
  "lookback_main io_static fuel =
     bindE (withThreads io_opened fuel 3 40) (\<lambda>ls.
     case ls of None \<Rightarrow> Inr (None, io_opened) | Some _ \<Rightarrow> bindE (ioClear io_opened) (\<lambda>io. Inr (ls, io)))"
  using io_opened_3 by (auto simp: lookback_main_def ioInit_static io_open_static io_fstat_def EXAMPLE_LEN_def)

text \<open>The jobs are tried in their order; the first that fails ends the program.\<close>

lemma map_each_fails:
  "list_all (\<lambda>x. \<exists>r. f x = Inr r) xs \<Longrightarrow> f y = Inl e \<Longrightarrow> map_each f (xs @ y # ys) = Inl e"
  by (induction xs) auto

text \<open>
  C36. Of the ten threads of the look-back program, thread \<open>i\<close> begins its search at byte \<open>4 * i\<close> of the example of 40 bytes and
  goes back from there, a byte at a time. The first nine find a mark \<open>AA\<close>, the last one that begins before byte
  \<open>4 * i + 4\<close>, or, for thread 0, before byte 5. The tenth begins at byte 36 and reads \<open>EXAMPLE[40]\<close>, behind the array: a read stops only
  behind the byte at the size. So the program as it is has no defined result.
\<close>

theorem withThreads_searches:
  assumes "\<exists>f. io_lookup io fd = Inr (Some f)" and "40 < fuel"
  shows "(\<forall>i < 9. \<exists>ctx m p. bufCtxSetOffsetCallback io fuel (lb_context fd 40 i) = Inr (Some ctx) \<and>
       lb_ready io m ctx \<and> bc_start_offset ctx = int p \<and> last_mark (4 * i - 1 + 5) p) \<and>
     bufCtxSetOffsetCallback io fuel (lb_context fd 40 9) = Inl OutOfBounds \<and>
     withThreads io fuel fd 40 = Inl OutOfBounds"
proof -
  let ?f = "bufCtxSetOffsetCallback io fuel"
  have finds: "\<exists>ctx m p. ?f (lb_context fd 40 i) = Inr (Some ctx) \<and> lb_ready io m ctx \<and>
      bc_start_offset ctx = int p \<and> last_mark (4 * i - 1 + 5) p" if "i < 9" for i
  proof -
    have "i < LB_THREAD_COUNT" "4 * i \<le> 35" "4 * i < fuel" using that assms(2) by (simp_all add: LB_THREAD_COUNT_def)
    then show ?thesis using bufCtxSetOffsetCallback_finds [OF lb_context_new [OF assms(1)]] by blast
  qed
  have past: "?f (lb_context fd 40 9) = Inl OutOfBounds"
    using bufCtxSetOffsetCallback_past [OF lb_context_new [OF assms(1)], of 9 fuel] assms(2)
    by (simp add: LB_THREAD_COUNT_def)
  have "[0..<10] = [0..<9] @ [9 :: nat]" by (simp add: upt_rec)
  moreover have "list_all (\<lambda>x. \<exists>r. ?f x = Inr r) (map (lb_context fd 40) [0..<9])"
    unfolding list_all_iff using finds by fastforce
  ultimately have "map_each ?f (map (lb_context fd 40) [0..<LB_THREAD_COUNT]) = Inl OutOfBounds"
    using map_each_fails [of ?f "map (lb_context fd 40) [0..<9]" "lb_context fd 40 9"] past
    by (simp add: LB_THREAD_COUNT_def)
  then show ?thesis using finds past by (simp add: withThreads_def)
qed

theorem withThreads_searches_witness:
  "(\<exists>ctx. bufCtxSetOffsetCallback io_opened 50 (lb_context 3 40 8) = Inr (Some ctx) \<and> bc_start_offset ctx = 30) \<and>
   withThreads io_opened 50 3 40 = Inl OutOfBounds"
proof -
  have io: "\<exists>f. io_lookup io_opened 3 = Inr (Some f)" using io_opened_3 by auto
  note s = withThreads_searches [OF io, of 50]
  obtain ctx p where "bufCtxSetOffsetCallback io_opened 50 (lb_context 3 40 8) = Inr (Some ctx)"
    "bc_start_offset ctx = int p" "last_mark 36 p"
    using conjunct1 [OF s, rule_format, of 8] by auto
  moreover have "p = 30"
  proof -
    have "mark_at EXAMPLE p" "\<not> p < 30" using calculation(3) by (auto simp: last_mark_def marks)
    then show ?thesis by (auto simp: marks)
  qed
  ultimately show ?thesis using conjunct2 [OF conjunct2 [OF s]] by auto
qed

text \<open>The whole program, from its first call to \<open>main\<close>.\<close>

theorem lookback_main_overreads:
  assumes "40 < fuel"
  shows "lookback_main io_static fuel = Inl OutOfBounds"
proof -
  let ?f = "bufCtxSetOffsetCallback io_opened fuel"
  have io: "\<exists>f. io_lookup io_opened 3 = Inr (Some f)" using io_opened_3 by auto
  have "\<exists>r. ?f (lb_context 3 40 i) = Inr r" if "i < 9" for i
  proof -
    have "i < LB_THREAD_COUNT" "4 * i \<le> 35" "4 * i < fuel" using that assms by (simp_all add: LB_THREAD_COUNT_def)
    then show ?thesis using bufCtxSetOffsetCallback_finds [OF lb_context_new [OF io]] by blast
  qed
  then have "list_all (\<lambda>x. \<exists>r. ?f x = Inr r) (map (lb_context 3 40) [0..<9])" by (simp add: list_all_iff)
  moreover have "?f (lb_context 3 40 9) = Inl OutOfBounds"
    using bufCtxSetOffsetCallback_past [OF lb_context_new [OF io], of 9 fuel] assms by (simp add: LB_THREAD_COUNT_def)
  moreover have "[0..<10] = [0..<9] @ [9 :: nat]" by (simp add: upt_rec)
  ultimately have "map_each ?f (map (lb_context 3 40) [0..<LB_THREAD_COUNT]) = Inl OutOfBounds"
    using map_each_fails [of ?f "map (lb_context 3 40) [0..<9]" "lb_context 3 40 9"] by (simp add: LB_THREAD_COUNT_def)
  then show ?thesis by (simp add: lookback_main_runs withThreads_def)
qed

theorem lookback_main_overreads_witness: "lookback_main io_static 50 = Inl OutOfBounds"
  using lookback_main_overreads [of 50] by simp

text \<open>
  The loop without threads reads behind the example as well, as soon as its place is within the last
  four bytes.
\<close>

lemma for_range_fails:
  assumes "lo \<le> k" and "k < hi" and "\<forall>i. lo \<le> i \<and> i < k \<longrightarrow> body i () = Inr ()" and "body k () = Inl e"
  shows "for_range lo hi body () = Inl e"
  using assms
proof (induction "k - lo" arbitrary: lo)
  case (Suc d)
  then have "for_range (Suc lo) hi body () = Inl e" by (intro Suc.hyps(1)) auto
  then show ?case using Suc by simp
qed simp

theorem noThreads_overreads:
  assumes "\<exists>f. io_lookup io fd = Inr (Some f)" and "40 < fuel"
  shows "noThreads io fuel fd 40 = Inl OutOfBounds"
proof -
  let ?c = "\<lambda>i. (bufCtxNew (int i) fd 40)\<lparr>bc_file_offset := int i, bc_buf_offset := i, bc_start_offset := int i\<rparr>"
  have new: "lb_new io (?c i)" "bc_file_offset (?c i) = int i" for i
    using assms(1) by (simp_all add: lb_new_def lb_ready_def bufCtxNew_def)
  let ?body = "\<lambda>i u :: unit. bindE (bufCtxCollectFullBuffer io fuel (?c i)) (\<lambda>ctx. bindE (bufCtxRelease ctx) (\<lambda>_. Inr ()))"
  have "?body i () = Inr ()" if "i < 36" for i
  proof -
    obtain ctx m where "bufCtxSetOffsetCallback io fuel (?c i) = Inr (Some ctx)" "lb_ready io m ctx"
      using bufCtxSetOffsetCallback_finds [OF new, of i fuel] \<open>i < 36\<close> assms(2) by auto
    then show ?thesis
      by (auto simp: bufCtxSetOffsetCallback_def lb_ready_def bufCtxRelease_def outcome_simps split: if_splits)
  qed
  moreover have "bufCtxSetOffsetCallback io fuel (?c 36) = Inl OutOfBounds"
    using bufCtxSetOffsetCallback_past [OF new, of 36 fuel] assms(2) by simp
  then have "?body 36 () = Inl OutOfBounds" by (auto simp: bufCtxSetOffsetCallback_def bindE_Inl_iff)
  ultimately have "for_range 0 40 ?body () = Inl OutOfBounds" by (intro for_range_fails [of 0 36]) auto
  then show ?thesis by (simp add: noThreads_def EXAMPLE_LEN_def Let_def del: for_range_step)
qed

theorem noThreads_overreads_witness: "noThreads io_opened 50 3 40 = Inl OutOfBounds"
  using noThreads_overreads [of io_opened 3 50] io_opened_3 by auto

end
