(* ===== verification/Mbox_LookbackPool.thy ===== *)
theory Mbox_LookbackPool
  imports Mbox_Worker
begin

text \<open>
  The worker pool of \<open>src/lookback-algorithm/workers.c\<close>, as the steps of its workers and of one client.
  It counts the jobs that are queued or run and, other than that of the library, joins its workers when
  it is released. What a thread does under the mutex is one step, and a thread that waits for a
  condition may wake for no reason. The queue is the sequence of its jobs: the functions of \<open>list.c\<close> that
  the pool calls are those of \<open>Mbox_List\<close> under other names. The callback on completion, which nothing
  sets, is left out.
\<close>

section \<open>The state\<close>

text \<open>
  Where a worker is in \<open>workerMain\<close>: at the top of its loop, at the inner loop, asleep in it, in the
  callback of a job, before it counts the job as done, at its end.
\<close>

datatype 'j lb_worker = LTop | LInner | LSleep | LRun 'j | LCount | LExit

text \<open>
  The client enqueues, waits and releases. It may sleep in \<open>workerPoolWait\<close> or in \<open>workerPoolStop\<close>, is at
  the join of a worker, or has freed the pool.
\<close>

datatype 'j lb_op = LbEnqueue 'j | LbWait | LbRelease

datatype lb_client = LcRun | LcWaiting | LcStopping | LcJoin nat | LcFreed

text \<open>The last two lists are a history: the jobs that were enqueued and those whose callback has returned.\<close>

record 'j workerPool =
  lp_jobs :: "'j list"
  lp_worker_count :: nat
  lp_job_count :: nat
  lp_run :: int
  lp_workers :: "nat \<Rightarrow> 'j lb_worker"
  lp_client :: lb_client
  lp_script :: "'j lb_op list"
  lp_enqueued :: "'j list"
  lp_finished :: "'j list"

section \<open>The operations\<close>

text \<open>A broadcast wakes the workers that sleep, and a client that sleeps on the same condition.\<close>

definition broadcast_has_work :: "'j workerPool \<Rightarrow> 'j workerPool" where
  "broadcast_has_work pool =
     pool\<lparr>lp_workers := (\<lambda>i. if lp_workers pool i = LSleep then LInner else lp_workers pool i),
          lp_client := (if lp_client pool = LcStopping then LcRun else lp_client pool)\<rparr>"

definition signal_no_work :: "'j workerPool \<Rightarrow> 'j workerPool" where
  "signal_no_work pool = pool\<lparr>lp_client := (if lp_client pool = LcWaiting then LcRun else lp_client pool)\<rparr>"

definition workerPoolEnqueue :: "'j workerPool \<Rightarrow> 'j \<Rightarrow> 'j workerPool" where
  "workerPoolEnqueue pool job =
     broadcast_has_work (pool\<lparr>lp_job_count := size_add (lp_job_count pool) 1, lp_jobs := lp_jobs pool @ [job],
       lp_enqueued := lp_enqueued pool @ [job]\<rparr>)"

definition workerPoolWait :: "'j workerPool \<Rightarrow> 'j workerPool" where
  "workerPoolWait pool =
     (if lp_job_count pool \<noteq> 0 then pool\<lparr>lp_client := LcWaiting\<rparr> else pool\<lparr>lp_script := tl (lp_script pool)\<rparr>)"

text \<open>The inner loop and what follows it until the mutex is unlocked.\<close>

definition take_job :: "nat \<Rightarrow> 'j workerPool \<Rightarrow> 'j workerPool" where
  "take_job i pool =
     (let goto = (\<lambda>pc pool. pool\<lparr>lp_workers := (lp_workers pool)(i := pc)\<rparr>)
      in if lp_job_count pool = 0 \<and> lp_run pool \<noteq> 0 then goto LSleep pool
         else case lp_jobs pool of
                [] \<Rightarrow> goto LTop pool
              | job # jobs \<Rightarrow> goto (LRun job) (pool\<lparr>lp_jobs := jobs\<rparr>))"

definition workerMain :: "nat \<Rightarrow> 'j workerPool \<Rightarrow> c_error + 'j workerPool" where
  "workerMain i pool =
     (let goto = (\<lambda>pc pool. pool\<lparr>lp_workers := (lp_workers pool)(i := pc)\<rparr>)
      in if lp_client pool = LcFreed then Inl UseAfterFree
         else case lp_workers pool i of
           LTop \<Rightarrow>
             if lp_run pool = 0
             then let pool = goto LExit (pool\<lparr>lp_worker_count := size_sub (lp_worker_count pool) 1\<rparr>)
                  in Inr (if lp_job_count pool = 0 then signal_no_work pool else pool)
             else Inr (take_job i pool)
         | LInner \<Rightarrow> Inr (take_job i pool)
         | LSleep \<Rightarrow> Inl Deadlock
         | LRun j \<Rightarrow> Inr (goto LCount (pool\<lparr>lp_finished := lp_finished pool @ [j]\<rparr>))
         | LCount \<Rightarrow>
             let pool = goto LTop (pool\<lparr>lp_job_count := size_sub (lp_job_count pool) 1\<rparr>)
             in Inr (if lp_run pool \<noteq> 0 \<and> lp_job_count pool = 0 then signal_no_work pool else pool)
         | LExit \<Rightarrow> Inr pool)"

definition workerPoolNew :: "nat \<Rightarrow> 'j lb_op list \<Rightarrow> 'j workerPool" where
  "workerPoolNew worker_count script =
     \<lparr>lp_jobs = [], lp_worker_count = worker_count, lp_job_count = 0, lp_run = 1, lp_workers = (\<lambda>_. LTop),
      lp_client = LcRun, lp_script = script, lp_enqueued = [], lp_finished = []\<rparr>"

text \<open>\<open>workerPoolStop\<close> up to its loop over the workers, and a round of the loop.\<close>

definition workerPoolStop :: "'j workerPool \<Rightarrow> 'j workerPool" where
  "workerPoolStop pool =
     (if lp_job_count pool \<noteq> 0 then pool\<lparr>lp_client := LcStopping\<rparr>
      else (broadcast_has_work (pool\<lparr>lp_run := 0\<rparr>))\<lparr>lp_client := LcJoin 0, lp_script := tl (lp_script pool)\<rparr>)"

definition join_step :: "nat \<Rightarrow> 'j workerPool \<Rightarrow> 'j workerPool" where
  "join_step i pool =
     (if i < lp_worker_count pool then pool\<lparr>lp_client := LcJoin (i + 1)\<rparr>
      else pool\<lparr>lp_worker_count := 0, lp_client := LcFreed\<rparr>)"

definition lb_client_step :: "'j workerPool \<Rightarrow> 'j workerPool" where
  "lb_client_step pool =
     (case lp_script pool of
        [] \<Rightarrow> pool
      | LbEnqueue job # s \<Rightarrow> workerPoolEnqueue (pool\<lparr>lp_script := s\<rparr>) job
      | LbWait # s \<Rightarrow> workerPoolWait pool
      | LbRelease # s \<Rightarrow> workerPoolStop pool)"

section \<open>The steps of the threads\<close>

text \<open>A join of a worker that has not ended blocks. The pool has \<open>n\<close> workers.\<close>

inductive lb_step :: "nat \<Rightarrow> 'j workerPool \<Rightarrow> c_error + 'j workerPool \<Rightarrow> bool" for n where
  worker: "i < n \<Longrightarrow> lp_workers p i \<noteq> LSleep \<Longrightarrow> lp_workers p i \<noteq> LExit \<Longrightarrow> lb_step n p (workerMain i p)"
| client: "lp_client p = LcRun \<Longrightarrow> lp_script p \<noteq> [] \<Longrightarrow> lb_step n p (Inr (lb_client_step p))"
| join: "lp_client p = LcJoin i \<Longrightarrow> i < lp_worker_count p \<longrightarrow> lp_workers p i = LExit \<Longrightarrow> lb_step n p (Inr (join_step i p))"

inductive lb_wakes :: "nat \<Rightarrow> 'j workerPool \<Rightarrow> 'j workerPool \<Rightarrow> bool" for n where
  worker: "i < n \<Longrightarrow> lp_workers p i = LSleep \<Longrightarrow> lb_wakes n p (p\<lparr>lp_workers := (lp_workers p)(i := LInner)\<rparr>)"
| client: "lp_client p = LcWaiting \<or> lp_client p = LcStopping \<Longrightarrow> lb_wakes n p (p\<lparr>lp_client := LcRun\<rparr>)"

inductive lb_reach :: "nat \<Rightarrow> 'j workerPool \<Rightarrow> 'j workerPool \<Rightarrow> bool" for n p0 where
  start: "lb_reach n p0 p0"
| step: "lb_reach n p0 p \<Longrightarrow> lb_step n p (Inr p') \<Longrightarrow> lb_reach n p0 p'"
| spurious: "lb_reach n p0 p \<Longrightarrow> lb_wakes n p p' \<Longrightarrow> lb_reach n p0 p'"

section \<open>The invariant\<close>

definition lb_busy :: "'j lb_worker \<Rightarrow> nat" where
  "lb_busy pc = (case pc of LRun _ \<Rightarrow> 1 | LCount \<Rightarrow> 1 | _ \<Rightarrow> 0)"

definition lb_running :: "'j lb_worker \<Rightarrow> 'j multiset" where
  "lb_running pc = (case pc of LRun j \<Rightarrow> {#j#} | _ \<Rightarrow> {#})"

lemma lb_pc_simps [simp]:
  "lb_busy LTop = 0" "lb_busy LInner = 0" "lb_busy LSleep = 0" "lb_busy (LRun j) = 1" "lb_busy LCount = 1" "lb_busy LExit = 0"
  "lb_running LTop = {#}" "lb_running LInner = {#}" "lb_running LSleep = {#}" "lb_running (LRun j) = {#j#}"
  "lb_running LCount = {#}" "lb_running LExit = {#}"
  by (simp_all add: lb_busy_def lb_running_def)

fun lb_enqueues :: "'j lb_op list \<Rightarrow> 'j list" where
  "lb_enqueues [] = []"
| "lb_enqueues (LbEnqueue j # s) = j # lb_enqueues s"
| "lb_enqueues (_ # s) = lb_enqueues s"

text \<open>
  The counter is the number of the jobs that are queued or run; every job that was enqueued is queued,
  runs or has returned.
\<close>

definition lb_ok :: "nat \<Rightarrow> 'j list \<Rightarrow> 'j workerPool \<Rightarrow> bool" where
  "lb_ok n js p \<longleftrightarrow> lp_enqueued p @ lb_enqueues (lp_script p) = js \<and>
     lp_job_count p = length (lp_jobs p) + (\<Sum>i<n. lb_busy (lp_workers p i)) \<and>
     lp_job_count p \<le> length (lp_enqueued p) \<and>
     mset (lp_enqueued p) = mset (lp_jobs p) + (\<Sum>i<n. lb_running (lp_workers p i)) + mset (lp_finished p)"

lemma lb_ok_cong:
  "lb_ok n js p \<Longrightarrow> lp_enqueued p' = lp_enqueued p \<Longrightarrow> lb_enqueues (lp_script p') = lb_enqueues (lp_script p) \<Longrightarrow>
   lp_job_count p' = lp_job_count p \<Longrightarrow> lp_jobs p' = lp_jobs p \<Longrightarrow> lp_finished p' = lp_finished p \<Longrightarrow>
   (\<And>i. lb_busy (lp_workers p' i) = lb_busy (lp_workers p i)) \<Longrightarrow>
   (\<And>i. lb_running (lp_workers p' i) = lb_running (lp_workers p i)) \<Longrightarrow> lb_ok n js p'"
  by (simp add: lb_ok_def)

lemma take_job_ok:
  assumes "lb_ok n js p" and "i < n" and "lb_busy (lp_workers p i) = 0" and "lb_running (lp_workers p i) = {#}"
  shows "lb_ok n js (take_job i p)"
proof -
  note b = sum_upd [OF assms(2), of lb_busy "lp_workers p"] and r = sum_upd [OF assms(2), of lb_running "lp_workers p"]
  show ?thesis
    using assms(1,3,4) b [of LSleep] b [of LTop] b [of "LRun (hd (lp_jobs p))"]
      r [of LSleep] r [of LTop] r [of "LRun (hd (lp_jobs p))"]
    by (cases "lp_jobs p") (simp_all add: take_job_def lb_ok_def ac_simps del: fun_upd_apply)
qed

lemma workerMain_ok:
  assumes "lb_ok n js p" and "i < n" and "workerMain i p = Inr p'" and "length js < SIZE_MOD"
  shows "lb_ok n js p'"
proof (cases "lp_workers p i")
  case LTop
  have "lb_ok n js (take_job i p)" by (rule take_job_ok [OF assms(1,2)]) (simp_all add: LTop)
  then show ?thesis using assms(1,3) LTop
    by (auto simp: workerMain_def Let_def signal_no_work_def split: if_splits intro: lb_ok_cong)
next
  case LInner
  have "lb_ok n js (take_job i p)" by (rule take_job_ok [OF assms(1,2)]) (simp_all add: LInner)
  then show ?thesis using assms(3) LInner by (auto simp: workerMain_def split: if_splits)
next
  case (LRun j)
  then show ?thesis
    using assms(1,3) sum_upd [OF assms(2), of lb_busy "lp_workers p" LCount] sum_upd [OF assms(2), of lb_running "lp_workers p" LCount]
    by (auto simp: workerMain_def Let_def lb_ok_def ac_simps simp del: fun_upd_apply split: if_splits)
next
  case LCount
  let ?p = "p\<lparr>lp_job_count := lp_job_count p - 1, lp_workers := (lp_workers p)(i := LTop)\<rparr>"
  have c: "1 \<le> lp_job_count p" "lp_job_count p < SIZE_MOD"
    using assms(1,4) sum_ge_one [OF assms(2), of lb_busy "lp_workers p"] LCount by (auto simp: lb_ok_def)
  have "lp_job_count p - 1 = length (lp_jobs p) + (\<Sum>k<n. lb_busy (((lp_workers p)(i := LTop)) k))"
    using assms(1) LCount sum_upd [OF assms(2), of lb_busy "lp_workers p" LTop] by (simp add: lb_ok_def del: fun_upd_apply)
  then have "lb_ok n js ?p"
    using assms(1) LCount sum_upd [OF assms(2), of lb_running "lp_workers p" LTop]
    by (auto simp: lb_ok_def ac_simps simp del: fun_upd_apply)
  then show ?thesis using assms(3) LCount c
    by (auto simp: workerMain_def Let_def signal_no_work_def split: if_splits intro: lb_ok_cong)
qed (use assms(1,3) in \<open>auto simp: workerMain_def split: if_splits\<close>)

lemma broadcast_ok: "lb_ok n js p \<Longrightarrow> lb_ok n js (broadcast_has_work p)"
  by (rule lb_ok_cong) (auto simp: broadcast_has_work_def)

lemma lb_client_step_ok:
  assumes "lb_ok n js p" and "length js < SIZE_MOD"
  shows "lb_ok n js (lb_client_step p)"
proof (cases "lp_script p")
  case (Cons op s)
  show ?thesis
  proof (cases op)
    case (LbEnqueue j)
    have "size_add (lp_job_count p) 1 = Suc (lp_job_count p)" using assms Cons LbEnqueue by (auto simp: lb_ok_def)
    then have "lb_ok n js (p\<lparr>lp_script := s, lp_job_count := size_add (lp_job_count p) 1, lp_jobs := lp_jobs p @ [j],
        lp_enqueued := lp_enqueued p @ [j]\<rparr>)"
      using assms(1) Cons LbEnqueue by (auto simp: lb_ok_def ac_simps)
    then show ?thesis using Cons LbEnqueue by (simp add: lb_client_step_def workerPoolEnqueue_def broadcast_ok)
  next
    case LbWait
    then show ?thesis using assms(1) Cons by (auto simp: lb_client_step_def workerPoolWait_def intro: lb_ok_cong)
  next
    case LbRelease
    have "lb_ok n js (broadcast_has_work (p\<lparr>lp_run := 0\<rparr>))" by (intro broadcast_ok lb_ok_cong [OF assms(1)]) simp_all
    moreover have "lp_script (broadcast_has_work (p\<lparr>lp_run := 0\<rparr>)) = lp_script p" by (simp add: broadcast_has_work_def)
    ultimately show ?thesis using assms(1) Cons LbRelease
      by (auto simp: lb_client_step_def workerPoolStop_def intro: lb_ok_cong)
  qed
qed (use assms(1) in \<open>simp add: lb_client_step_def\<close>)

lemma lb_step_ok:
  assumes "lb_step n p r" and "r = Inr p'" and "lb_ok n js p" and "length js < SIZE_MOD"
  shows "lb_ok n js p'"
  using assms
proof (cases rule: lb_step.cases)
  case (worker i)
  then show ?thesis using workerMain_ok assms(2-4) by blast
next
  case client
  then show ?thesis using lb_client_step_ok assms(2-4) by auto
next
  case (join i)
  then show ?thesis using assms(2,3) by (auto simp: join_step_def lb_ok_def)
qed

lemma lb_reach_ok:
  assumes "lb_reach n (workerPoolNew n script) p" and "length (lb_enqueues script) < SIZE_MOD"
  shows "lb_ok n (lb_enqueues script) p"
  using assms(1)
proof (induction rule: lb_reach.induct)
  case start
  then show ?case by (simp add: lb_ok_def workerPoolNew_def)
next
  case (step p p')
  then show ?case using lb_step_ok assms(2) by blast
next
  case (spurious p p')
  from spurious(2) spurious.IH show ?case
    by (cases rule: lb_wakes.cases) (auto intro: lb_ok_cong)
qed

section \<open>Properties\<close>

text \<open>
  When \<open>workerPoolWait\<close> returns, the callback of every job that was enqueued has returned once,
  whatever the order of the steps.
\<close>

theorem lb_workerPoolWait_complete:
  assumes "lb_reach n (workerPoolNew n script) p" and "length (lb_enqueues script) < SIZE_MOD"
    and "lp_client p = LcRun" and "lp_client (workerPoolWait p) = LcRun"
  shows "lp_jobs p = [] \<and> mset (lp_finished p) = mset (lp_enqueued p)"
proof -
  note ok = lb_reach_ok [OF assms(1,2)]
  have zero: "lp_job_count p = 0" using assms(4) by (auto simp: workerPoolWait_def split: if_splits)
  then have "lb_busy (lp_workers p i) = 0" if "i < n" for i
    using ok that by (auto simp: lb_ok_def)
  then have "lb_running (lp_workers p i) = {#}" if "i < n" for i
    using that by (cases "lp_workers p i") force+
  then show ?thesis using ok zero by (simp add: lb_ok_def)
qed

text \<open>A pool with one worker runs its job.\<close>

theorem lb_workerPoolWait_complete_witness:
  "\<exists>p. lb_reach 1 (workerPoolNew 1 [LbEnqueue ''a'', LbWait]) p \<and> lp_enqueued p = [''a''] \<and>
     lp_jobs p = [] \<and> mset (lp_finished p) = mset (lp_enqueued p)"
proof -
  let ?p0 = "workerPoolNew 1 [LbEnqueue ''a'', LbWait]"
  define p1 where "p1 = lb_client_step ?p0"
  have r1: "lb_reach 1 ?p0 p1" unfolding p1_def
    by (rule lb_reach.step [OF lb_reach.start], rule lb_step.client) (simp_all add: workerPoolNew_def)
  have worker: "lb_reach 1 ?p0 q'" if "lb_reach 1 ?p0 q" "workerMain 0 q = Inr q'" "lp_workers q 0 \<notin> {LSleep, LExit}" for q q'
    using that lb_step.worker [of 0 1 q] by (auto intro: lb_reach.step)
  note defs = p1_def workerPoolNew_def lb_client_step_def workerPoolEnqueue_def broadcast_has_work_def workerMain_def
    take_job_def signal_no_work_def Let_def
  obtain p2 where p2: "workerMain 0 p1 = Inr p2" "lp_workers p2 0 = LRun ''a''" "lp_client p2 = LcRun" "lp_run p2 = 1"
    "lp_job_count p2 = 1" "lp_jobs p2 = []" "lp_enqueued p2 = [''a'']" "lp_finished p2 = []" "lp_script p2 = [LbWait]"
    by (simp add: defs)
  obtain p3 where p3: "workerMain 0 p2 = Inr p3" "lp_workers p3 0 = LCount" "lp_client p3 = LcRun" "lp_run p3 = 1"
    "lp_job_count p3 = 1" "lp_enqueued p3 = [''a'']"
    using p2 by (simp add: workerMain_def)
  obtain p4 where p4: "workerMain 0 p3 = Inr p4" "lp_client p4 = LcRun" "lp_job_count p4 = 0" "lp_enqueued p4 = [''a'']"
    using p3 by (simp add: workerMain_def Let_def signal_no_work_def)
  have "lp_workers p1 0 = LTop" by (simp add: defs)
  then have r2: "lb_reach 1 ?p0 p2" using worker [OF r1 p2(1)] by simp
  have r3: "lb_reach 1 ?p0 p3" using worker [OF r2 p3(1)] p2(2) by simp
  have r4: "lb_reach 1 ?p0 p4" using worker [OF r3 p4(1)] p3(2) by simp
  then show ?thesis
    using lb_workerPoolWait_complete [OF r4] p4 by (auto simp: workerPoolWait_def)
qed

lemma workers_exit:
  assumes "lp_client p = LcJoin 0" and "lp_run p = 0" and "lp_worker_count p = n" and "n < SIZE_MOD" and "k < n"
    and "\<forall>i < n. lp_workers p i = LTop"
  shows "\<exists>q. lb_reach n p q \<and> lp_client q = LcJoin 0 \<and> lp_run q = 0 \<and> lp_worker_count q = n - k \<and>
     (\<forall>i < k. lp_workers q i = LExit) \<and> (\<forall>i < n. k \<le> i \<longrightarrow> lp_workers q i = LTop)"
  using assms(5)
proof (induction k)
  case 0
  then show ?case using assms lb_reach.start by fastforce
next
  case (Suc k)
  then obtain q where q: "lb_reach n p q" "lp_client q = LcJoin 0" "lp_run q = 0" "lp_worker_count q = n - k"
     "\<forall>i < k. lp_workers q i = LExit" "\<forall>i < n. k \<le> i \<longrightarrow> lp_workers q i = LTop" by auto
  have kn: "k < n" using Suc.prems by simp
  then have "lp_workers q k = LTop" using q(6) by simp
  then obtain q' where q': "workerMain k q = Inr q'" "lp_client q' = LcJoin 0" "lp_run q' = 0"
     "lp_worker_count q' = size_sub (n - k) 1" "lp_workers q' = (lp_workers q)(k := LExit)"
    using q(2-4) by (simp add: workerMain_def Let_def signal_no_work_def)
  have "lb_reach n p q'" using lb_reach.step [OF q(1)] lb_step.worker [of k n q] kn q'(1) \<open>lp_workers q k = LTop\<close> by simp
  moreover have "size_sub (n - k) 1 = n - Suc k" using assms(4) Suc.prems by simp
  ultimately show ?case using q'(2-5) q(5,6) by (intro exI [of _ q']) (auto simp: less_Suc_eq)
qed

lemma lb_reach_trans: "lb_reach n b c \<Longrightarrow> lb_reach n a b \<Longrightarrow> lb_reach n a c"
  by (induction rule: lb_reach.induct) (auto intro: lb_reach.intros)

text \<open>
  A pool of at least two workers can be used after it was freed: the workers that end take
  themselves off the count that the joining loop reads, so that the loop may stop before it has
  joined them all.
\<close>

theorem workerPoolRelease_use_after_free:
  assumes "2 \<le> n" and "n < SIZE_MOD"
  shows "\<exists>p. lb_reach n (workerPoolNew n [LbRelease :: 'j lb_op]) p \<and> lb_step n p (Inl UseAfterFree)"
proof -
  let ?p0 = "workerPoolNew n [LbRelease :: 'j lb_op]"
  let ?p1 = "lb_client_step ?p0"
  have r1: "lb_reach n ?p0 ?p1"
    by (rule lb_reach.step [OF lb_reach.start], rule lb_step.client) (simp_all add: workerPoolNew_def)
  obtain q where q: "lb_reach n ?p1 q" "lp_client q = LcJoin 0" "lp_worker_count q = 1"
     "lp_workers q 0 = LExit" "lp_workers q (n - 1) = LTop"
    using workers_exit [of ?p1 n "n - 1"] assms
    by (fastforce simp: workerPoolNew_def lb_client_step_def workerPoolStop_def broadcast_has_work_def)
  let ?q1 = "join_step 0 q" and ?q2 = "join_step 1 (join_step 0 q)"
  have "lb_step n q (Inr ?q1)" using q by (intro lb_step.join) auto
  moreover have "lb_step n ?q1 (Inr ?q2)" using q by (intro lb_step.join) (auto simp: join_step_def)
  ultimately have "lb_reach n ?p1 ?q2" using q(1) by (blast intro: lb_reach.step)
  then have "lb_reach n ?p0 ?q2" using r1 by (rule lb_reach_trans)
  moreover have "lp_workers ?q2 (n - 1) = LTop" "lp_client ?q2 = LcFreed" using q by (simp_all add: join_step_def)
  then have "lb_step n ?q2 (Inl UseAfterFree)"
    using lb_step.worker [of "n - 1" n ?q2] assms by (simp add: workerMain_def)
  ultimately show ?thesis by blast
qed

theorem workerPoolRelease_use_after_free_witness:
  "\<exists>p. lb_reach 10 (workerPoolNew 10 [LbRelease :: string lb_op]) p \<and> lb_step 10 p (Inl UseAfterFree)"
  using workerPoolRelease_use_after_free [of 10] by simp

text \<open>
  A release that comes while a job is queued or runs never returns, unless its thread wakes for no
  reason: it sleeps on a condition that only the client signals, also when the job is done.
\<close>

theorem workerPoolRelease_sleeps:
  assumes "(\<lambda>p p'. lb_step n p (Inr p'))\<^sup>*\<^sup>* (lb_client_step (lb_client_step (workerPoolNew n [LbEnqueue j, LbRelease]))) p"
  shows "lp_client p = LcStopping"
  using assms
proof (induction rule: rtranclp_induct)
  case base
  show ?case by (simp add: workerPoolNew_def lb_client_step_def workerPoolEnqueue_def broadcast_has_work_def workerPoolStop_def)
next
  case (step p p')
  from step(2) step.IH show ?case
    by (cases rule: lb_step.cases)
      (auto simp: workerMain_def take_job_def signal_no_work_def Let_def split: if_splits lb_worker.splits list.splits)
qed

theorem workerPoolRelease_sleeps_witness:
  "lp_client (lb_client_step (lb_client_step (workerPoolNew 3 [LbEnqueue ''job'', LbRelease]))) = LcStopping"
  using workerPoolRelease_sleeps [OF rtranclp.rtrancl_refl] .

end
