(* ===== verification/Spec2Isabelle.thy ===== *)
theory Spec2Isabelle
  imports Mbox_Prelude Mbox_Buf Mbox_Search Mbox_Encode Mbox_List Mbox_ListSort Mbox_Msg
    Mbox_RBTree Mbox_RBShape Mbox_RBInsert Mbox_RBSearch Mbox_Headers Mbox_Date Mbox_HeaderParser Mbox_IO Mbox_Reader Mbox_Memory Mbox_Message
    Mbox_Index Mbox_Worker Mbox_Parse Mbox_Parts Mbox_Multipart Mbox_Remove Mbox_Threads
    Mbox_Tests Mbox_Lookback Mbox_LookbackPool
begin

text \<open>
  libmbox2 reads mailboxes in the mbox format. A mailbox is opened, cut into one part for each I/O
  thread and read part by part; every message that is found is handed to a second pool of threads,
  which parses its headers and makes a summary of it. The summaries form a list that can be sorted,
  filtered and saved as an index of offsets, from which it is loaded again without a search.

  \<^bold>\<open>How the code is modelled.\<close> Memory that a function allocates is a block of bytes, each
  \<open>None\<close> until it is written; an access outside a block, a read of a byte that was never written, a
  null or dangling pointer, a lock its owner takes twice, a second walk along the arguments of a
  formatted append, a division by zero and a loop that never ends are values of \<open>c_error\<close>, and every function that may do one of these has a result in
  \<open>c_error + 'a\<close> (\<open>Mbox_Prelude\<close>). A \<open>size_t\<close> is a natural number whose arithmetic wraps at
  \<open>2 ^ 64\<close>, an \<open>int\<close> an integer whose overflow is an error. Linked nodes live in explicit heaps from
  addresses to cells. \<open>malloc\<close> succeeds for sizes up to \<open>PTRDIFF_MAX\<close>. System calls (\<open>open\<close>,
  \<open>fstat\<close>, \<open>pread\<close>, \<open>pwrite\<close>, \<open>fsync\<close>), \<open>mktime\<close> and the result of \<open>vsnprintf\<close> are parameters.
  What a thread does under a mutex is one step.

  \<^bold>\<open>The theories, in the order they build on each other.\<close>

  \<^item> \<open>Mbox_Prelude\<close>: outcomes and their sequencing, arithmetic at its width, blocks, \<open>strncmp\<close> and
    \<open>memcmp\<close>, the loop rule \<open>for_range_total\<close>.
  \<^item> \<open>Mbox_Buf\<close> (\<open>mbox-buf.c\<close>): the growable byte buffer. The invariant \<open>buf_rep b s\<close> ties recorded
    length and capacity to the block that was allocated; a lemma per operation gives the bytes it
    leaves, and says where it leaves its block.
  \<^item> \<open>Mbox_Search\<close> (\<open>mbox-buf.c\<close>): prefix table, of signed 32-bit entries and
    counter as in the code, and substring search, for patterns below \<open>2 ^ 31\<close> bytes. The locale \<open>border_table\<close> holds
    what the scan needs of a table; it is interpreted on the exact and on the case-insensitive search.
  \<^item> \<open>Mbox_Encode\<close> (\<open>mbox-buf.c\<close>): escaping, encoded words, splitting, formatted append, which has a
    result for outputs below 511 bytes only.
  \<^item> \<open>Mbox_List\<close>, \<open>Mbox_ListSort\<close> (\<open>mbox-list.c\<close>): the circular list on a heap of nodes and its quick
    sort. The locale \<open>deque\<close> is the contract of a double-ended queue, interpreted on the plain and on
    the locking operations; \<open>list_order\<close> is what the sort needs of a comparison, interpreted on the
    comparisons of dates, of senders and of index entries.
  \<^item> \<open>Mbox_Msg\<close> (\<open>mbox-msg.c\<close>): comparing, sorting and filtering summaries.
  \<^item> \<open>Mbox_RBTree\<close>, \<open>Mbox_RBShape\<close>, \<open>Mbox_RBInsert\<close>, \<open>Mbox_RBSearch\<close> (\<open>mbox-redblacktree.c\<close>): the
    tree with parent pointers and a shared sentinel, its shape as a tree with a hole, insertion with
    its rotations, search, deletion, iteration and release. The locale \<open>key_order\<close> is what insertion
    needs of a comparison.
  \<^item> \<open>Mbox_Headers\<close> (\<open>mbox-common-headers.c\<close>): the tree of headers; its comparison finds a header by
    any prefix of its name and is no order, so \<open>key_order\<close> is interpreted on the names that occur.
  \<^item> \<open>Mbox_Date\<close> (\<open>mbox-date.c\<close>, the date tests of \<open>tests.c\<close>): the date parser and the time of a date.
  \<^item> \<open>Mbox_HeaderParser\<close> (\<open>mboxParseEmailHeaders\<close> of \<open>mbox-parser.c\<close>): well-formed headers and the tree
    that is made of them, with and without the line \<open>From \<close> before them.
  \<^item> \<open>Mbox_IO\<close> (\<open>mbox-io.c\<close>): contexts and the system calls on them.
  \<^item> \<open>Mbox_Reader\<close> (\<open>mbox-parser.c\<close>): the loop that cuts a part of a file into messages, for every way
    in which the reads return the bytes of the file. \<open>mailbox ts rs\<close> is a mailbox of the messages
    \<open>ts\<close>; \<open>blank_lines_whole\<close> says that no read ends within an empty line \<open>\r\n\<close>, which the reader
    misses otherwise.
  \<^item> \<open>Mbox_Memory\<close> (\<open>mbox-memory.c\<close>, \<open>mbox-array.c\<close>): the memory pool and the array.
  \<^item> \<open>Mbox_Message\<close> (\<open>mbox-msg.c\<close>): the summary of a message.
  \<^item> \<open>Mbox_Index\<close> (\<open>mbox-index.c\<close>): saving and loading an index, the batches of a load.
  \<^item> \<open>Mbox_Worker\<close> (\<open>mbox-worker.c\<close>): the pool of threads as the steps of its workers and of one
    client, interleaved in every way, with wake-ups for no reason. \<open>pool_ok\<close> is the invariant of the
    counters and the queue, \<open>pool_awake\<close> says that no wake-up is lost, \<open>pool_measure\<close> falls with
    every step.
  \<^item> \<open>Mbox_Parse\<close> (\<open>mbox.c\<close>): opening, cutting, reading and parsing a mailbox, from end to end.
  \<^item> \<open>Mbox_Parts\<close>: the same with any number of threads, each with its part of the file. \<open>part_starts\<close>
    are the messages with which the parts begin, \<open>msg_pieces\<close> what the threads read; a message is
    lost when a read ends within the line \<open>From\<close> that starts the next part.
  \<^item> \<open>Mbox_Multipart\<close> (\<open>mbox-parser.c\<close>): the parser of whole messages with several sections, which
    nothing in the library calls yet.
  \<^item> \<open>Mbox_Remove\<close>, \<open>Mbox_Threads\<close> (\<open>delete-from-file/main.c\<close>, \<open>multi-thread-reads/main.c\<close>): two
    stand-alone prototypes, taking a range out of a file and reading a file in two threads.
  \<^item> \<open>Mbox_Lookback\<close>, \<open>Mbox_LookbackPool\<close> (\<open>lookback-algorithm\<close>): the prototype of the division into
    parts among its ten threads, on a string that stands for the file, and its pool of threads as a step relation with the
    invariant \<open>lb_ok\<close>.
  \<^item> \<open>Mbox_Tests\<close> (\<open>tests.c\<close>): the tests of the buffer.

  \<^bold>\<open>How the parts meet.\<close> \<open>Mbox_Parse\<close> composes the reader, the header parser, the summary and the
  list into \<open>mboxParse\<close>. The pools appear there as the number of their workers: a job of the I/O pool
  touches its own context only, so these are run in order, and the order in which the jobs of the
  parse pool end is a parameter. That all jobs run once and every wait returns is what
  \<open>Mbox_Worker\<close> shows of a pool with a worker.

  \<^bold>\<open>Bounds and fuel.\<close> Loops of the code that may not end take fuel and return \<open>Diverges\<close> without it.
  The reader needs \<open>3 * length F + 1\<close> rounds at most on a file \<open>F\<close>, which the properties give it; the
  search in a tree and the descent of an insertion have the size of the tree, the fall-back of the
  search the length of the table, the batches of an index the number of its entries: a run that takes
  more has come back to a state it was in. The properties of the reader are for files below \<open>2 ^ 60\<close>
  bytes, those of the parsers for buffers below \<open>2 ^ 50\<close>.

  \<^bold>\<open>Not modelled.\<close> Functions that only print or only free, the clock of \<open>mbox-timing.c\<close>, the macros
  of the logger, \<open>lookback-algorithm/list.c\<close>, a copy of \<open>mbox-list.c\<close> under other names, and
  \<open>multi-thread-reads/pread.c\<close>, which prints what four calls of \<open>pread\<close> return.
\<close>

end
